(* ===== verification/Prelude.thy ===== *)
theory Prelude
  imports Main "HOL-Library.Word"
begin

text \<open>
  Shared vocabulary of the development: the fixed-width integer types of the C and C++
  sources, the ways in which a run can fail (\<open>Panic\<close>, a failed \<open>assert\<close>, an access
  outside of an object), the sequencing of fallible computations, and the generic facts on
  lists, words and remainders which the component theories share.
\<close>

unbundle bit_operations_syntax

section \<open>Integer types\<close>

type_synonym u8 = "8 word"
type_synonym u16 = "16 word"
type_synonym u32 = "32 word"
type_synonym u64 = "64 word"

section \<open>Faults and fallible computations\<close>

text \<open>
  \<open>Panic s\<close> is \<open>Panic(s)\<close> of generic.cc, \<open>Assert_Failed\<close> is a call of \<open>__assert\<close>;
  both never return.  \<open>Out_Of_Bounds\<close> and \<open>Null_Deref\<close> mark accesses which the language
  leaves undefined: the model stops there.  \<open>Diverges\<close> is a loop of the code which never
  ends.
\<close>

datatype fault = Panic string | Assert_Failed | Out_Of_Bounds | Null_Deref | Diverges

type_synonym 'a res = "fault + 'a"

abbreviation Ok :: "'a \<Rightarrow> 'a res" where
  "Ok x \<equiv> Inr x"

abbreviation Fail :: "fault \<Rightarrow> 'a res" where
  "Fail e \<equiv> Inl e"

fun bind_res :: "'a res \<Rightarrow> ('a \<Rightarrow> 'b res) \<Rightarrow> 'b res" where
  "bind_res (Inl e) f = Inl e"
| "bind_res (Inr x) f = f x"

definition check_that :: "bool \<Rightarrow> fault \<Rightarrow> unit res" where
  "check_that b e = (if b then Ok () else Fail e)"

named_theorems res_simps \<open>unfolding of fallible computations\<close>

lemma bind_res_eq_Ok [res_simps]:
  "bind_res m f = Inr y \<longleftrightarrow> (\<exists>x. m = Inr x \<and> f x = Inr y)"
  by (cases m) auto

lemma bind_res_eq_Fail [res_simps]:
  "bind_res m f = Inl e \<longleftrightarrow> m = Inl e \<or> (\<exists>x. m = Inr x \<and> f x = Inl e)"
  by (cases m) auto

lemma check_that_eq [res_simps]:
  "check_that b e = Inr u \<longleftrightarrow> b"
  "check_that b e = Inl e' \<longleftrightarrow> \<not> b \<and> e' = e"
  by (auto simp: check_that_def)

lemma bind_res_cong [fundef_cong]:
  "\<lbrakk>m = m'; \<And>x. m' = Inr x \<Longrightarrow> f x = g x\<rbrakk> \<Longrightarrow> bind_res m f = bind_res m' g"
  by (cases m') auto

lemma bind_res_assoc: "bind_res (bind_res m f) g = bind_res m (\<lambda>x. bind_res (f x) g)"
  by (cases m) auto

section \<open>Searches in lists\<close>

lemma find_SomeD: "find P xs = Some x \<Longrightarrow> P x \<and> x \<in> set xs"
  by (induction xs) (auto split: if_splits)

lemma find_upt_SomeD:
  assumes "find P [a..<b] = Some i"
  shows "P i" "a \<le> i" "i < b" "\<And>j. a \<le> j \<Longrightarrow> j < i \<Longrightarrow> \<not> P j"
proof -
  obtain k where k: "k < length [a..<b]" "P ([a..<b] ! k)" "i = [a..<b] ! k" "\<forall>j<k. \<not> P ([a..<b] ! j)"
    using assms by (auto simp: find_Some_iff)
  then show "P i" "a \<le> i" "i < b" by auto
  show "\<not> P j" if "a \<le> j" "j < i" for j
    using k that spec[OF k(4), of "j - a"] by auto
qed

section \<open>Remainders\<close>

lemma mod_add_diff_self:
  fixes i n :: nat
  assumes "i < n" "k \<le> n"
  shows "((i + k) mod n + n - i) mod n = k mod n"
proof (cases "i + k < n")
  case True
  then have "(i + k) mod n + n - i = k + n" by simp
  then show ?thesis by (simp only: mod_add_self2)
next
  case False
  then have "(i + k) mod n = i + k - n" using assms by (simp add: mod_if)
  then have "(i + k) mod n + n - i = k" using False assms by simp
  then show ?thesis by simp
qed

lemma mod_add_inj:
  fixes i n :: nat
  assumes "(i + a) mod n = (i + b) mod n" "a < n" "b < n"
  shows "a = b"
proof -
  have "\<And>a b. \<lbrakk>(i + a) mod n = (i + b) mod n; a \<le> b; b < n\<rbrakk> \<Longrightarrow> a = b"
  proof -
    fix a b :: nat
    assume eq: "(i + a) mod n = (i + b) mod n" and le: "a \<le> b" and lt: "b < n"
    from eq le have "n dvd (i + b) - (i + a)"
      by (metis add_le_cancel_left mod_eq_dvd_iff_nat)
    then have "n dvd b - a" by simp
    then have "b - a = 0" using lt by (metis dvd_imp_le less_imp_diff_less linorder_not_less neq0_conv)
    then show "a = b" using le by simp
  qed
  then show ?thesis using assms by (metis nat_le_linear)
qed

lemma mod_Suc_wrap:
  fixes i n :: nat
  shows "i < n \<Longrightarrow> Suc i mod n = (if Suc i = n then 0 else Suc i)"
  by auto

section \<open>Words as natural numbers\<close>

lemma unat_and_mask: "unat (w AND mask k) = unat w mod 2 ^ k" for w :: "'a::len word"
proof -
  have "unat (w AND mask k) = unat (take_bit k w)" by (simp only: take_bit_eq_mask)
  also have "\<dots> = take_bit k (unat w)" by (rule unsigned_take_bit_eq)
  finally show ?thesis by (simp only: take_bit_eq_mod)
qed

lemma unat_drop_bit: "unat (drop_bit k w) = unat w div 2 ^ k" for w :: "'a::len word"
  by (subst unat_drop_bit_eq) (rule drop_bit_eq_div)

lemma unat_push_bit:
  "unat (push_bit k w) = (unat w * 2 ^ k) mod 2 ^ LENGTH('a)" for w :: "'a::len word"
  by (subst unsigned_push_bit_eq) (simp only: push_bit_eq_mult take_bit_eq_mod)

lemma and_not_mask_eq: "w AND NOT (mask k) = w - (w AND mask k)" for w :: "'a::len word"
proof -
  have "w - (w AND mask k) = w AND NOT (w AND mask k)"
    by (rule disjunctive_diff) (simp add: bit_and_iff)
  also have "\<dots> = w AND NOT (mask k)" by (rule bit_word_eqI) (auto simp: bit_simps)
  finally show ?thesis by simp
qed

lemma unat_and_not_mask:
  "unat (w AND NOT (mask k)) = unat w - unat w mod 2 ^ k" for w :: "'a::len word"
proof -
  have "w AND mask k \<le> w" by (simp add: word_le_nat_alt unat_and_mask)
  then show ?thesis by (simp add: and_not_mask_eq unat_sub unat_and_mask)
qed

lemma unat_plus_less:
  "unat a + unat b < 2 ^ LENGTH('a) \<Longrightarrow> unat (a + b) = unat a + unat b" for a :: "'a::len word"
  using unat_add_lem by blast

end
