(* ===== verification/Generic.thy ===== *)
theory Generic
  imports Prelude
begin

text \<open>
  The page-size constants and rounding helpers of src/src/generic.h and src/src/paging.h,
  and the bit-field helpers of src/src/util.h.
\<close>

section \<open>Page size\<close>

definition kPageSizeExponent :: nat where
  "kPageSizeExponent = 12"

definition kPageSize :: u64 where
  "kPageSize = push_bit kPageSizeExponent 1"

definition kPageAddrMask :: u64 where
  "kPageAddrMask = kPageSize - 1"

definition ByteSizeToPageSize :: "u64 \<Rightarrow> u64" where
  "ByteSizeToPageSize byte_size = drop_bit kPageSizeExponent (byte_size + kPageSize - 1)"

definition CeilToPageAlignment :: "u64 \<Rightarrow> u64" where
  "CeilToPageAlignment v = (v + kPageSize - 1) AND NOT kPageAddrMask"

definition FloorToPageAlignment :: "u64 \<Rightarrow> u64" where
  "FloorToPageAlignment v = v AND NOT kPageAddrMask"

definition IsAlignedToPageSize :: "u64 \<Rightarrow> bool" where
  "IsAlignedToPageSize v \<longleftrightarrow> v AND kPageAddrMask = 0"

lemma kPageSize_eq [simp]: "kPageSize = 4096"
  by (simp add: kPageSize_def kPageSizeExponent_def)

lemma kPageAddrMask_eq: "kPageAddrMask = mask 12"
  by (simp add: kPageAddrMask_def mask_eq_exp_minus_1)

lemma unat_and_kPageAddrMask [simp]: "unat (v AND kPageAddrMask) = unat v mod 4096"
  using unat_and_mask[of v 12] by (simp add: kPageAddrMask_eq)

lemma and_kPageAddrMask_eq_0 [simp]: "v AND kPageAddrMask = 0 \<longleftrightarrow> 4096 dvd unat v"
  by (metis dvd_eq_mod_eq_0 unat_and_kPageAddrMask unat_eq_zero)

lemma IsAlignedToPageSize_iff [simp]: "IsAlignedToPageSize v \<longleftrightarrow> 4096 dvd unat v"
  by (simp add: IsAlignedToPageSize_def)

lemma unat_plus_4095:
  fixes v :: u64
  assumes "unat v + 4095 < 2 ^ 64"
  shows "unat (v + kPageSize - 1) = unat v + 4095"
proof -
  have "v + kPageSize - 1 = v + 4095" by simp
  then show ?thesis using assms by (simp add: unat_plus_less)
qed

lemma unat_FloorToPageAlignment: "unat (FloorToPageAlignment v) = 4096 * (unat v div 4096)"
  using unat_and_not_mask[of v 12]
  by (simp add: FloorToPageAlignment_def kPageAddrMask_eq minus_mod_eq_mult_div)

lemma unat_CeilToPageAlignment:
  "unat v + 4095 < 2 ^ 64 \<Longrightarrow> unat (CeilToPageAlignment v) = 4096 * ((unat v + 4095) div 4096)"
  using unat_and_not_mask[of "v + kPageSize - 1" 12] unat_plus_4095[of v]
  by (simp add: CeilToPageAlignment_def kPageAddrMask_eq minus_mod_eq_mult_div)

lemma unat_ByteSizeToPageSize:
  "unat v + 4095 < 2 ^ 64 \<Longrightarrow> unat (ByteSizeToPageSize v) = (unat v + 4095) div 4096"
  using unat_plus_4095[of v]
  by (simp add: ByteSizeToPageSize_def kPageSizeExponent_def unat_drop_bit)

text \<open>The number of pages is the least number which covers the byte count.\<close>

lemma ByteSizeToPageSize_covers:
  assumes "unat v + 4095 < 2 ^ 64"
  shows "unat v \<le> 4096 * unat (ByteSizeToPageSize v)"
    and "4096 * unat (ByteSizeToPageSize v) < unat v + 4096"
  using unat_ByteSizeToPageSize[OF assms] by auto

end
