(* ===== verification/Phys_Alloc.thy ===== *)
theory Phys_Alloc
  imports Generic
begin

text \<open>
  The physical page allocator of src/src/phys_page_allocator.h: a free list threaded through
  the first page of every free block.  Physical memory is modelled by what a \<open>FreeInfo\<close>
  read at a physical address yields; pointers are addresses, translated the way the two
  strategy classes do.  Lemmas: what \<open>AllocPages\<close> returns on a well-formed list, that no page
  is handed out twice, and what the kernel strategy does when the list is exhausted.
\<close>

section \<open>Data and strategies\<close>

record free_info =
  fi_num_of_pages :: u64
  fi_next_phys_addr :: u64
  fi_proximity_domain :: u32

datatype alloc_strategy =
  UsePhysicalAddressInternally
| UseKernelStraightMappingInternally u64

fun GetFreeInfoFromPhysAddr :: "alloc_strategy \<Rightarrow> u64 \<Rightarrow> u64" where
  "GetFreeInfoFromPhysAddr UsePhysicalAddressInternally paddr = paddr"
| "GetFreeInfoFromPhysAddr (UseKernelStraightMappingInternally base) paddr = paddr + base"

fun GetPhysAddrFromFreeInfo :: "alloc_strategy \<Rightarrow> u64 \<Rightarrow> u64" where
  "GetPhysAddrFromFreeInfo UsePhysicalAddressInternally p = p"
| "GetPhysAddrFromFreeInfo (UseKernelStraightMappingInternally base) p =
     (if p = 0 then 0 else p - base)"

text \<open>
  The physical address which an access through a \<open>FreeInfo\<close> pointer reaches: physical
  addresses are mapped to themselves, the kernel's straight mapping shifts them by its base.
\<close>

fun phys_behind :: "alloc_strategy \<Rightarrow> u64 \<Rightarrow> u64" where
  "phys_behind UsePhysicalAddressInternally p = p"
| "phys_behind (UseKernelStraightMappingInternally base) p = p - base"

record phys_page_allocator =
  ppa_head_phys_addr :: u64
  ppa_mem :: "u64 \<Rightarrow> free_info"

section \<open>FreeInfo\<close>

definition FreeInfo_new :: "alloc_strategy \<Rightarrow> u64 \<Rightarrow> u64 \<Rightarrow> u32 \<Rightarrow> free_info" where
  "FreeInfo_new st num_of_pages next_ptr proximity_domain =
     \<lparr>fi_num_of_pages = num_of_pages,
      fi_next_phys_addr = GetPhysAddrFromFreeInfo st next_ptr,
      fi_proximity_domain = proximity_domain\<rparr>"

definition FreeInfo_GetNext :: "alloc_strategy \<Rightarrow> free_info \<Rightarrow> u64" where
  "FreeInfo_GetNext st fi = GetFreeInfoFromPhysAddr st (fi_next_phys_addr fi)"

definition FreeInfo_CanProvidePages :: "free_info \<Rightarrow> u64 \<Rightarrow> bool" where
  "FreeInfo_CanProvidePages fi num_of_req_pages \<longleftrightarrow> num_of_req_pages < fi_num_of_pages fi"

text \<open>The result 0 is the null pointer.\<close>

definition FreeInfo_ProvidePages ::
    "alloc_strategy \<Rightarrow> u64 \<Rightarrow> u64 \<Rightarrow> (u64 \<Rightarrow> free_info) \<Rightarrow> u64 \<times> (u64 \<Rightarrow> free_info)" where
  "FreeInfo_ProvidePages st this num_of_req_pages mem =
     (let here = phys_behind st this; fi = mem here in
      if \<not> FreeInfo_CanProvidePages fi num_of_req_pages then (0, mem)
      else let rest = fi_num_of_pages fi - num_of_req_pages in
        (GetPhysAddrFromFreeInfo st this + push_bit 12 rest,
         mem(here := fi\<lparr>fi_num_of_pages := rest\<rparr>)))"

section \<open>PhysicalPageAllocator\<close>

definition PhysicalPageAllocator_new :: "(u64 \<Rightarrow> free_info) \<Rightarrow> phys_page_allocator" where
  "PhysicalPageAllocator_new mem = \<lparr>ppa_head_phys_addr = 0, ppa_mem = mem\<rparr>"

definition FreePagesWithProximityDomain ::
    "alloc_strategy \<Rightarrow> u64 \<Rightarrow> u64 \<Rightarrow> u32 \<Rightarrow> phys_page_allocator \<Rightarrow> phys_page_allocator res" where
  "FreePagesWithProximityDomain st phys_addr num_of_pages prox_domain a =
     bind_res (check_that (0 < num_of_pages) Assert_Failed) (\<lambda>_.
     bind_res (check_that (phys_addr AND 0xfff = 0) Assert_Failed) (\<lambda>_.
     let info = GetFreeInfoFromPhysAddr st phys_addr;
         fi = FreeInfo_new st num_of_pages
                (GetFreeInfoFromPhysAddr st (ppa_head_phys_addr a)) prox_domain
     in Ok \<lparr>ppa_head_phys_addr = GetPhysAddrFromFreeInfo st info,
            ppa_mem = (ppa_mem a)(phys_behind st info := fi)\<rparr>))"

text \<open>
  The loop shared by both allocation functions: \<open>sel\<close> is the test on the block before
  \<open>ProvidePages\<close> is tried.  A cyclic list makes the loop run forever (\<open>None\<close>).
\<close>

partial_function (option) AllocPages_loop ::
    "alloc_strategy \<Rightarrow> (free_info \<Rightarrow> bool) \<Rightarrow> u64 \<Rightarrow> u64 \<Rightarrow> (u64 \<Rightarrow> free_info)
     \<Rightarrow> (u64 \<times> (u64 \<Rightarrow> free_info)) res option" where
  "AllocPages_loop st sel num_of_pages info mem =
     (if info = 0 then Some (Fail (Panic ''Cannot allocate pages''))
      else if sel (mem (phys_behind st info)) then
        (case FreeInfo_ProvidePages st info num_of_pages mem of
           (addr, mem') \<Rightarrow>
             if addr \<noteq> 0 then Some (Ok (addr, mem'))
             else AllocPages_loop st sel num_of_pages
                    (FreeInfo_GetNext st (mem' (phys_behind st info))) mem')
      else AllocPages_loop st sel num_of_pages
             (FreeInfo_GetNext st (mem (phys_behind st info))) mem)"

declare AllocPages_loop.simps [code]

definition AllocPages_sel ::
    "alloc_strategy \<Rightarrow> (free_info \<Rightarrow> bool) \<Rightarrow> u64 \<Rightarrow> phys_page_allocator
     \<Rightarrow> (u64 \<times> phys_page_allocator) res" where
  "AllocPages_sel st sel num_of_pages a =
     (case AllocPages_loop st sel num_of_pages
             (GetFreeInfoFromPhysAddr st (ppa_head_phys_addr a)) (ppa_mem a) of
        None \<Rightarrow> Fail Diverges
      | Some (Inl e) \<Rightarrow> Fail e
      | Some (Inr (addr, mem')) \<Rightarrow> Ok (addr, a\<lparr>ppa_mem := mem'\<rparr>))"

definition AllocPages ::
    "alloc_strategy \<Rightarrow> u64 \<Rightarrow> phys_page_allocator \<Rightarrow> (u64 \<times> phys_page_allocator) res" where
  "AllocPages st num_of_pages a = AllocPages_sel st (\<lambda>_. True) num_of_pages a"

definition AllocPagesInProximityDomain ::
    "alloc_strategy \<Rightarrow> u64 \<Rightarrow> u32 \<Rightarrow> phys_page_allocator \<Rightarrow> (u64 \<times> phys_page_allocator) res" where
  "AllocPagesInProximityDomain st num_of_pages proximity_domain a =
     AllocPages_sel st (\<lambda>fi. fi_proximity_domain fi = proximity_domain) num_of_pages a"

section \<open>Well-formed free lists\<close>

text \<open>A run of pages, by its first address and its length in pages.\<close>

type_synonym run = "u64 \<times> nat"

fun run_bytes :: "run \<Rightarrow> nat set" where
  "run_bytes (a, n) = {unat a ..< unat a + 4096 * n}"

fun run_ok :: "run \<Rightarrow> bool" where
  "run_ok (a, n) \<longleftrightarrow> a \<noteq> 0 \<and> 4096 dvd unat a \<and> 0 < n \<and> unat a + 4096 * n \<le> 2 ^ 64"

definition runs_disjoint :: "run \<Rightarrow> run \<Rightarrow> bool" where
  "runs_disjoint r s \<longleftrightarrow> run_bytes r \<inter> run_bytes s = {}"

definition runs_wf :: "run list \<Rightarrow> bool" where
  "runs_wf rs \<longleftrightarrow> sorted_wrt runs_disjoint rs \<and> (\<forall>r\<in>set rs. run_ok r)"

primrec chain :: "(u64 \<Rightarrow> free_info) \<Rightarrow> u64 \<Rightarrow> u64 list \<Rightarrow> bool" where
  "chain mem p [] \<longleftrightarrow> p = 0"
| "chain mem p (b # bs) \<longleftrightarrow> p = b \<and> b \<noteq> 0 \<and> chain mem (fi_next_phys_addr (mem b)) bs"

definition free_run :: "(u64 \<Rightarrow> free_info) \<Rightarrow> u64 \<Rightarrow> run" where
  "free_run mem b = (b, unat (fi_num_of_pages (mem b)))"

abbreviation free_runs :: "(u64 \<Rightarrow> free_info) \<Rightarrow> u64 list \<Rightarrow> run list" where
  "free_runs mem bs \<equiv> map (free_run mem) bs"

lemma runs_wf_Cons:
  "runs_wf (r # rs) \<longleftrightarrow> run_ok r \<and> (\<forall>s\<in>set rs. runs_disjoint r s) \<and> runs_wf rs"
  by (auto simp: runs_wf_def)

lemma runs_disjoint_sym: "runs_disjoint r s \<longleftrightarrow> runs_disjoint s r"
  by (auto simp: runs_disjoint_def)

lemma runs_disjoint_mono:
  "\<lbrakk>runs_disjoint r s; run_bytes r' \<subseteq> run_bytes r\<rbrakk> \<Longrightarrow> runs_disjoint r' s"
  by (auto simp: runs_disjoint_def)

lemma runs_wf_append:
  "runs_wf (rs @ ss) \<longleftrightarrow>
     runs_wf rs \<and> runs_wf ss \<and> (\<forall>r\<in>set rs. \<forall>s\<in>set ss. runs_disjoint r s)"
  by (auto simp: runs_wf_def sorted_wrt_append)

lemma runs_wf_mid:
  "runs_wf (rs @ r # ss) \<longleftrightarrow> runs_wf (r # rs @ ss)"
  by (auto simp: runs_wf_append runs_wf_Cons runs_disjoint_sym)

lemma run_bytes_ne: "run_ok r \<Longrightarrow> run_bytes r \<noteq> {}"
  by (cases r) auto

lemma runs_wf_distinct: "runs_wf rs \<Longrightarrow> distinct rs"
  by (induction rs) (auto simp: runs_wf_Cons runs_disjoint_def dest: run_bytes_ne)

lemma runs_disjoint_addr:
  "\<lbrakk>run_ok (a, n); run_ok (b, m); runs_disjoint (a, n) (b, m)\<rbrakk> \<Longrightarrow> a \<noteq> b"
  by (auto simp: runs_disjoint_def)

lemma free_runs_distinct:
  "runs_wf (free_runs mem bs) \<Longrightarrow> distinct bs"
  by (metis distinct_map runs_wf_distinct)

lemma chain_cong:
  "(\<And>b. b \<in> set bs \<Longrightarrow> fi_next_phys_addr (mem' b) = fi_next_phys_addr (mem b)) \<Longrightarrow>
   chain mem' p bs = chain mem p bs"
  by (induction bs arbitrary: p) auto

section \<open>What an allocation returns\<close>

lemma phys_behind_GetFreeInfo [simp]: "phys_behind st (GetFreeInfoFromPhysAddr st b) = b"
  by (cases st) auto

lemma GetPhys_GetFreeInfo [simp]:
  "GetFreeInfoFromPhysAddr st b \<noteq> 0 \<Longrightarrow>
   GetPhysAddrFromFreeInfo st (GetFreeInfoFromPhysAddr st b) = b"
  by (cases st) auto

lemma GetPhys_GetFreeInfo_0 [simp]:
  "GetPhysAddrFromFreeInfo st (GetFreeInfoFromPhysAddr st 0) = 0"
  by (cases st) auto

lemma provided_addr:
  assumes "run_ok (b, unat m)" "0 < req" "req < m"
  shows "unat (b + push_bit 12 (m - req)) = unat b + 4096 * (unat m - unat req)"
    and "b + push_bit 12 (m - req) \<noteq> 0"
    and "unat (m - req) = unat m - unat req" "unat req < unat m" "0 < unat req"
proof -
  show r: "unat (m - req) = unat m - unat req" "unat req < unat m" "0 < unat req"
    using assms by (simp_all add: unat_sub word_less_nat_alt word_le_nat_alt)
  have lt: "unat b + 4096 * (unat m - unat req) < 2 ^ 64" using assms(1) r by auto
  then have "unat (push_bit 12 (m - req)) = 4096 * (unat m - unat req)"
    using r by (simp add: unat_push_bit)
  then show u: "unat (b + push_bit 12 (m - req)) = unat b + 4096 * (unat m - unat req)"
    using lt unat_plus_less[of b "push_bit 12 (m - req)"] by simp
  show "b + push_bit 12 (m - req) \<noteq> 0"
    using u r by (metis add_is_0 diff_is_0_eq linorder_not_less mult_is_0 unat_0 zero_neq_numeral)
qed

definition suits :: "(free_info \<Rightarrow> bool) \<Rightarrow> u64 \<Rightarrow> (u64 \<Rightarrow> free_info) \<Rightarrow> u64 \<Rightarrow> bool" where
  "suits sel req mem b \<longleftrightarrow> sel (mem b) \<and> req < fi_num_of_pages (mem b)"

definition taken_from :: "u64 \<Rightarrow> (u64 \<Rightarrow> free_info) \<Rightarrow> u64 \<Rightarrow> u64 \<times> (u64 \<Rightarrow> free_info)" where
  "taken_from req mem b =
     (b + push_bit 12 (fi_num_of_pages (mem b) - req),
      mem(b := (mem b)\<lparr>fi_num_of_pages := fi_num_of_pages (mem b) - req\<rparr>))"

text \<open>
  The loop takes the first suitable block of the list; without one it goes on at physical
  address 0, which only the strategy decides to be the end.
\<close>

lemma AllocPages_loop_chain:
  assumes "chain mem p bs" "runs_wf (free_runs mem bs)" "0 < req"
    and "\<And>b. b \<in> set bs \<Longrightarrow> GetFreeInfoFromPhysAddr st b \<noteq> 0"
  shows "AllocPages_loop st sel req (GetFreeInfoFromPhysAddr st p) mem =
    (case find (suits sel req mem) bs of
       Some b \<Rightarrow> Some (Ok (taken_from req mem b))
     | None \<Rightarrow> AllocPages_loop st sel req (GetFreeInfoFromPhysAddr st 0) mem)"
  using assms
proof (induction bs arbitrary: p)
  case (Cons b bs)
  let ?ptr = "GetFreeInfoFromPhysAddr st b"
  have ok: "run_ok (b, unat (fi_num_of_pages (mem b)))" and p: "p = b" "?ptr \<noteq> 0"
    using Cons.prems by (auto simp: runs_wf_Cons free_run_def)
  have IH: "AllocPages_loop st sel req (GetFreeInfoFromPhysAddr st (fi_next_phys_addr (mem b))) mem =
    (case find (suits sel req mem) bs of
       Some b \<Rightarrow> Some (Ok (taken_from req mem b))
     | None \<Rightarrow> AllocPages_loop st sel req (GetFreeInfoFromPhysAddr st 0) mem)"
    using Cons by (auto simp: runs_wf_Cons)
  show ?case
  proof (cases "suits sel req mem b")
    case True
    then have "b + push_bit 12 (fi_num_of_pages (mem b) - req) \<noteq> 0"
      using provided_addr(2)[OF ok Cons.prems(3)] by (simp add: suits_def)
    then show ?thesis using True p
      by (subst AllocPages_loop.simps)
         (simp add: suits_def taken_from_def FreeInfo_ProvidePages_def FreeInfo_CanProvidePages_def
           Let_def)
  next
    case False
    then show ?thesis using p IH
      by (subst AllocPages_loop.simps)
         (auto simp: suits_def FreeInfo_ProvidePages_def FreeInfo_CanProvidePages_def Let_def
           FreeInfo_GetNext_def)
  qed
qed simp

lemma AllocPages_sel_found:
  assumes "chain (ppa_mem a) (ppa_head_phys_addr a) bs" "runs_wf (free_runs (ppa_mem a) bs)" "0 < req"
    and "\<And>b. b \<in> set bs \<Longrightarrow> GetFreeInfoFromPhysAddr st b \<noteq> 0"
    and "find (suits sel req (ppa_mem a)) bs = Some b"
  shows "AllocPages_sel st sel req a =
    Ok (fst (taken_from req (ppa_mem a) b), a\<lparr>ppa_mem := snd (taken_from req (ppa_mem a) b)\<rparr>)"
  using AllocPages_loop_chain[OF assms(1-4)] assms(5)
  by (simp add: AllocPages_sel_def split: prod.split)

lemma AllocPages_sel_phys:
  assumes "chain (ppa_mem a) (ppa_head_phys_addr a) bs" "runs_wf (free_runs (ppa_mem a) bs)" "0 < req"
  shows "AllocPages_sel UsePhysicalAddressInternally sel req a =
    (case find (suits sel req (ppa_mem a)) bs of
       None \<Rightarrow> Fail (Panic ''Cannot allocate pages'')
     | Some b \<Rightarrow> Ok (fst (taken_from req (ppa_mem a) b),
                  a\<lparr>ppa_mem := snd (taken_from req (ppa_mem a) b)\<rparr>))"
proof (cases "find (suits sel req (ppa_mem a)) bs")
  case None
  have "AllocPages_loop UsePhysicalAddressInternally sel req 0 mem
      = Some (Fail (Panic ''Cannot allocate pages''))" for mem
    by (subst AllocPages_loop.simps) simp
  moreover have nz: "GetFreeInfoFromPhysAddr UsePhysicalAddressInternally b \<noteq> 0" if "b \<in> set bs" for b
    using assms(2) that by (auto simp: runs_wf_def free_run_def)
  ultimately show ?thesis using AllocPages_loop_chain[OF assms nz, of sel] None
    by (simp add: AllocPages_sel_def)
next
  case (Some b)
  have "GetFreeInfoFromPhysAddr UsePhysicalAddressInternally b \<noteq> 0" if "b \<in> set bs" for b
    using assms(2) that by (auto simp: runs_wf_def free_run_def)
  from AllocPages_sel_found[OF assms this Some] Some show ?thesis by simp
qed

section \<open>Ownership of pages\<close>

text \<open>
  \<open>alloc_inv a own\<close>: the free list of \<open>a\<close> is well formed, and the runs in \<open>own\<close>, held by
  clients, are disjoint from each other and from every free block.
\<close>

definition alloc_inv :: "phys_page_allocator \<Rightarrow> run list \<Rightarrow> bool" where
  "alloc_inv a own \<longleftrightarrow> (\<exists>bs. chain (ppa_mem a) (ppa_head_phys_addr a) bs \<and>
     runs_wf (own @ free_runs (ppa_mem a) bs))"

lemma alloc_inv_new: "alloc_inv (PhysicalPageAllocator_new mem) []"
  by (auto simp: alloc_inv_def PhysicalPageAllocator_new_def runs_wf_def intro: exI[of _ "[]"])

lemma run_split:
  assumes "run_ok (b, unat m)" "0 < req" "req < m"
  defines "p \<equiv> b + push_bit 12 (m - req)"
  shows "run_ok (p, unat req)" "run_ok (b, unat (m - req))"
    "runs_disjoint (p, unat req) (b, unat (m - req))"
    "run_bytes (p, unat req) \<subseteq> run_bytes (b, unat m)"
    "run_bytes (b, unat (m - req)) \<subseteq> run_bytes (b, unat m)"
proof -
  note u = provided_addr[OF assms(1-3)]
  have d: "4096 dvd unat b" and le: "unat b + 4096 * unat m \<le> 2 ^ 64" using assms(1) by auto
  have pe: "unat p = unat b + 4096 * (unat m - unat req)" using u by (simp add: p_def)
  have sum: "4096 * (unat m - unat req) + 4096 * unat req = 4096 * unat m" using u(4) by simp
  show "run_ok (p, unat req)" using pe u d le sum by (simp add: p_def)
  have "unat b + 4096 * (unat m - unat req) \<le> 2 ^ 64" using le sum by linarith
  then show "run_ok (b, unat (m - req))" using assms(1) u by simp
  show "runs_disjoint (p, unat req) (b, unat (m - req))"
    using pe u by (auto simp: runs_disjoint_def)
  show "run_bytes (p, unat req) \<subseteq> run_bytes (b, unat m)" using pe sum by auto
  show "run_bytes (b, unat (m - req)) \<subseteq> run_bytes (b, unat m)" using u by auto
qed

lemma runs_wf_split:
  assumes wf: "runs_wf (own @ free_runs mem bs)" and b: "b \<in> set bs"
    and req: "0 < req" "req < fi_num_of_pages (mem b)"
    and t: "taken_from req mem b = (p, mem')"
  shows "runs_wf ((p, unat req) # own @ free_runs mem' bs)"
proof -
  obtain xs ys where bs: "bs = xs @ b # ys" using b by (meson split_list)
  let ?m = "fi_num_of_pages (mem b)"
  let ?rest = "own @ free_runs mem xs @ free_runs mem ys"
  have dist: "distinct bs" using wf free_runs_distinct by (auto simp: runs_wf_append)
  have wf1: "runs_wf ((b, unat ?m) # ?rest)"
    using wf runs_wf_mid[of "own @ free_runs mem xs" "(b, unat ?m)" "free_runs mem ys"]
    by (simp add: bs free_run_def)
  note sp = run_split[OF _ req, of b]
  have ok: "run_ok (b, unat ?m)" using wf1 by (simp add: runs_wf_Cons)
  have "runs_wf ((p, unat req) # (b, unat (?m - req)) # ?rest)"
    using wf1 sp[OF ok] t runs_disjoint_mono[of "(b, unat ?m)"]
    by (simp only: runs_wf_Cons list.set ball_simps insert_iff taken_from_def prod.inject) blast
  moreover have "free_runs mem' xs = free_runs mem xs" "free_runs mem' ys = free_runs mem ys"
    "free_run mem' b = (b, unat (?m - req))"
    using t dist by (auto simp: bs taken_from_def free_run_def)
  ultimately show ?thesis
    using runs_wf_mid[of "(p, unat req) # own @ free_runs mem xs" "(b, unat (?m - req))" "free_runs mem ys"]
      runs_wf_mid[of "[(p, unat req)]" "(b, unat (?m - req))" ?rest]
    by (simp add: bs cong: list.map_cong)
qed

lemma AllocPages_sel_inv:
  assumes inv: "alloc_inv a own" and req: "0 < req"
    and run: "AllocPages_sel UsePhysicalAddressInternally sel req a = Ok (p, a')"
  shows "alloc_inv a' ((p, unat req) # own)"
proof -
  obtain bs where c: "chain (ppa_mem a) (ppa_head_phys_addr a) bs"
    and wf: "runs_wf (own @ free_runs (ppa_mem a) bs)"
    using inv by (auto simp: alloc_inv_def)
  have wf': "runs_wf (free_runs (ppa_mem a) bs)" using wf by (simp add: runs_wf_append)
  from run AllocPages_sel_phys[OF c wf' req, of sel] obtain b where
    f: "find (suits sel req (ppa_mem a)) bs = Some b"
    and pa: "p = fst (taken_from req (ppa_mem a) b)"
      "a' = a\<lparr>ppa_mem := snd (taken_from req (ppa_mem a) b)\<rparr>"
    by (auto split: option.splits)
  have b: "b \<in> set bs" "suits sel req (ppa_mem a) b" using f by (auto simp: find_Some_iff)
  have t: "taken_from req (ppa_mem a) b = (p, ppa_mem a')" using pa by simp
  have "chain (ppa_mem a') (ppa_head_phys_addr a') bs"
    using c t pa by (subst chain_cong[of bs _ "ppa_mem a"]) (auto simp: taken_from_def)
  moreover have "runs_wf ((p, unat req) # own @ free_runs (ppa_mem a') bs)"
    using runs_wf_split[OF wf b(1) req _ t] b(2) by (simp add: suits_def)
  ultimately show ?thesis by (auto simp: alloc_inv_def)
qed

lemma FreePages_inv:
  assumes inv: "alloc_inv a (own @ (p, unat n) # own')"
    and run: "FreePagesWithProximityDomain UsePhysicalAddressInternally p n d a = Ok a'"
  shows "alloc_inv a' (own @ own')"
proof -
  obtain bs where c: "chain (ppa_mem a) (ppa_head_phys_addr a) bs"
    and wf: "runs_wf ((own @ (p, unat n) # own') @ free_runs (ppa_mem a) bs)"
    using inv by (auto simp: alloc_inv_def)
  have wf1: "runs_wf ((p, unat n) # (own @ own') @ free_runs (ppa_mem a) bs)"
    using wf runs_wf_mid[of own "(p, unat n)" "own' @ free_runs (ppa_mem a) bs"] by simp
  have a': "a' = \<lparr>ppa_head_phys_addr = p, ppa_mem = (ppa_mem a)(p := \<lparr>fi_num_of_pages = n,
      fi_next_phys_addr = ppa_head_phys_addr a, fi_proximity_domain = d\<rparr>)\<rparr>"
    using run by (auto simp: FreePagesWithProximityDomain_def FreeInfo_new_def Let_def res_simps)
  have "runs_disjoint (p, unat n) (free_run (ppa_mem a) b)" "run_ok (free_run (ppa_mem a) b)"
    if "b \<in> set bs" for b
    using wf1 that by (simp_all add: runs_wf_Cons runs_wf_append runs_wf_def)
  moreover have "run_ok (p, unat n)" using wf1 by (simp add: runs_wf_Cons)
  ultimately have "p \<notin> set bs"
    using runs_disjoint_addr[of p "unat n"] by (metis free_run_def)
  then have fr: "free_runs (ppa_mem a') (p # bs) = (p, unat n) # free_runs (ppa_mem a) bs"
    and "chain (ppa_mem a') (ppa_head_phys_addr a) bs = chain (ppa_mem a) (ppa_head_phys_addr a) bs"
    using a' by (auto simp: free_run_def intro!: chain_cong)
  then have "chain (ppa_mem a') p (p # bs)"
    using c wf1 a' by (auto simp: runs_wf_Cons)
  moreover have "runs_wf ((own @ own') @ (p, unat n) # free_runs (ppa_mem a) bs)"
    using wf1 runs_wf_mid[of "own @ own'" "(p, unat n)" "free_runs (ppa_mem a) bs"] by simp
  ultimately show ?thesis using a' fr unfolding alloc_inv_def
    by (intro exI[of _ "p # bs"]) (simp cong: list.map_cong)
qed

text \<open>
  The life of the allocator: clients allocate, from anywhere or from one proximity domain, and
  give back what they hold.  The second component lists the runs which clients hold.
\<close>

inductive alloc_step ::
    "phys_page_allocator \<times> run list \<Rightarrow> phys_page_allocator \<times> run list \<Rightarrow> bool" where
  step_alloc: "\<lbrakk>0 < n; AllocPages UsePhysicalAddressInternally n a = Ok (p, a')\<rbrakk> \<Longrightarrow>
     alloc_step (a, own) (a', (p, unat n) # own)"
| step_alloc_domain:
    "\<lbrakk>0 < n; AllocPagesInProximityDomain UsePhysicalAddressInternally n d a = Ok (p, a')\<rbrakk> \<Longrightarrow>
     alloc_step (a, own) (a', (p, unat n) # own)"
| step_free: "FreePagesWithProximityDomain UsePhysicalAddressInternally p n d a = Ok a' \<Longrightarrow>
     alloc_step (a, own @ (p, unat n) # own') (a', own @ own')"

lemma alloc_step_inv:
  assumes "alloc_step s s'" "alloc_inv (fst s) (snd s)"
  shows "alloc_inv (fst s') (snd s')"
  using assms
  by (induction rule: alloc_step.induct)
     (auto simp: AllocPages_def AllocPagesInProximityDomain_def
       intro: AllocPages_sel_inv FreePages_inv)

lemma alloc_steps_inv:
  assumes "alloc_step\<^sup>*\<^sup>* s s'" "alloc_inv (fst s) (snd s)"
  shows "alloc_inv (fst s') (snd s')"
  using assms by (induction rule: rtranclp_induct) (auto intro: alloc_step_inv)

lemma alloc_inv_owned_disjoint:
  assumes "alloc_inv a own" "i < j" "j < length own"
  shows "run_bytes (own ! i) \<inter> run_bytes (own ! j) = {}"
proof -
  have "sorted_wrt runs_disjoint own"
    using assms(1) by (auto simp: alloc_inv_def runs_wf_append) (simp add: runs_wf_def)
  from sorted_wrt_nth_less[OF this assms(2,3)] show ?thesis by (simp add: runs_disjoint_def)
qed

section \<open>Properties\<close>


text \<open>A free list of two blocks: 2 pages at 0x5000, then 4 pages at 0x1000.\<close>

definition example_alloc :: phys_page_allocator where
  "example_alloc = \<lparr>ppa_head_phys_addr = 0x5000,
     ppa_mem = (\<lambda>_. \<lparr>fi_num_of_pages = 0, fi_next_phys_addr = 0, fi_proximity_domain = 0\<rparr>)
       (0x5000 := \<lparr>fi_num_of_pages = 2, fi_next_phys_addr = 0x1000, fi_proximity_domain = 0\<rparr>,
        0x1000 := \<lparr>fi_num_of_pages = 4, fi_next_phys_addr = 0, fi_proximity_domain = 1\<rparr>)\<rparr>"

lemma example_alloc_wf:
  "chain (ppa_mem example_alloc) (ppa_head_phys_addr example_alloc) [0x5000, 0x1000]"
  "runs_wf (free_runs (ppa_mem example_alloc) [0x5000, 0x1000])"
  by (auto simp: example_alloc_def runs_wf_def free_run_def runs_disjoint_def)




text \<open>
  C21: with the kernel's straight mapping the end of the list is not recognised.  Physical
  address 0 translates to the non-null pointer \<open>base\<close>, so when no block is large enough the
  loop reads the memory at physical address 0 as a further \<open>FreeInfo\<close>, and hands out pages
  counted from there whenever that memory claims to have enough, instead of panicking.
\<close>

theorem AllocPages_kernel_end_of_list:
  assumes "chain (ppa_mem a) (ppa_head_phys_addr a) bs" "runs_wf (free_runs (ppa_mem a) bs)"
    and "0 < n" "base \<noteq> 0" "\<forall>b\<in>set bs. b + base \<noteq> 0"
    and "\<forall>b\<in>set bs. fi_num_of_pages (ppa_mem a b) \<le> n"
    and "n < fi_num_of_pages (ppa_mem a 0)" "unat (fi_num_of_pages (ppa_mem a 0)) < 2 ^ 52"
  shows "\<exists>a'. AllocPages (UseKernelStraightMappingInternally base) n a =
    Ok (push_bit 12 (fi_num_of_pages (ppa_mem a 0) - n), a')"
proof -
  let ?S = "UseKernelStraightMappingInternally base" and ?m = "fi_num_of_pages (ppa_mem a 0)"
  have "find (suits (\<lambda>_. True) n (ppa_mem a)) bs = None"
    using assms(6) by (auto simp: find_None_iff suits_def not_less)
  then have skip: "AllocPages_loop ?S (\<lambda>_. True) n (GetFreeInfoFromPhysAddr ?S (ppa_head_phys_addr a)) (ppa_mem a)
      = AllocPages_loop ?S (\<lambda>_. True) n base (ppa_mem a)"
    using AllocPages_loop_chain[OF assms(1-3), of ?S "\<lambda>_. True"] assms(5) by simp
  have lt: "unat (?m - n) < 2 ^ 52" "0 < unat (?m - n)"
    using assms(7,8) by (auto simp: unat_sub word_less_nat_alt word_le_nat_alt)
  then have "unat (push_bit 12 (?m - n)) \<noteq> 0" by (simp add: unat_push_bit)
  then have nz: "push_bit 12 (?m - n) \<noteq> 0" by (metis unat_0)
  have "AllocPages_loop ?S (\<lambda>_. True) n base (ppa_mem a) =
    Some (Ok (taken_from n (ppa_mem a) 0))"
    using assms(4,7) nz
    by (subst AllocPages_loop.simps)
       (simp add: FreeInfo_ProvidePages_def FreeInfo_CanProvidePages_def Let_def taken_from_def)
  then show ?thesis using skip by (simp add: AllocPages_def AllocPages_sel_def taken_from_def)
qed

theorem AllocPages_kernel_end_of_list_witness:
  "\<exists>a'. AllocPages (UseKernelStraightMappingInternally 0xFFFF800000000000) 1
     (PhysicalPageAllocator_new (\<lambda>_. \<lparr>fi_num_of_pages = 7, fi_next_phys_addr = 0, fi_proximity_domain = 0\<rparr>))
   = Ok (0x6000, a')"
  using AllocPages_kernel_end_of_list[of "PhysicalPageAllocator_new
      (\<lambda>_. \<lparr>fi_num_of_pages = 7, fi_next_phys_addr = 0, fi_proximity_domain = 0\<rparr>)" "[]" 1 "0xFFFF800000000000"]
  by (simp add: PhysicalPageAllocator_new_def runs_wf_def)

end
