(* ===== verification/Paging.thy ===== *)
theory Paging
  imports Phys_Alloc
begin

text \<open>
  Four-level x86-64 page tables as src/src/paging.h and src/src/paging.cc build and walk them.
  The class templates \<open>PageTableEntryStruct\<close> and \<open>PageTableStruct\<close>, instantiated at four
  levels, become functions of a level; an entry is its 64-bit datum, and the memory which
  holds page tables maps the physical address of a table to its entries.  The value of
  \<open>GetPhysAddrMask()\<close>, read from the CPU, is the parameter \<open>pam\<close>.
\<close>

section \<open>Constants and levels\<close>

definition kAddrCannotTranslate :: u64 where
  "kAddrCannotTranslate = 0x8000000000000000"

definition kPageAttrMask :: u64 where "kPageAttrMask = 0b11111"
definition kPageAttrPresent :: u64 where "kPageAttrPresent = 0b00001"
definition kPageAttrWritable :: u64 where "kPageAttrWritable = 0b00010"
definition kPageAttrUser :: u64 where "kPageAttrUser = 0b00100"
definition kPageAttrWriteThrough :: u64 where "kPageAttrWriteThrough = 0b01000"
definition kPageAttrCacheDisable :: u64 where "kPageAttrCacheDisable = 0b10000"

definition kPageAttrMemMappedIO :: u64 where
  "kPageAttrMemMappedIO = kPageAttrCacheDisable OR kPageAttrPresent OR kPageAttrWritable"

datatype pt_level = PT | PDT | PDPT | PML4

fun kIndexShift :: "pt_level \<Rightarrow> nat" where
  "kIndexShift PT = 12"
| "kIndexShift PDT = 21"
| "kIndexShift PDPT = 30"
| "kIndexShift PML4 = 39"

fun is_page_allowed :: "pt_level \<Rightarrow> bool" where
  "is_page_allowed PML4 = False"
| "is_page_allowed _ = True"

fun is_table_allowed :: "pt_level \<Rightarrow> bool" where
  "is_table_allowed PT = False"
| "is_table_allowed _ = True"

fun NextTableType :: "pt_level \<Rightarrow> pt_level" where
  "NextTableType PML4 = PDPT"
| "NextTableType PDPT = PDT"
| "NextTableType PDT = PT"
| "NextTableType PT = PT"

definition kNumOfEntries :: nat where "kNumOfEntries = 512"

definition kChunkSize :: "pt_level \<Rightarrow> u64" where
  "kChunkSize l = push_bit (kIndexShift l) 1"

definition kOffsetMask :: "pt_level \<Rightarrow> u64" where
  "kOffsetMask l = kChunkSize l - 1"

definition addr2index :: "pt_level \<Rightarrow> u64 \<Rightarrow> nat" where
  "addr2index l addr = unat (drop_bit (kIndexShift l) addr AND 511)"

section \<open>Entries\<close>

definition IsPresent :: "u64 \<Rightarrow> bool" where
  "IsPresent e \<longleftrightarrow> e AND kPageAttrPresent \<noteq> 0"

definition IsPage :: "pt_level \<Rightarrow> u64 \<Rightarrow> bool" where
  "IsPage l e \<longleftrightarrow> (if is_page_allowed l \<and> is_table_allowed l then e AND push_bit 7 1 \<noteq> 0
                    else is_page_allowed l)"

definition SetAttrAsPage :: "pt_level \<Rightarrow> u64 \<Rightarrow> u64" where
  "SetAttrAsPage l e = (if is_page_allowed l \<and> is_table_allowed l then e OR push_bit 7 1 else e)"

definition SetAttrAsTable :: "pt_level \<Rightarrow> u64 \<Rightarrow> u64" where
  "SetAttrAsTable l e =
     (if is_page_allowed l \<and> is_table_allowed l then e AND NOT (push_bit 7 1) else e)"

definition GetTableAddr :: "u64 \<Rightarrow> pt_level \<Rightarrow> u64 \<Rightarrow> u64" where
  "GetTableAddr pam l e = (if IsPage l e then 0 else e AND pam AND NOT kPageAddrMask)"

definition GetTableAddrWithOffset :: "u64 \<Rightarrow> pt_level \<Rightarrow> u64 \<Rightarrow> u64 \<Rightarrow> u64" where
  "GetTableAddrWithOffset pam l offset e =
     (let t = GetTableAddr pam l e in if t = 0 then 0 else t + offset)"

definition SetTableAddr :: "u64 \<Rightarrow> pt_level \<Rightarrow> u64 \<Rightarrow> u64 \<Rightarrow> u64 res" where
  "SetTableAddr pam l table attr =
     bind_res (check_that (table AND NOT (pam AND NOT kPageAddrMask) = 0) Assert_Failed) (\<lambda>_.
     Ok (SetAttrAsTable l (table OR attr)))"

definition GetPageBaseAddr :: "u64 \<Rightarrow> pt_level \<Rightarrow> u64 \<Rightarrow> u64" where
  "GetPageBaseAddr pam l e = e AND (pam AND NOT (kOffsetMask l))"

definition SetPageBaseAddr :: "u64 \<Rightarrow> pt_level \<Rightarrow> u64 \<Rightarrow> u64 \<Rightarrow> u64 \<Rightarrow> u64 res" where
  "SetPageBaseAddr pam l paddr attr e =
     bind_res (check_that (paddr AND kOffsetMask l = 0) Assert_Failed) (\<lambda>_.
     let addr_mask = pam AND NOT (kOffsetMask l);
         e1 = e AND NOT (addr_mask OR kPageAttrMask);
         e2 = e1 OR ((paddr AND addr_mask) OR attr)
     in Ok (SetAttrAsPage l e2))"

definition SetAttr :: "u64 \<Rightarrow> u64 \<Rightarrow> u64" where
  "SetAttr attr e = (e AND NOT kPageAttrMask) OR (kPageAttrMask AND attr)"

definition IsDirty :: "u64 \<Rightarrow> bool" where
  "IsDirty e \<longleftrightarrow> e AND push_bit 6 1 \<noteq> 0"

definition ClearDirtyBit :: "u64 \<Rightarrow> u64" where
  "ClearDirtyBit e = e AND NOT (push_bit 6 1)"

section \<open>Tables in memory\<close>

type_synonym ptmem = "u64 \<Rightarrow> nat \<Rightarrow> u64"

definition GetEntryForAddr :: "ptmem \<Rightarrow> pt_level \<Rightarrow> u64 \<Rightarrow> u64 \<Rightarrow> u64" where
  "GetEntryForAddr m l t vaddr = m t (addr2index l vaddr)"

definition put_entry :: "u64 \<Rightarrow> nat \<Rightarrow> u64 \<Rightarrow> ptmem \<Rightarrow> ptmem" where
  "put_entry t i e m = m(t := (m t)(i := e))"

definition ClearMapping :: "u64 \<Rightarrow> ptmem \<Rightarrow> ptmem" where
  "ClearMapping t m = m(t := (\<lambda>i. if i < kNumOfEntries then 0 else m t i))"

definition GetTableBaseForAddr :: "u64 \<Rightarrow> ptmem \<Rightarrow> pt_level \<Rightarrow> u64 \<Rightarrow> u64 \<Rightarrow> u64" where
  "GetTableBaseForAddr pam m l t vaddr = GetTableAddr pam l (GetEntryForAddr m l t vaddr)"

definition SetTableBaseForAddr ::
    "u64 \<Rightarrow> pt_level \<Rightarrow> u64 \<Rightarrow> u64 \<Rightarrow> u64 \<Rightarrow> u64 \<Rightarrow> ptmem \<Rightarrow> (u64 \<times> ptmem) res" where
  "SetTableBaseForAddr pam l t addr new_ent attr m =
     (let old_e = GetTableBaseForAddr pam m l t addr in
      bind_res (SetTableAddr pam l new_ent attr) (\<lambda>e.
      Ok (old_e, put_entry t (addr2index l addr) e m)))"

definition SetPageBaseForAddr ::
    "u64 \<Rightarrow> pt_level \<Rightarrow> u64 \<Rightarrow> u64 \<Rightarrow> u64 \<Rightarrow> u64 \<Rightarrow> ptmem \<Rightarrow> ptmem res" where
  "SetPageBaseForAddr pam l t vaddr paddr attr m =
     bind_res (SetPageBaseAddr pam l paddr attr (GetEntryForAddr m l t vaddr)) (\<lambda>e.
     Ok (put_entry t (addr2index l vaddr) e m))"

fun level_rank :: "pt_level \<Rightarrow> nat" where
  "level_rank PT = 0"
| "level_rank PDT = 1"
| "level_rank PDPT = 2"
| "level_rank PML4 = 3"

text \<open>The walk; \<open>v2pWithTable\<close> of a level without next tables cannot translate.\<close>

function v2p :: "u64 \<Rightarrow> ptmem \<Rightarrow> pt_level \<Rightarrow> u64 \<Rightarrow> u64 \<Rightarrow> u64" where
  "v2p pam m l t vaddr =
     (let e = GetEntryForAddr m l t vaddr in
      if \<not> IsPresent e then kAddrCannotTranslate
      else if IsPage l e then GetPageBaseAddr pam l e OR (vaddr AND kOffsetMask l)
      else if \<not> is_table_allowed l then kAddrCannotTranslate
      else v2p pam m (NextTableType l) (GetTableAddr pam l e) vaddr)"
  by auto
termination
proof (relation "measure (\<lambda>(pam, m, l, t, vaddr). level_rank l)", goal_cases)
  case (2 pam m l t vaddr e)
  then show ?case by (cases l) auto
qed simp

text \<open>
  The walk over pointers into the straight mapping: a table at physical address \<open>t\<close> is read
  through \<open>t + offset\<close>.  Reading through the null pointer is a fault.
\<close>

function v2pWithOffset :: "u64 \<Rightarrow> ptmem \<Rightarrow> pt_level \<Rightarrow> u64 \<Rightarrow> u64 \<Rightarrow> u64 \<Rightarrow> u64 res" where
  "v2pWithOffset pam m l this vaddr offset =
     (if this = 0 then Fail Null_Deref
      else let e = GetEntryForAddr m l (this - offset) vaddr in
      if \<not> IsPresent e then Ok kAddrCannotTranslate
      else if IsPage l e then Ok (GetPageBaseAddr pam l e OR (vaddr AND kOffsetMask l))
      else if \<not> is_table_allowed l then Ok kAddrCannotTranslate
      else v2pWithOffset pam m (NextTableType l) (GetTableAddrWithOffset pam l offset e) vaddr offset)"
  by auto
termination
proof (relation "measure (\<lambda>(pam, m, l, this, vaddr, offset). level_rank l)", goal_cases)
  case (2 pam m l this vaddr offset e)
  then show ?case by (cases l) auto
qed simp

declare v2p.simps [simp del] v2pWithOffset.simps [simp del]

definition AssertAddressIsInLowerHalf :: "u64 \<Rightarrow> unit res" where
  "AssertAddressIsInLowerHalf addr = check_that (0 \<le> sint addr) Assert_Failed"

section \<open>Building mappings\<close>

text \<open>
  The state which a mapping operation works on: the tables, the allocator of type \<open>'a\<close> (a
  template parameter of the code) and the entries' addresses for which \<open>_mm_clflush\<close> has been
  issued, in order.
\<close>

record 'a pg_state =
  pg_mem :: ptmem
  pg_alloc :: 'a
  pg_clflush :: "u64 list"

definition set_pg_entry :: "u64 \<Rightarrow> nat \<Rightarrow> u64 \<Rightarrow> 'a pg_state \<Rightarrow> 'a pg_state" where
  "set_pg_entry t i e s = s\<lparr>pg_mem := put_entry t i e (pg_mem s)\<rparr>"

definition clflush_entry :: "bool \<Rightarrow> u64 \<Rightarrow> nat \<Rightarrow> 'a pg_state \<Rightarrow> 'a pg_state" where
  "clflush_entry should_clflush t i s =
     (if should_clflush then s\<lparr>pg_clflush := pg_clflush s @ [t + 8 * of_nat i]\<rparr> else s)"

definition new_table :: "('a \<Rightarrow> (u64 \<times> 'a) res) \<Rightarrow> 'a pg_state \<Rightarrow> (u64 \<times> 'a pg_state) res" where
  "new_table alloc s = bind_res (alloc (pg_alloc s)) (\<lambda>(p, a').
     Ok (p, s\<lparr>pg_alloc := a', pg_mem := ClearMapping p (pg_mem s)\<rparr>))"

definition AllocPageTable :: "('a \<Rightarrow> (u64 \<times> 'a) res) \<Rightarrow> 'a pg_state \<Rightarrow> (u64 \<times> 'a pg_state) res" where
  "AllocPageTable alloc s = bind_res (alloc (pg_alloc s)) (\<lambda>(pml4, a').
     bind_res (check_that (pml4 \<noteq> 0) Assert_Failed) (\<lambda>_.
     Ok (pml4, s\<lparr>pg_alloc := a', pg_mem := ClearMapping pml4 (pg_mem s)\<rparr>)))"

text \<open>The part common to the three upper levels: a missing table is allocated and linked.\<close>

definition ensure_table ::
    "u64 \<Rightarrow> ('a \<Rightarrow> (u64 \<times> 'a) res) \<Rightarrow> pt_level \<Rightarrow> u64 \<Rightarrow> u64 \<Rightarrow> nat \<Rightarrow> 'a pg_state \<Rightarrow> 'a pg_state res" where
  "ensure_table pam alloc l attr t i s =
     (if IsPresent (pg_mem s t i) then Ok s
      else bind_res (new_table alloc s) (\<lambda>(p, s1).
           bind_res (SetTableAddr pam l p attr) (\<lambda>e. Ok (set_pg_entry t i e s1))))"

type_synonym 'a cursor = "u64 \<times> u64 \<times> u64 \<times> 'a pg_state"

function map_pt_loop ::
    "u64 \<Rightarrow> u64 \<Rightarrow> bool \<Rightarrow> u64 \<Rightarrow> nat \<Rightarrow> u64 \<Rightarrow> u64 \<Rightarrow> u64 \<Rightarrow> 'a pg_state \<Rightarrow> 'a cursor res" where
  "map_pt_loop pam attr fl pt pt_idx vaddr paddr num s =
     (if num \<noteq> 0 \<and> pt_idx < kNumOfEntries then
        let i = addr2index PT vaddr in
        bind_res (SetPageBaseAddr pam PT paddr attr (pg_mem s pt i)) (\<lambda>e.
        map_pt_loop pam attr fl pt (pt_idx + 1) (vaddr + 0x1000) (paddr + 0x1000) (num - 1)
          (clflush_entry fl pt i (set_pg_entry pt i e s)))
      else Ok (vaddr, paddr, num, s))"
  by auto
termination
  by (relation "measure (\<lambda>(pam, attr, fl, pt, pt_idx, _). kNumOfEntries - pt_idx)") auto

function map_pdt_loop ::
    "u64 \<Rightarrow> ('a \<Rightarrow> (u64 \<times> 'a) res) \<Rightarrow> u64 \<Rightarrow> bool \<Rightarrow> u64 \<Rightarrow> nat \<Rightarrow> u64 \<Rightarrow> u64 \<Rightarrow> u64 \<Rightarrow> 'a pg_state
     \<Rightarrow> 'a cursor res" where
  "map_pdt_loop pam alloc attr fl pdt pdt_idx vaddr paddr num s =
     (if num \<noteq> 0 \<and> pdt_idx < kNumOfEntries then
        let i = addr2index PDT vaddr; e = pg_mem s pdt i in
        if \<not> IsPresent e \<and> of_nat kNumOfEntries \<le> num \<and>
           vaddr AND kOffsetMask PDT = 0 \<and> paddr AND kOffsetMask PDT = 0 then
          bind_res (SetPageBaseAddr pam PDT paddr attr e) (\<lambda>e.
          map_pdt_loop pam alloc attr fl pdt (pdt_idx + 1) (vaddr + 0x200000) (paddr + 0x200000)
            (num - of_nat kNumOfEntries) (clflush_entry fl pdt i (set_pg_entry pdt i e s)))
        else
          bind_res (ensure_table pam alloc PDT attr pdt i s) (\<lambda>s1.
          let s2 = clflush_entry fl pdt i s1;
              e = SetAttr attr (pg_mem s2 pdt i);
              s3 = set_pg_entry pdt i e s2
          in
          bind_res (check_that (\<not> IsPage PDT e) (Panic ''Page overwrapping at pdte'')) (\<lambda>_.
          bind_res (map_pt_loop pam attr fl (GetTableAddr pam PDT e) (addr2index PT vaddr)
                      vaddr paddr num s3) (\<lambda>(vaddr, paddr, num, s4).
          map_pdt_loop pam alloc attr fl pdt (pdt_idx + 1) vaddr paddr num s4)))
      else Ok (vaddr, paddr, num, s))"
  by auto
termination
  by (relation "measure (\<lambda>(pam, alloc, attr, fl, pdt, pdt_idx, _). kNumOfEntries - pdt_idx)") auto

function map_pdpt_loop ::
    "u64 \<Rightarrow> ('a \<Rightarrow> (u64 \<times> 'a) res) \<Rightarrow> u64 \<Rightarrow> bool \<Rightarrow> u64 \<Rightarrow> nat \<Rightarrow> u64 \<Rightarrow> u64 \<Rightarrow> u64 \<Rightarrow> 'a pg_state
     \<Rightarrow> 'a cursor res" where
  "map_pdpt_loop pam alloc attr fl pdpt pdpt_idx vaddr paddr num s =
     (if num \<noteq> 0 \<and> pdpt_idx < kNumOfEntries then
        let i = addr2index PDPT vaddr in
        bind_res (ensure_table pam alloc PDPT attr pdpt i s) (\<lambda>s1.
        let e = SetAttr attr (pg_mem s1 pdpt i);
            s2 = clflush_entry fl pdpt i (set_pg_entry pdpt i e s1)
        in
        bind_res (check_that (\<not> IsPage PDPT e) (Panic ''Page overwrapping at pdpte'')) (\<lambda>_.
        bind_res (map_pdt_loop pam alloc attr fl (GetTableAddr pam PDPT e) (addr2index PDT vaddr)
                    vaddr paddr num s2) (\<lambda>(vaddr, paddr, num, s3).
        map_pdpt_loop pam alloc attr fl pdpt (pdpt_idx + 1) vaddr paddr num s3)))
      else Ok (vaddr, paddr, num, s))"
  by auto
termination
  by (relation "measure (\<lambda>(pam, alloc, attr, fl, pdpt, pdpt_idx, _). kNumOfEntries - pdpt_idx)") auto

text \<open>The outermost loop does not look at the number of pages left.\<close>

function map_pml4_loop ::
    "u64 \<Rightarrow> ('a \<Rightarrow> (u64 \<times> 'a) res) \<Rightarrow> u64 \<Rightarrow> bool \<Rightarrow> u64 \<Rightarrow> nat \<Rightarrow> u64 \<Rightarrow> u64 \<Rightarrow> u64 \<Rightarrow> 'a pg_state
     \<Rightarrow> 'a cursor res" where
  "map_pml4_loop pam alloc attr fl pml4 pml4_idx vaddr paddr num s =
     (if pml4_idx < kNumOfEntries then
        let i = addr2index PML4 vaddr in
        bind_res (ensure_table pam alloc PML4 attr pml4 i s) (\<lambda>s1.
        let e = SetAttr attr (pg_mem s1 pml4 i);
            s2 = clflush_entry fl pml4 i (set_pg_entry pml4 i e s1)
        in
        bind_res (map_pdpt_loop pam alloc attr fl (GetTableAddr pam PML4 e) (addr2index PDPT vaddr)
                    vaddr paddr num s2) (\<lambda>(vaddr, paddr, num, s3).
        map_pml4_loop pam alloc attr fl pml4 (pml4_idx + 1) vaddr paddr num s3))
      else Ok (vaddr, paddr, num, s))"
  by auto
termination
  by (relation "measure (\<lambda>(pam, alloc, attr, fl, pml4, pml4_idx, _). kNumOfEntries - pml4_idx)") auto

declare map_pt_loop.simps [simp del] map_pdt_loop.simps [simp del]
  map_pdpt_loop.simps [simp del] map_pml4_loop.simps [simp del]

definition CreatePageMapping ::
    "u64 \<Rightarrow> ('a \<Rightarrow> (u64 \<times> 'a) res) \<Rightarrow> u64 \<Rightarrow> u64 \<Rightarrow> u64 \<Rightarrow> u64 \<Rightarrow> u64 \<Rightarrow> bool \<Rightarrow> 'a pg_state
     \<Rightarrow> 'a pg_state res" where
  "CreatePageMapping pam alloc pml4 vaddr paddr byte_size attr should_clflush s =
     bind_res (check_that (vaddr AND kPageAddrMask = 0) Assert_Failed) (\<lambda>_.
     bind_res (check_that (paddr AND kPageAddrMask = 0) Assert_Failed) (\<lambda>_.
     bind_res (map_pml4_loop pam alloc attr should_clflush pml4 (addr2index PML4 vaddr) vaddr paddr
                 (ByteSizeToPageSize byte_size) s) (\<lambda>(_, _, _, s').
     Ok s')))"

text \<open>The upper half of a process's top-level table is copied from the kernel's.\<close>

definition SetKernelPageEntries :: "u64 \<Rightarrow> u64 \<Rightarrow> ptmem \<Rightarrow> ptmem" where
  "SetKernelPageEntries kernel_pml4 pml4 m =
     m(pml4 := (\<lambda>i. if kNumOfEntries div 2 \<le> i \<and> i < kNumOfEntries then m kernel_pml4 i else m pml4 i))"

end
