(* ===== verification/Page_Entries.thy ===== *)
theory Page_Entries
  imports Paging
begin

text \<open>
  What the entry operations of Paging do to the bits of an entry: presence, page flag, table
  address and page base after \<open>SetAttr\<close>, \<open>SetTableAddr\<close> and \<open>SetPageBaseAddr\<close>.
\<close>

section \<open>Bits of an entry\<close>

definition good_attr :: "u64 \<Rightarrow> bool" where
  "good_attr attr \<longleftrightarrow> attr AND NOT kPageAttrMask = 0 \<and> attr AND kPageAttrPresent \<noteq> 0"

lemma and_one_eq: "(e AND 1 \<noteq> 0) = bit e 0" for e :: u64
  by (simp add: and_one_eq odd_iff_mod_2_eq_one bit_0)

lemma and_exp_eq: "(e AND push_bit n 1 \<noteq> 0) = bit e n" if "n < 64" for e :: u64
  using that by (simp add: bit_iff_and_push_bit_not_eq_0)

lemma kPageAttrMask_eq: "kPageAttrMask = mask 5"
  by (simp add: kPageAttrMask_def mask_eq_exp_minus_1)

lemma kOffsetMask_eq: "kOffsetMask l = mask (kIndexShift l)"
  by (simp add: kOffsetMask_def kChunkSize_def mask_eq_exp_minus_1 push_bit_eq_mult)

lemma IsPresent_bit: "IsPresent e = bit e 0"
  by (simp add: IsPresent_def kPageAttrPresent_def and_one_eq)

lemma IsPage_bit: "IsPage l e = (if l = PT then True else if l = PML4 then False else bit e 7)"
  using and_exp_eq[of 7 e] by (cases l) (auto simp: IsPage_def)

lemma u64_bit_less: "bit w n \<Longrightarrow> n < 64" for w :: u64
  by (auto dest: bit_imp_le_length)

lemma eq_0_bit: "(w = 0) = (\<forall>n. \<not> bit w n)" for w :: u64
  by (metis bit_0_eq bit_eqI bot_apply bot_bool_def)

lemma bit_7: "bit (128::u64) n = (n = 7)"
proof -
  have "bit (push_bit 7 (1::u64)) n = (n = 7)" by (simp only: bit_push_bit_iff bit_1_iff) auto
  then show ?thesis by simp
qed

lemma bit_7_nums: "bit (128::int) n = (n = 7)" "bit (128::nat) n = (n = 7)"
proof -
  have "bit (push_bit 7 (1::int)) n = (n = 7)" "bit (push_bit 7 (1::nat)) n = (n = 7)"
    by (simp only: bit_push_bit_iff bit_1_iff; auto)+
  then show "bit (128::int) n = (n = 7)" "bit (128::nat) n = (n = 7)" by simp_all
qed

lemma good_attr_bit: "good_attr attr = ((\<forall>n\<ge>5. \<not> bit attr n) \<and> bit attr 0)"
  unfolding good_attr_def kPageAttrPresent_def kPageAttrMask_eq
  by (simp only: eq_0_bit[of "attr AND NOT _"] and_one_eq numerals)
     (simp add: bit_simps not_less, meson le_trans linorder_not_less not_less u64_bit_less)

lemma SetAttr_entry:
  assumes "good_attr attr"
  shows "IsPresent (SetAttr attr e)" "IsPage l (SetAttr attr e) = IsPage l e"
    "GetTableAddr pam l (SetAttr attr e) = GetTableAddr pam l e"
proof -
  show "IsPresent (SetAttr attr e)" "IsPage l (SetAttr attr e) = IsPage l e"
    using assms by (auto simp: IsPresent_bit IsPage_bit SetAttr_def kPageAttrMask_eq good_attr_bit bit_simps)
  have "SetAttr attr e AND pam AND NOT kPageAddrMask = e AND pam AND NOT kPageAddrMask"
    by (rule bit_word_eqI) (auto simp: SetAttr_def kPageAttrMask_eq kPageAddrMask_eq bit_simps)
  then show "GetTableAddr pam l (SetAttr attr e) = GetTableAddr pam l e"
    using \<open>IsPage l (SetAttr attr e) = IsPage l e\<close> by (simp add: GetTableAddr_def)
qed

lemma SetTableAddr_entry:
  assumes "good_attr attr" "SetTableAddr pam l table attr = Ok e" "l \<noteq> PT"
  shows "IsPresent e" "\<not> IsPage l e" "GetTableAddr pam l e = table"
proof -
  have t: "table AND NOT (pam AND NOT kPageAddrMask) = 0" and e: "e = SetAttrAsTable l (table OR attr)"
    using assms(2) by (auto simp: SetTableAddr_def res_simps)
  have tb: "bit table n \<Longrightarrow> bit pam n \<and> 12 \<le> n" for n
    using t by (auto simp: kPageAddrMask_eq eq_0_bit bit_simps) (use u64_bit_less linorder_not_less in blast)+
  then have tb': "bit table n \<Longrightarrow> bit pam n" "n < 12 \<Longrightarrow> \<not> bit table n" for n
    by (auto simp: not_le[symmetric])
  show "IsPresent e" using assms(1) by (cases l) (auto simp: e IsPresent_bit SetAttrAsTable_def good_attr_bit bit_simps)
  show np: "\<not> IsPage l e" using assms(3) by (cases l) (auto simp: e IsPage_bit SetAttrAsTable_def bit_simps bit_7 bit_7_nums)
  have "e AND pam AND NOT kPageAddrMask = table"
    using assms(1) tb' by (intro bit_word_eqI) (cases l; auto simp: e SetAttrAsTable_def kPageAddrMask_eq good_attr_bit bit_simps bit_7 bit_7_nums)
  then show "GetTableAddr pam l e = table" using np by (simp add: GetTableAddr_def)
qed

lemma SetPageBaseAddr_entry:
  assumes "good_attr attr" "SetPageBaseAddr pam l paddr attr e = Ok e'" "l \<noteq> PML4"
  shows "IsPresent e'" "IsPage l e'" "GetPageBaseAddr pam l e' = paddr AND pam"
proof -
  have p: "paddr AND kOffsetMask l = 0" 
    using assms(2) by (auto simp: SetPageBaseAddr_def res_simps)
  have e': "e' = SetAttrAsPage l ((e AND NOT ((pam AND NOT (kOffsetMask l)) OR kPageAttrMask)) OR
     ((paddr AND (pam AND NOT (kOffsetMask l))) OR attr))"
    using assms(2) by (auto simp: SetPageBaseAddr_def res_simps Let_def)
  have pb: "n < kIndexShift l \<Longrightarrow> \<not> bit paddr n" for n
    using p by (auto simp: kOffsetMask_eq eq_0_bit bit_simps) (use u64_bit_less linorder_not_less in blast)
  have sh: "\<not> n < kIndexShift l \<Longrightarrow> \<not> bit attr n" "\<not> 7 < kIndexShift l \<Longrightarrow> False"
    "n < 5 \<Longrightarrow> n < kIndexShift l" for n
    using assms(1) by (cases l; simp add: good_attr_bit)+
  show "IsPresent e'" using assms(1) by (cases l) (auto simp: e' IsPresent_bit SetAttrAsPage_def good_attr_bit bit_simps)
  show np: "IsPage l e'" using assms(3) by (cases l) (auto simp: e' IsPage_bit SetAttrAsPage_def bit_simps bit_7 bit_7_nums)
  show "GetPageBaseAddr pam l e' = paddr AND pam"
    using assms(1) pb sh by (intro bit_word_eqI) (auto simp: e' GetPageBaseAddr_def SetAttrAsPage_def kOffsetMask_eq  kPageAttrMask_eq good_attr_bit bit_simps bit_7 bit_7_nums)
qed

end
