(* ===== verification/Page_Trees.thy ===== *)
theory Page_Trees
  imports Page_Entries
begin

text \<open>
  The shape of page tables in memory: the part of an address which a level's table covers, the
  tables reachable from a root, trees without sharing, and how changes of single entries, new
  tables and changes inside a subtree affect the tree and the translation.
\<close>

section \<open>Addresses relative to a table\<close>

definition span :: "pt_level \<Rightarrow> nat" where
  "span l = 2 ^ (kIndexShift l + 9)"

definition reg :: "pt_level \<Rightarrow> u64 \<Rightarrow> nat" where
  "reg l va = unat va mod span l"

lemma level_induct [case_names PT step]:
  assumes "P PT" "\<And>l. l \<noteq> PT \<Longrightarrow> P (NextTableType l) \<Longrightarrow> P l"
  shows "P l"
proof -
  have "P PDT" using assms(2)[of PDT] assms(1) by simp
  moreover from this have "P PDPT" using assms(2)[of PDPT] by simp
  moreover from this have "P PML4" using assms(2)[of PML4] by simp
  ultimately show ?thesis using assms(1) by (cases l) auto
qed

lemma span_next: "l \<noteq> PT \<Longrightarrow> span (NextTableType l) = 2 ^ kIndexShift l"
  by (cases l) (auto simp: span_def)

lemma span_simps [simp]: "span PT = 0x200000" "span PDT = 0x40000000" "span PDPT = 0x8000000000"
    "span PML4 = 0x1000000000000"
  by (simp_all add: span_def)

lemma span_shift: "span l = 512 * 2 ^ kIndexShift l"
  by (simp add: span_def power_add)

lemma mod_mult_div: "0 < a \<Longrightarrow> u mod (a * c) div a = u div a mod c" for u :: nat
  by (simp add: mod_mult2_eq)

lemma addr2index_reg: "addr2index l va = reg l va div 2 ^ kIndexShift l"
proof -
  have m: "(511 :: u64) = mask 9" by (simp add: mask_eq_exp_minus_1)
  show ?thesis
    unfolding addr2index_def m unat_and_mask unat_drop_bit reg_def span_def
    using mod_mult_div[of "2 ^ kIndexShift l" "unat va" "2 ^ 9"] by (simp add: power_add)
qed

lemma reg_less [simp]: "reg l va < span l"
  by (simp add: reg_def span_def)

lemma addr2index_less [simp]: "addr2index l va < 512"
  using reg_less[of l va] by (simp add: addr2index_reg span_shift less_mult_imp_div_less)

lemma reg_next: "l \<noteq> PT \<Longrightarrow> reg (NextTableType l) va = reg l va mod 2 ^ kIndexShift l"
  unfolding reg_def span_next by (simp add: span_def power_add mod_mult2_eq)

lemma reg_split:
  "l \<noteq> PT \<Longrightarrow> reg l va = addr2index l va * 2 ^ kIndexShift l + reg (NextTableType l) va"
  using reg_next[of l va] div_mult_mod_eq[of "reg l va" "2 ^ kIndexShift l"]
  by (metis addr2index_reg)

lemma span_dvd: "span l dvd 2 ^ 64"
  unfolding span_def by (cases l) (auto intro: le_imp_power_dvd)

lemma reg_add: "reg l (va + w) = (reg l va + unat w) mod span l"
  unfolding reg_def unat_word_ariths
  using mod_mod_cancel[OF span_dvd[of l], of "unat va + unat w"]
  by (simp add: mod_add_left_eq)

lemma reg_add_less: "reg l va + unat w < span l \<Longrightarrow> reg l (va + w) = reg l va + unat w"
  by (simp add: reg_add)

lemma reg_aligned: "4096 dvd unat va \<Longrightarrow> 4096 dvd reg l va"
  unfolding reg_def by (cases l) (auto intro: dvd_mod)

text \<open>The number of pages from \<open>va\<close> to the end of what a level's table covers.\<close>

definition room :: "pt_level \<Rightarrow> u64 \<Rightarrow> nat" where
  "room l va = (span l - reg l va) div 4096"

lemma room_mult: "4096 dvd unat va \<Longrightarrow> 4096 * room l va = span l - reg l va"
proof -
  assume "4096 dvd unat va"
  then have "4096 dvd reg l va" by (rule reg_aligned)
  moreover have "4096 dvd span l" by (cases l) auto
  ultimately have "4096 dvd span l - reg l va" by simp
  then show ?thesis by (simp add: room_def)
qed

lemma room_pos: "4096 dvd unat va \<Longrightarrow> 0 < room l va"
  using room_mult[of va l] reg_less[of l va] by (cases "room l va") auto

section \<open>The tree of tables\<close>

definition subtable :: "u64 \<Rightarrow> ptmem \<Rightarrow> pt_level \<Rightarrow> u64 \<Rightarrow> nat \<Rightarrow> u64 option" where
  "subtable pam m l t i =
     (if i < 512 \<and> IsPresent (m t i) \<and> \<not> IsPage l (m t i) then Some (GetTableAddr pam l (m t i))
      else None)"

text \<open>\<open>tables pam m l t\<close> are the tables reachable from \<open>t\<close>; a \<open>tree\<close> has no sharing.\<close>

function tables :: "u64 \<Rightarrow> ptmem \<Rightarrow> pt_level \<Rightarrow> u64 \<Rightarrow> u64 set" where
  "tables pam m PT t = {t}"
| "tables pam m PDT t =
     insert t (\<Union>i. case subtable pam m PDT t i of None \<Rightarrow> {} | Some c \<Rightarrow> tables pam m PT c)"
| "tables pam m PDPT t =
     insert t (\<Union>i. case subtable pam m PDPT t i of None \<Rightarrow> {} | Some c \<Rightarrow> tables pam m PDT c)"
| "tables pam m PML4 t =
     insert t (\<Union>i. case subtable pam m PML4 t i of None \<Rightarrow> {} | Some c \<Rightarrow> tables pam m PDPT c)"
  by pat_completeness auto
termination
  by (relation "measure (\<lambda>(pam, m, l, t). level_rank l)") auto

definition apart :: "u64 \<Rightarrow> ptmem \<Rightarrow> pt_level \<Rightarrow> u64 \<Rightarrow> bool" where
  "apart pam m l t \<longleftrightarrow>
     (\<forall>i c. subtable pam m l t i = Some c \<longrightarrow> t \<notin> tables pam m (NextTableType l) c) \<and>
     (\<forall>i j c d. i \<noteq> j \<longrightarrow> subtable pam m l t i = Some c \<longrightarrow> subtable pam m l t j = Some d \<longrightarrow>
        tables pam m (NextTableType l) c \<inter> tables pam m (NextTableType l) d = {})"

function tree :: "u64 \<Rightarrow> ptmem \<Rightarrow> pt_level \<Rightarrow> u64 \<Rightarrow> bool" where
  "tree pam m PT t \<longleftrightarrow> True"
| "tree pam m PDT t \<longleftrightarrow> apart pam m PDT t \<and>
     (\<forall>i c. subtable pam m PDT t i = Some c \<longrightarrow> tree pam m PT c)"
| "tree pam m PDPT t \<longleftrightarrow> apart pam m PDPT t \<and>
     (\<forall>i c. subtable pam m PDPT t i = Some c \<longrightarrow> tree pam m PDT c)"
| "tree pam m PML4 t \<longleftrightarrow> apart pam m PML4 t \<and>
     (\<forall>i c. subtable pam m PML4 t i = Some c \<longrightarrow> tree pam m PDPT c)"
  by pat_completeness auto
termination
  by (relation "measure (\<lambda>(pam, m, l, t). level_rank l)") auto

lemma tables_step:
  "l \<noteq> PT \<Longrightarrow> tables pam m l t =
     insert t (\<Union>i. case subtable pam m l t i of None \<Rightarrow> {} | Some c \<Rightarrow> tables pam m (NextTableType l) c)"
  by (cases l) (simp_all cong: option.case_cong)

lemma tables_iff:
  "l \<noteq> PT \<Longrightarrow> f \<in> tables pam m l t \<longleftrightarrow>
     f = t \<or> (\<exists>i c. subtable pam m l t i = Some c \<and> f \<in> tables pam m (NextTableType l) c)"
  by (auto simp: tables_step split: option.splits)

lemma tree_step:
  "l \<noteq> PT \<Longrightarrow> tree pam m l t \<longleftrightarrow> apart pam m l t \<and>
     (\<forall>i c. subtable pam m l t i = Some c \<longrightarrow> tree pam m (NextTableType l) c)"
  by (cases l) auto

lemma tables_self [simp, intro]: "t \<in> tables pam m l t"
  by (cases l) auto

lemma subtable_PT [simp]: "subtable pam m PT t i = None"
  by (simp add: subtable_def IsPage_bit)

lemma v2p_step:
  "v2p pam m l t w =
     (let e = m t (addr2index l w) in
      if \<not> IsPresent e then kAddrCannotTranslate
      else if IsPage l e then GetPageBaseAddr pam l e OR (w AND kOffsetMask l)
      else v2p pam m (NextTableType l) (GetTableAddr pam l e) w)"
  by (subst v2p.simps) (cases l; simp add: GetEntryForAddr_def IsPage_bit Let_def)

lemma v2p_subtable:
  "subtable pam m l t (addr2index l w) = Some c \<Longrightarrow> v2p pam m l t w = v2p pam m (NextTableType l) c w"
  by (subst v2p_step) (auto simp: subtable_def Let_def split: if_splits)

lemma v2p_leaf:
  "subtable pam m l t (addr2index l w) = None \<Longrightarrow> v2p pam m l t w =
     (let e = m t (addr2index l w) in
      if \<not> IsPresent e then kAddrCannotTranslate
      else GetPageBaseAddr pam l e OR (w AND kOffsetMask l))"
  by (subst v2p_step) (auto simp: subtable_def Let_def split: if_splits)

text \<open>Everything about a subtree depends on its tables only.\<close>

lemma subtable_cong: "m' t = m t \<Longrightarrow> subtable pam m' l t i = subtable pam m l t i"
  by (simp add: subtable_def)

lemma subtree_cong:
  assumes "\<And>f. f \<in> tables pam m l t \<Longrightarrow> m' f = m f"
  shows "tables pam m' l t = tables pam m l t"
    and "tree pam m' l t = tree pam m l t"
    and "v2p pam m' l t w = v2p pam m l t w"
proof -
  have "(\<forall>f\<in>tables pam m l t. m' f = m f) \<longrightarrow> tables pam m' l t = tables pam m l t \<and>
    tree pam m' l t = tree pam m l t \<and> v2p pam m' l t w = v2p pam m l t w" (is "?Q l t")
  proof (induction l arbitrary: t rule: level_induct)
    case PT
    show ?case using v2p_leaf[of pam m PT t w] v2p_leaf[of pam m' PT t w] by simp
  next
    case (step l)
    show ?case
    proof
      assume eq: "\<forall>f\<in>tables pam m l t. m' f = m f"
      then have t: "m' t = m t" by simp
      have sub: "subtable pam m' l t i = subtable pam m l t i" for i
        using t by (rule subtable_cong)
      have ch: "tables pam m' (NextTableType l) c = tables pam m (NextTableType l) c"
          "tree pam m' (NextTableType l) c = tree pam m (NextTableType l) c"
          "v2p pam m' (NextTableType l) c w = v2p pam m (NextTableType l) c w"
        if "subtable pam m l t i = Some c" for i c
      proof -
        have "\<forall>f\<in>tables pam m (NextTableType l) c. m' f = m f"
          using eq that tables_iff[OF step.hyps] by blast
        then show "tables pam m' (NextTableType l) c = tables pam m (NextTableType l) c"
          "tree pam m' (NextTableType l) c = tree pam m (NextTableType l) c"
          "v2p pam m' (NextTableType l) c w = v2p pam m (NextTableType l) c w"
          using step.IH[of c] by blast+
      qed
      have T: "tables pam m' l t = tables pam m l t"
        using ch(1) by (auto simp: tables_step[OF step.hyps] sub split: option.splits)
      have A: "apart pam m' l t = apart pam m l t"
        by (simp add: apart_def sub ch(1))
      have "tree pam m' l t = tree pam m l t"
        by (simp add: tree_step[OF step.hyps] A sub ch(2))
      moreover have "v2p pam m' l t w = v2p pam m l t w"
      proof (cases "subtable pam m l t (addr2index l w)")
        case None
        then show ?thesis using v2p_leaf[of pam m l t w] v2p_leaf[of pam m' l t w] sub t by simp
      next
        case (Some c)
        then show ?thesis using v2p_subtable[of pam m l t w] v2p_subtable[of pam m' l t w] sub ch(3) by simp
      qed
      ultimately show "tables pam m' l t = tables pam m l t \<and>
        tree pam m' l t = tree pam m l t \<and> v2p pam m' l t w = v2p pam m l t w" using T by simp
    qed
  qed
  then show "tables pam m' l t = tables pam m l t" "tree pam m' l t = tree pam m l t"
    "v2p pam m' l t w = v2p pam m l t w" using assms by blast+
qed

section \<open>Growing a subtree\<close>

lemma tree_disjoint:
  "\<lbrakk>tree pam m l t; l \<noteq> PT; subtable pam m l t i = Some c; subtable pam m l t j = Some d; i \<noteq> j\<rbrakk> \<Longrightarrow>
   tables pam m (NextTableType l) c \<inter> tables pam m (NextTableType l) d = {}"
  by (simp add: tree_step apart_def)

lemma tree_root:
  "\<lbrakk>tree pam m l t; l \<noteq> PT; subtable pam m l t i = Some c\<rbrakk> \<Longrightarrow> t \<notin> tables pam m (NextTableType l) c"
  by (simp add: tree_step apart_def)

text \<open>
  \<open>grows pam l t m A m' A'\<close>: going from \<open>m\<close> to \<open>m'\<close> only touches tables below \<open>t\<close> and pages
  which left the set \<open>A\<close> of available pages; the result is a tree over these tables.
\<close>

definition grows ::
    "u64 \<Rightarrow> pt_level \<Rightarrow> u64 \<Rightarrow> ptmem \<Rightarrow> u64 set \<Rightarrow> ptmem \<Rightarrow> u64 set \<Rightarrow> bool" where
  "grows pam l t m A m' A' \<longleftrightarrow> A' \<subseteq> A \<and> tree pam m' l t \<and>
     tables pam m' l t \<subseteq> tables pam m l t \<union> (A - A') \<and>
     (\<forall>f. f \<notin> tables pam m l t \<union> (A - A') \<longrightarrow> m' f = m f)"

lemma grows_refl: "tree pam m l t \<Longrightarrow> grows pam l t m A m A"
  by (simp add: grows_def)

lemma grows_trans:
  assumes 1: "grows pam l t m A m1 A1" and 2: "grows pam l t m1 A1 m2 A2"
  shows "grows pam l t m A m2 A2"
proof -
  let ?T = "tables pam m l t" and ?T1 = "tables pam m1 l t" and ?T2 = "tables pam m2 l t"
  have s: "A1 \<subseteq> A" "A2 \<subseteq> A1" "?T1 \<subseteq> ?T \<union> (A - A1)" "?T2 \<subseteq> ?T1 \<union> (A1 - A2)"
    using 1 2 by (auto simp: grows_def)
  then have "?T2 \<subseteq> ?T \<union> (A - A2)" by blast
  moreover have "m2 f = m f" if "f \<notin> ?T \<union> (A - A2)" for f
  proof -
    have "f \<notin> ?T \<union> (A - A1)" "f \<notin> ?T1 \<union> (A1 - A2)" using that s by auto
    then have "m1 f = m f" "m2 f = m1 f" using 1 2 by (simp_all add: grows_def)
    then show ?thesis by simp
  qed
  moreover have "A2 \<subseteq> A" using s by blast
  moreover have "tree pam m2 l t" using 2 by (simp add: grows_def)
  ultimately show ?thesis unfolding grows_def by simp
qed

lemma grows_fresh:
  "\<lbrakk>grows pam l t m A m' A'; tables pam m l t \<inter> A = {}\<rbrakk> \<Longrightarrow> tables pam m' l t \<inter> A' = {}"
  unfolding grows_def by blast

text \<open>Changing entries of \<open>t\<close> itself without changing which tables it refers to.\<close>

lemma children_cong:
  assumes l: "l \<noteq> PT" and tr: "tree pam m l t"
    and same: "\<And>f. f \<noteq> t \<Longrightarrow> m' f = m f"
    and sub: "\<And>i. subtable pam m' l t i = subtable pam m l t i"
  shows "tables pam m' l t = tables pam m l t" "tree pam m' l t"
    "subtable pam m l t (addr2index l w) \<noteq> None \<Longrightarrow> v2p pam m' l t w = v2p pam m l t w"
proof -
  have child: "tables pam m' (NextTableType l) c = tables pam m (NextTableType l) c"
      "tree pam m' (NextTableType l) c = tree pam m (NextTableType l) c"
      "v2p pam m' (NextTableType l) c w = v2p pam m (NextTableType l) c w"
    if "subtable pam m l t i = Some c" for i c w
  proof -
    have "t \<notin> tables pam m (NextTableType l) c" using tr that l by (auto simp: tree_step apart_def)
    then have *: "m' f = m f" if "f \<in> tables pam m (NextTableType l) c" for f
      using same that by metis
    show "tables pam m' (NextTableType l) c = tables pam m (NextTableType l) c"
      "tree pam m' (NextTableType l) c = tree pam m (NextTableType l) c"
      "v2p pam m' (NextTableType l) c w = v2p pam m (NextTableType l) c w"
      using subtree_cong[of pam m "NextTableType l" c m', OF *] by blast+
  qed
  show "tables pam m' l t = tables pam m l t"
    using child(1) by (auto simp: tables_step[OF l] sub split: option.splits)
  show "tree pam m' l t" using tr child by (auto simp: tree_step[OF l] apart_def sub)
  show "v2p pam m' l t w = v2p pam m l t w" if "subtable pam m l t (addr2index l w) \<noteq> None"
    using that child(3) v2p_subtable[of pam m l t w] v2p_subtable[of pam m' l t w] by (auto simp: sub)
qed

lemma set_attr_step:
  assumes l: "l \<noteq> PT" and tr: "tree pam m l t" and g: "good_attr attr"
    and i: "subtable pam m l t i = Some c"
  defines "m' \<equiv> put_entry t i (SetAttr attr (m t i)) m"
  shows "grows pam l t m A m' A" "subtable pam m' l t i = Some c" "v2p pam m' l t w = v2p pam m l t w"
    "GetTableAddr pam l (m' t i) = c"
proof -
  have sub: "subtable pam m' l t j = subtable pam m l t j" for j
    using i SetAttr_entry[OF g]
    by (auto simp: m'_def put_entry_def subtable_def split: if_splits)
  have same: "\<And>f. f \<noteq> t \<Longrightarrow> m' f = m f" by (simp add: m'_def put_entry_def)
  note c = children_cong[OF l tr same sub]
  show "grows pam l t m A m' A" using c(1,2) same by (auto simp: grows_def) (metis tables_self)
  show s: "subtable pam m' l t i = Some c" using i sub by simp
  then show "GetTableAddr pam l (m' t i) = c" by (auto simp: subtable_def split: if_splits)
  show "v2p pam m' l t w = v2p pam m l t w"
  proof (cases "subtable pam m l t (addr2index l w)")
    case None
    then have "addr2index l w \<noteq> i" using i by auto
    then have "m' t (addr2index l w) = m t (addr2index l w)" by (simp add: m'_def put_entry_def)
    then show ?thesis using None sub v2p_leaf[of pam m l t w] v2p_leaf[of pam m' l t w] by simp
  qed (simp add: c(3))
qed

text \<open>Linking a cleared table, taken from the available pages, at an entry without one.\<close>

lemma link_step:
  assumes l: "l \<noteq> PT" and tr: "tree pam m l t" and i: "i < 512" "\<not> IsPresent (m t i)"
    and c: "c \<notin> tables pam m l t"
    and e: "IsPresent e" "\<not> IsPage l e" "GetTableAddr pam l e = c"
  defines "m' \<equiv> put_entry t i e (ClearMapping c m)"
  shows "tree pam m' l t" "tables pam m' l t = insert c (tables pam m l t)"
    "subtable pam m' l t i = Some c" "v2p pam m' l t w = v2p pam m l t w"
    "\<And>f. f \<notin> {t, c} \<Longrightarrow> m' f = m f"
proof -
  let ?n = "NextTableType l"
  have ct: "c \<noteq> t" using c by auto
  show same: "\<And>f. f \<notin> {t, c} \<Longrightarrow> m' f = m f" by (simp add: m'_def put_entry_def ClearMapping_def)
  show si: "subtable pam m' l t i = Some c" using i e by (simp add: subtable_def m'_def put_entry_def)
  have ni: "subtable pam m l t i = None" using i by (simp add: subtable_def)
  have sj: "subtable pam m' l t j = subtable pam m l t j" if "j \<noteq> i" for j
    using that ct by (simp add: subtable_def m'_def put_entry_def ClearMapping_def)
  have mc: "m' c k = 0" if "k < 512" for k
    using ct that by (simp add: m'_def put_entry_def ClearMapping_def kNumOfEntries_def)
  have np: "\<not> IsPresent 0" by (simp add: IsPresent_bit)
  have sc: "subtable pam m' k c j = None" for k j using mc np by (auto simp: subtable_def)
  have tc: "tables pam m' ?n c = {c}" by (cases "?n = PT") (auto simp: tables_step sc)
  have trc: "tree pam m' ?n c" by (cases "?n = PT") (auto simp: tree_step sc apart_def)
  have vc: "v2p pam m' ?n c w = kAddrCannotTranslate"
    using v2p_leaf[OF sc] mc[OF addr2index_less] np by simp
  have child: "tables pam m' ?n d = tables pam m ?n d" "tree pam m' ?n d"
      "v2p pam m' ?n d w = v2p pam m ?n d w" "t \<notin> tables pam m ?n d" "c \<notin> tables pam m ?n d"
    if "subtable pam m l t j = Some d" for j d
  proof -
    show t: "t \<notin> tables pam m ?n d" using tr that l by (auto simp: tree_step apart_def)
    show "c \<notin> tables pam m ?n d" using that c tables_iff[OF l] by blast
    with t have *: "m' f = m f" if "f \<in> tables pam m ?n d" for f
      using same[of f] that by auto
    show "tables pam m' ?n d = tables pam m ?n d" "tree pam m' ?n d" "v2p pam m' ?n d w = v2p pam m ?n d w"
      using subtree_cong[of pam m ?n d m', OF *] tr that by (auto simp: tree_step[OF l])
  qed
  have sub': "subtable pam m' l t j = Some d \<longleftrightarrow> (j = i \<and> d = c) \<or> (j \<noteq> i \<and> subtable pam m l t j = Some d)" for j d
    using si sj by (cases "j = i") auto
  show "tables pam m' l t = insert c (tables pam m l t)"
  proof (intro set_eqI iffI)
    fix f assume "f \<in> tables pam m' l t"
    then show "f \<in> insert c (tables pam m l t)"
      unfolding tables_iff[OF l] sub' using child(1) tc tables_iff[OF l] by (elim disjE exE conjE) auto
  next
    fix f assume "f \<in> insert c (tables pam m l t)"
    then consider "f = c" | "f = t" | j d where "subtable pam m l t j = Some d" "f \<in> tables pam m ?n d"
      unfolding insert_iff tables_iff[OF l] by blast
    then show "f \<in> tables pam m' l t"
    proof cases
      case 1
      then show ?thesis unfolding tables_iff[OF l] using si tc by blast
    next
      case (3 j d)
      then have "subtable pam m' l t j = Some d" using ni sub' by auto
      then show ?thesis unfolding tables_iff[OF l] using 3 child(1) by blast
    qed auto
  qed
  have "apart pam m' l t"
    unfolding apart_def
  proof (intro conjI allI impI)
    fix j d assume "subtable pam m' l t j = Some d"
    then show "t \<notin> tables pam m' ?n d" using sub' child(1,4) tc ct by (cases "j = i") auto
  next
    fix j k d e
    assume *: "j \<noteq> k" "subtable pam m' l t j = Some d" "subtable pam m' l t k = Some e"
    then consider "j = i" "d = c" "subtable pam m l t k = Some e"
      | "k = i" "e = c" "subtable pam m l t j = Some d"
      | "subtable pam m l t j = Some d" "subtable pam m l t k = Some e"
      unfolding sub' by blast
    then show "tables pam m' ?n d \<inter> tables pam m' ?n e = {}"
      using child(1,5) tc tree_disjoint[OF tr l] * by cases auto
  qed
  then show "tree pam m' l t" using child(2) trc by (auto simp: tree_step[OF l] sub')
  show "v2p pam m' l t w = v2p pam m l t w"
  proof (cases "addr2index l w = i")
    case True
    then show ?thesis using v2p_subtable[of pam m' l t w c] si vc ni i v2p_leaf[of pam m l t w] by simp
  next
    case False
    show ?thesis
    proof (cases "subtable pam m l t (addr2index l w)")
      case None
      moreover have "m' t (addr2index l w) = m t (addr2index l w)"
        using False ct by (simp add: m'_def put_entry_def ClearMapping_def)
      ultimately show ?thesis using False sj v2p_leaf[of pam m l t w] v2p_leaf[of pam m' l t w] by simp
    next
      case (Some d)
      then show ?thesis using False sj child(3) v2p_subtable[of pam m l t w] v2p_subtable[of pam m' l t w] by simp
    qed
  qed
qed

text \<open>Growing a child subtree grows the tree.\<close>

lemma lift_step:
  assumes l: "l \<noteq> PT" and tr: "tree pam m l t" and A: "tables pam m l t \<inter> A = {}"
    and i: "subtable pam m l t i = Some c" and g: "grows pam (NextTableType l) c m A m' A'"
  shows "grows pam l t m A m' A'" "subtable pam m' l t j = subtable pam m l t j"
    "v2p pam m' l t w = (if addr2index l w = i then v2p pam m' (NextTableType l) c w else v2p pam m l t w)"
proof -
  let ?n = "NextTableType l"
  have out: "m' f = m f" if "f \<notin> tables pam m ?n c \<union> (A - A')" for f
    using g that by (auto simp: grows_def)
  have g': "A' \<subseteq> A" "tree pam m' ?n c" "tables pam m' ?n c \<subseteq> tables pam m ?n c \<union> (A - A')"
    using g by (auto simp: grows_def)
  have tt: "t \<notin> tables pam m ?n c" using tr i by (auto simp: tree_step[OF l] apart_def)
  have tA: "t \<notin> A" using A by auto
  then have mt: "m' t = m t" using out tt by blast
  have sub: "subtable pam m' l t j = subtable pam m l t j" for j using mt by (rule subtable_cong)
  show "subtable pam m' l t j = subtable pam m l t j" by (rule sub)
  have child: "tables pam m' ?n d = tables pam m ?n d" "tree pam m' ?n d"
      "v2p pam m' ?n d w = v2p pam m ?n d w" "tables pam m ?n d \<inter> tables pam m ?n c = {}"
      "tables pam m ?n d \<inter> A = {}"
    if "subtable pam m l t j = Some d" "j \<noteq> i" for j d
  proof -
    show 1: "tables pam m ?n d \<inter> tables pam m ?n c = {}" using tr that i by (auto simp: tree_step[OF l] apart_def)
    show 2: "tables pam m ?n d \<inter> A = {}" using A that tables_iff[OF l] by blast
    have *: "m' f = m f" if "f \<in> tables pam m ?n d" for f using out 1 2 that by blast
    show "tables pam m' ?n d = tables pam m ?n d" "tree pam m' ?n d" "v2p pam m' ?n d w = v2p pam m ?n d w"
      using subtree_cong[of pam m ?n d m', OF *] tr that by (auto simp: tree_step[OF l])
  qed
  have tab: "tables pam m' l t \<subseteq> tables pam m l t \<union> (A - A')"
  proof
    fix f assume "f \<in> tables pam m' l t"
    then consider "f = t" | j d where "subtable pam m l t j = Some d" "f \<in> tables pam m' ?n d"
      by (auto simp: tables_iff[OF l] sub)
    then show "f \<in> tables pam m l t \<union> (A - A')"
    proof cases
      case (2 j d)
      then show ?thesis using g'(3) i child(1) by (cases "j = i") (auto simp: tables_iff[OF l])
    qed auto
  qed
  have notin: "t \<notin> tables pam m' ?n d" if "subtable pam m l t j = Some d" for j d
    using that i g'(3) tt tA child(1) tr by (cases "j = i") (auto simp: tree_step[OF l] apart_def)
  have disj: "tables pam m' ?n d \<inter> tables pam m' ?n d' = {}"
    if "subtable pam m l t j = Some d" "subtable pam m l t j' = Some d'" "j \<noteq> j'" for j j' d d'
  proof -
    have ic: "tables pam m' ?n e \<inter> tables pam m' ?n c = {}" if "subtable pam m l t k = Some e" "k \<noteq> i" for k e
      using child[OF that] g'(3) by blast
    show ?thesis
    proof (cases "j = i \<or> j' = i")
      case True
      then show ?thesis using ic that i by (metis Int_commute option.inject)
    next
      case False
      then show ?thesis using child(1) that tr by (auto simp: tree_step[OF l] apart_def)
    qed
  qed
  have "tree pam m' l t"
    using notin disj child(2) g'(2) i unfolding tree_step[OF l] apart_def sub by (metis option.inject)
  moreover have "\<forall>f. f \<notin> tables pam m l t \<union> (A - A') \<longrightarrow> m' f = m f"
    using out i by (auto simp: tables_iff[OF l])
  ultimately show "grows pam l t m A m' A'" using tab g'(1) by (simp add: grows_def)
  show "v2p pam m' l t w = (if addr2index l w = i then v2p pam m' ?n c w else v2p pam m l t w)"
  proof (cases "subtable pam m l t (addr2index l w)")
    case None
    then have "addr2index l w \<noteq> i" using i by auto
    then show ?thesis using None sub mt v2p_leaf[of pam m l t w] v2p_leaf[of pam m' l t w] by simp
  next
    case (Some d)
    then show ?thesis
      using i sub child(3) v2p_subtable[of pam m l t w] v2p_subtable[of pam m' l t w] by auto
  qed
qed

end
