(* ===== verification/Page_Mapping.thy ===== *)
theory Page_Mapping
  imports Page_Trees
begin

text \<open>
  The correctness of \<open>CreatePageMapping\<close>: counting the pages a loop maps, the effect of writing a
  page entry, the interface \<open>page_source\<close> of the allocator which the code is a template over, the
  four nested loops, and the interpretation on the physical page allocator.
\<close>

section \<open>Counting pages\<close>

text \<open>Pages from \<open>va\<close> to the end of what one entry covers, and those a loop will map.\<close>

definition chunk_room :: "pt_level \<Rightarrow> u64 \<Rightarrow> nat" where
  "chunk_room l va = (2 ^ kIndexShift l - reg l va mod 2 ^ kIndexShift l) div 4096"

definition pages :: "pt_level \<Rightarrow> nat \<Rightarrow> u64 \<Rightarrow> u64 \<Rightarrow> nat" where
  "pages l idx va n = (if idx < 512 then min (unat n) (room l va) else 0)"

lemma chunk_room_next: "l \<noteq> PT \<Longrightarrow> chunk_room l va = room (NextTableType l) va"
  by (simp add: chunk_room_def room_def span_next reg_next)

lemma chunk_room_PT: "4096 dvd unat va \<Longrightarrow> chunk_room PT va = 1"
  using reg_aligned[of va PT] by (simp add: chunk_room_def dvd_eq_mod_eq_0)

definition shift_addr :: "u64 \<Rightarrow> nat \<Rightarrow> u64" where
  "shift_addr a x = a + of_nat x"

lemma shift_addr_0 [simp]: "shift_addr a 0 = a"
  by (simp add: shift_addr_def)

lemma shift_addr_shift [simp]: "shift_addr (shift_addr a x) y = shift_addr a (x + y)"
  by (simp add: shift_addr_def add.assoc)

lemma reg_shift: "x < 2 ^ 64 \<Longrightarrow> reg l (shift_addr va x) = (reg l va + x) mod span l"
  by (simp add: shift_addr_def reg_add unat_of_nat)

lemma unat_shift_addr: "unat a + x < 2 ^ 64 \<Longrightarrow> unat (shift_addr a x) = unat a + x"
  by (simp add: shift_addr_def unat_word_ariths unat_of_nat)

lemma pages_step:
  fixes va n n1 :: u64
  assumes al: "4096 dvd unat va" and idx: "addr2index l va = idx" and n: "n \<noteq> 0"
    and k: "k = min (unat n) (chunk_room l va)" and n1: "unat n1 = unat n - k"
  defines "va1 \<equiv> shift_addr va (4096 * k)"
  shows "k + pages l (idx + 1) va1 n1 = min (unat n) (room l va)"
    and "idx + 1 < 512 \<Longrightarrow> n1 \<noteq> 0 \<Longrightarrow> addr2index l va1 = idx + 1"
    and "0 < k" "k \<le> unat n" "reg l va + 4096 * min (unat n) (room l va) \<le> span l"
    and "reg l va mod 2 ^ kIndexShift l + 4096 * k \<le> 2 ^ kIndexShift l"
proof -
  define c :: nat where "c = 2 ^ (kIndexShift l - 12)"
  have C: "2 ^ kIndexShift l = 4096 * c" by (cases l) (auto simp: c_def)
  have c0: "0 < c" by (simp add: c_def)
  obtain q where q: "reg l va = 4096 * q" using reg_aligned[OF al] by (auto elim: dvdE)
  define i where "i = q div c"
  define r where "r = q mod c"
  have qi: "q = i * c + r" by (simp add: i_def r_def)
  have r: "r < c" using c0 by (simp add: r_def)
  have sp: "span l = 4096 * (512 * c)" by (simp add: span_shift C)
  have q512: "q < 512 * c" using reg_less[of l va] q sp by simp
  have i: "idx = i" using idx by (simp add: addr2index_reg C q i_def)
  have i512: "i < 512" using q512 by (simp add: i_def less_mult_imp_div_less)
  then have ic: "i * c + c \<le> 512 * c" using mult_le_mono1[of "i + 1" 512 c] by simp
  have cr: "chunk_room l va = c - r"
    by (simp add: chunk_room_def C q r_def mod_mult_mult1 flip: diff_mult_distrib2)
  have ro: "room l va = 512 * c - q" by (simp add: room_def sp q flip: diff_mult_distrib2)
  have un: "0 < unat n" using n by (simp add: unat_gt_0)
  show k0: "0 < k" using k cr r un by simp
  show "k \<le> unat n" using k by simp
  show "reg l va + 4096 * min (unat n) (room l va) \<le> span l" using q ro sp q512 by (auto simp: min_def)
  have kc: "k \<le> c - r" using k cr by simp
  show "reg l va mod 2 ^ kIndexShift l + 4096 * k \<le> 2 ^ kIndexShift l"
    using kc r by (simp add: C q mod_mult_mult1 r_def[symmetric])
  have c64: "4096 * c \<le> 2 ^ 39" by (cases l) (auto simp: c_def)
  have u: "4096 * k < 2 ^ 64" using kc c64 by simp
  have full: "reg l va1 = (4096 * ((i + 1) * c)) mod (4096 * (512 * c))" if "k = c - r"
  proof -
    have "4096 * q + 4096 * k = 4096 * ((i + 1) * c)" using that r by (simp add: qi algebra_simps)
    then show ?thesis using reg_shift[OF u, of l va] by (simp add: va1_def sp q)
  qed
  have b: "i + 1 < 512 \<and> n1 \<noteq> 0 \<longrightarrow> addr2index l va1 = idx + 1 \<and> room l va1 = 512 * c - (i + 1) * c"
  proof
    assume a: "i + 1 < 512 \<and> n1 \<noteq> 0"
    then have "0 < unat n1" by (simp add: unat_gt_0)
    then have kk: "k = c - r" using n1 k cr by (auto simp: min_def split: if_splits)
    have "(i + 1) * c < 512 * c" using a c0 by (simp add: mult_less_mono1)
    then have "reg l va1 = 4096 * ((i + 1) * c)" using full[OF kk] by simp
    then show "addr2index l va1 = idx + 1 \<and> room l va1 = 512 * c - (i + 1) * c"
      using c0 i by (simp add: addr2index_reg C room_def sp flip: diff_mult_distrib2)
  qed
  then show "idx + 1 < 512 \<Longrightarrow> n1 \<noteq> 0 \<Longrightarrow> addr2index l va1 = idx + 1" using i by simp
  show "k + pages l (idx + 1) va1 n1 = min (unat n) (room l va)"
  proof (cases "n1 = 0")
    case True
    then have "unat n \<le> k" using n1 by simp
    moreover have "c - r \<le> room l va" using ro qi ic by linarith
    ultimately show ?thesis using True k cr by (auto simp: pages_def)
  next
    case False
    then have "0 < unat n1" by (simp add: unat_gt_0)
    then have kk: "k = c - r" "k < unat n" using n1 k cr by (auto simp: min_def split: if_splits)
    show ?thesis
    proof (cases "i + 1 < 512")
      case True
      then have "room l va1 = 512 * c - (i * c + c)" using b False by simp
      moreover have "room l va = 512 * c - (i * c + r)" using ro qi by simp
      ultimately have "room l va = k + room l va1" using kk(1) ic r by linarith
      then show ?thesis using True i kk(2) n1 by (auto simp: pages_def min_def)
    next
      case ge: False
      then have "i = 511" using i512 by simp
      then have "room l va = c - r" using ro qi by simp
      then show ?thesis using ge i kk by (simp add: pages_def)
    qed
  qed
qed

section \<open>Mapping a range\<close>

definition mapped :: "u64 \<Rightarrow> pt_level \<Rightarrow> u64 \<Rightarrow> u64 \<Rightarrow> u64 \<Rightarrow> nat \<Rightarrow> ptmem \<Rightarrow> ptmem \<Rightarrow> bool" where
  "mapped pam l t va pa k m m' \<longleftrightarrow> (\<forall>w. v2p pam m' l t w =
     (if reg l va \<le> reg l w \<and> reg l w < reg l va + 4096 * k then shift_addr pa (reg l w - reg l va)
      else v2p pam m l t w))"

lemma mapped_0 [simp]: "mapped pam l t va pa 0 m m' \<longleftrightarrow> (\<forall>w. v2p pam m' l t w = v2p pam m l t w)"
  by (auto simp: mapped_def)

lemma mapped_trans:
  assumes 1: "mapped pam l t va pa k m m1"
    and 2: "mapped pam l t (shift_addr va (4096 * k)) (shift_addr pa (4096 * k)) k' m1 m2"
    and fits: "reg l va + 4096 * (k + k') \<le> span l"
  shows "mapped pam l t va pa (k + k') m m2"
proof (cases "k' = 0")
  case True
  have "v2p pam m2 l t w = v2p pam m1 l t w" for w using 2 True by simp
  then show ?thesis using 1 True by (simp add: mapped_def)
next
  case False
  have "span l \<le> 2 ^ 48" by (cases l) auto
  then have "4096 * k < 2 ^ 64" using fits by simp
  moreover have "reg l va + 4096 * k < span l" using fits False by simp
  ultimately have r: "reg l (shift_addr va (4096 * k)) = reg l va + 4096 * k"
    by (simp add: reg_shift)
  show ?thesis
    unfolding mapped_def
  proof
    fix w
    have v1: "v2p pam m1 l t w = (if reg l va \<le> reg l w \<and> reg l w < reg l va + 4096 * k
        then shift_addr pa (reg l w - reg l va) else v2p pam m l t w)"
      using 1 by (simp only: mapped_def)
    have v2: "v2p pam m2 l t w = (if reg l va + 4096 * k \<le> reg l w \<and> reg l w < reg l va + 4096 * k + 4096 * k'
        then shift_addr pa (4096 * k + (reg l w - (reg l va + 4096 * k))) else v2p pam m1 l t w)"
      using 2 by (simp only: mapped_def r shift_addr_shift)
    show "v2p pam m2 l t w = (if reg l va \<le> reg l w \<and> reg l w < reg l va + 4096 * (k + k')
      then shift_addr pa (reg l w - reg l va) else v2p pam m l t w)"
    proof (cases "reg l w < reg l va + 4096 * k")
      case True
      then show ?thesis unfolding v2 v1 by simp
    next
      case False
      then have "4096 * k + (reg l w - (reg l va + 4096 * k)) = reg l w - reg l va" by simp
      then show ?thesis unfolding v2 v1 using False by (simp add: algebra_simps)
    qed
  qed
qed

lemma mapped_lift:
  assumes l: "l \<noteq> PT" and sub: "subtable pam m l t i = Some c" and i: "addr2index l va = i"
    and m: "mapped pam (NextTableType l) c va pa k m m'"
    and v: "\<And>w. v2p pam m' l t w = (if addr2index l w = i then v2p pam m' (NextTableType l) c w else v2p pam m l t w)"
    and fits: "reg (NextTableType l) va + 4096 * k \<le> span (NextTableType l)"
  shows "mapped pam l t va pa k m m'"
  unfolding mapped_def
proof
  fix w
  let ?n = "NextTableType l" and ?C = "(2::nat) ^ kIndexShift l"
  have sp: "span ?n = ?C" using l by (rule span_next)
  have rv: "reg l va = i * ?C + reg ?n va" using reg_split[OF l, of va] i by simp
  have rw: "reg l w = addr2index l w * ?C + reg ?n w" using reg_split[OF l, of w] by simp
  have wl: "reg ?n w < ?C" using reg_less[of ?n w] sp by simp
  show "v2p pam m' l t w = (if reg l va \<le> reg l w \<and> reg l w < reg l va + 4096 * k
      then shift_addr pa (reg l w - reg l va) else v2p pam m l t w)"
  proof (cases "addr2index l w = i")
    case True
    then have "v2p pam m l t w = v2p pam m ?n c w" using v2p_subtable[of pam m l t w c] sub by simp
    then show ?thesis using True m v rv rw by (simp add: mapped_def)
  next
    case False
    have "\<not> (reg l va \<le> reg l w \<and> reg l w < reg l va + 4096 * k)"
    proof (cases "addr2index l w < i")
      case True
      then have "addr2index l w * ?C + ?C \<le> i * ?C"
        using mult_le_mono1[of "addr2index l w + 1" i ?C] by simp
      then show ?thesis using rv rw wl by linarith
    next
      case ge: False
      then have "i * ?C + ?C \<le> addr2index l w * ?C"
        using False mult_le_mono1[of "i + 1" "addr2index l w" ?C] by simp
      then show ?thesis using rv rw fits sp by linarith
    qed
    then have "(if reg l va \<le> reg l w \<and> reg l w < reg l va + 4096 * k
      then shift_addr pa (reg l w - reg l va) else v2p pam m l t w) = v2p pam m l t w" by (rule if_not_P)
    then show ?thesis using False v[of w] by simp
  qed
qed

section \<open>Writing a page entry\<close>

lemma page_step:
  assumes tr: "tree pam m l t" and i: "subtable pam m l t i = None" and e: "IsPresent e" "IsPage l e"
  defines "m' \<equiv> put_entry t i e m"
  shows "grows pam l t m A m' A"
    and "v2p pam m' l t w = (if addr2index l w = i then GetPageBaseAddr pam l e OR (w AND kOffsetMask l)
           else v2p pam m l t w)"
proof -
  have same: "m' f = m f" if "f \<noteq> t" for f using that by (simp add: m'_def put_entry_def)
  have sub: "subtable pam m' l t j = subtable pam m l t j" for j
    using i e by (auto simp: m'_def put_entry_def subtable_def split: if_splits)
  show "grows pam l t m A m' A"
  proof (cases "l = PT")
    case True
    then show ?thesis using same by (auto simp: grows_def)
  next
    case False
    note c = children_cong(1,2)[OF False tr same sub]
    show ?thesis using c same by (auto simp: grows_def) (metis tables_self)
  qed
  show "v2p pam m' l t w = (if addr2index l w = i then GetPageBaseAddr pam l e OR (w AND kOffsetMask l)
           else v2p pam m l t w)"
  proof (cases "subtable pam m l t (addr2index l w)")
    case None
    then show ?thesis using v2p_leaf[of pam m l t w] v2p_leaf[of pam m' l t w] sub e
      by (simp add: m'_def put_entry_def)
  next
    case (Some c)
    then have "addr2index l w \<noteq> i" "l \<noteq> PT" using i by auto
    then show ?thesis using children_cong(3)[OF _ tr same sub] Some by simp
  qed
qed

lemma page_offset:
  fixes pa w :: u64
  assumes "pa AND mask s = 0"
  shows "pa OR (w AND mask s) = shift_addr pa (unat w mod 2 ^ s)"
proof -
  have "pa OR (w AND mask s) = pa + (w AND mask s)"
    using assms by (subst disjunctive_add) (auto simp: eq_0_bit bit_simps)
  moreover have "w AND mask s = of_nat (unat w mod 2 ^ s)"
    using unat_and_mask[of w s] by (metis of_nat_unat ucast_id)
  ultimately show ?thesis by (simp only: shift_addr_def)
qed

lemma page_mapped:
  assumes g: "good_attr attr" and w: "SetPageBaseAddr (mask b) l pa attr (m t i) = Ok e" and l: "l \<noteq> PML4"
    and tr: "tree (mask b) m l t" and i: "subtable (mask b) m l t i = None"
    and va: "addr2index l va = i" "2 ^ kIndexShift l dvd unat va" and pa: "unat pa < 2 ^ b"
    and k: "4096 * k = 2 ^ kIndexShift l"
  shows "mapped (mask b) l t va pa k m (put_entry t i e m)"
    and "grows (mask b) l t m A (put_entry t i e m) A"
proof -
  let ?C = "(2::nat) ^ kIndexShift l"
  note e = SetPageBaseAddr_entry[OF g w l]
  show "grows (mask b) l t m A (put_entry t i e m) A" by (rule page_step(1)[OF tr i e(1,2)])
  have al: "pa AND mask (kIndexShift l) = 0"
    using w by (auto simp: SetPageBaseAddr_def res_simps kOffsetMask_eq)
  have "pa AND mask b = pa"
    using unat_and_mask[of pa b] pa by (simp add: word_unat_eq_iff)
  then have base: "GetPageBaseAddr (mask b) l e = pa" using e(3) by simp
  have "?C dvd span l" by (simp add: span_shift)
  then have "?C dvd reg l va" using va(2) by (simp add: reg_def dvd_mod)
  then have rv: "reg l va = i * ?C" using va(1) by (metis addr2index_reg dvd_div_mult_self)
  show "mapped (mask b) l t va pa k m (put_entry t i e m)"
    unfolding mapped_def
  proof
    fix w
    have rw: "reg l w = addr2index l w * ?C + reg l w mod ?C"
      using div_mult_mod_eq[of "reg l w" ?C] by (metis addr2index_reg)
    have md: "reg l w mod ?C = unat w mod ?C"
      by (simp add: reg_def span_shift mod_mod_cancel)
    have lt: "reg l w mod ?C < ?C" by simp
    have v: "v2p (mask b) (put_entry t i e m) l t w = (if addr2index l w = i
        then shift_addr pa (unat w mod ?C) else v2p (mask b) m l t w)"
      using page_step(2)[OF tr i e(1,2), of w] page_offset[OF al, of w] base
      by (simp only: kOffsetMask_eq)
    have inr: "reg l va \<le> reg l w \<and> reg l w < reg l va + 4096 * k \<longleftrightarrow> addr2index l w = i"
    proof
      assume "reg l va \<le> reg l w \<and> reg l w < reg l va + 4096 * k"
      then have "i * ?C \<le> reg l w" "reg l w < (i + 1) * ?C" using rv k by simp_all
      then show "addr2index l w = i" unfolding addr2index_reg
        by (metis Suc_eq_plus1 div_nat_eqI mult.commute)
    next
      assume "addr2index l w = i"
      then have "reg l w = i * ?C + reg l w mod ?C" using rw by simp
      then show "reg l va \<le> reg l w \<and> reg l w < reg l va + 4096 * k" using rv lt k by linarith
    qed
    have "addr2index l w = i \<Longrightarrow> reg l w - reg l va = unat w mod ?C" using rv rw md by simp
    then show "v2p (mask b) (put_entry t i e m) l t w =
      (if reg l va \<le> reg l w \<and> reg l w < reg l va + 4096 * k then shift_addr pa (reg l w - reg l va)
       else v2p (mask b) m l t w)"
      unfolding inr v by simp
  qed
qed

section \<open>Progress of the loops\<close>

definition cursor_ok :: "nat \<Rightarrow> u64 \<Rightarrow> u64 \<Rightarrow> u64 \<Rightarrow> bool" where
  "cursor_ok b va pa n \<longleftrightarrow> 4096 dvd unat va \<and> 4096 dvd unat pa \<and> unat pa + 4096 * unat n \<le> 2 ^ b \<and> b < 64"

definition usable :: "('a \<Rightarrow> u64 set) \<Rightarrow> ('a \<Rightarrow> bool) \<Rightarrow> u64 \<Rightarrow> pt_level \<Rightarrow> u64 \<Rightarrow> 'a pg_state \<Rightarrow> bool" where
  "usable avail ok pam l t s \<longleftrightarrow> ok (pg_alloc s) \<and> tree pam (pg_mem s) l t \<and>
     tables pam (pg_mem s) l t \<inter> avail (pg_alloc s) = {}"

definition evolves ::
    "('a \<Rightarrow> u64 set) \<Rightarrow> ('a \<Rightarrow> bool) \<Rightarrow> u64 \<Rightarrow> pt_level \<Rightarrow> u64 \<Rightarrow> 'a pg_state \<Rightarrow> 'a pg_state \<Rightarrow> bool" where
  "evolves avail ok pam l t s s' \<longleftrightarrow> ok (pg_alloc s') \<and>
     grows pam l t (pg_mem s) (avail (pg_alloc s)) (pg_mem s') (avail (pg_alloc s'))"

lemma evolves_usable:
  "\<lbrakk>usable avail ok pam l t s; evolves avail ok pam l t s s'\<rbrakk> \<Longrightarrow> usable avail ok pam l t s'"
  unfolding usable_def evolves_def using grows_fresh by (auto simp: grows_def)

lemma evolves_refl: "usable avail ok pam l t s \<Longrightarrow> evolves avail ok pam l t s s"
  by (simp add: evolves_def usable_def grows_refl)

lemma evolves_trans:
  "\<lbrakk>evolves avail ok pam l t s s1; evolves avail ok pam l t s1 s2\<rbrakk> \<Longrightarrow> evolves avail ok pam l t s s2"
  unfolding evolves_def using grows_trans by blast

fun advance ::
    "('a \<Rightarrow> u64 set) \<Rightarrow> ('a \<Rightarrow> bool) \<Rightarrow> u64 \<Rightarrow> pt_level \<Rightarrow> u64 \<Rightarrow> nat \<Rightarrow> 'a cursor \<Rightarrow> 'a cursor \<Rightarrow> bool" where
  "advance avail ok pam l t k (va, pa, n, s) (va', pa', n', s') \<longleftrightarrow>
     va' = shift_addr va (4096 * k) \<and> pa' = shift_addr pa (4096 * k) \<and>
     k \<le> unat n \<and> unat n' = unat n - k \<and> evolves avail ok pam l t s s' \<and>
     mapped pam l t va pa k (pg_mem s) (pg_mem s')"

lemma advance_0:
  "\<lbrakk>evolves avail ok pam l t s s'; \<And>w. v2p pam (pg_mem s') l t w = v2p pam (pg_mem s) l t w\<rbrakk> \<Longrightarrow>
   advance avail ok pam l t 0 (va, pa, n, s) (va, pa, n, s')"
  by simp

lemma advance_trans:
  assumes "advance avail ok pam l t k (va, pa, n, s) (va1, pa1, n1, s1)"
    and "advance avail ok pam l t k' (va1, pa1, n1, s1) c"
    and "reg l va + 4096 * (k + k') \<le> span l"
  shows "advance avail ok pam l t (k + k') (va, pa, n, s) c"
proof -
  obtain va2 pa2 n2 s2 where c: "c = (va2, pa2, n2, s2)" by (metis prod_cases4)
  have 1: "va1 = shift_addr va (4096 * k)" "pa1 = shift_addr pa (4096 * k)" "k \<le> unat n"
    "unat n1 = unat n - k" "evolves avail ok pam l t s s1" "mapped pam l t va pa k (pg_mem s) (pg_mem s1)"
    using assms(1) by simp_all
  have 2: "va2 = shift_addr va1 (4096 * k')" "pa2 = shift_addr pa1 (4096 * k')" "k' \<le> unat n1"
    "unat n2 = unat n1 - k'" "evolves avail ok pam l t s1 s2" "mapped pam l t va1 pa1 k' (pg_mem s1) (pg_mem s2)"
    using assms(2) c by simp_all
  have "mapped pam l t va pa (k + k') (pg_mem s) (pg_mem s2)"
    using mapped_trans[OF 1(6) _ assms(3)] 2(6) 1(1,2) by simp
  then show ?thesis using 1 2 c evolves_trans[OF 1(5) 2(5)] by (simp add: algebra_simps)
qed

lemma cursor_ok_advance:
  assumes "cursor_ok b va pa n" "advance avail ok pam l t k (va, pa, n, s) (va1, pa1, n1, s1)"
  shows "cursor_ok b va1 pa1 n1"
proof -
  have al: "4096 dvd unat va" "4096 dvd unat pa" and le: "unat pa + 4096 * unat n \<le> 2 ^ b" and b: "b < 64"
    using assms(1) by (auto simp: cursor_ok_def)
  have k: "k \<le> unat n" "unat n1 = unat n - k" using assms(2) by auto
  have d: "4096 dvd unat (shift_addr x (4096 * k))" if "4096 dvd unat x" for x
  proof -
    have "unat (shift_addr x (4096 * k)) = (unat x + 4096 * k) mod 2 ^ 64"
      by (simp add: shift_addr_def unat_word_ariths unat_of_nat mod_add_right_eq del: of_nat_mult)
    moreover have "(4096::nat) dvd 2 ^ 64" by simp
    ultimately show ?thesis using that by (metis dvd_add dvd_mod dvd_triv_left)
  qed
  have "(2::nat) ^ b < 2 ^ 64" using b by (rule power_strict_increasing) simp
  then have "unat (shift_addr pa (4096 * k)) = unat pa + 4096 * k"
    using le k by (intro unat_shift_addr) linarith
  then show ?thesis using al d le k b assms(2) by (simp add: cursor_ok_def)
qed

section \<open>The interface of a page allocator\<close>

text \<open>
  What building page tables relies on: an allocated page is one of the available ones, and it
  and the pages that left are not available afterwards.
\<close>

locale page_source =
  fixes alloc :: "'a \<Rightarrow> (u64 \<times> 'a) res"
    and avail :: "'a \<Rightarrow> u64 set"
    and ok :: "'a \<Rightarrow> bool"
  assumes alloc_page:
    "\<lbrakk>ok a; alloc a = Inr (p, a')\<rbrakk> \<Longrightarrow> p \<in> avail a \<and> avail a' \<subseteq> avail a - {p} \<and> ok a'"
begin

lemma ensure_table_step:
  assumes l: "l \<noteq> PT" and g: "good_attr attr" and u: "usable avail ok pam l t s" and i: "i < 512"
    and run: "ensure_table pam alloc l attr t i s = Inr s1"
  shows "evolves avail ok pam l t s s1" "IsPresent (pg_mem s1 t i)"
    "v2p pam (pg_mem s1) l t w = v2p pam (pg_mem s) l t w"
proof -
  have "evolves avail ok pam l t s s1 \<and> IsPresent (pg_mem s1 t i) \<and>
    v2p pam (pg_mem s1) l t w = v2p pam (pg_mem s) l t w"
  proof (cases "IsPresent (pg_mem s t i)")
    case True
    then show ?thesis using run u evolves_refl by (simp add: ensure_table_def)
  next
    case False
    obtain p a' e where al: "alloc (pg_alloc s) = Inr (p, a')" and e: "SetTableAddr pam l p attr = Inr e"
      and s1: "s1 = set_pg_entry t i e (s\<lparr>pg_alloc := a', pg_mem := ClearMapping p (pg_mem s)\<rparr>)"
      using run False by (auto simp: ensure_table_def new_table_def res_simps)
    have ok: "ok (pg_alloc s)" and tr: "tree pam (pg_mem s) l t"
      and fr: "tables pam (pg_mem s) l t \<inter> avail (pg_alloc s) = {}" using u by (auto simp: usable_def)
    have pg: "p \<in> avail (pg_alloc s)" "avail a' \<subseteq> avail (pg_alloc s) - {p}" "ok a'"
      using alloc_page[OF ok al] by auto
    have np: "p \<notin> tables pam (pg_mem s) l t" using fr pg by blast
    have m: "pg_mem s1 = put_entry t i e (ClearMapping p (pg_mem s))" "pg_alloc s1 = a'"
      by (simp_all add: s1 set_pg_entry_def)
    note ls = link_step[OF l tr i False np SetTableAddr_entry[OF g e l], folded m(1)]
    have "grows pam l t (pg_mem s) (avail (pg_alloc s)) (pg_mem s1) (avail a')"
      unfolding grows_def
    proof (intro conjI allI impI)
      show "avail a' \<subseteq> avail (pg_alloc s)" using pg by blast
      show "tree pam (pg_mem s1) l t" by (rule ls(1))
      show "tables pam (pg_mem s1) l t \<subseteq> tables pam (pg_mem s) l t \<union> (avail (pg_alloc s) - avail a')"
        using ls(2) pg by auto
      fix f assume "f \<notin> tables pam (pg_mem s) l t \<union> (avail (pg_alloc s) - avail a')"
      then have "f \<notin> {t, p}" using pg by auto
      then show "pg_mem s1 f = pg_mem s f" by (rule ls(5))
    qed
    moreover have "IsPresent (pg_mem s1 t i)" using ls(3) by (auto simp: subtable_def split: if_splits)
    ultimately show ?thesis using pg m ls(4) by (simp add: evolves_def)
  qed
  then show "evolves avail ok pam l t s s1" "IsPresent (pg_mem s1 t i)"
    "v2p pam (pg_mem s1) l t w = v2p pam (pg_mem s) l t w" by auto
qed

lemma enter_table:
  assumes l: "l \<noteq> PT" and g: "good_attr attr" and u: "usable avail ok pam l t s" and i: "i < 512"
    and run: "ensure_table pam alloc l attr t i s = Inr s1"
    and e: "e = SetAttr attr (pg_mem s1 t i)" "\<not> IsPage l e"
    and s2: "pg_mem s2 = put_entry t i e (pg_mem s1)" "pg_alloc s2 = pg_alloc s1"
  shows "evolves avail ok pam l t s s2" "subtable pam (pg_mem s2) l t i = Some (GetTableAddr pam l e)"
    "v2p pam (pg_mem s2) l t w = v2p pam (pg_mem s) l t w"
proof -
  note 1 = ensure_table_step[OF l g u i run]
  have u1: "usable avail ok pam l t s1" by (rule evolves_usable[OF u 1(1)])
  have "\<not> IsPage l (pg_mem s1 t i)" using e SetAttr_entry(2)[OF g] by simp
  then have sub: "subtable pam (pg_mem s1) l t i = Some (GetTableAddr pam l (pg_mem s1 t i))"
    using 1(2) i by (simp add: subtable_def)
  have tr: "tree pam (pg_mem s1) l t" using u1 by (simp add: usable_def)
  note 2 = set_attr_step[OF l tr g sub, folded e(1), folded s2(1)]
  have "evolves avail ok pam l t s1 s2" using 2(1) u1 s2(2) by (simp add: evolves_def usable_def)
  then show "evolves avail ok pam l t s s2" by (rule evolves_trans[OF 1(1)])
  show "subtable pam (pg_mem s2) l t i = Some (GetTableAddr pam l e)"
    using 2(2) SetAttr_entry(3)[OF g] e by simp
  show "v2p pam (pg_mem s2) l t w = v2p pam (pg_mem s) l t w" using 1(3) 2(3) by simp
qed

lemma usable_child:
  assumes "l \<noteq> PT" "usable avail ok pam l t s" "subtable pam (pg_mem s) l t i = Some c"
  shows "usable avail ok pam (NextTableType l) c s"
  using assms tables_iff[OF assms(1)] unfolding usable_def tree_step[OF assms(1)] by blast

text \<open>One entry of a table at level \<open>l\<close>: the pages mapped below it are mapped at level \<open>l\<close>.\<close>

lemma descend:
  assumes l: "l \<noteq> PT" and u: "usable avail ok pam l t s" and u2: "evolves avail ok pam l t s s2"
    and v: "\<And>w. v2p pam (pg_mem s2) l t w = v2p pam (pg_mem s) l t w"
    and sub: "subtable pam (pg_mem s2) l t i = Some c" and i: "addr2index l va = i"
    and adv: "advance avail ok pam (NextTableType l) c k (va, pa, n, s2) (va1, pa1, n1, s3)"
    and fits: "reg (NextTableType l) va + 4096 * k \<le> span (NextTableType l)"
  shows "advance avail ok pam l t k (va, pa, n, s) (va1, pa1, n1, s3)"
proof -
  have us2: "usable avail ok pam l t s2" by (rule evolves_usable[OF u u2])
  then have tr: "tree pam (pg_mem s2) l t" and fr: "tables pam (pg_mem s2) l t \<inter> avail (pg_alloc s2) = {}"
    by (auto simp: usable_def)
  have ev: "evolves avail ok pam (NextTableType l) c s2 s3"
    and mp: "mapped pam (NextTableType l) c va pa k (pg_mem s2) (pg_mem s3)" using adv by auto
  note ls = lift_step[OF l tr fr sub, of "pg_mem s3" "avail (pg_alloc s3)"]
  have gr: "grows pam (NextTableType l) c (pg_mem s2) (avail (pg_alloc s2)) (pg_mem s3) (avail (pg_alloc s3))"
    using ev by (simp add: evolves_def)
  have "evolves avail ok pam l t s2 s3" using ls(1)[OF gr] ev by (simp add: evolves_def)
  then have "evolves avail ok pam l t s s3" by (rule evolves_trans[OF u2])
  moreover have "mapped pam l t va pa k (pg_mem s2) (pg_mem s3)"
    by (rule mapped_lift[OF l sub i mp ls(3)[OF gr] fits])
  then have "mapped pam l t va pa k (pg_mem s) (pg_mem s3)" using v by (simp add: mapped_def)
  ultimately show ?thesis using adv by simp
qed

text \<open>One iteration and the rest of the loop.\<close>

lemma iterate:
  assumes c: "cursor_ok b va pa n" and u: "usable avail ok pam l t s"
    and idx: "addr2index l va = idx" and n: "n \<noteq> 0"
    and adv: "advance avail ok pam l t k (va, pa, n, s) (va1, pa1, n1, s1)"
    and k: "k = min (unat n) (chunk_room l va)"
    and rest: "\<lbrakk>cursor_ok b va1 pa1 n1; usable avail ok pam l t s1;
      idx + 1 < 512 \<longrightarrow> n1 \<noteq> 0 \<longrightarrow> addr2index l va1 = idx + 1\<rbrakk> \<Longrightarrow>
      advance avail ok pam l t (pages l (idx + 1) va1 n1) (va1, pa1, n1, s1) cur"
  shows "advance avail ok pam l t (pages l idx va n) (va, pa, n, s) cur"
proof -
  have al: "4096 dvd unat va" using c by (simp add: cursor_ok_def)
  have n1: "unat n1 = unat n - k" and va1: "va1 = shift_addr va (4096 * k)" using adv by auto
  note ps = pages_step[OF al idx n k n1, folded va1]
  have idx': "idx < 512" using idx addr2index_less[of l va] by simp
  have "advance avail ok pam l t (pages l (idx + 1) va1 n1) (va1, pa1, n1, s1) cur"
    using rest cursor_ok_advance[OF c adv] evolves_usable[OF u] adv ps(2) by simp
  moreover have "reg l va + 4096 * (k + pages l (idx + 1) va1 n1) \<le> span l"
    using ps(5) by (simp only: ps(1))
  ultimately have "advance avail ok pam l t (k + pages l (idx + 1) va1 n1) (va, pa, n, s) cur"
    by (rule advance_trans[OF adv])
  then show ?thesis using ps(1) idx' by (simp add: pages_def)
qed

end

context page_source
begin

lemma clflush_mem [simp]:
  "pg_mem (clflush_entry fl t i s) = pg_mem s" "pg_alloc (clflush_entry fl t i s) = pg_alloc s"
  by (simp_all add: clflush_entry_def)

lemma set_pg_entry_mem [simp]:
  "pg_mem (set_pg_entry t i e s) = put_entry t i e (pg_mem s)" "pg_alloc (set_pg_entry t i e s) = pg_alloc s"
  by (simp_all add: set_pg_entry_def)

lemma put_entry_same [simp]: "put_entry t i e m t i = e"
  by (simp add: put_entry_def)

lemma advance_done:
  assumes "usable avail ok pam l t s" "\<not> (n \<noteq> 0 \<and> idx < 512)"
  shows "advance avail ok pam l t (pages l idx va n) (va, pa, n, s) (va, pa, n, s)"
proof -
  have "pages l idx va n = 0" using assms(2) by (auto simp: pages_def)
  then show ?thesis using evolves_refl[OF assms(1)] by simp
qed

lemma map_pt_loop_advance:
  "\<lbrakk>good_attr attr; map_pt_loop (mask b) attr fl t idx va pa n s = Inr cur; cursor_ok b va pa n;
     usable avail ok (mask b) PT t s; idx < 512 \<longrightarrow> n \<noteq> 0 \<longrightarrow> addr2index PT va = idx\<rbrakk> \<Longrightarrow>
   advance avail ok (mask b) PT t (pages PT idx va n) (va, pa, n, s) cur"
proof (induction "(mask b) :: u64" attr fl t idx va pa n s arbitrary: cur rule: map_pt_loop.induct)
  case (1 attr fl t idx va pa n s)
  show ?case
  proof (cases "n \<noteq> 0 \<and> idx < kNumOfEntries")
    case False
    then have "cur = (va, pa, n, s)" using "1.prems"(2) by (subst (asm) map_pt_loop.simps) auto
    then show ?thesis using advance_done[OF "1.prems"(4)] False by (simp add: kNumOfEntries_def)
  next
    case True
    let ?i = "addr2index PT va"
    obtain e where e: "SetPageBaseAddr (mask b) PT pa attr (pg_mem s t ?i) = Inr e"
      and rest: "map_pt_loop (mask b) attr fl t (idx + 1) (va + 0x1000) (pa + 0x1000) (n - 1)
          (clflush_entry fl t ?i (set_pg_entry t ?i e s)) = Inr cur"
      using "1.prems"(2) True by (subst (asm) map_pt_loop.simps) (auto simp: Let_def res_simps)
    let ?s1 = "clflush_entry fl t ?i (set_pg_entry t ?i e s)"
    have idx: "addr2index PT va = idx" using True "1.prems"(5) by (simp add: kNumOfEntries_def)
    have al: "4096 dvd unat va" and pb: "unat pa + 4096 * unat n \<le> 2 ^ b"
      using "1.prems"(3) by (auto simp: cursor_ok_def)
    have un: "0 < unat n" using True by (simp add: unat_gt_0)
    then have pa: "unat pa < 2 ^ b" using pb by linarith
    have tr: "tree (mask b) (pg_mem s) PT t" using "1.prems"(4) by (simp add: usable_def)
    have k1: "4096 * (1::nat) = 2 ^ kIndexShift PT" by simp
    note pm = page_mapped[OF "1.prems"(1) e _ tr subtable_PT refl _ pa k1]
    have n1: "unat (n - 1) = unat n - 1" using True by (simp add: unat_minus_one)
    have adv: "advance avail ok (mask b) PT t 1 (va, pa, n, s) (va + 0x1000, pa + 0x1000, n - 1, ?s1)"
      using pm un n1 "1.prems"(4) al
      by (simp add: evolves_def usable_def shift_addr_def)
    have k: "1 = min (unat n) (chunk_room PT va)" using chunk_room_PT[OF al] un by simp
    show ?thesis
      by (rule iterate[OF "1.prems"(3,4) idx _ adv k]) (use "1.hyps"[OF True refl e "1.prems"(1) rest] True in auto)
  qed
qed

lemma pages_next:
  "addr2index l va < 512 \<Longrightarrow> pages l (addr2index l va) va n = min (unat n) (room l va)"
  by (simp add: pages_def)

lemma reg_room:
  assumes "4096 dvd unat va"
  shows "reg l va + 4096 * min x (room l va) \<le> span l"
proof -
  have "4096 * min x (room l va) \<le> 4096 * room l va" by simp
  also have "\<dots> = span l - reg l va" by (rule room_mult[OF assms])
  finally show ?thesis using reg_less[of l va] by linarith
qed

text \<open>
  The table below entry \<open>i\<close> has been entered and the next level's loop has run on it: this is
  one iteration at level \<open>l\<close>.
\<close>

lemma descend_pages:
  assumes l: "l \<noteq> PT" and c: "cursor_ok b va pa n" and u: "usable avail ok pam l t s"
    and g: "good_attr attr" and i: "addr2index l va = i"
    and run: "ensure_table pam alloc l attr t i s = Inr s1"
    and e: "e = SetAttr attr (pg_mem s1 t i)" "\<not> IsPage l e"
    and s2: "pg_mem s2 = put_entry t i e (pg_mem s1)" "pg_alloc s2 = pg_alloc s1"
    and inner: "\<lbrakk>usable avail ok pam (NextTableType l) (GetTableAddr pam l e) s2\<rbrakk> \<Longrightarrow>
      advance avail ok pam (NextTableType l) (GetTableAddr pam l e)
        (pages (NextTableType l) (addr2index (NextTableType l) va) va n) (va, pa, n, s2) (va1, pa1, n1, s3)"
  shows "advance avail ok pam l t (min (unat n) (chunk_room l va)) (va, pa, n, s) (va1, pa1, n1, s3)"
proof -
  have i512: "i < 512" using i addr2index_less[of l va] by simp
  note et = enter_table[OF l g u i512 run e s2]
  have al: "4096 dvd unat va" using c by (simp add: cursor_ok_def)
  have us2: "usable avail ok pam l t s2" by (rule evolves_usable[OF u et(1)])
  have adv: "advance avail ok pam (NextTableType l) (GetTableAddr pam l e)
      (min (unat n) (chunk_room l va)) (va, pa, n, s2) (va1, pa1, n1, s3)"
    using inner[OF usable_child[OF l us2 et(2)]] pages_next[of "NextTableType l" va n]
    by (simp add: chunk_room_next[OF l])
  have "reg (NextTableType l) va + 4096 * min (unat n) (chunk_room l va) \<le> span (NextTableType l)"
    using reg_room[OF al, of "NextTableType l" "unat n"] by (simp add: chunk_room_next[OF l])
  then show ?thesis by (rule descend[OF l u et(1,3,2) i adv])
qed

text \<open>One page of 2 MiB in place of a table.\<close>

lemma big_page_step:
  assumes g: "good_attr attr" and e: "SetPageBaseAddr (mask b) PDT pa attr (pg_mem s t (addr2index PDT va)) = Inr e"
    and c: "cursor_ok b va pa n" and u: "usable avail ok (mask b) PDT t s"
    and big: "\<not> IsPresent (pg_mem s t (addr2index PDT va))" "of_nat kNumOfEntries \<le> n" "va AND kOffsetMask PDT = 0"
  shows "advance avail ok (mask b) PDT t (min (unat n) (chunk_room PDT va)) (va, pa, n, s) (va + 0x200000, pa + 0x200000,
      n - of_nat kNumOfEntries, clflush_entry fl t (addr2index PDT va) (set_pg_entry t (addr2index PDT va) e s))"
proof -
  have pb: "unat pa + 4096 * unat n \<le> 2 ^ b" using c by (simp add: cursor_ok_def)
  have tr: "tree (mask b) (pg_mem s) PDT t" using u by (simp add: usable_def)
  have un: "512 \<le> unat n" using big(2) by (simp add: kNumOfEntries_def word_le_nat_alt)
  have n1: "unat (n - of_nat kNumOfEntries) = unat n - 512" using big(2) by (simp add: kNumOfEntries_def unat_sub)
  have va0: "unat va mod 2 ^ kIndexShift PDT = 0"
    using big(3) unat_and_mask[of va "kIndexShift PDT"] by (simp add: kOffsetMask_eq)
  then have vd: "2 ^ kIndexShift PDT dvd unat va" by (simp add: dvd_eq_mod_eq_0)
  have pa: "unat pa < 2 ^ b" using pb un by linarith
  have none: "subtable (mask b) (pg_mem s) PDT t (addr2index PDT va) = None" using big(1) by (simp add: subtable_def)
  have k1: "4096 * (512::nat) = 2 ^ kIndexShift PDT" by simp
  note pm = page_mapped[OF g e _ tr none refl vd pa k1]
  have "reg PDT va mod 2 ^ kIndexShift PDT = 0" using va0 by (simp add: reg_def mod_mod_cancel)
  then have "chunk_room PDT va = 512" by (simp add: chunk_room_def)
  then have "min (unat n) (chunk_room PDT va) = 512" using un by simp
  then show ?thesis using pm un n1 u by (simp add: evolves_def usable_def shift_addr_def)
qed

lemma map_pdt_loop_advance:
  "\<lbrakk>good_attr attr; map_pdt_loop (mask b) alloc attr fl t idx va pa n s = Inr cur; cursor_ok b va pa n;
     usable avail ok (mask b) PDT t s; idx < 512 \<longrightarrow> n \<noteq> 0 \<longrightarrow> addr2index PDT va = idx\<rbrakk> \<Longrightarrow>
   advance avail ok (mask b) PDT t (pages PDT idx va n) (va, pa, n, s) cur"
proof (induction "512 - idx" arbitrary: idx va pa n s cur rule: less_induct)
  case less
  note prems = less.prems
  show ?case
  proof (cases "n \<noteq> 0 \<and> idx < 512")
    case False
    then have "cur = (va, pa, n, s)"
      using prems(2) by (subst (asm) map_pdt_loop.simps) (auto simp: kNumOfEntries_def)
    then show ?thesis using advance_done[OF prems(4)] False by simp
  next
    case True
    let ?i = "addr2index PDT va" and ?e = "pg_mem s t (addr2index PDT va)"
    let ?big = "\<not> IsPresent ?e \<and> of_nat kNumOfEntries \<le> n \<and> va AND kOffsetMask PDT = 0 \<and> pa AND kOffsetMask PDT = 0"
    have idx: "addr2index PDT va = idx" using True prems(5) by simp
    have dec: "512 - (idx + 1) < 512 - idx" using True by linarith
    note IH = less.hyps[OF dec prems(1)]
    show ?thesis
    proof (cases ?big)
      case big: True
      obtain e where e: "SetPageBaseAddr (mask b) PDT pa attr ?e = Inr e"
        and rest: "map_pdt_loop (mask b) alloc attr fl t (idx + 1) (va + 0x200000) (pa + 0x200000)
          (n - of_nat kNumOfEntries) (clflush_entry fl t ?i (set_pg_entry t ?i e s)) = Inr cur"
        using prems(2) True big
        by (subst (asm) map_pdt_loop.simps) (simp add: Let_def res_simps kNumOfEntries_def, blast)
      have adv: "advance avail ok (mask b) PDT t (min (unat n) (chunk_room PDT va)) (va, pa, n, s) (va + 0x200000, pa + 0x200000,
          n - of_nat kNumOfEntries, clflush_entry fl t ?i (set_pg_entry t ?i e s))"
        by (rule big_page_step[OF prems(1) e prems(3,4)]) (use big in blast)+
      show ?thesis
        by (rule iterate[OF prems(3,4) idx _ adv refl]) (use IH[OF rest] True in auto)
    next
      case small: False
      obtain s1 e va1 pa1 n1 s4 where en: "ensure_table (mask b) alloc PDT attr t ?i s = Inr s1"
        and e: "e = SetAttr attr (pg_mem s1 t ?i)" "\<not> IsPage PDT e"
        and pt: "map_pt_loop (mask b) attr fl (GetTableAddr (mask b) PDT e) (addr2index PT va)
            va pa n (set_pg_entry t ?i e (clflush_entry fl t ?i s1)) = Inr (va1, pa1, n1, s4)"
        and rest: "map_pdt_loop (mask b) alloc attr fl t (idx + 1) va1 pa1 n1 s4 = Inr cur"
        using prems(2) True small
        by (subst (asm) map_pdt_loop.simps) (auto simp: Let_def res_simps kNumOfEntries_def split: if_splits)
      have adv: "advance avail ok (mask b) PDT t (min (unat n) (chunk_room PDT va)) (va, pa, n, s) (va1, pa1, n1, s4)"
        by (rule descend_pages[OF _ prems(3,4,1) refl en e, of "set_pg_entry t ?i e (clflush_entry fl t ?i s1)"])
           (use map_pt_loop_advance[OF prems(1) pt prems(3)] in simp_all)
      show ?thesis
        by (rule iterate[OF prems(3,4) idx _ adv refl]) (use IH[OF rest] True in auto)
    qed
  qed
qed

lemma map_pdpt_loop_advance:
  "\<lbrakk>good_attr attr; map_pdpt_loop (mask b) alloc attr fl t idx va pa n s = Inr cur; cursor_ok b va pa n;
     usable avail ok (mask b) PDPT t s; idx < 512 \<longrightarrow> n \<noteq> 0 \<longrightarrow> addr2index PDPT va = idx\<rbrakk> \<Longrightarrow>
   advance avail ok (mask b) PDPT t (pages PDPT idx va n) (va, pa, n, s) cur"
proof (induction "512 - idx" arbitrary: idx va pa n s cur rule: less_induct)
  case less
  note prems = less.prems
  show ?case
  proof (cases "n \<noteq> 0 \<and> idx < 512")
    case False
    then have "cur = (va, pa, n, s)"
      using prems(2) by (subst (asm) map_pdpt_loop.simps) (auto simp: kNumOfEntries_def)
    then show ?thesis using advance_done[OF prems(4)] False by simp
  next
    case True
    let ?i = "addr2index PDPT va"
    have idx: "addr2index PDPT va = idx" using True prems(5) by simp
    have dec: "512 - (idx + 1) < 512 - idx" using True by linarith
    note IH = less.hyps[OF dec prems(1)]
    obtain s1 e va1 pa1 n1 s4 where en: "ensure_table (mask b) alloc PDPT attr t ?i s = Inr s1"
      and e: "e = SetAttr attr (pg_mem s1 t ?i)" "\<not> IsPage PDPT e"
      and pdt: "map_pdt_loop (mask b) alloc attr fl (GetTableAddr (mask b) PDPT e) (addr2index PDT va)
          va pa n (clflush_entry fl t ?i (set_pg_entry t ?i e s1)) = Inr (va1, pa1, n1, s4)"
      and rest: "map_pdpt_loop (mask b) alloc attr fl t (idx + 1) va1 pa1 n1 s4 = Inr cur"
      using prems(2) True
      by (subst (asm) map_pdpt_loop.simps) (auto simp: Let_def res_simps kNumOfEntries_def split: if_splits)
    have adv: "advance avail ok (mask b) PDPT t (min (unat n) (chunk_room PDPT va)) (va, pa, n, s) (va1, pa1, n1, s4)"
      by (rule descend_pages[OF _ prems(3,4,1) refl en e, of "clflush_entry fl t ?i (set_pg_entry t ?i e s1)"])
         (use map_pdt_loop_advance[OF prems(1) pdt prems(3)] in simp_all)
    show ?thesis
      by (rule iterate[OF prems(3,4) idx _ adv refl]) (use IH[OF rest] True in auto)
  qed
qed

text \<open>At the top level an iteration with no pages left only refreshes an entry.\<close>

lemma map_pml4_loop_advance:
  "\<lbrakk>good_attr attr; map_pml4_loop (mask b) alloc attr fl t idx va pa n s = Inr cur; cursor_ok b va pa n;
     usable avail ok (mask b) PML4 t s; idx < 512 \<longrightarrow> n \<noteq> 0 \<longrightarrow> addr2index PML4 va = idx\<rbrakk> \<Longrightarrow>
   advance avail ok (mask b) PML4 t (pages PML4 idx va n) (va, pa, n, s) cur"
proof (induction "512 - idx" arbitrary: idx va pa n s cur rule: less_induct)
  case less
  note prems = less.prems
  show ?case
  proof (cases "idx < 512")
    case False
    then have "cur = (va, pa, n, s)"
      using prems(2) by (subst (asm) map_pml4_loop.simps) (auto simp: kNumOfEntries_def)
    moreover have "\<not> (n \<noteq> 0 \<and> idx < 512)" using False by simp
    ultimately show ?thesis by (simp only:) (rule advance_done[OF prems(4)])
  next
    case True
    let ?i = "addr2index PML4 va"
    have dec: "512 - (idx + 1) < 512 - idx" using True by linarith
    note IH = less.hyps[OF dec prems(1)]
    obtain s1 va1 pa1 n1 s4 where en: "ensure_table (mask b) alloc PML4 attr t ?i s = Inr s1"
      and pdpt: "map_pdpt_loop (mask b) alloc attr fl (GetTableAddr (mask b) PML4 (SetAttr attr (pg_mem s1 t ?i)))
          (addr2index PDPT va) va pa n (clflush_entry fl t ?i (set_pg_entry t ?i (SetAttr attr (pg_mem s1 t ?i)) s1))
          = Inr (va1, pa1, n1, s4)" (is "map_pdpt_loop _ _ _ _ (GetTableAddr _ _ ?e) _ _ _ _ ?s2 = _")
      and rest: "map_pml4_loop (mask b) alloc attr fl t (idx + 1) va1 pa1 n1 s4 = Inr cur"
      using prems(2) True
      by (subst (asm) map_pml4_loop.simps) (auto simp: Let_def res_simps kNumOfEntries_def split: if_splits)
    have np: "\<not> IsPage PML4 ?e" by (simp add: IsPage_bit)
    show ?thesis
    proof (cases "n = 0")
      case False
      have idx: "addr2index PML4 va = idx" using True False prems(5) by simp
      have adv: "advance avail ok (mask b) PML4 t (min (unat n) (chunk_room PML4 va)) (va, pa, n, s) (va1, pa1, n1, s4)"
        by (rule descend_pages[OF _ prems(3,4,1) refl en refl np, of ?s2])
           (use map_pdpt_loop_advance[OF prems(1) pdpt prems(3)] in simp_all)
      show ?thesis
        by (rule iterate[OF prems(3,4) idx False adv refl]) (use IH[OF rest] True in auto)
    next
      case n: True
      then have same: "va1 = va" "pa1 = pa" "n1 = n" "s4 = ?s2"
        using pdpt by (subst (asm) map_pdpt_loop.simps, simp)+
      have "evolves avail ok (mask b) PML4 t s ?s2" "\<And>w. v2p (mask b) (pg_mem ?s2) PML4 t w = v2p (mask b) (pg_mem s) PML4 t w"
        using enter_table[OF _ prems(1,4) addr2index_less en refl np, of ?s2] by simp_all
      then have adv: "advance avail ok (mask b) PML4 t 0 (va, pa, n, s) (va, pa, n, ?s2)" by simp
      have u2: "usable avail ok (mask b) PML4 t ?s2"
        using evolves_usable[OF prems(4)] adv by simp
      have p0: "pages PML4 j va n = 0" for j using n by (simp add: pages_def)
      have "advance avail ok (mask b) PML4 t 0 (va, pa, n, ?s2) cur"
        using IH[OF rest[unfolded same] prems(3) u2] n p0 by simp
      moreover have "reg PML4 va + 4096 * (0 + 0) \<le> span PML4"
        using reg_less[of PML4 va] by (simp add: less_imp_le del: span_simps)
      ultimately have "advance avail ok (mask b) PML4 t (0 + 0) (va, pa, n, s) cur"
        by (rule advance_trans[OF adv])
      then show ?thesis using p0 by simp
    qed
  qed
qed

lemma CreatePageMapping_advance:
  assumes g: "good_attr attr" and u: "usable avail ok (mask b) PML4 pml4 s"
    and run: "CreatePageMapping (mask b) alloc pml4 va pa sz attr fl s = Inr s'"
    and pa: "unat pa + 4096 * unat (ByteSizeToPageSize sz) \<le> 2 ^ b" "b < 64"
    and va: "reg PML4 va + 4096 * unat (ByteSizeToPageSize sz) \<le> span PML4"
  shows "evolves avail ok (mask b) PML4 pml4 s s'"
    "mapped (mask b) PML4 pml4 va pa (unat (ByteSizeToPageSize sz)) (pg_mem s) (pg_mem s')"
proof -
  let ?n = "ByteSizeToPageSize sz"
  obtain va' pa' n' where al: "4096 dvd unat va" "4096 dvd unat pa"
    and loop: "map_pml4_loop (mask b) alloc attr fl pml4 (addr2index PML4 va) va pa ?n s = Inr (va', pa', n', s')"
    using run by (auto simp: CreatePageMapping_def res_simps)
  have "cursor_ok b va pa ?n" using al pa by (simp add: cursor_ok_def)
  from map_pml4_loop_advance[OF g loop this u]
  have adv: "advance avail ok (mask b) PML4 pml4 (min (unat ?n) (room PML4 va)) (va, pa, ?n, s) (va', pa', n', s')"
    using pages_next[of PML4 va ?n] by simp
  have "4096 * unat ?n \<le> 4096 * room PML4 va" using va room_mult[OF al(1), of PML4] by linarith
  then have "min (unat ?n) (room PML4 va) = unat ?n" by simp
  then show "evolves avail ok (mask b) PML4 pml4 s s'"
    "mapped (mask b) PML4 pml4 va pa (unat ?n) (pg_mem s) (pg_mem s')"
    using adv by simp_all
qed

end

section \<open>The physical page allocator as a source of pages\<close>

definition alloc_pages :: "phys_page_allocator \<Rightarrow> u64 set" where
  "alloc_pages a = {p. \<exists>bs. chain (ppa_mem a) (ppa_head_phys_addr a) bs \<and>
     (\<exists>b\<in>set bs. 4096 dvd unat p \<and> unat b < unat p \<and>
        unat p + 4096 \<le> unat b + 4096 * unat (fi_num_of_pages (ppa_mem a b)))}"

lemma chain_unique: "\<lbrakk>chain mem p bs; chain mem p bs'\<rbrakk> \<Longrightarrow> bs = bs'"
proof (induction bs arbitrary: p bs')
  case Nil
  then show ?case by (cases bs') auto
next
  case (Cons b bs)
  then show ?case by (cases bs') auto
qed

lemma alloc_pages_iff:
  "chain (ppa_mem a) (ppa_head_phys_addr a) bs \<Longrightarrow> p \<in> alloc_pages a \<longleftrightarrow>
     (\<exists>b\<in>set bs. 4096 dvd unat p \<and> unat b < unat p \<and>
        unat p + 4096 \<le> unat b + 4096 * unat (fi_num_of_pages (ppa_mem a b)))"
  unfolding alloc_pages_def using chain_unique by blast

lemma AllocPages_page:
  assumes inv: "alloc_inv a []" and run: "AllocPages UsePhysicalAddressInternally 1 a = Inr (p, a')"
  shows "p \<in> alloc_pages a" "alloc_pages a' \<subseteq> alloc_pages a - {p}" "alloc_inv a' []"
proof -
  obtain bs where c: "chain (ppa_mem a) (ppa_head_phys_addr a) bs" and wf: "runs_wf (free_runs (ppa_mem a) bs)"
    using inv by (auto simp: alloc_inv_def)
  from run AllocPages_sel_phys[OF c wf, of 1 "\<lambda>_. True"] obtain b where
    f: "find (suits (\<lambda>_. True) 1 (ppa_mem a)) bs = Some b"
    and p: "p = fst (taken_from 1 (ppa_mem a) b)" and a': "a' = a\<lparr>ppa_mem := snd (taken_from 1 (ppa_mem a) b)\<rparr>"
    by (auto simp: AllocPages_def split: option.splits)
  have b: "b \<in> set bs" "1 < fi_num_of_pages (ppa_mem a b)" using f by (auto simp: find_Some_iff suits_def)
  have inv': "alloc_inv a' [(p, 1)]"
    using AllocPages_sel_inv[OF inv, of 1 "\<lambda>_. True" p a'] run by (simp add: AllocPages_def)
  then show "alloc_inv a' []" by (auto simp: alloc_inv_def runs_wf_Cons)
  have ok: "run_ok (b, unat (fi_num_of_pages (ppa_mem a b)))"
    using wf b by (auto simp: runs_wf_def free_run_def)
  note pr = provided_addr[OF ok _ b(2)]
  have pe: "unat p = unat b + 4096 * (unat (fi_num_of_pages (ppa_mem a b)) - 1)" and n1: "1 < unat (fi_num_of_pages (ppa_mem a b))"
    using pr(1,4) by (simp_all add: p taken_from_def)
  have "4096 dvd unat b" using ok by simp
  then have "4096 dvd unat p" using pe by simp
  then show pin: "p \<in> alloc_pages a" unfolding alloc_pages_iff[OF c] using b(1) pe n1 by (intro bexI[of _ b]) auto
  have c': "chain (ppa_mem a') (ppa_head_phys_addr a') bs"
    using c by (subst chain_cong[of bs _ "ppa_mem a"]) (auto simp: a' taken_from_def)
  show "alloc_pages a' \<subseteq> alloc_pages a - {p}"
  proof
    fix q assume "q \<in> alloc_pages a'"
    then obtain d where d: "d \<in> set bs" "4096 dvd unat q" "unat d < unat q"
      "unat q + 4096 \<le> unat d + 4096 * unat (fi_num_of_pages (ppa_mem a' d))"
      unfolding alloc_pages_iff[OF c'] by blast
    obtain bs' where bs': "chain (ppa_mem a') (ppa_head_phys_addr a') bs'"
      "runs_wf ([(p, 1)] @ free_runs (ppa_mem a') bs')" using inv' by (auto simp: alloc_inv_def)
    then have "bs' = bs" using c' chain_unique by blast
    then have "runs_disjoint (p, 1) (free_run (ppa_mem a') d)" using bs' d(1) by (simp add: runs_wf_Cons)
    moreover have "unat q \<in> run_bytes (free_run (ppa_mem a') d)" using d by (simp add: free_run_def)
    moreover have "unat p \<in> run_bytes (p, 1)" by simp
    ultimately have "q \<noteq> p" unfolding runs_disjoint_def by blast
    moreover have "unat (fi_num_of_pages (ppa_mem a' d)) \<le> unat (fi_num_of_pages (ppa_mem a d))"
      using pr(3) by (auto simp: a' taken_from_def)
    then have "q \<in> alloc_pages a" unfolding alloc_pages_iff[OF c] using d by (intro bexI[of _ d]) auto
    ultimately show "q \<in> alloc_pages a - {p}" by simp
  qed
qed

interpretation ppa: page_source "AllocPages UsePhysicalAddressInternally 1" alloc_pages "\<lambda>a. alloc_inv a []"
  by unfold_locales (use AllocPages_page in blast)

section \<open>Properties\<close>

text \<open>
  C1: \<open>CreatePageMapping\<close> maps what it is asked to map, and nothing else.  When it returns on
  a tree of page tables that is disjoint from the allocator's free pages, every virtual address
  of the requested range (whole pages) translates to the corresponding physical address, also
  where 2 MiB pages are used, and every other address translates as before.
\<close>

theorem CreatePageMapping_translates:
  assumes "CreatePageMapping (mask b) (AllocPages UsePhysicalAddressInternally 1) pml4 va pa sz attr fl s = Ok s'"
    and "good_attr attr" "alloc_inv (pg_alloc s) []" "tree (mask b) (pg_mem s) PML4 pml4"
    and "tables (mask b) (pg_mem s) PML4 pml4 \<inter> alloc_pages (pg_alloc s) = {}"
    and "unat pa + 4096 * unat (ByteSizeToPageSize sz) \<le> 2 ^ b" "b < 64"
    and "unat va mod 2 ^ 48 + 4096 * unat (ByteSizeToPageSize sz) \<le> 2 ^ 48"
  shows "v2p (mask b) (pg_mem s') PML4 pml4 w =
    (if unat va mod 2 ^ 48 \<le> unat w mod 2 ^ 48 \<and>
        unat w mod 2 ^ 48 < unat va mod 2 ^ 48 + 4096 * unat (ByteSizeToPageSize sz)
     then pa + of_nat (unat w mod 2 ^ 48 - unat va mod 2 ^ 48)
     else v2p (mask b) (pg_mem s) PML4 pml4 w)"
proof -
  have r: "reg PML4 x = unat x mod 2 ^ 48" for x by (simp add: reg_def)
  have "usable alloc_pages (\<lambda>a. alloc_inv a []) (mask b) PML4 pml4 s"
    using assms(3-5) by (simp add: usable_def)
  from ppa.CreatePageMapping_advance(2)[OF assms(2) this assms(1,6,7)] assms(8)
  show ?thesis by (simp only: mapped_def r shift_addr_def span_def kIndexShift.simps) simp
qed

text \<open>An empty top-level table and an allocator with 15 pages to give.\<close>

definition example_pg :: "phys_page_allocator pg_state" where
  "example_pg = \<lparr>pg_mem = (\<lambda>_ _. 0),
     pg_alloc = \<lparr>ppa_head_phys_addr = 0x10000,
       ppa_mem = (\<lambda>_. \<lparr>fi_num_of_pages = 16, fi_next_phys_addr = 0, fi_proximity_domain = 0\<rparr>)\<rparr>,
     pg_clflush = []\<rparr>"

lemma example_pg_alloc:
  "chain (ppa_mem (pg_alloc example_pg)) (ppa_head_phys_addr (pg_alloc example_pg)) [0x10000]"
  "alloc_inv (pg_alloc example_pg) []"
  by (auto simp: example_pg_def alloc_inv_def runs_wf_def free_run_def intro: exI[of _ "[0x10000]"])

lemma example_pg_subtable: "subtable pam (pg_mem example_pg) l t i = None"
  by (simp add: example_pg_def subtable_def IsPresent_bit)

lemma example_pg_tree:
  "tree pam (pg_mem example_pg) PML4 t" "tables pam (pg_mem example_pg) PML4 t = {t}"
  by (simp_all add: apart_def example_pg_subtable)

lemma example_run:
  "(case CreatePageMapping (mask 46) (AllocPages UsePhysicalAddressInternally 1) 0x100000
     0xFFFFFFFF90000000 0x5000 0x800 (kPageAttrPresent OR kPageAttrWritable) False example_pg of
    Inl _ \<Rightarrow> False | Inr _ \<Rightarrow> True)"
  by code_simp

theorem CreatePageMapping_translates_witness:
  "\<exists>s'. CreatePageMapping (mask 46) (AllocPages UsePhysicalAddressInternally 1) 0x100000
      0xFFFFFFFF90000000 0x5000 0x800 (kPageAttrPresent OR kPageAttrWritable) False example_pg = Ok s' \<and>
    v2p (mask 46) (pg_mem s') PML4 0x100000 0xFFFFFFFF90000123 = 0x5123"
proof -
  obtain s' where run: "CreatePageMapping (mask 46) (AllocPages UsePhysicalAddressInternally 1) 0x100000
      0xFFFFFFFF90000000 0x5000 0x800 (kPageAttrPresent OR kPageAttrWritable) False example_pg = Ok s'"
    using example_run by (auto split: sum.splits)
  have g: "good_attr (kPageAttrPresent OR kPageAttrWritable)"
    by (simp add: good_attr_def kPageAttrPresent_def kPageAttrWritable_def kPageAttrMask_def)
  have n: "unat (ByteSizeToPageSize 0x800) = 1"
    by (simp add: ByteSizeToPageSize_def kPageSizeExponent_def)
  have "0x100000 \<notin> alloc_pages (pg_alloc example_pg)"
    unfolding alloc_pages_iff[OF example_pg_alloc(1)] by (simp add: example_pg_def)
  then have "tables (mask 46) (pg_mem example_pg) PML4 0x100000 \<inter> alloc_pages (pg_alloc example_pg) = {}"
    by (simp only: example_pg_tree(2)) simp
  then have "v2p (mask 46) (pg_mem s') PML4 0x100000 0xFFFFFFFF90000123 = 0x5123"
    using CreatePageMapping_translates[OF run g example_pg_alloc(2) example_pg_tree(1), where w = "0xFFFFFFFF90000123"]
    by (simp add: n)
  then show ?thesis using run by blast
qed

text \<open>
  C19: walking the tables through the kernel's straight mapping gives the same translation as
  walking them at their physical addresses, as long as no table lies at physical address 0 or
  at an address which the mapping sends to the null pointer.
\<close>

theorem v2pWithOffset_eq_v2p:
  assumes "\<forall>c\<in>tables pam m l t. c \<noteq> 0 \<and> c + offset \<noteq> 0"
  shows "v2pWithOffset pam m l (t + offset) vaddr offset = Ok (v2p pam m l t vaddr)"
  using assms
proof (induction l arbitrary: t rule: level_induct)
  case PT
  then show ?case by (subst v2pWithOffset.simps) (simp add: v2p.simps[of pam m PT] Let_def IsPage_bit)
next
  case (step l)
  have t: "t + offset \<noteq> 0" using step.prems by auto
  show ?case
  proof (cases "subtable pam m l t (addr2index l vaddr)")
    case None
    then show ?thesis using t v2p_leaf[OF None]
      by (subst v2pWithOffset.simps) (auto simp: GetEntryForAddr_def subtable_def Let_def split: if_splits)
  next
    case (Some c)
    have c: "c \<in> tables pam m l t" "tables pam m (NextTableType l) c \<subseteq> tables pam m l t"
      using Some tables_iff[OF step.hyps] by blast+
    then have "v2pWithOffset pam m (NextTableType l) (c + offset) vaddr offset
        = Ok (v2p pam m (NextTableType l) c vaddr)"
      using step by blast
    moreover have "is_table_allowed l" using step.hyps by (cases l) auto
    ultimately show ?thesis using t Some c step.prems v2p_subtable[OF Some]
      by (subst v2pWithOffset.simps)
         (auto simp: GetEntryForAddr_def GetTableAddrWithOffset_def subtable_def Let_def split: if_splits)
  qed
qed

theorem v2pWithOffset_eq_v2p_witness:
  "v2pWithOffset (mask 46) (pg_mem example_pg) PML4 (0x100000 + 0xFFFF800000000000) 0x1234 0xFFFF800000000000
   = Ok (v2p (mask 46) (pg_mem example_pg) PML4 0x100000 0x1234)"
  by (rule v2pWithOffset_eq_v2p) (simp only: example_pg_tree(2), simp)

text \<open>
  After \<open>SetTableBaseForAddr\<close> the entry for that address refers to the new table and is
  present; the call returns the table which the entry referred to before, and leaves the
  entries of other indices alone.
\<close>

theorem SetTableBaseForAddr_roundtrip:
  assumes "SetTableBaseForAddr pam l t addr new_ent attr m = Ok (old, m')" "l \<noteq> PT" "good_attr attr"
  shows "GetTableBaseForAddr pam m' l t addr = new_ent \<and>
    IsPresent (GetEntryForAddr m' l t addr) \<and>
    old = GetTableBaseForAddr pam m l t addr \<and>
    (\<forall>w. addr2index l w \<noteq> addr2index l addr \<longrightarrow> GetEntryForAddr m' l t w = GetEntryForAddr m l t w)"
proof -
  obtain e where e: "SetTableAddr pam l new_ent attr = Ok e" and m': "m' = put_entry t (addr2index l addr) e m"
    and o: "old = GetTableBaseForAddr pam m l t addr"
    using assms(1) by (auto simp: SetTableBaseForAddr_def res_simps Let_def)
  have "GetTableBaseForAddr pam m' l t addr = new_ent" "IsPresent (GetEntryForAddr m' l t addr)"
    using SetTableAddr_entry[OF assms(3) e assms(2)]
    by (simp_all add: m' GetTableBaseForAddr_def GetEntryForAddr_def put_entry_def)
  moreover have "GetEntryForAddr m' l t w = GetEntryForAddr m l t w" if "addr2index l w \<noteq> addr2index l addr" for w
    using that by (simp add: m' GetEntryForAddr_def put_entry_def)
  ultimately show ?thesis using o by simp
qed

theorem SetTableBaseForAddr_roundtrip_witness:
  "\<exists>m'. SetTableBaseForAddr (mask 46) PML4 0x100000 0x8000000000 0x7000 3 (pg_mem example_pg) = Ok (0, m') \<and>
     GetTableBaseForAddr (mask 46) m' PML4 0x100000 0x8000000000 = 0x7000"
proof -
  have g: "good_attr 3" by (simp add: good_attr_def kPageAttrPresent_def kPageAttrMask_def)
  have "\<exists>m'. SetTableBaseForAddr (mask 46) PML4 0x100000 0x8000000000 0x7000 3 (pg_mem example_pg) = Ok (0, m')"
    by (simp add: SetTableBaseForAddr_def GetTableBaseForAddr_def GetTableAddr_def SetTableAddr_def
      GetEntryForAddr_def example_pg_def IsPage_bit kPageAddrMask_def check_that_def mask_eq_exp_minus_1)
  then show ?thesis using SetTableBaseForAddr_roundtrip[OF _ _ g] by fastforce
qed

end
