(* ===== verification/Kernel_Heap.thy ===== *)
theory Kernel_Heap
  imports Page_Mapping
begin

text \<open>
The kernel's virtual heap, src/src/kernel_virtual_heap_allocator.h, and the memory helpers of
  src/src/kernel.h.  The DRAM allocator is a parameter, since the class only relies on what it
  hands out; the page tables are those of theory Paging.  Shown: the regions of successive
  \<open>MapPages\<close> calls are disjoint, guarded, and stay mapped; and where the range test wraps around.
\<close>

section \<open>The class\<close>

definition kKernelHeapBaseAddr :: u64 where
  "kKernelHeapBaseAddr = 0xFFFFFFFF90000000"

definition kKernelHeapSize :: u64 where
  "kKernelHeapSize = 0x0000000040000000"

record 'a kernel_heap =
  kh_next_base :: u64
  kh_pml4 :: u64
  kh_pg :: "'a pg_state"

definition KernelVirtualHeapAllocator_new :: "u64 \<Rightarrow> 'a pg_state \<Rightarrow> 'a kernel_heap" where
  "KernelVirtualHeapAllocator_new pml4 pg =
     \<lparr>kh_next_base = kKernelHeapBaseAddr, kh_pml4 = pml4, kh_pg = pg\<rparr>"

text \<open>
  \<open>alloc\<close> is \<open>AllocPages\<close> of the DRAM allocator for a number of pages; \<open>base\<close> is
  \<open>GetKernelStraightMappingBase()\<close>.
\<close>

definition KernelHeap_AllocPages ::
    "(u64 \<Rightarrow> 'a \<Rightarrow> (u64 \<times> 'a) res) \<Rightarrow> u64 \<Rightarrow> u64 \<Rightarrow> 'a kernel_heap \<Rightarrow> (u64 \<times> 'a kernel_heap) res" where
  "KernelHeap_AllocPages alloc base num_of_pages h =
     bind_res (alloc num_of_pages (pg_alloc (kh_pg h))) (\<lambda>(p, a).
     Ok (p + base, h\<lparr>kh_pg := (kh_pg h)\<lparr>pg_alloc := a\<rparr>\<rparr>))"

definition KernelHeap_MapPages ::
    "u64 \<Rightarrow> (u64 \<Rightarrow> 'a \<Rightarrow> (u64 \<times> 'a) res) \<Rightarrow> u64 \<Rightarrow> u64 \<Rightarrow> u64 \<Rightarrow> 'a kernel_heap \<Rightarrow>
     (u64 \<times> 'a kernel_heap) res" where
  "KernelHeap_MapPages pam alloc paddr num_of_pages page_attr h =
     (let byte_size = push_bit kPageSizeExponent num_of_pages in
      bind_res (check_that (\<not> (kKernelHeapSize < byte_size \<or>
          kKernelHeapBaseAddr + kKernelHeapSize < kh_next_base h + byte_size))
        (Panic ''Cannot allocate kernel virtual heap'')) (\<lambda>_.
      let vaddr = kh_next_base h;
          h1 = h\<lparr>kh_next_base := vaddr + (byte_size + push_bit kPageSizeExponent 1)\<rparr>
      in bind_res (CreatePageMapping pam (alloc 1) (kh_pml4 h1) vaddr paddr byte_size page_attr False
                     (kh_pg h1)) (\<lambda>pg.
         Ok (vaddr, h1\<lparr>kh_pg := pg\<rparr>))))"

text \<open>\<open>Alloc<T>\<close>, for an object of \<open>size_of\<close> bytes.\<close>

definition KernelHeap_Alloc ::
    "(u64 \<Rightarrow> 'a \<Rightarrow> (u64 \<times> 'a) res) \<Rightarrow> u64 \<Rightarrow> u64 \<Rightarrow> 'a kernel_heap \<Rightarrow> (u64 \<times> 'a kernel_heap) res" where
  "KernelHeap_Alloc alloc base size_of h = KernelHeap_AllocPages alloc base (ByteSizeToPageSize size_of) h"

section \<open>The helpers of kernel.h\<close>

definition AllocKernelMemory ::
    "(u64 \<Rightarrow> 'a \<Rightarrow> (u64 \<times> 'a) res) \<Rightarrow> u64 \<Rightarrow> u64 \<Rightarrow> 'a kernel_heap \<Rightarrow> (u64 \<times> 'a kernel_heap) res" where
  "AllocKernelMemory alloc base byte_size h = KernelHeap_AllocPages alloc base (ByteSizeToPageSize byte_size) h"

definition AllocMemoryForMappedIO ::
    "u64 \<Rightarrow> (u64 \<Rightarrow> 'a \<Rightarrow> (u64 \<times> 'a) res) \<Rightarrow> u64 \<Rightarrow> 'a kernel_heap \<Rightarrow> (u64 \<times> 'a kernel_heap) res" where
  "AllocMemoryForMappedIO pam alloc byte_size h =
     (let num_of_pages = ByteSizeToPageSize byte_size in
      bind_res (alloc num_of_pages (pg_alloc (kh_pg h))) (\<lambda>(p, a).
      KernelHeap_MapPages pam alloc p num_of_pages kPageAttrMemMappedIO
        (h\<lparr>kh_pg := (kh_pg h)\<lparr>pg_alloc := a\<rparr>\<rparr>)))"

definition MapMemoryForIO ::
    "u64 \<Rightarrow> (u64 \<Rightarrow> 'a \<Rightarrow> (u64 \<times> 'a) res) \<Rightarrow> u64 \<Rightarrow> u64 \<Rightarrow> 'a kernel_heap \<Rightarrow> (u64 \<times> 'a kernel_heap) res" where
  "MapMemoryForIO pam alloc phys_addr byte_size h =
     KernelHeap_MapPages pam alloc phys_addr (ByteSizeToPageSize byte_size) kPageAttrMemMappedIO h"

section \<open>Virtual regions\<close>

text \<open>A sequence of \<open>MapPages\<close> requests, each a physical address, a number of pages and attributes.\<close>

primrec map_all ::
    "u64 \<Rightarrow> (u64 \<Rightarrow> 'a \<Rightarrow> (u64 \<times> 'a) res) \<Rightarrow> (u64 \<times> u64 \<times> u64) list \<Rightarrow> 'a kernel_heap \<Rightarrow>
     (u64 list \<times> 'a kernel_heap) res" where
  "map_all pam alloc [] h = Ok ([], h)"
| "map_all pam alloc (r # rs) h =
     (case r of (paddr, n, attr) \<Rightarrow>
      bind_res (KernelHeap_MapPages pam alloc paddr n attr h) (\<lambda>(v, h1).
      bind_res (map_all pam alloc rs h1) (\<lambda>(vs, h2). Ok (v # vs, h2))))"

definition heap_wf :: "'a kernel_heap \<Rightarrow> bool" where
  "heap_wf h \<longleftrightarrow> 0xFFFFFFFF90000000 \<le> unat (kh_next_base h) \<and> unat (kh_next_base h) \<le> 0xFFFFFFFFD0001000"

lemma unat_page_bytes: "unat n \<le> 0x2FFFE \<Longrightarrow> unat (push_bit 12 n :: u64) = 4096 * unat n"
  by (simp add: unat_push_bit)

lemma MapPages_region:
  assumes run: "KernelHeap_MapPages pam alloc paddr n attr h = Ok (v, h')"
    and wf: "heap_wf h" and n: "unat n \<le> 0x2FFFE"
  shows "v = kh_next_base h" "unat v + 4096 * unat n \<le> 0xFFFFFFFFD0000000" "heap_wf h'"
    "unat (kh_next_base h') = unat v + 4096 * unat n + 4096" "kh_pml4 h' = kh_pml4 h"
    "CreatePageMapping pam (alloc 1) (kh_pml4 h) v paddr (push_bit 12 n) attr False (kh_pg h) = Ok (kh_pg h')"
proof -
  note b = unat_page_bytes[OF n]
  have sum: "unat (kh_next_base h + push_bit 12 n) = unat (kh_next_base h) + 4096 * unat n"
    using wf n b by (simp add: heap_wf_def unat_plus_less)
  have "\<not> kKernelHeapBaseAddr + kKernelHeapSize < kh_next_base h + push_bit 12 n" and v: "v = kh_next_base h"
    and nb: "kh_next_base h' = v + (push_bit 12 n + 4096)" and p: "kh_pml4 h' = kh_pml4 h"
    and cm: "CreatePageMapping pam (alloc 1) (kh_pml4 h) v paddr (push_bit 12 n) attr False (kh_pg h) = Ok (kh_pg h')"
    using run by (auto simp: KernelHeap_MapPages_def Let_def res_simps kPageSizeExponent_def)
  then have le: "unat (kh_next_base h) + 4096 * unat n \<le> 0xFFFFFFFFD0000000"
    using sum by (simp add: kKernelHeapBaseAddr_def kKernelHeapSize_def word_less_nat_alt)
  have nn: "unat (kh_next_base h') = unat v + 4096 * unat n + 4096"
    using le b unfolding nb v add.assoc[symmetric]
    by (subst unat_plus_less) (simp_all add: sum)
  show "v = kh_next_base h" "unat v + 4096 * unat n \<le> 0xFFFFFFFFD0000000" "kh_pml4 h' = kh_pml4 h"
    "unat (kh_next_base h') = unat v + 4096 * unat n + 4096"
    "CreatePageMapping pam (alloc 1) (kh_pml4 h) v paddr (push_bit 12 n) attr False (kh_pg h) = Ok (kh_pg h')"
    using v le p nn cm by simp_all
  show "heap_wf h'" using nn le wf v by (simp add: heap_wf_def)
qed

lemma map_all_regions:
  assumes "map_all pam alloc rs h = Ok (vs, h')" "heap_wf h" "\<forall>(p, n, at)\<in>set rs. unat n \<le> 0x2FFFE"
  shows "length vs = length rs \<and> heap_wf h' \<and>
    (\<forall>i < length vs. unat (kh_next_base h) \<le> unat (vs ! i) \<and>
       unat (vs ! i) + 4096 * unat (fst (snd (rs ! i))) \<le> 0xFFFFFFFFD0000000 \<and>
       (\<forall>j < length vs. i < j \<longrightarrow> unat (vs ! i) + 4096 * unat (fst (snd (rs ! i))) + 4096 \<le> unat (vs ! j)))"
  using assms
proof (induction rs arbitrary: h vs)
  case (Cons r rs)
  obtain p n at where r: "r = (p, n, at)" by (cases r) auto
  obtain v h1 ws where m: "KernelHeap_MapPages pam alloc p n at h = Ok (v, h1)"
    and ws: "map_all pam alloc rs h1 = Ok (ws, h')" and vs: "vs = v # ws"
    using Cons.prems(1) by (auto simp: r res_simps)
  have n: "unat n \<le> 0x2FFFE" using Cons.prems(3) by (auto simp: r)
  note M = MapPages_region[OF m Cons.prems(2) n]
  have IH: "length ws = length rs \<and> heap_wf h' \<and>
    (\<forall>i < length ws. unat (kh_next_base h1) \<le> unat (ws ! i) \<and>
       unat (ws ! i) + 4096 * unat (fst (snd (rs ! i))) \<le> 0xFFFFFFFFD0000000 \<and>
       (\<forall>j < length ws. i < j \<longrightarrow> unat (ws ! i) + 4096 * unat (fst (snd (rs ! i))) + 4096 \<le> unat (ws ! j)))"
    using Cons.IH[OF ws M(3)] Cons.prems(3) by auto
  show ?case
    using IH M by (auto simp: vs r nth_Cons split: nat.split)
qed simp

section \<open>The mappings of the regions\<close>

lemma reg_high:
  assumes "0xFFFF000000000000 \<le> unat w"
  shows "reg PML4 w = unat w - 0xFFFF000000000000"
proof -
  have "unat w < 2 ^ 64" using unsigned_less[of w] by simp
  then have "unat w - 0xFFFF000000000000 < 2 ^ 48" using assms by simp
  moreover have "unat w = (unat w - 0xFFFF000000000000) + 65535 * 2 ^ 48" using assms by simp
  ultimately have "unat w mod 2 ^ 48 = unat w - 0xFFFF000000000000" by (metis mod_less mod_mult_self1)
  then show ?thesis by (simp add: reg_def span_def)
qed

lemma pages_of_bytes: "unat n \<le> 0x2FFFE \<Longrightarrow> unat (ByteSizeToPageSize (push_bit 12 n)) = unat n"
  by (simp add: unat_ByteSizeToPageSize unat_page_bytes)

definition requests_ok :: "nat \<Rightarrow> (u64 \<times> u64 \<times> u64) list \<Rightarrow> bool" where
  "requests_ok b rs \<longleftrightarrow> b < 64 \<and>
     (\<forall>(p, n, at)\<in>set rs. unat n \<le> 0x2FFFE \<and> good_attr at \<and> unat p + 4096 * unat n \<le> 2 ^ b)"

context page_source
begin

lemma MapPages_translates:
  assumes run: "KernelHeap_MapPages (mask b) al p n at h = Inr (v, h')" and al: "al 1 = alloc"
    and wf: "heap_wf h" and u: "usable avail ok (mask b) PML4 (kh_pml4 h) (kh_pg h)"
    and rq: "unat n \<le> 0x2FFFE" "good_attr at" "unat p + 4096 * unat n \<le> 2 ^ b" "b < 64"
    and w: "0xFFFFFFFF90000000 \<le> unat w"
  shows "usable avail ok (mask b) PML4 (kh_pml4 h) (kh_pg h')"
    "v2p (mask b) (pg_mem (kh_pg h')) PML4 (kh_pml4 h) w =
      (if unat v \<le> unat w \<and> unat w < unat v + 4096 * unat n then p + (w - v)
       else v2p (mask b) (pg_mem (kh_pg h)) PML4 (kh_pml4 h) w)"
proof -
  note R = MapPages_region[OF run wf rq(1)] and pb = pages_of_bytes[OF rq(1)]
  have v: "0xFFFFFFFF90000000 \<le> unat v" using wf R(1) by (simp add: heap_wf_def)
  have rv: "reg PML4 v = unat v - 0xFFFF000000000000" and rw: "reg PML4 w = unat w - 0xFFFF000000000000"
    using reg_high v w by auto
  have room: "reg PML4 v + 4096 * unat (ByteSizeToPageSize (push_bit 12 n)) \<le> span PML4"
    unfolding rv pb using R(2) v by (simp add: span_def)
  note A = CreatePageMapping_advance[OF rq(2) u R(6)[unfolded al] _ rq(4) room, unfolded pb, OF rq(3)]
  show "usable avail ok (mask b) PML4 (kh_pml4 h) (kh_pg h')" using A(1) u evolves_usable by blast
  have "of_nat (reg PML4 w - reg PML4 v) = w - v" if "unat v \<le> unat w"
    using that v w by (simp add: rv rw of_nat_diff)
  then show "v2p (mask b) (pg_mem (kh_pg h')) PML4 (kh_pml4 h) w =
      (if unat v \<le> unat w \<and> unat w < unat v + 4096 * unat n then p + (w - v)
       else v2p (mask b) (pg_mem (kh_pg h)) PML4 (kh_pml4 h) w)"
    using A(2) v w by (auto simp: mapped_def rv rw shift_addr_def)
qed

lemma map_all_translates:
  assumes "map_all (mask b) al rs h = Inr (vs, h')" "al 1 = alloc" "heap_wf h"
    and "usable avail ok (mask b) PML4 (kh_pml4 h) (kh_pg h)" "requests_ok b rs"
  shows "(\<forall>w. 0xFFFFFFFF90000000 \<le> unat w \<and> unat w < unat (kh_next_base h) \<longrightarrow>
      v2p (mask b) (pg_mem (kh_pg h')) PML4 (kh_pml4 h) w = v2p (mask b) (pg_mem (kh_pg h)) PML4 (kh_pml4 h) w) \<and>
    (\<forall>i < length rs. case rs ! i of (p, n, at) \<Rightarrow> \<forall>w. unat (vs ! i) \<le> unat w \<and> unat w < unat (vs ! i) + 4096 * unat n \<longrightarrow>
      v2p (mask b) (pg_mem (kh_pg h')) PML4 (kh_pml4 h) w = p + (w - vs ! i))"
  using assms
proof (induction rs arbitrary: h vs)
  case (Cons r rs)
  obtain p n at where r: "r = (p, n, at)" by (cases r) auto
  obtain v h1 ws where m: "KernelHeap_MapPages (mask b) al p n at h = Ok (v, h1)"
    and ws: "map_all (mask b) al rs h1 = Ok (ws, h')" and vs: "vs = v # ws"
    using Cons.prems(1) by (auto simp: r res_simps)
  have rq: "unat n \<le> 0x2FFFE" "good_attr at" "unat p + 4096 * unat n \<le> 2 ^ b" "b < 64" and rqs: "requests_ok b rs"
    using Cons.prems(5) by (auto simp: requests_ok_def r)
  note R = MapPages_region[OF m Cons.prems(3) rq(1)]
  note M = MapPages_translates[OF m Cons.prems(2-4) rq]
  have "usable avail ok (mask b) PML4 (kh_pml4 h1) (kh_pg h1)" using M(1)[of "0xFFFFFFFF90000000"] R(5) by simp
  note IH = Cons.IH[OF ws Cons.prems(2) R(3) this rqs, unfolded R(5)]
  have v: "0xFFFFFFFF90000000 \<le> unat v" using Cons.prems(3) R(1) by (simp add: heap_wf_def)
  have low: "v2p (mask b) (pg_mem (kh_pg h')) PML4 (kh_pml4 h) w = v2p (mask b) (pg_mem (kh_pg h1)) PML4 (kh_pml4 h) w"
    if "0xFFFFFFFF90000000 \<le> unat w" "unat w < unat v + 4096 * unat n" for w
    using conjunct1[OF IH, rule_format, of w] that R(4) by simp
  have first: "v2p (mask b) (pg_mem (kh_pg h')) PML4 (kh_pml4 h) w = p + (w - v)"
    if "unat v \<le> unat w" "unat w < unat v + 4096 * unat n" for w
    using low[of w] M(2)[of w] that v by simp
  have frame: "v2p (mask b) (pg_mem (kh_pg h')) PML4 (kh_pml4 h) w = v2p (mask b) (pg_mem (kh_pg h)) PML4 (kh_pml4 h) w"
    if "0xFFFFFFFF90000000 \<le> unat w" "unat w < unat v" for w
    using low[of w] M(2)[of w] that by simp
  show ?case
  proof (intro conjI allI impI)
    fix i assume i: "i < length (r # rs)"
    show "case (r # rs) ! i of (p, n, at) \<Rightarrow> \<forall>w. unat (vs ! i) \<le> unat w \<and> unat w < unat (vs ! i) + 4096 * unat n \<longrightarrow>
      v2p (mask b) (pg_mem (kh_pg h')) PML4 (kh_pml4 h) w = p + (w - vs ! i)"
    proof (cases i)
      case 0
      then show ?thesis using first by (simp add: r vs)
    next
      case (Suc j)
      then show ?thesis using conjunct2[OF IH, rule_format, of j] i by (simp add: vs)
    qed
  qed (use frame R(1) in auto)
qed auto

end

section \<open>Properties\<close>


lemma example_heap_run:
  "(case map_all (mask 46) (AllocPages UsePhysicalAddressInternally) [(0x5000, 1, kPageAttrMemMappedIO)]
     (KernelVirtualHeapAllocator_new 0x100000 example_pg) of
    Inl _ \<Rightarrow> False | Inr (vs, _) \<Rightarrow> vs = [0xFFFFFFFF90000000])"
  by code_simp


text \<open>
  The test of \<open>MapPages\<close> against the end of the heap can wrap around.  Once more than
  768 MiB of addresses have been handed out, a request of 1 GiB passes it although it does not
  fit, and the mapping is created from the last part of the heap beyond the end of the address
  space.
\<close>

theorem MapPages_guard_wraps:
  assumes "kh_next_base h = 0xFFFFFFFFC0001000"
  shows "KernelHeap_MapPages pam alloc paddr 0x40000 attr h =
      bind_res (CreatePageMapping pam (alloc 1) (kh_pml4 h) 0xFFFFFFFFC0001000 paddr 0x40000000 attr False (kh_pg h))
        (\<lambda>pg. Ok (0xFFFFFFFFC0001000, h\<lparr>kh_next_base := 0x2000, kh_pg := pg\<rparr>)) \<and>
    unat kKernelHeapBaseAddr + unat kKernelHeapSize < unat (0xFFFFFFFFC0001000 :: u64) + unat (0x40000000 :: u64)"
proof -
  have e: "(18446744073709559808 :: u64) = 8192" by simp
  show ?thesis
    using assms by (simp add: KernelHeap_MapPages_def kPageSizeExponent_def kKernelHeapSize_def
      kKernelHeapBaseAddr_def check_that_def push_bit_eq_mult e)
qed

theorem MapPages_guard_wraps_witness:
  "KernelHeap_MapPages (mask 46) (\<lambda>_ _. Fail (Panic ''no table'')) 0 0x40000 3
     \<lparr>kh_next_base = 0xFFFFFFFFC0001000, kh_pml4 = 0x1000, kh_pg = example_pg\<rparr> = Fail (Panic ''no table'')"
proof -
  have "CreatePageMapping (mask 46) (\<lambda>_. Fail (Panic ''no table'')) 0x1000 0xFFFFFFFFC0001000 0 0x40000000 3 False example_pg
      = Fail (Panic ''no table'')"
    by (simp add: CreatePageMapping_def check_that_def kPageAddrMask_def map_pml4_loop.simps addr2index_def
        ensure_table_def new_table_def example_pg_def IsPresent_def kNumOfEntries_def)
  then show ?thesis
    using MapPages_guard_wraps[of "\<lparr>kh_next_base = 0xFFFFFFFFC0001000, kh_pml4 = 0x1000, kh_pg = example_pg\<rparr>"
      "mask 46" "\<lambda>_ _. Fail (Panic ''no table'')" 0 3] by simp
qed

end
