(* ===== verification/Ring_Buffer.thy ===== *)
theory Ring_Buffer
  imports Prelude
begin

text \<open>
  The fixed-capacity FIFO of src/src/ring_buffer.h.  \<open>RingBuffer<T, n>\<close> becomes a record
  whose element list has length \<open>n\<close>; the interface which its users rely on (key codes, USB
  slot events, received packets, mouse events) is the locale \<open>bounded_queue\<close>, interpreted on
  the model at the sizes the kernel instantiates.
\<close>

section \<open>The class\<close>

record 'a ring_buffer =
  rb_elements :: "'a list"
  rb_readp :: nat
  rb_writep :: nat

text \<open>The constructor sets both indices and leaves the storage as it is.\<close>

definition RingBuffer_new :: "'a list \<Rightarrow> 'a ring_buffer" where
  "RingBuffer_new storage = \<lparr>rb_elements = storage, rb_readp = 0, rb_writep = 0\<rparr>"

definition RingBuffer_IsEmpty :: "'a ring_buffer \<Rightarrow> bool" where
  "RingBuffer_IsEmpty q \<longleftrightarrow> rb_readp q = rb_writep q"

definition RingBuffer_GetReaderIndex :: "'a ring_buffer \<Rightarrow> nat" where
  "RingBuffer_GetReaderIndex q = rb_readp q"

definition RingBuffer_GetWriterIndex :: "'a ring_buffer \<Rightarrow> nat" where
  "RingBuffer_GetWriterIndex q = rb_writep q"

text \<open>\<open>d\<close> is the value-initialised \<open>T{}\<close> which \<open>Pop\<close> returns on an empty buffer.\<close>

definition RingBuffer_Pop :: "nat \<Rightarrow> 'a \<Rightarrow> 'a ring_buffer \<Rightarrow> 'a \<times> 'a ring_buffer" where
  "RingBuffer_Pop n d q =
     (if RingBuffer_IsEmpty q then (d, q)
      else (rb_elements q ! rb_readp q, q\<lparr>rb_readp := (rb_readp q + 1) mod n\<rparr>))"

definition RingBuffer_Push :: "nat \<Rightarrow> 'a \<Rightarrow> 'a ring_buffer \<Rightarrow> 'a ring_buffer" where
  "RingBuffer_Push n v q =
     (let nextp = (rb_writep q + 1) mod n in
      if nextp = rb_readp q then q
      else q\<lparr>rb_elements := (rb_elements q)[rb_writep q := v], rb_writep := nextp\<rparr>)"

section \<open>The contract of a bounded FIFO\<close>

text \<open>A FIFO's outputs over \<open>k\<close> successive calls of \<open>pop\<close>.\<close>

primrec pop_many :: "('q \<Rightarrow> 'a \<times> 'q) \<Rightarrow> nat \<Rightarrow> 'q \<Rightarrow> 'a list" where
  "pop_many pop 0 q = []"
| "pop_many pop (Suc k) q = (case pop q of (x, q') \<Rightarrow> x # pop_many pop k q')"

locale bounded_queue =
  fixes push :: "'a \<Rightarrow> 'q \<Rightarrow> 'q"
    and pop :: "'q \<Rightarrow> 'a \<times> 'q"
    and is_empty :: "'q \<Rightarrow> bool"
    and wf :: "'q \<Rightarrow> bool"
    and contents :: "'q \<Rightarrow> 'a list"
    and cap :: nat
    and dflt :: 'a
  assumes push_wf: "wf q \<Longrightarrow> wf (push x q)"
    and push_contents:
      "wf q \<Longrightarrow> contents (push x q) =
         (if length (contents q) < cap then contents q @ [x] else contents q)"
    and pop_wf: "wf q \<Longrightarrow> wf (snd (pop q))"
    and pop_empty: "\<lbrakk>wf q; contents q = []\<rbrakk> \<Longrightarrow> pop q = (dflt, q)"
    and pop_fst: "\<lbrakk>wf q; contents q \<noteq> []\<rbrakk> \<Longrightarrow> fst (pop q) = hd (contents q)"
    and pop_snd: "wf q \<Longrightarrow> contents (snd (pop q)) = tl (contents q)"
    and is_empty_iff: "wf q \<Longrightarrow> is_empty q \<longleftrightarrow> contents q = []"
    and contents_bound: "wf q \<Longrightarrow> length (contents q) \<le> cap"
begin

lemma push_many_wf: "wf q \<Longrightarrow> wf (fold push xs q)"
  by (induction xs arbitrary: q) (simp_all add: push_wf)

lemma push_many_contents:
  "wf q \<Longrightarrow> contents (fold push xs q) = contents q @ take (cap - length (contents q)) xs"
proof (induction xs arbitrary: q)
  case (Cons x xs)
  show ?case
  proof (cases "length (contents q) < cap")
    case True
    then obtain k where "cap - length (contents q) = Suc k" "cap - Suc (length (contents q)) = k"
      by (metis Suc_diff_Suc)
    then show ?thesis using Cons True by (simp add: push_wf push_contents)
  next
    case False
    then show ?thesis using Cons by (simp add: push_wf push_contents)
  qed
qed simp

lemma pop_many_contents:
  "\<lbrakk>wf q; k \<le> length (contents q)\<rbrakk> \<Longrightarrow> pop_many pop k q = take k (contents q)"
proof (induction k arbitrary: q)
  case (Suc k)
  obtain x q' where p: "pop q = (x, q')" by force
  have ne: "contents q \<noteq> []" using Suc.prems by auto
  have "x = hd (contents q)" using pop_fst[OF Suc.prems(1) ne] p by simp
  moreover have "wf q'" "contents q' = tl (contents q)"
    using pop_wf[OF Suc.prems(1)] pop_snd[OF Suc.prems(1)] p by simp_all
  ultimately show ?case using Suc p ne
    by (cases "contents q") auto
qed simp

text \<open>What goes in comes out in order; what does not fit is dropped.\<close>

lemma fifo:
  assumes "wf q" "is_empty q" "k = min cap (length xs)"
  shows "pop_many pop k (fold push xs q) = take cap xs"
proof -
  have "contents q = []" using assms is_empty_iff by simp
  then have c: "contents (fold push xs q) = take cap xs"
    using push_many_contents[OF assms(1), of xs] by simp
  show ?thesis
    using pop_many_contents[OF push_many_wf[OF assms(1)], of k xs] c assms(3)
    by (auto simp: min_def)
qed

end

section \<open>The model satisfies the contract\<close>

definition rb_count :: "nat \<Rightarrow> 'a ring_buffer \<Rightarrow> nat" where
  "rb_count n q = (rb_writep q + n - rb_readp q) mod n"

definition rb_contents :: "nat \<Rightarrow> 'a ring_buffer \<Rightarrow> 'a list" where
  "rb_contents n q = map (\<lambda>k. rb_elements q ! ((rb_readp q + k) mod n)) [0 ..< rb_count n q]"

definition rb_wf :: "nat \<Rightarrow> 'a ring_buffer \<Rightarrow> bool" where
  "rb_wf n q \<longleftrightarrow> 1 < n \<and> length (rb_elements q) = n \<and> rb_readp q < n \<and> rb_writep q < n"

lemma rb_wf_new [simp]: "1 < n \<Longrightarrow> length s = n \<Longrightarrow> rb_wf n (RingBuffer_new s)"
  by (simp add: rb_wf_def RingBuffer_new_def)

lemma rb_count_less: "rb_wf n q \<Longrightarrow> rb_count n q < n"
  by (simp add: rb_wf_def rb_count_def)

lemma rb_writep_eq: "rb_wf n q \<Longrightarrow> rb_writep q = (rb_readp q + rb_count n q) mod n"
  by (simp add: rb_wf_def rb_count_def mod_add_right_eq)

lemma rb_count_zero: "rb_wf n q \<Longrightarrow> rb_count n q = 0 \<longleftrightarrow> rb_readp q = rb_writep q"
  using rb_writep_eq[of n q] by (auto simp: rb_wf_def rb_count_def)

lemma rb_full_iff:
  assumes "rb_wf n q"
  shows "(rb_writep q + 1) mod n = rb_readp q \<longleftrightarrow> rb_count n q = n - 1"
proof -
  let ?c = "rb_count n q"
  have c: "?c < n" and r: "rb_readp q < n" and n: "1 < n"
    using assms rb_count_less by (auto simp: rb_wf_def)
  have w: "(rb_writep q + 1) mod n = (rb_readp q + (?c + 1)) mod n"
    using rb_writep_eq[OF assms] by (metis add.assoc mod_add_left_eq)
  show ?thesis
  proof (cases "?c + 1 = n")
    case True
    then show ?thesis using w r by simp
  next
    case False
    then have "?c + 1 < n" using c by simp
    then have "(rb_readp q + (?c + 1)) mod n \<noteq> (rb_readp q + 0) mod n"
      using mod_add_inj[of "rb_readp q" "?c + 1" n 0] n by auto
    then show ?thesis using w r False by simp
  qed
qed

lemma rb_push_wf: "rb_wf n q \<Longrightarrow> rb_wf n (RingBuffer_Push n v q)"
  by (auto simp: rb_wf_def RingBuffer_Push_def Let_def)

lemma rb_pop_wf: "rb_wf n q \<Longrightarrow> rb_wf n (snd (RingBuffer_Pop n d q))"
  by (auto simp: rb_wf_def RingBuffer_Pop_def)

lemma rb_push_count:
  assumes "rb_wf n q" "rb_count n q < n - 1"
  shows "rb_count n (RingBuffer_Push n v q) = Suc (rb_count n q)"
proof -
  have ne: "(rb_writep q + 1) mod n \<noteq> rb_readp q" using assms rb_full_iff by fastforce
  have "(rb_writep q + 1) mod n = (rb_readp q + Suc (rb_count n q)) mod n"
    using rb_writep_eq[OF assms(1)] by (metis add_Suc_right Suc_eq_plus1 mod_Suc_eq)
  moreover have "rb_readp q < n" using assms by (simp add: rb_wf_def)
  ultimately show ?thesis
    using ne assms mod_add_diff_self[of "rb_readp q" n "Suc (rb_count n q)"]
    by (simp add: RingBuffer_Push_def Let_def rb_count_def[of n "RingBuffer_Push n v q"] rb_count_def[of n "_\<lparr>rb_writep := _\<rparr>"])
qed

lemma rb_push_contents:
  assumes "rb_wf n q"
  shows "rb_contents n (RingBuffer_Push n v q) =
    (if length (rb_contents n q) < n - 1 then rb_contents n q @ [v] else rb_contents n q)"
proof (cases "rb_count n q < n - 1")
  case True
  let ?c = "rb_count n q" and ?r = "rb_readp q"
  have ne: "(rb_writep q + 1) mod n \<noteq> ?r" using True rb_full_iff[OF assms] by simp
  have w: "rb_writep q = (?r + ?c) mod n" by (rule rb_writep_eq[OF assms])
  have "rb_writep q \<noteq> (?r + k) mod n" if "k < ?c" for k
    using mod_add_inj[of ?r ?c n k] rb_count_less[OF assms] that w by auto
  moreover have "length (rb_elements q) = n" "rb_writep q < n" using assms by (auto simp: rb_wf_def)
  ultimately have "rb_contents n (RingBuffer_Push n v q) = rb_contents n q @ [v]"
    using rb_push_count[OF assms True, of v] ne w
    by (simp add: rb_contents_def RingBuffer_Push_def Let_def)
  then show ?thesis using True by (simp add: rb_contents_def)
next
  case False
  then have "(rb_writep q + 1) mod n = rb_readp q"
    using rb_count_less[OF assms] rb_full_iff[OF assms] by simp
  then show ?thesis using False by (simp add: RingBuffer_Push_def rb_contents_def)
qed

lemma rb_pop_contents:
  assumes "rb_wf n q"
  shows "rb_contents n (snd (RingBuffer_Pop n d q)) = tl (rb_contents n q)"
proof (cases "rb_count n q")
  case 0
  then show ?thesis using rb_count_zero[OF assms]
    by (simp add: RingBuffer_Pop_def RingBuffer_IsEmpty_def rb_contents_def)
next
  case (Suc m)
  let ?q' = "q\<lparr>rb_readp := (rb_readp q + 1) mod n\<rparr>"
  have r: "rb_readp q \<noteq> rb_writep q" using Suc rb_count_zero[OF assms] by simp
  have wf': "rb_wf n ?q'" using assms by (simp add: rb_wf_def)
  have "rb_writep q = ((rb_readp q + 1) mod n + m) mod n"
    using rb_writep_eq[OF assms] Suc by (simp add: mod_add_left_eq)
  moreover have "rb_writep q = ((rb_readp q + 1) mod n + rb_count n ?q') mod n"
    using rb_writep_eq[OF wf'] by simp
  ultimately have "rb_count n ?q' = m"
    using mod_add_inj[of "(rb_readp q + 1) mod n" "rb_count n ?q'" n m]
      rb_count_less[OF wf'] rb_count_less[OF assms] Suc by simp
  moreover have "tl (map f [0..<Suc m]) = map (\<lambda>k. f (Suc k)) [0..<m]" for f :: "nat \<Rightarrow> 'a"
    by (simp add: map_upt_Suc del: upt_Suc)
  ultimately show ?thesis using r Suc
    by (simp add: RingBuffer_Pop_def RingBuffer_IsEmpty_def rb_contents_def mod_add_left_eq
        del: upt_Suc)
qed

lemma rb_bounded_queue:
  assumes "1 < n"
  shows "bounded_queue (RingBuffer_Push n) (RingBuffer_Pop n d) RingBuffer_IsEmpty
    (rb_wf n) (rb_contents n) (n - 1) d"
proof (unfold_locales, goal_cases)
  case (4 q)
  then show ?case using rb_count_zero[of n q]
    by (simp add: RingBuffer_Pop_def RingBuffer_IsEmpty_def rb_contents_def)
next
  case (5 q)
  then have "rb_count n q \<noteq> 0" by (auto simp: rb_contents_def)
  then show ?case using 5 rb_count_zero[of n q]
    by (auto simp: RingBuffer_Pop_def RingBuffer_IsEmpty_def rb_contents_def hd_map rb_wf_def)
next
  case (7 q)
  then show ?case using rb_count_zero[of n q]
    by (simp add: RingBuffer_IsEmpty_def rb_contents_def)
next
  case (8 q)
  then show ?case using rb_count_less[of n q] by (simp add: rb_contents_def)
qed (simp_all add: rb_push_wf rb_push_contents rb_pop_wf rb_pop_contents)

text \<open>The keyboard, standard input and USB queues have 16 slots, the packet queue 32.\<close>

interpretation rb16: bounded_queue "RingBuffer_Push 16" "RingBuffer_Pop 16 d" RingBuffer_IsEmpty
    "rb_wf 16" "rb_contents 16" 15 d for d
  using rb_bounded_queue[of 16 d] by simp

interpretation rb32: bounded_queue "RingBuffer_Push 32" "RingBuffer_Pop 32 d" RingBuffer_IsEmpty
    "rb_wf 32" "rb_contents 32" 31 d for d
  using rb_bounded_queue[of 32 d] by simp

section \<open>Properties\<close>

text \<open>
  C8: a ring buffer of \<open>n\<close> slots is a bounded FIFO.  Starting from any well-formed empty
  buffer, wherever its indices stand, pushing a list of values and then popping returns the
  first \<open>n - 1\<close> of them, in the order in which they were pushed; the rest is dropped.
\<close>

theorem RingBuffer_fifo:
  assumes "rb_wf n q" "RingBuffer_IsEmpty q"
  shows "pop_many (RingBuffer_Pop n d) (min (n - 1) (length xs)) (fold (RingBuffer_Push n) xs q)
    = take (n - 1) xs"
proof -
  have "1 < n" using assms by (simp add: rb_wf_def)
  from bounded_queue.fifo[OF rb_bounded_queue[OF this, of d] assms refl, of xs]
  show ?thesis by simp
qed

theorem RingBuffer_fifo_witness:
  "pop_many (RingBuffer_Pop 4 0) 3
     (fold (RingBuffer_Push 4) [3, 5, 7, 11] \<lparr>rb_elements = [0, 0, 0, 0::nat], rb_readp = 2, rb_writep = 2\<rparr>)
   = [3, 5, 7]"
  using RingBuffer_fifo[of 4 "\<lparr>rb_elements = [0, 0, 0, 0::nat], rb_readp = 2, rb_writep = 2\<rparr>" 0 "[3, 5, 7, 11]"]
  by (simp add: rb_wf_def RingBuffer_IsEmpty_def numeral_3_eq_3)

end
