(* ===== verification/Scheduling.thy ===== *)
theory Scheduling
  imports Ring_Buffer
begin

text \<open>
  Processes and their scheduler: src/src/process.h, the state machine of src/src/process.cc,
  src/src/process_lock.h/.cc and src/src/scheduler.h/.cc.  Processes live in a store indexed by
  references; the array \<open>process_\<close> of the scheduler is a map from slots to optional references.
  Execution contexts and persistent process informations are referred to by identities.
\<close>

section \<open>Processes\<close>

datatype status = kNotInitialized | kNotScheduled | kSleeping | kRunning | kStopping | kStopped

record process =
  pr_id :: u64
  pr_name :: string
  pr_status :: status
  pr_scheduler_index :: nat
  pr_ctx :: "nat option"
  pr_pp_info :: "nat option"
  pr_number_of_ctx_switch :: u64
  pr_proc_time_femto_sec :: u64
  pr_sys_time_femto_sec :: u64
  pr_copied_bytes_in_ctx_sw :: u64
  pr_num_of_clflush_issued_in_ctx_sw :: u64
  pr_time_consumed_in_ctx_save_femto_sec :: u64
  pr_stdin_buffer :: "u8 ring_buffer"

text \<open>
  The constructor leaves \<open>scheduler_index_\<close> as the memory has it (\<open>idx\<close>); \<open>storage\<close> is the
  memory of the input buffer.
\<close>

definition Process_new :: "u64 \<Rightarrow> string \<Rightarrow> nat \<Rightarrow> u8 list \<Rightarrow> process" where
  "Process_new pid name idx storage =
     \<lparr>pr_id = pid, pr_name = name, pr_status = kNotInitialized, pr_scheduler_index = idx, pr_ctx = None,
      pr_pp_info = None, pr_number_of_ctx_switch = 0, pr_proc_time_femto_sec = 0,
      pr_sys_time_femto_sec = 0, pr_copied_bytes_in_ctx_sw = 0,
      pr_num_of_clflush_issued_in_ctx_sw = 0, pr_time_consumed_in_ctx_save_femto_sec = 0,
      pr_stdin_buffer = RingBuffer_new storage\<rparr>"

definition Process_IsPersistent :: "process \<Rightarrow> bool res" where
  "Process_IsPersistent p =
     (if pr_ctx p \<noteq> None then bind_res (check_that (pr_pp_info p = None) Assert_Failed) (\<lambda>_. Ok False)
      else bind_res (check_that (pr_pp_info p \<noteq> None) Assert_Failed) (\<lambda>_. Ok True))"

definition InitAsEphemeralProcess :: "nat \<Rightarrow> process \<Rightarrow> process res" where
  "InitAsEphemeralProcess ctx p =
     bind_res (check_that (pr_status p = kNotInitialized) Assert_Failed) (\<lambda>_.
     bind_res (check_that (pr_ctx p = None) Assert_Failed) (\<lambda>_.
     bind_res (check_that (pr_pp_info p = None) Assert_Failed) (\<lambda>_.
     Ok (p\<lparr>pr_ctx := Some ctx, pr_status := kNotScheduled\<rparr>))))"

definition InitAsPersistentProcess :: "nat \<Rightarrow> process \<Rightarrow> process res" where
  "InitAsPersistentProcess pp_info p =
     bind_res (check_that (pr_status p = kNotInitialized) Assert_Failed) (\<lambda>_.
     bind_res (check_that (pr_ctx p = None) Assert_Failed) (\<lambda>_.
     bind_res (check_that (pr_pp_info p = None) Assert_Failed) (\<lambda>_.
     Ok (p\<lparr>pr_pp_info := Some pp_info, pr_status := kNotScheduled\<rparr>))))"

definition AddProcTimeFemtoSec :: "u64 \<Rightarrow> process \<Rightarrow> process" where
  "AddProcTimeFemtoSec fs p = p\<lparr>pr_proc_time_femto_sec := pr_proc_time_femto_sec p + fs\<rparr>"

definition ResetProcTimeFemtoSec :: "process \<Rightarrow> process" where
  "ResetProcTimeFemtoSec p = p\<lparr>pr_proc_time_femto_sec := 0\<rparr>"

definition AddSysTimeFemtoSec :: "u64 \<Rightarrow> process \<Rightarrow> process" where
  "AddSysTimeFemtoSec fs p = p\<lparr>pr_sys_time_femto_sec := pr_sys_time_femto_sec p + fs\<rparr>"

definition ResetSysTime :: "process \<Rightarrow> process" where
  "ResetSysTime p = p\<lparr>pr_sys_time_femto_sec := 0\<rparr>"

definition AddTimeConsumedInContextSavingFemtoSec :: "u64 \<Rightarrow> process \<Rightarrow> process" where
  "AddTimeConsumedInContextSavingFemtoSec fs p =
     p\<lparr>pr_time_consumed_in_ctx_save_femto_sec := pr_time_consumed_in_ctx_save_femto_sec p + fs\<rparr>"

fun Process_Kill :: "process \<Rightarrow> process" where
  "Process_Kill p = (case pr_status p of
       kNotInitialized \<Rightarrow> p
     | kNotScheduled \<Rightarrow> p
     | kSleeping \<Rightarrow> p\<lparr>pr_status := kStopped\<rparr>
     | kRunning \<Rightarrow> p\<lparr>pr_status := kStopping\<rparr>
     | kStopping \<Rightarrow> p
     | kStopped \<Rightarrow> p)"

text \<open>
  \<open>Create\<close>: \<open>alloc\<close> is the heap allocator, \<open>pages\<close> the size of a process object in pages.  The
  identifier of the new process is the incremented \<open>last_id_\<close>.
\<close>

definition ProcessController_Create ::
    "(u64 \<Rightarrow> 'h \<Rightarrow> (nat \<times> 'h) res) \<Rightarrow> u64 \<Rightarrow> string \<Rightarrow> nat \<Rightarrow> u8 list \<Rightarrow> u64 \<times> 'h \<Rightarrow>
     (nat \<times> process \<times> u64 \<times> 'h) res" where
  "ProcessController_Create alloc pages name idx storage = (\<lambda>(last_id, h).
     bind_res (alloc pages h) (\<lambda>(r, h').
     Ok (r, Process_new (last_id + 1) name idx storage, last_id + 1, h')))"

section \<open>The lock\<close>

text \<open>
  \<open>CompareAndExchange64\<close> tries up to 255 times, sleeping in between, while other processes run.
  \<open>seen n\<close> is the value of the lock at the \<open>n\<close>-th attempt of this process; the result says
  whether the attempts timed out, and the number of attempts made so far.
\<close>

primrec cas_tries :: "(nat \<Rightarrow> u64) \<Rightarrow> u64 \<Rightarrow> nat \<Rightarrow> nat \<Rightarrow> bool \<times> nat" where
  "cas_tries seen expected 0 n = (True, n)"
| "cas_tries seen expected (Suc k) n =
     (if seen n = expected then (False, n + 1) else cas_tries seen expected k (n + 1))"

definition CompareAndExchange64 :: "(nat \<Rightarrow> u64) \<Rightarrow> u64 \<Rightarrow> nat \<Rightarrow> bool \<times> nat" where
  "CompareAndExchange64 seen expected n = cas_tries seen expected 0xFF n"

text \<open>Up to \<open>k\<close> calls: the number of attempts after which the lock is taken.\<close>

primrec lock_rounds :: "(nat \<Rightarrow> u64) \<Rightarrow> nat \<Rightarrow> nat \<Rightarrow> nat option" where
  "lock_rounds seen 0 n = None"
| "lock_rounds seen (Suc k) n =
     (case CompareAndExchange64 seen 0 n of (timeout, n') \<Rightarrow> if \<not> timeout then Some n' else lock_rounds seen k n')"

definition ProcessLock_Lock :: "bool \<Rightarrow> u64 \<Rightarrow> (nat \<Rightarrow> u64) \<Rightarrow> u64 \<Rightarrow> u64 res" where
  "ProcessLock_Lock is_multi_task_enabled pid seen locked_by_pid =
     (if \<not> is_multi_task_enabled then Ok locked_by_pid
      else case lock_rounds seen 3 0 of
        Some _ \<Rightarrow> Ok pid
      | None \<Rightarrow> Fail (Panic ''ProcessLock::Lock() taking too long (deadlock?)''))"

definition ProcessLock_Unlock :: "bool \<Rightarrow> u64 \<Rightarrow> u64" where
  "ProcessLock_Unlock is_multi_task_enabled locked_by_pid =
     (if \<not> is_multi_task_enabled then locked_by_pid else 0)"

lemma cas_tries_found:
  assumes "\<forall>j. n \<le> j \<and> j < m \<longrightarrow> seen j \<noteq> e" "n \<le> m" "m < n + k" "seen m = e"
  shows "cas_tries seen e k n = (False, m + 1)"
  using assms
proof (induction k arbitrary: n)
  case (Suc k)
  show ?case
  proof (cases "n = m")
    case False
    then show ?thesis using Suc.IH[of "Suc n"] Suc.prems by auto
  qed (use Suc.prems in simp)
qed simp

lemma cas_tries_timeout:
  assumes "\<forall>j. n \<le> j \<and> j < n + k \<longrightarrow> seen j \<noteq> e"
  shows "cas_tries seen e k n = (True, n + k)"
  using assms
proof (induction k arbitrary: n)
  case (Suc k)
  then show ?case using Suc.IH[of "Suc n"] Suc.prems by auto
qed simp

lemma lock_rounds_found:
  assumes "\<forall>j. n \<le> j \<and> j < m \<longrightarrow> seen j \<noteq> 0" "n \<le> m" "m < n + 255 * k" "seen m = 0"
  shows "lock_rounds seen k n = Some (m + 1)"
  using assms
proof (induction k arbitrary: n)
  case (Suc k)
  show ?case
  proof (cases "m < n + 255")
    case True
    then have "CompareAndExchange64 seen 0 n = (False, m + 1)"
      unfolding CompareAndExchange64_def using Suc.prems by (intro cas_tries_found) auto
    then show ?thesis by simp
  next
    case False
    then have "CompareAndExchange64 seen 0 n = (True, n + 0xFF)"
      unfolding CompareAndExchange64_def using Suc.prems(1) by (intro cas_tries_timeout) auto
    then show ?thesis using False Suc.IH[of "n + 255"] Suc.prems by simp
  qed
qed simp

lemma lock_rounds_timeout:
  assumes "\<forall>j. n \<le> j \<and> j < n + 255 * k \<longrightarrow> seen j \<noteq> 0"
  shows "lock_rounds seen k n = None"
  using assms
proof (induction k arbitrary: n)
  case (Suc k)
  have "CompareAndExchange64 seen 0 n = (True, n + 0xFF)"
    unfolding CompareAndExchange64_def using Suc.prems by (intro cas_tries_timeout) auto
  then show ?case using Suc.IH[of "n + 255"] Suc.prems by simp
qed simp

section \<open>The scheduler\<close>

type_synonym proc_ref = nat

record scheduler =
  sc_procs :: "proc_ref \<Rightarrow> process"
  sc_process :: "nat \<Rightarrow> proc_ref option"
  sc_number_of_process :: nat
  sc_current :: proc_ref
  sc_locked_by_pid :: u64
  sc_is_multi_task_enabled :: bool

definition kNumberOfProcess :: nat where
  "kNumberOfProcess = 256"

abbreviation status_of :: "scheduler \<Rightarrow> proc_ref \<Rightarrow> status" where
  "status_of s p \<equiv> pr_status (sc_procs s p)"

abbreviation index_of :: "scheduler \<Rightarrow> proc_ref \<Rightarrow> nat" where
  "index_of s p \<equiv> pr_scheduler_index (sc_procs s p)"

definition SetStatus :: "proc_ref \<Rightarrow> status \<Rightarrow> scheduler \<Rightarrow> scheduler" where
  "SetStatus p t s = s\<lparr>sc_procs := (sc_procs s)(p := (sc_procs s p)\<lparr>pr_status := t\<rparr>)\<rparr>"

definition SetSchedulerIndex :: "proc_ref \<Rightarrow> nat \<Rightarrow> scheduler \<Rightarrow> scheduler" where
  "SetSchedulerIndex p i s =
     s\<lparr>sc_procs := (sc_procs s)(p := (sc_procs s p)\<lparr>pr_scheduler_index := i\<rparr>)\<rparr>"

definition sched_lock :: "scheduler \<Rightarrow> scheduler res" where
  "sched_lock s =
     bind_res (ProcessLock_Lock (sc_is_multi_task_enabled s) (pr_id (sc_procs s (sc_current s)))
       (\<lambda>_. sc_locked_by_pid s) (sc_locked_by_pid s)) (\<lambda>l. Ok (s\<lparr>sc_locked_by_pid := l\<rparr>))"

definition sched_unlock :: "scheduler \<Rightarrow> scheduler" where
  "sched_unlock s =
     s\<lparr>sc_locked_by_pid := ProcessLock_Unlock (sc_is_multi_task_enabled s) (sc_locked_by_pid s)\<rparr>"

text \<open>The search of a slot whose process satisfies \<open>P\<close>, dereferencing each slot on the way.\<close>

primrec find_slot :: "(process \<Rightarrow> bool) \<Rightarrow> scheduler \<Rightarrow> nat list \<Rightarrow> nat option res" where
  "find_slot P s [] = Ok None"
| "find_slot P s (i # is) =
     (case sc_process s i of None \<Rightarrow> Fail Null_Deref
      | Some p \<Rightarrow> if P (sc_procs s p) then Ok (Some i) else find_slot P s is)"

definition Scheduler_RegisterProcess :: "proc_ref \<Rightarrow> scheduler \<Rightarrow> scheduler res" where
  "Scheduler_RegisterProcess proc s0 =
     bind_res (sched_lock s0) (\<lambda>s.
     bind_res (check_that (sc_number_of_process s < kNumberOfProcess) Assert_Failed) (\<lambda>_.
     bind_res (check_that (status_of s proc = kNotScheduled) Assert_Failed) (\<lambda>_.
     bind_res (find_slot (\<lambda>p. pr_status p = kStopped) s [0..<sc_number_of_process s]) (\<lambda>r.
     case r of
       Some i \<Rightarrow> Ok (sched_unlock (SetStatus proc kSleeping (SetSchedulerIndex proc i
                  (s\<lparr>sc_process := (sc_process s)(i := Some proc)\<rparr>))))
     | None \<Rightarrow>
         let i = sc_number_of_process s in
         Ok (sched_unlock (SetStatus proc kSleeping ((SetSchedulerIndex proc i
               (s\<lparr>sc_process := (sc_process s)(i := Some proc)\<rparr>))\<lparr>sc_number_of_process := i + 1\<rparr>)))))))"

definition Scheduler_new :: "proc_ref \<Rightarrow> scheduler \<Rightarrow> scheduler res" where
  "Scheduler_new root_process s =
     bind_res (Scheduler_RegisterProcess root_process
       (s\<lparr>sc_number_of_process := 0, sc_current := root_process, sc_locked_by_pid := 0\<rparr>)) (\<lambda>s1.
     Ok (SetStatus root_process kRunning s1))"

text \<open>The first sleeping process in the slots after the current process, cyclically.\<close>

definition next_slot :: "scheduler \<Rightarrow> nat \<Rightarrow> proc_ref option" where
  "next_slot s i = sc_process s ((index_of s (sc_current s) + i) mod sc_number_of_process s)"

definition find_sleeping :: "scheduler \<Rightarrow> proc_ref option" where
  "find_sleeping s = Option.bind
     (find (\<lambda>i. case next_slot s i of None \<Rightarrow> False | Some proc \<Rightarrow> status_of s proc = kSleeping)
        [1..<sc_number_of_process s]) (next_slot s)"

definition Scheduler_SwitchProcess :: "scheduler \<Rightarrow> (proc_ref option \<times> scheduler) res" where
  "Scheduler_SwitchProcess s0 =
     bind_res (sched_lock s0) (\<lambda>s.
     case find_sleeping s of
       None \<Rightarrow> Ok (None, sched_unlock s)
     | Some proc \<Rightarrow>
         let cur = sc_current s;
             s1 = (if status_of s cur = kRunning then SetStatus cur kSleeping s
                   else if status_of s cur = kStopping then SetStatus cur kStopped s
                   else s);
             s2 = (SetStatus proc kRunning s1)\<lparr>sc_current := proc\<rparr>
         in Ok (Some proc, sched_unlock s2))"

definition kill_ref :: "proc_ref \<Rightarrow> scheduler \<Rightarrow> scheduler" where
  "kill_ref p s = s\<lparr>sc_procs := (sc_procs s)(p := Process_Kill (sc_procs s p))\<rparr>"

definition Scheduler_KillCurrentProcess :: "scheduler \<Rightarrow> scheduler" where
  "Scheduler_KillCurrentProcess s = kill_ref (sc_current s) s"

definition Scheduler_Kill :: "u64 \<Rightarrow> scheduler \<Rightarrow> scheduler res" where
  "Scheduler_Kill pid s0 =
     bind_res (sched_lock s0) (\<lambda>s.
     bind_res (find_slot (\<lambda>p. pr_id p = pid) s [0..<sc_number_of_process s]) (\<lambda>r.
     case r of
       Some i \<Rightarrow> Ok (sched_unlock (kill_ref (the (sc_process s i)) s))
     | None \<Rightarrow> Ok (sched_unlock s)))"

definition Scheduler_GetProcess :: "nat \<Rightarrow> scheduler \<Rightarrow> proc_ref option" where
  "Scheduler_GetProcess i s = (if sc_number_of_process s \<le> i then None else sc_process s i)"

definition Scheduler_GetNumOfProcess :: "scheduler \<Rightarrow> nat" where
  "Scheduler_GetNumOfProcess s = sc_number_of_process s"

text \<open>
  Waiting sleeps until the process has stopped; \<open>sleep\<close> is what happens to the scheduler
  between the call of \<open>Sleep()\<close> and its return.
\<close>

partial_function (option) WaitUntilExit :: "(scheduler \<Rightarrow> scheduler) \<Rightarrow> proc_ref \<Rightarrow> scheduler \<Rightarrow> scheduler option" where
  "WaitUntilExit sleep p s =
     (if status_of s p \<noteq> kStopped then WaitUntilExit sleep p (sleep s) else Some s)"

declare WaitUntilExit.simps [code]

definition LaunchAndWaitUntilExit ::
    "(scheduler \<Rightarrow> scheduler) \<Rightarrow> proc_ref \<Rightarrow> scheduler \<Rightarrow> (u64 \<times> scheduler) res" where
  "LaunchAndWaitUntilExit sleep proc s =
     bind_res (Scheduler_RegisterProcess proc s) (\<lambda>s1.
     case WaitUntilExit sleep proc s1 of None \<Rightarrow> Fail Diverges | Some s2 \<Rightarrow> Ok (0, s2))"

end
