(* ===== verification/Scheduler_Runs.thy ===== *)
theory Scheduler_Runs
  imports Scheduling
begin

text \<open>
What the scheduler of src/src/scheduler.cc guarantees: an invariant of every state it can
  reach (one process has the CPU, slots and indices agree), round-robin choice of the next
  process, and the absence of starvation.
\<close>

section \<open>The invariant\<close>

text \<open>
  Every slot in use holds a process which knows its slot; the current process is running or
  being stopped, and every other one sleeps or has stopped.  The lock is free between calls.
\<close>

definition sched_inv :: "scheduler \<Rightarrow> bool" where
  "sched_inv s \<longleftrightarrow> sc_number_of_process s \<le> kNumberOfProcess \<and> sc_locked_by_pid s = 0 \<and>
     (\<forall>i < sc_number_of_process s. \<exists>p. sc_process s i = Some p \<and> index_of s p = i \<and>
        (if p = sc_current s then status_of s p \<in> {kRunning, kStopping}
         else status_of s p \<in> {kSleeping, kStopped})) \<and>
     index_of s (sc_current s) < sc_number_of_process s \<and>
     sc_process s (index_of s (sc_current s)) = Some (sc_current s)"

definition registered :: "scheduler \<Rightarrow> proc_ref \<Rightarrow> bool" where
  "registered s p \<longleftrightarrow> index_of s p < sc_number_of_process s \<and> sc_process s (index_of s p) = Some p"

lemma sched_invD:
  assumes "sched_inv s"
  shows "sc_locked_by_pid s = 0" "registered s (sc_current s)"
    "status_of s (sc_current s) \<in> {kRunning, kStopping}" "0 < sc_number_of_process s"
    "sc_number_of_process s \<le> kNumberOfProcess"
  using assms by (auto simp: sched_inv_def registered_def dest!: spec[of _ "index_of s (sc_current s)"])

lemma sched_inv_slot:
  assumes "sched_inv s" "i < sc_number_of_process s"
  shows "\<exists>p. sc_process s i = Some p \<and> index_of s p = i \<and> registered s p \<and>
    (p \<noteq> sc_current s \<longrightarrow> status_of s p \<in> {kSleeping, kStopped})"
proof -
  obtain p where "sc_process s i = Some p" "index_of s p = i"
      "if p = sc_current s then status_of s p \<in> {kRunning, kStopping} else status_of s p \<in> {kSleeping, kStopped}"
    using assms unfolding sched_inv_def by blast
  then show ?thesis using assms(2) by (intro exI[of _ p]) (simp add: registered_def split: if_splits)
qed

lemma registered_status:
  assumes "sched_inv s" "registered s p" "p \<noteq> sc_current s"
  shows "status_of s p \<in> {kSleeping, kStopped}"
  using assms(2,3) sched_inv_slot[OF assms(1), of "index_of s p"] by (auto simp: registered_def)

lemma registered_inj: "registered s p \<Longrightarrow> registered s q \<Longrightarrow> index_of s p = index_of s q \<Longrightarrow> p = q"
  by (simp add: registered_def)

section \<open>The operations under the invariant\<close>

definition lock_word :: "scheduler \<Rightarrow> u64" where
  "lock_word s = (if sc_is_multi_task_enabled s then pr_id (sc_procs s (sc_current s)) else 0)"

lemma sched_lock_free: "sc_locked_by_pid s = 0 \<Longrightarrow> sched_lock s = Ok (s\<lparr>sc_locked_by_pid := lock_word s\<rparr>)"
  using lock_rounds_found[of 0 0 "\<lambda>_. 0" 3] by (cases s) (simp add: sched_lock_def ProcessLock_Lock_def lock_word_def)

lemma sched_unlock_word:
  "sched_unlock t = t\<lparr>sc_locked_by_pid := 0\<rparr>" if "sc_is_multi_task_enabled t \<or> sc_locked_by_pid t = 0"
  using that by (cases t) (auto simp: sched_unlock_def ProcessLock_Unlock_def)

lemma lock_word_zero: "sc_is_multi_task_enabled s \<or> lock_word s = 0"
  by (simp add: lock_word_def)

lemma sched_fields [simp]:
  "sc_procs (SetStatus p t s) = (sc_procs s)(p := (sc_procs s p)\<lparr>pr_status := t\<rparr>)"
  "sc_process (SetStatus p t s) = sc_process s"
  "sc_number_of_process (SetStatus p t s) = sc_number_of_process s"
  "sc_current (SetStatus p t s) = sc_current s"
  "sc_locked_by_pid (SetStatus p t s) = sc_locked_by_pid s"
  "sc_is_multi_task_enabled (SetStatus p t s) = sc_is_multi_task_enabled s"
  "sc_procs (SetSchedulerIndex p i s) = (sc_procs s)(p := (sc_procs s p)\<lparr>pr_scheduler_index := i\<rparr>)"
  "sc_process (SetSchedulerIndex p i s) = sc_process s"
  "sc_number_of_process (SetSchedulerIndex p i s) = sc_number_of_process s"
  "sc_current (SetSchedulerIndex p i s) = sc_current s"
  "sc_locked_by_pid (SetSchedulerIndex p i s) = sc_locked_by_pid s"
  "sc_is_multi_task_enabled (SetSchedulerIndex p i s) = sc_is_multi_task_enabled s"
  "sc_procs (kill_ref p s) = (sc_procs s)(p := Process_Kill (sc_procs s p))"
  "sc_process (kill_ref p s) = sc_process s"
  "sc_number_of_process (kill_ref p s) = sc_number_of_process s"
  "sc_current (kill_ref p s) = sc_current s"
  "sc_locked_by_pid (kill_ref p s) = sc_locked_by_pid s"
  "sc_is_multi_task_enabled (kill_ref p s) = sc_is_multi_task_enabled s"
  by (simp_all add: SetStatus_def SetSchedulerIndex_def kill_ref_def)

lemma find_slot_find:
  "(\<And>i. i \<in> set is \<Longrightarrow> sc_process s i \<noteq> None) \<Longrightarrow>
   find_slot P s is = Ok (find (\<lambda>i. P (sc_procs s (the (sc_process s i)))) is)"
  by (induction "is") (auto split: option.split)

lemma find_slot_inv:
  assumes "sched_inv s"
  shows "find_slot P (s\<lparr>sc_locked_by_pid := l\<rparr>) [0..<sc_number_of_process s] =
    Ok (find (\<lambda>i. P (sc_procs s (the (sc_process s i)))) [0..<sc_number_of_process s])"
proof -
  have "\<And>i. i \<in> set [0..<sc_number_of_process s] \<Longrightarrow> sc_process (s\<lparr>sc_locked_by_pid := l\<rparr>) i \<noteq> None"
    using sched_inv_slot[OF assms] by fastforce
  from find_slot_find[of "[0..<sc_number_of_process s]" "s\<lparr>sc_locked_by_pid := l\<rparr>" P, OF this]
  show ?thesis by simp
qed

definition switched :: "proc_ref \<Rightarrow> scheduler \<Rightarrow> scheduler" where
  "switched q s = (SetStatus q kRunning (SetStatus (sc_current s)
     (if status_of s (sc_current s) = kRunning then kSleeping else kStopped) s))\<lparr>sc_current := q\<rparr>"

lemma find_sleeping_lock [simp]: "find_sleeping (s\<lparr>sc_locked_by_pid := l\<rparr>) = find_sleeping s"
proof -
  have "next_slot (s\<lparr>sc_locked_by_pid := l\<rparr>) = next_slot s" by (simp add: next_slot_def fun_eq_iff)
  then show ?thesis by (simp add: find_sleeping_def cong: option.case_cong)
qed

lemma find_sleeping_SomeD:
  assumes inv: "sched_inv s" and q: "find_sleeping s = Some q"
  shows "registered s q" "status_of s q = kSleeping" "q \<noteq> sc_current s"
proof -
  let ?n = "sc_number_of_process s" and ?b = "index_of s (sc_current s)"
  obtain i where i: "next_slot s i = Some q" and st: "status_of s q = kSleeping"
    using q by (auto simp: find_sleeping_def bind_eq_Some_conv dest!: find_SomeD)
  have "(?b + i) mod ?n < ?n" using sched_invD(4)[OF inv] by simp
  then show "registered s q" using i sched_inv_slot[OF inv, of "(?b + i) mod ?n"] by (auto simp: next_slot_def)
  show "status_of s q = kSleeping" by (rule st)
  show "q \<noteq> sc_current s" using sched_invD(3)[OF inv] st by auto
qed

lemma SwitchProcess_eq:
  assumes inv: "sched_inv s"
  shows "Scheduler_SwitchProcess s =
    Ok (case find_sleeping s of None \<Rightarrow> (None, s) | Some q \<Rightarrow> (Some q, switched q s))"
proof -
  have cur: "status_of s (sc_current s) = kRunning \<or> status_of s (sc_current s) = kStopping"
    using sched_invD(3)[OF inv] by auto
  have un: "sched_unlock (s\<lparr>sc_locked_by_pid := lock_word s\<rparr>) = s"
    using lock_word_zero[of s] sched_invD(1)[OF inv] by (cases s) (simp add: sched_unlock_word)
  have un2: "sched_unlock ((SetStatus q kRunning (SetStatus (sc_current s) t
        (s\<lparr>sc_locked_by_pid := lock_word s\<rparr>)))\<lparr>sc_current := q\<rparr>)
      = (SetStatus q kRunning (SetStatus (sc_current s) t s))\<lparr>sc_current := q\<rparr>" for q t
    using lock_word_zero[of s] sched_invD(1)[OF inv]
    by (cases s) (simp add: sched_unlock_word SetStatus_def)
  show ?thesis
    using cur un un2 by (cases "find_sleeping s")
      (auto simp: Scheduler_SwitchProcess_def sched_lock_free[OF sched_invD(1)[OF inv]] switched_def Let_def)
qed

lemma switched_fields [simp]:
  "sc_process (switched q s) = sc_process s" "sc_number_of_process (switched q s) = sc_number_of_process s"
  "sc_current (switched q s) = q" "sc_locked_by_pid (switched q s) = sc_locked_by_pid s"
  "pr_id (sc_procs (switched q s) p) = pr_id (sc_procs s p)"
  "index_of (switched q s) p = index_of s p"
  by (simp_all add: switched_def)

lemma switched_status:
  assumes "q \<noteq> sc_current s" "status_of s (sc_current s) \<in> {kRunning, kStopping}"
  shows "status_of (switched q s) p =
    (if p = q then kRunning
     else if p = sc_current s then (if status_of s p = kRunning then kSleeping else kStopped)
     else status_of s p)"
  using assms by (auto simp: switched_def)

lemma sched_invI:
  assumes "sc_number_of_process s \<le> kNumberOfProcess" "sc_locked_by_pid s = 0"
    and "\<And>i. i < sc_number_of_process s \<Longrightarrow> \<exists>p. sc_process s i = Some p \<and> index_of s p = i \<and>
      (if p = sc_current s then status_of s p \<in> {kRunning, kStopping}
       else status_of s p \<in> {kSleeping, kStopped})"
    and "registered s (sc_current s)"
  shows "sched_inv s"
  using assms by (simp add: sched_inv_def registered_def)

lemma switched_inv:
  assumes inv: "sched_inv s" and q: "registered s q" "q \<noteq> sc_current s"
  shows "sched_inv (switched q s)"
proof (rule sched_invI)
  fix i
  assume "i < sc_number_of_process (switched q s)"
  then obtain p where p: "sc_process s i = Some p" "index_of s p = i"
      "p \<noteq> sc_current s \<Longrightarrow> status_of s p \<in> {kSleeping, kStopped}"
    using sched_inv_slot[OF inv, of i] by auto
  then show "\<exists>p. sc_process (switched q s) i = Some p \<and> index_of (switched q s) p = i \<and>
      (if p = sc_current (switched q s) then status_of (switched q s) p \<in> {kRunning, kStopping}
       else status_of (switched q s) p \<in> {kSleeping, kStopped})"
    using switched_status[OF q(2) sched_invD(3)[OF inv]] by auto
qed (use sched_invD[OF inv] q in \<open>auto simp: registered_def\<close>)

lemma kill_ref_inv:
  assumes inv: "sched_inv s"
  shows "sched_inv (kill_ref p s)"
proof (rule sched_invI)
  fix i
  assume "i < sc_number_of_process (kill_ref p s)"
  then obtain q where "sc_process s i = Some q" "index_of s q = i"
      "q \<noteq> sc_current s \<longrightarrow> status_of s q \<in> {kSleeping, kStopped}"
    using sched_inv_slot[OF inv, of i] by auto
  then show "\<exists>q. sc_process (kill_ref p s) i = Some q \<and> index_of (kill_ref p s) q = i \<and>
      (if q = sc_current (kill_ref p s) then status_of (kill_ref p s) q \<in> {kRunning, kStopping}
       else status_of (kill_ref p s) q \<in> {kSleeping, kStopped})"
    using sched_invD(3)[OF inv] by (auto split: status.split)
qed (use sched_invD[OF inv] in \<open>auto simp: registered_def split: status.split\<close>)

lemma Kill_eq:
  assumes inv: "sched_inv s"
  shows "Scheduler_Kill pid s =
    Ok (case find (\<lambda>i. pr_id (sc_procs s (the (sc_process s i))) = pid) [0..<sc_number_of_process s] of
        None \<Rightarrow> s | Some i \<Rightarrow> kill_ref (the (sc_process s i)) s)"
proof -
  have un: "sched_unlock (s\<lparr>sc_locked_by_pid := lock_word s\<rparr>) = s"
    using lock_word_zero[of s] sched_invD(1)[OF inv] by (cases s) (simp add: sched_unlock_word)
  have un2: "sched_unlock (kill_ref q (s\<lparr>sc_locked_by_pid := lock_word s\<rparr>)) = kill_ref q s" for q
    using lock_word_zero[of s] sched_invD(1)[OF inv]
    by (cases s) (simp add: sched_unlock_word kill_ref_def)
  show ?thesis
    by (simp add: Scheduler_Kill_def sched_lock_free[OF sched_invD(1)[OF inv]] find_slot_inv[OF inv] un un2
        split: option.split)
qed

definition free_slot :: "scheduler \<Rightarrow> nat" where
  "free_slot s = (case find (\<lambda>i. pr_status (sc_procs s (the (sc_process s i))) = kStopped)
     [0..<sc_number_of_process s] of Some i \<Rightarrow> i | None \<Rightarrow> sc_number_of_process s)"

definition placed :: "proc_ref \<Rightarrow> nat \<Rightarrow> scheduler \<Rightarrow> scheduler" where
  "placed p i s = SetStatus p kSleeping (SetSchedulerIndex p i (s\<lparr>sc_process := (sc_process s)(i := Some p),
     sc_number_of_process := max (i + 1) (sc_number_of_process s)\<rparr>))"

lemma placed_fields [simp]:
  "sc_process (placed p i s) = (sc_process s)(i := Some p)"
  "sc_number_of_process (placed p i s) = max (i + 1) (sc_number_of_process s)"
  "sc_current (placed p i s) = sc_current s" "sc_locked_by_pid (placed p i s) = sc_locked_by_pid s"
  "sc_procs (placed p i s) = (sc_procs s)(p := (sc_procs s p)\<lparr>pr_scheduler_index := i, pr_status := kSleeping\<rparr>)"
  by (simp_all add: placed_def)

lemma RegisterProcess_eq:
  assumes inv: "sched_inv s"
  shows "Scheduler_RegisterProcess p s =
    (if sc_number_of_process s < kNumberOfProcess \<and> status_of s p = kNotScheduled
     then Ok (placed p (free_slot s) s) else Fail Assert_Failed)"
proof -
  let ?s = "s\<lparr>sc_locked_by_pid := lock_word s\<rparr>"
  have un1: "sched_unlock (SetStatus p kSleeping (SetSchedulerIndex p i (?s\<lparr>sc_process := f\<rparr>)))
      = SetStatus p kSleeping (SetSchedulerIndex p i (s\<lparr>sc_process := f\<rparr>))" for i f
    using lock_word_zero[of s] sched_invD(1)[OF inv]
    by (cases s) (simp add: sched_unlock_word SetStatus_def SetSchedulerIndex_def)
  have un2: "sched_unlock (SetStatus p kSleeping ((SetSchedulerIndex p i (?s\<lparr>sc_process := f\<rparr>))\<lparr>sc_number_of_process := n\<rparr>))
      = SetStatus p kSleeping (SetSchedulerIndex p i (s\<lparr>sc_process := f, sc_number_of_process := n\<rparr>))" for i f n
    using lock_word_zero[of s] sched_invD(1)[OF inv]
    by (cases s) (simp add: sched_unlock_word SetStatus_def SetSchedulerIndex_def)
  have keep: "s\<lparr>sc_process := f, sc_number_of_process := max (i + 1) (sc_number_of_process s)\<rparr> = s\<lparr>sc_process := f\<rparr>"
    if "i < sc_number_of_process s" for f i using that by (cases s) (simp add: max_def)
  let ?f = "find (\<lambda>i. pr_status (sc_procs s (the (sc_process s i))) = kStopped) [0..<sc_number_of_process s]"
  have "Scheduler_RegisterProcess p s = Ok (placed p (free_slot s) s)"
    if c: "sc_number_of_process s < kNumberOfProcess" "status_of s p = kNotScheduled"
  proof (cases ?f)
    case None
    then show ?thesis using c un2
      by (simp add: Scheduler_RegisterProcess_def sched_lock_free[OF sched_invD(1)[OF inv]] check_that_def
          find_slot_inv[OF inv] free_slot_def placed_def Let_def)
  next
    case (Some i)
    then have "i < sc_number_of_process s" using find_SomeD by fastforce
    then show ?thesis using c Some un1 keep
      by (simp add: Scheduler_RegisterProcess_def sched_lock_free[OF sched_invD(1)[OF inv]] check_that_def
          find_slot_inv[OF inv] free_slot_def placed_def Let_def)
  qed
  then show ?thesis
    by (auto simp: Scheduler_RegisterProcess_def sched_lock_free[OF sched_invD(1)[OF inv]] check_that_def)
qed

lemma free_slot_cases:
  assumes "sched_inv s"
  shows "free_slot s = sc_number_of_process s \<or>
    (free_slot s < sc_number_of_process s \<and> (\<exists>q. sc_process s (free_slot s) = Some q \<and> status_of s q = kStopped))"
proof (cases "find (\<lambda>i. pr_status (sc_procs s (the (sc_process s i))) = kStopped) [0..<sc_number_of_process s]")
  case (Some i)
  then have "i < sc_number_of_process s" "status_of s (the (sc_process s i)) = kStopped"
    using find_SomeD by fastforce+
  then show ?thesis using Some sched_inv_slot[OF assms, of i] by (auto simp: free_slot_def)
qed (simp add: free_slot_def)

lemma placed_inv:
  assumes inv: "sched_inv s" and st: "status_of s p = kNotScheduled"
    and n: "sc_number_of_process s < kNumberOfProcess"
  shows "sched_inv (placed p (free_slot s) s)"
proof -
  have fs: "free_slot s \<le> sc_number_of_process s" using free_slot_cases[OF inv] by auto
  have notreg: "\<not> registered s p"
    using registered_status[OF inv, of p] sched_invD(3)[OF inv] st by (cases "p = sc_current s") auto
  have cur: "p \<noteq> sc_current s" "free_slot s \<noteq> index_of s (sc_current s)"
    using free_slot_cases[OF inv] sched_invD(2,3)[OF inv] st by (auto simp: registered_def)
  show ?thesis
  proof (rule sched_invI)
    fix i
    assume i: "i < sc_number_of_process (placed p (free_slot s) s)"
    show "\<exists>q. sc_process (placed p (free_slot s) s) i = Some q \<and> index_of (placed p (free_slot s) s) q = i \<and>
      (if q = sc_current (placed p (free_slot s) s) then status_of (placed p (free_slot s) s) q \<in> {kRunning, kStopping}
       else status_of (placed p (free_slot s) s) q \<in> {kSleeping, kStopped})"
    proof (cases "i = free_slot s")
      case False
      then have "i < sc_number_of_process s" using i fs by (auto simp: max_def split: if_splits)
      then obtain q where q: "sc_process s i = Some q" "index_of s q = i" "registered s q"
          "q \<noteq> sc_current s \<longrightarrow> status_of s q \<in> {kSleeping, kStopped}"
        using sched_inv_slot[OF inv] by blast
      then have "q \<noteq> p" using notreg by blast
      then show ?thesis using q False sched_invD(3)[OF inv] by auto
    qed (use cur in auto)
  qed (use sched_invD[OF inv] n fs cur in \<open>auto simp: registered_def\<close>)
qed

lemma Scheduler_new_inv:
  assumes "status_of s root = kNotScheduled" "\<not> sc_is_multi_task_enabled s"
  shows "\<exists>s'. Scheduler_new root s = Ok s' \<and> sched_inv s' \<and> sc_current s' = root \<and> sc_number_of_process s' = 1"
  using assms
  by (auto simp: Scheduler_new_def Scheduler_RegisterProcess_def sched_lock_def ProcessLock_Lock_def check_that_def
      kNumberOfProcess_def Let_def sched_unlock_def ProcessLock_Unlock_def sched_inv_def)

section \<open>Runs of the scheduler\<close>

datatype sched_event = Register proc_ref | Switch | Kill_Pid u64 | Kill_Current

fun sched_do :: "sched_event \<Rightarrow> scheduler \<Rightarrow> scheduler res" where
  "sched_do (Register p) s = Scheduler_RegisterProcess p s"
| "sched_do Switch s = bind_res (Scheduler_SwitchProcess s) (\<lambda>(_, s'). Ok s')"
| "sched_do (Kill_Pid pid) s = Scheduler_Kill pid s"
| "sched_do Kill_Current s = Ok (Scheduler_KillCurrentProcess s)"

text \<open>A scheduler which its constructor has set up, after any sequence of calls which return.\<close>

inductive sched_reachable :: "scheduler \<Rightarrow> bool" where
  boot: "\<lbrakk>status_of s root = kNotScheduled; \<not> sc_is_multi_task_enabled s;
          Scheduler_new root s = Ok s'\<rbrakk> \<Longrightarrow> sched_reachable (s'\<lparr>sc_is_multi_task_enabled := True\<rparr>)"
| step: "\<lbrakk>sched_reachable s; sched_do e s = Ok s'\<rbrakk> \<Longrightarrow> sched_reachable s'"
| fresh: "\<lbrakk>sched_reachable s; \<not> registered s p; pr_status q = kNotScheduled\<rbrakk> \<Longrightarrow>
          sched_reachable (s\<lparr>sc_procs := (sc_procs s)(p := q)\<rparr>)"

inductive_cases sched_reachableE: "sched_reachable s"

lemma sched_do_inv:
  assumes "sched_inv s" "sched_do e s = Ok s'"
  shows "sched_inv s'"
proof (cases e)
  case (Register p)
  then show ?thesis using assms placed_inv[OF assms(1), of p] by (auto simp: RegisterProcess_eq split: if_splits)
next
  case Switch
  then show ?thesis using assms find_sleeping_SomeD[OF assms(1)] switched_inv[OF assms(1)]
    by (auto simp: SwitchProcess_eq[OF assms(1)] split: option.splits)
next
  case (Kill_Pid pid)
  then show ?thesis using assms kill_ref_inv[OF assms(1)] by (auto simp: Kill_eq split: option.splits)
next
  case Kill_Current
  then show ?thesis using assms kill_ref_inv[OF assms(1)] by (auto simp: Scheduler_KillCurrentProcess_def)
qed

lemma sched_inv_multi [simp]: "sched_inv (s\<lparr>sc_is_multi_task_enabled := b\<rparr>) = sched_inv s"
  by (simp add: sched_inv_def)

lemma sched_reachable_inv: "sched_reachable s \<Longrightarrow> sched_inv s"
proof (induction rule: sched_reachable.induct)
  case (boot s root s')
  then have "sched_inv s'" using Scheduler_new_inv by fastforce
  then show ?case by simp
next
  case (fresh s p q)
  then have cur: "p \<noteq> sc_current s" using sched_invD(2) by blast
  have "\<exists>q'. sc_process s i = Some q' \<and> q' \<noteq> p \<and> index_of s q' = i \<and>
      (if q' = sc_current s then status_of s q' \<in> {kRunning, kStopping} else status_of s q' \<in> {kSleeping, kStopped})"
    if "i < sc_number_of_process s" for i
    using sched_inv_slot[OF fresh.IH that] fresh.hyps(2) sched_invD(3)[OF fresh.IH] by auto
  then show ?case using sched_invD[OF fresh.IH] cur
    by (intro sched_invI) (fastforce simp: registered_def)+
qed (rule sched_do_inv)

section \<open>Round robin\<close>

text \<open>How many slots after the current process another one is, cyclically.\<close>

definition slot_dist :: "scheduler \<Rightarrow> proc_ref \<Rightarrow> nat" where
  "slot_dist s p = (index_of s p + sc_number_of_process s - index_of s (sc_current s)) mod sc_number_of_process s"

lemma add_slot_dist:
  assumes "b < n" "x < n" shows "(b + (x + n - b) mod n) mod n = (x::nat)"
  using assms by (simp add: mod_add_right_eq)

lemma next_slot_dist:
  assumes inv: "sched_inv s" and p: "registered s p"
  shows "next_slot s (slot_dist s p) = Some p"
  using p sched_invD(2)[OF inv] by (simp add: next_slot_def slot_dist_def add_slot_dist registered_def)

lemma slot_dist_next:
  assumes inv: "sched_inv s" and i: "i < sc_number_of_process s" "next_slot s i = Some q"
  shows "slot_dist s q = i"
proof -
  let ?n = "sc_number_of_process s" and ?b = "index_of s (sc_current s)"
  have "?b < ?n" using sched_invD(2)[OF inv] by (simp add: registered_def)
  moreover have "index_of s q = (?b + i) mod ?n"
    using i sched_inv_slot[OF inv, of "(?b + i) mod ?n"] by (auto simp: next_slot_def)
  ultimately show ?thesis using mod_add_diff_self[of ?b ?n i] i(1) by (simp add: slot_dist_def)
qed

lemma slot_dist_pos:
  assumes inv: "sched_inv s" and p: "registered s p" "p \<noteq> sc_current s"
  shows "0 < slot_dist s p" "slot_dist s p < sc_number_of_process s"
proof -
  show "slot_dist s p < sc_number_of_process s" using sched_invD(4)[OF inv] by (simp add: slot_dist_def)
  have "next_slot s 0 = Some (sc_current s)" using sched_invD(2)[OF inv] by (simp add: next_slot_def registered_def)
  then have "slot_dist s p \<noteq> 0" using next_slot_dist[OF inv p(1)] p(2) by (metis option.inject)
  then show "0 < slot_dist s p" by simp
qed

lemma find_sleeping_first:
  assumes inv: "sched_inv s" and p: "registered s p" "status_of s p = kSleeping"
  shows "\<exists>q. find_sleeping s = Some q \<and> slot_dist s q \<le> slot_dist s p"
proof -
  let ?P = "\<lambda>i. case next_slot s i of None \<Rightarrow> False | Some proc \<Rightarrow> status_of s proc = kSleeping"
  have ne: "p \<noteq> sc_current s" using p(2) sched_invD(3)[OF inv] by auto
  have P: "?P (slot_dist s p)" using next_slot_dist[OF inv p(1)] p(2) by simp
  then have "find ?P [1..<sc_number_of_process s] \<noteq> None"
    using slot_dist_pos[OF inv p(1) ne] by (auto simp: find_None_iff simp del: option.case_eq_if)
  then obtain i where i: "find ?P [1..<sc_number_of_process s] = Some i" by blast
  note f = find_upt_SomeD[OF i]
  obtain q where q: "next_slot s i = Some q" using f(1) by (auto split: option.splits)
  have "i \<le> slot_dist s p" using f(4)[of "slot_dist s p"] P slot_dist_pos[OF inv p(1) ne] by linarith
  then show ?thesis using i q slot_dist_next[OF inv f(3) q] by (simp add: find_sleeping_def)
qed

lemma switch_progress:
  assumes inv: "sched_inv s" and p: "registered s p" "status_of s p = kSleeping"
  shows "\<exists>q. Scheduler_SwitchProcess s = Ok (Some q, switched q s) \<and> sched_inv (switched q s) \<and>
    (q = p \<or> registered (switched q s) p \<and> status_of (switched q s) p = kSleeping \<and>
             slot_dist (switched q s) p < slot_dist s p)"
proof -
  obtain q where q: "find_sleeping s = Some q" "slot_dist s q \<le> slot_dist s p"
    using find_sleeping_first[OF assms] by blast
  note Q = find_sleeping_SomeD[OF inv q(1)]
  have ne: "p \<noteq> sc_current s" using p(2) sched_invD(3)[OF inv] by auto
  let ?n = "sc_number_of_process s" and ?b = "index_of s (sc_current s)"
  have "slot_dist (switched q s) p < slot_dist s p" if "q \<noteq> p"
  proof -
    have lt: "slot_dist s q < slot_dist s p"
      using next_slot_dist[OF inv] p(1) Q(1) q(2) that by (metis le_neq_implies_less option.inject)
    have b: "?b < ?n" using sched_invD(2)[OF inv] by (simp add: registered_def)
    have "index_of s q = (?b + slot_dist s q) mod ?n" "index_of s p = (?b + slot_dist s p) mod ?n"
      using Q(1) p(1) b by (simp_all add: slot_dist_def add_slot_dist registered_def)
    moreover have "?b + slot_dist s p = ?b + slot_dist s q + (slot_dist s p - slot_dist s q)" using lt by simp
    ultimately have "index_of s p = (index_of s q + (slot_dist s p - slot_dist s q)) mod ?n"
      by (metis mod_add_left_eq)
    moreover have "index_of s q < ?n" using Q(1) by (simp add: registered_def)
    moreover have pd: "slot_dist s p < ?n" by (rule slot_dist_pos[OF inv p(1) ne])
    moreover have "slot_dist (switched q s) p = (index_of s p + ?n - index_of s q) mod ?n"
      by (simp add: slot_dist_def)
    ultimately have "slot_dist (switched q s) p = slot_dist s p - slot_dist s q"
      using mod_add_diff_self[of "index_of s q" ?n "slot_dist s p - slot_dist s q"] by simp
    moreover have "0 < slot_dist s q" by (rule slot_dist_pos[OF inv Q(1,3)])
    ultimately show ?thesis using lt by simp
  qed
  then show ?thesis
    using q(1) switched_inv[OF inv Q(1,3)] switched_status[OF Q(3) sched_invD(3)[OF inv], of p] p ne
    by (auto simp: SwitchProcess_eq[OF inv] registered_def)
qed

text \<open>Runs: the calls of a sequence one after the other.\<close>

primrec sched_run :: "sched_event list \<Rightarrow> scheduler \<Rightarrow> scheduler res" where
  "sched_run [] s = Ok s"
| "sched_run (e # es) s = bind_res (sched_do e s) (sched_run es)"

lemma kill_ref_sleeping:
  assumes "registered s p" "status_of s p = kSleeping" "q \<noteq> p"
  shows "registered (kill_ref q s) p" "status_of (kill_ref q s) p = kSleeping"
    "slot_dist (kill_ref q s) p = slot_dist s p" "pr_id (sc_procs (kill_ref q s) p) = pr_id (sc_procs s p)"
  using assms by (auto simp: registered_def slot_dist_def split: status.split)

lemma kill_progress:
  assumes inv: "sched_inv s" and p: "registered s p" "status_of s p = kSleeping"
    and e: "e = Kill_Current \<or> (\<exists>pid. e = Kill_Pid pid \<and> pid \<noteq> pr_id (sc_procs s p))"
  shows "\<exists>s'. sched_do e s = Ok s' \<and> sched_inv s' \<and> registered s' p \<and> status_of s' p = kSleeping \<and>
    slot_dist s' p = slot_dist s p \<and> pr_id (sc_procs s' p) = pr_id (sc_procs s p)"
proof -
  have ne: "p \<noteq> sc_current s" using p(2) sched_invD(3)[OF inv] by auto
  from e consider "e = Kill_Current" | pid where "e = Kill_Pid pid" "pid \<noteq> pr_id (sc_procs s p)" by blast
  then show ?thesis
  proof cases
    case 1
    then show ?thesis using kill_ref_inv[OF inv] kill_ref_sleeping[OF p, of "sc_current s"] ne
      by (auto simp: Scheduler_KillCurrentProcess_def)
  next
    case (2 pid)
    have "the (sc_process s i) \<noteq> p"
      if "find (\<lambda>i. pr_id (sc_procs s (the (sc_process s i))) = pid) [0..<sc_number_of_process s] = Some i" for i
      using find_SomeD[OF that] 2(2) by auto
    then show ?thesis using 2(1) kill_ref_inv[OF inv] kill_ref_sleeping[OF p] inv p
      by (auto simp: Kill_eq[OF inv] split: option.split)
  qed
qed

lemma no_starvation:
  assumes "sched_inv s" "registered s p" "status_of s p = kSleeping"
    and "\<forall>e\<in>set es. e = Switch \<or> e = Kill_Current \<or> (\<exists>pid. e = Kill_Pid pid \<and> pid \<noteq> pr_id (sc_procs s p))"
    and "slot_dist s p \<le> length (filter (\<lambda>e. e = Switch) es)"
  shows "\<exists>k s'. k \<le> length es \<and> sched_run (take k es) s = Ok s' \<and> sc_current s' = p"
  using assms
proof (induction es arbitrary: s)
  case Nil
  then show ?case using slot_dist_pos[of s p] sched_invD(3)[of s] by auto
next
  case (Cons e es)
  show ?case
  proof (cases "e = Switch")
    case True
    obtain q where q: "Scheduler_SwitchProcess s = Ok (Some q, switched q s)" "sched_inv (switched q s)"
        "q = p \<or> registered (switched q s) p \<and> status_of (switched q s) p = kSleeping \<and>
          slot_dist (switched q s) p < slot_dist s p"
      using switch_progress Cons.prems(1-3) by blast
    show ?thesis
    proof (cases "q = p")
      case True
      then show ?thesis using q(1) \<open>e = Switch\<close> by (intro exI[of _ 1] exI[of _ "switched p s"]) simp
    next
      case False
      then obtain k s' where "k \<le> length es" "sched_run (take k es) (switched q s) = Ok s'" "sc_current s' = p"
        using Cons.IH[OF q(2)] q(3) Cons.prems(4,5) True by auto
      then show ?thesis using q(1) True by (intro exI[of _ "Suc k"] exI[of _ s']) simp
    qed
  next
    case False
    then obtain s1 where s1: "sched_do e s = Ok s1" "sched_inv s1" "registered s1 p" "status_of s1 p = kSleeping"
        "slot_dist s1 p = slot_dist s p" "pr_id (sc_procs s1 p) = pr_id (sc_procs s p)"
      using kill_progress[OF Cons.prems(1-3), of e] Cons.prems(4) by auto
    then obtain k s' where "k \<le> length es" "sched_run (take k es) s1 = Ok s'" "sc_current s' = p"
      using Cons.IH[OF s1(2-4)] Cons.prems(4,5) False by auto
    then show ?thesis using s1(1) by (intro exI[of _ "Suc k"] exI[of _ s']) simp
  qed
qed

text \<open>The wait for an exit returns exactly when the process stops at some time.\<close>

lemma WaitUntilExit_returns:
  "status_of ((sleep ^^ k) s) p = kStopped \<Longrightarrow> \<exists>s'. WaitUntilExit sleep p s = Some s' \<and> status_of s' p = kStopped"
proof (induction k arbitrary: s)
  case (Suc k)
  have "status_of ((sleep ^^ k) (sleep s)) p = kStopped" using Suc.prems by (simp add: funpow_swap1)
  from Suc.IH[OF this] show ?case by (subst WaitUntilExit.simps) simp
qed (subst WaitUntilExit.simps, simp)

lemma WaitUntilExit_stopped: "WaitUntilExit sleep p s = Some s' \<Longrightarrow> status_of s' p = kStopped"
  by (rule WaitUntilExit.raw_induct[of "\<lambda>sleep p s s'. status_of s' p = kStopped"]) (auto split: if_splits)

section \<open>Properties\<close>

text \<open>An example: the root process, and a second process which has been registered.\<close>

definition example_boot :: scheduler where
  "example_boot = \<lparr>sc_procs = (\<lambda>p. (Process_new (of_nat p + 1) [] 0 (replicate 16 0))\<lparr>pr_status := kNotScheduled\<rparr>),
     sc_process = (\<lambda>_. None), sc_number_of_process = 0, sc_current = 0, sc_locked_by_pid = 0,
     sc_is_multi_task_enabled = False\<rparr>"

lemma example_reachable:
  "\<exists>s. sched_reachable s \<and> sc_number_of_process s = 2 \<and> sc_current s = 0 \<and> registered s 1 \<and>
     status_of s 1 = kSleeping"
proof -
  have st: "status_of example_boot p = kNotScheduled" for p by (simp add: example_boot_def)
  obtain s1 where s1: "Scheduler_new 0 example_boot = Ok s1" "sched_inv s1" "sc_current s1 = 0" "sc_number_of_process s1 = 1"
    using Scheduler_new_inv[of example_boot 0] st by (auto simp: example_boot_def)
  have p1: "status_of s1 1 = kNotScheduled"
    using s1(1) by (auto simp: Scheduler_new_def Scheduler_RegisterProcess_def sched_lock_def ProcessLock_Lock_def
        example_boot_def check_that_def kNumberOfProcess_def Let_def sched_unlock_def)
  let ?s = "s1\<lparr>sc_is_multi_task_enabled := True\<rparr>"
  have reach: "sched_reachable ?s" using sched_reachable.boot[OF st _ s1(1)] by (simp add: example_boot_def)
  have "sched_do (Register 1) ?s = Ok (placed 1 (free_slot ?s) ?s)"
    using s1 p1 by (simp add: RegisterProcess_eq kNumberOfProcess_def)
  moreover have "free_slot ?s = 1"
    using s1 sched_invD(2,3)[OF s1(2)] free_slot_cases[of ?s] by (auto simp: registered_def)
  ultimately have "sched_reachable (placed 1 1 ?s)" using sched_reachable.step[OF reach] by metis
  then show ?thesis using s1 by (intro exI[of _ "placed 1 1 ?s"]) (auto simp: registered_def)
qed

text \<open>
  C7: in every state which the scheduler can reach, each used slot holds a process which knows
  its slot, and exactly one of the registered processes is running or being stopped: the
  current one.
\<close>

theorem scheduler_one_current:
  assumes "sched_reachable s"
  shows "(\<forall>i < sc_number_of_process s. \<exists>p. Scheduler_GetProcess i s = Some p \<and> index_of s p = i) \<and>
    (\<exists>!p. registered s p \<and> status_of s p \<in> {kRunning, kStopping}) \<and>
    registered s (sc_current s) \<and> status_of s (sc_current s) \<in> {kRunning, kStopping} \<and>
    sc_number_of_process s \<le> kNumberOfProcess"
proof -
  note inv = sched_reachable_inv[OF assms]
  have "p = sc_current s" if "registered s p" "status_of s p \<in> {kRunning, kStopping}" for p
    using registered_status[OF inv that(1)] that(2) by (cases "p = sc_current s") auto
  then have "\<exists>!p. registered s p \<and> status_of s p \<in> {kRunning, kStopping}"
    using sched_invD(2,3)[OF inv] by (intro ex1I[of _ "sc_current s"]) blast+
  moreover have "\<exists>p. Scheduler_GetProcess i s = Some p \<and> index_of s p = i" if "i < sc_number_of_process s" for i
    using sched_inv_slot[OF inv that] that by (auto simp: Scheduler_GetProcess_def)
  ultimately show ?thesis using sched_invD[OF inv] by blast
qed

theorem scheduler_one_current_witness:
  "\<exists>s. sched_reachable s \<and> sc_number_of_process s = 2 \<and> (\<exists>!p. registered s p \<and> status_of s p \<in> {kRunning, kStopping})"
  using example_reachable scheduler_one_current by blast

text \<open>
  C16: \<open>SwitchProcess\<close> is round robin.  It returns null, and changes nothing, exactly if no
  registered process sleeps; otherwise it makes the first sleeping process after the current
  one, in the cyclic order of the slots, the current and running one, and leaves the process it
  takes the CPU from sleeping or, if that was being stopped, stopped.
\<close>

theorem SwitchProcess_round_robin:
  assumes "sched_reachable s"
  shows "\<exists>r s'. Scheduler_SwitchProcess s = Ok (r, s') \<and>
    (r = None \<longleftrightarrow> (\<forall>p. registered s p \<longrightarrow> status_of s p \<noteq> kSleeping)) \<and> (r = None \<longrightarrow> s' = s) \<and>
    (\<forall>q. r = Some q \<longrightarrow> registered s q \<and> status_of s q = kSleeping \<and> sc_current s' = q \<and>
       (\<forall>p. registered s p \<and> status_of s p = kSleeping \<longrightarrow> slot_dist s q \<le> slot_dist s p) \<and>
       (\<forall>p. status_of s' p = (if p = q then kRunning
          else if p = sc_current s then (if status_of s p = kRunning then kSleeping else kStopped)
          else status_of s p)))"
proof -
  note inv = sched_reachable_inv[OF assms]
  show ?thesis
  proof (cases "find_sleeping s")
    case None
    then have "\<forall>p. registered s p \<longrightarrow> status_of s p \<noteq> kSleeping"
      using find_sleeping_first[OF inv] by fastforce
    then show ?thesis using None by (simp add: SwitchProcess_eq[OF inv])
  next
    case (Some q)
    note Q = find_sleeping_SomeD[OF inv Some]
    have "slot_dist s q \<le> slot_dist s p" if "registered s p" "status_of s p = kSleeping" for p
      using find_sleeping_first[OF inv that] Some by simp
    moreover have "\<exists>p. registered s p \<and> status_of s p = kSleeping" using Q by blast
    ultimately show ?thesis using Some Q switched_status[OF Q(3) sched_invD(3)[OF inv]]
      by (simp add: SwitchProcess_eq[OF inv])
  qed
qed

theorem SwitchProcess_round_robin_witness:
  "\<exists>s s'. sched_reachable s \<and> Scheduler_SwitchProcess s = Ok (Some 1, s') \<and> status_of s' 1 = kRunning"
proof -
  obtain s where s: "sched_reachable s" "sc_number_of_process s = 2" "sc_current s = 0" "registered s 1"
      "status_of s 1 = kSleeping" using example_reachable by blast
  note inv = sched_reachable_inv[OF s(1)]
  have "q = 1" if "registered s q" "status_of s q = kSleeping" for q
    using that s sched_invD(2,3)[OF inv] by (auto simp: registered_def less_Suc_eq numeral_2_eq_2)
  then show ?thesis using SwitchProcess_round_robin[OF s(1)] s by (metis not_None_eq)
qed

text \<open>
  C6: no process starves.  However the timer's process switches are interleaved with kills of
  other processes, a sleeping process becomes the current one before the number of switches
  exceeds its distance from the current process (at most the number of processes less one).
\<close>

theorem scheduler_no_starvation:
  assumes "sched_reachable s" "registered s p" "status_of s p = kSleeping"
    and "\<forall>e\<in>set es. e = Switch \<or> e = Kill_Current \<or> (\<exists>pid. e = Kill_Pid pid \<and> pid \<noteq> pr_id (sc_procs s p))"
    and "sc_number_of_process s - 1 \<le> length (filter (\<lambda>e. e = Switch) es)"
  shows "\<exists>k s'. k \<le> length es \<and> sched_run (take k es) s = Ok s' \<and> sc_current s' = p"
proof -
  note inv = sched_reachable_inv[OF assms(1)]
  have "p \<noteq> sc_current s" using assms(3) sched_invD(3)[OF inv] by auto
  then have "slot_dist s p \<le> length (filter (\<lambda>e. e = Switch) es)"
    using slot_dist_pos[OF inv assms(2)] assms(5) by linarith
  then show ?thesis by (rule no_starvation[OF inv assms(2-4)])
qed

theorem scheduler_no_starvation_witness:
  "\<exists>s k s'. sched_reachable s \<and> sc_current s = 0 \<and> sched_run (take k [Kill_Current, Switch]) s = Ok s' \<and> sc_current s' = 1"
proof -
  obtain s where s: "sched_reachable s" "sc_number_of_process s = 2" "sc_current s = 0" "registered s 1"
      "status_of s 1 = kSleeping" using example_reachable by blast
  show ?thesis using scheduler_no_starvation[OF s(1,4,5), of "[Kill_Current, Switch]"] s by auto
qed

end
