(* ===== verification/Geometry.thy ===== *)
theory Geometry
  imports Prelude
begin

text \<open>
  The rectangles of src/src/rect.h.  Coordinates are C \<open>int\<close>s: the model computes in the
  integers, and \<open>rect_small\<close> states a range within which no operation of the class overflows.
\<close>

record rect =
  rect_x :: int
  rect_y :: int
  rect_xsize :: int
  rect_ysize :: int

abbreviation mk_rect :: "int \<Rightarrow> int \<Rightarrow> int \<Rightarrow> int \<Rightarrow> rect" where
  "mk_rect a b c d \<equiv> \<lparr>rect_x = a, rect_y = b, rect_xsize = c, rect_ysize = d\<rparr>"

definition GetRight :: "rect \<Rightarrow> int" where
  "GetRight r = rect_x r + rect_xsize r"

definition GetBottom :: "rect \<Rightarrow> int" where
  "GetBottom r = rect_y r + rect_ysize r"

definition GetIntersectionWith :: "rect \<Rightarrow> rect \<Rightarrow> rect" where
  "GetIntersectionWith s t =
     (if rect_xsize s < 0 \<or> rect_ysize s < 0 \<or> rect_xsize t < 0 \<or> rect_ysize t < 0
      then mk_rect 0 0 0 0
      else let bx = max (rect_x s) (rect_x t);
               by' = max (rect_y s) (rect_y t);
               bxsize = max (min (rect_xsize s + rect_x s - bx) (rect_xsize t + rect_x t - bx)) 0;
               bysize = max (min (rect_ysize s + rect_y s - by') (rect_ysize t + rect_y t - by')) 0
           in mk_rect bx by' bxsize bysize)"

definition GetUnionWith :: "rect \<Rightarrow> rect \<Rightarrow> rect" where
  "GetUnionWith t s =
     (let l1 = rect_x t; r1 = rect_x t + rect_xsize t;
          u1 = rect_y t; d1 = rect_y t + rect_ysize t;
          l2 = rect_x s; r2 = rect_x s + rect_xsize s;
          u2 = rect_y s; d2 = rect_y s + rect_ysize s;
          l = min l1 l2; r = max r1 r2; u = min u1 u2; d = max d1 d2
      in mk_rect l u (r - l) (d - u))"

definition IsPointInRect :: "rect \<Rightarrow> int \<Rightarrow> int \<Rightarrow> bool" where
  "IsPointInRect r px py \<longleftrightarrow>
     rect_x r \<le> px \<and> px < rect_x r + rect_xsize r \<and> rect_y r \<le> py \<and> py < rect_y r + rect_ysize r"

definition IsEmptyRect :: "rect \<Rightarrow> bool" where
  "IsEmptyRect r \<longleftrightarrow> rect_x r = 0 \<and> rect_y r = 0 \<and> rect_xsize r = 0 \<and> rect_ysize r = 0"

definition rect_eq :: "rect \<Rightarrow> rect \<Rightarrow> bool" where
  "rect_eq s t \<longleftrightarrow> rect_x s = rect_x t \<and> rect_y s = rect_y t \<and>
     rect_xsize s = rect_xsize t \<and> rect_ysize s = rect_ysize t"

definition rect_proper :: "rect \<Rightarrow> bool" where
  "rect_proper r \<longleftrightarrow> 0 \<le> rect_xsize r \<and> 0 \<le> rect_ysize r"

definition rect_small :: "rect \<Rightarrow> bool" where
  "rect_small r \<longleftrightarrow> \<bar>rect_x r\<bar> < 2 ^ 29 \<and> \<bar>rect_y r\<bar> < 2 ^ 29 \<and> \<bar>rect_xsize r\<bar> < 2 ^ 29 \<and> \<bar>rect_ysize r\<bar> < 2 ^ 29"

lemma mk_rect_eta [simp]: "mk_rect (rect_x r) (rect_y r) (rect_xsize r) (rect_ysize r) = r"
  by simp

lemma rect_eq_iff: "rect_eq s t \<longleftrightarrow> s = t"
  by (auto simp: rect_eq_def)

lemma interval_intersection:
  fixes a b c d p :: int
  shows "max a c \<le> p \<and> p < max a c + max (min (b + a - max a c) (d + c - max a c)) 0 \<longleftrightarrow>
    (a \<le> p \<and> p < a + b) \<and> (c \<le> p \<and> p < c + d)"
  by (auto simp: max_def min_def)

lemma IsPointInRect_intersection:
  "IsPointInRect (GetIntersectionWith s t) px py \<longleftrightarrow>
     rect_proper s \<and> rect_proper t \<and> IsPointInRect s px py \<and> IsPointInRect t px py"
  using interval_intersection[of "rect_x s" "rect_x t" px "rect_xsize s" "rect_xsize t"]
    interval_intersection[of "rect_y s" "rect_y t" py "rect_ysize s" "rect_ysize t"]
  by (auto simp: IsPointInRect_def GetIntersectionWith_def rect_proper_def Let_def)

lemma GetIntersectionWith_proper [simp]: "rect_proper (GetIntersectionWith s t)"
  by (auto simp: GetIntersectionWith_def rect_proper_def Let_def)

lemma IsPointInRect_union:
  "IsPointInRect s px py \<or> IsPointInRect t px py \<Longrightarrow> IsPointInRect (GetUnionWith s t) px py"
  by (auto simp: IsPointInRect_def GetUnionWith_def Let_def)

lemma GetUnionWith_proper: "rect_proper s \<Longrightarrow> rect_proper t \<Longrightarrow> rect_proper (GetUnionWith s t)"
  by (auto simp: GetUnionWith_def rect_proper_def Let_def)

lemma GetUnionWith_least:
  assumes "rect_proper s" "rect_proper t"
    and "\<forall>px py. IsPointInRect s px py \<or> IsPointInRect t px py \<longrightarrow> IsPointInRect c px py"
    and "0 < rect_xsize s" "0 < rect_ysize s" "0 < rect_xsize t" "0 < rect_ysize t"
    and "IsPointInRect (GetUnionWith s t) px py"
  shows "IsPointInRect c px py"
proof -
  have corner: "IsPointInRect c (rect_x r) (rect_y r)"
      "IsPointInRect c (rect_x r + rect_xsize r - 1) (rect_y r + rect_ysize r - 1)"
    if "r = s \<or> r = t" for r
  proof -
    have "IsPointInRect r (rect_x r) (rect_y r)"
      "IsPointInRect r (rect_x r + rect_xsize r - 1) (rect_y r + rect_ysize r - 1)"
      using assms(4-7) that by (auto simp: IsPointInRect_def)
    then show "IsPointInRect c (rect_x r) (rect_y r)"
      "IsPointInRect c (rect_x r + rect_xsize r - 1) (rect_y r + rect_ysize r - 1)"
      using assms(3) that by blast+
  qed
  show ?thesis using corner[of s] corner[of t] assms(8)
    by (auto simp: IsPointInRect_def GetUnionWith_def Let_def)
qed

text \<open>No sum or difference which the operations form leaves the range of a 32-bit \<open>int\<close>.\<close>

lemma interval_no_overflow:
  fixes a b c d :: int
  assumes "\<bar>a\<bar> < 2 ^ 29" "\<bar>b\<bar> < 2 ^ 29" "\<bar>c\<bar> < 2 ^ 29" "\<bar>d\<bar> < 2 ^ 29"
  shows "\<bar>max (a + b) (c + d) - min a c\<bar> < 2 ^ 31"
    and "\<bar>max (min (b + a - max a c) (d + c - max a c)) 0\<bar> < 2 ^ 31"
proof -
  have r: "- (2 ^ 29) < a" "a < 2 ^ 29" "- (2 ^ 29) < b" "b < 2 ^ 29" "- (2 ^ 29) < c" "c < 2 ^ 29"
    "- (2 ^ 29) < d" "d < 2 ^ 29" using assms by linarith+
  show "\<bar>max (a + b) (c + d) - min a c\<bar> < 2 ^ 31" unfolding abs_less_iff max_def min_def using r by simp
  show "\<bar>max (min (b + a - max a c) (d + c - max a c)) 0\<bar> < 2 ^ 31"
    unfolding abs_less_iff max_def min_def using r by simp
qed

lemma if_bound: "(c \<Longrightarrow> \<bar>a\<bar> < k) \<Longrightarrow> (\<not> c \<Longrightarrow> \<bar>b\<bar> < k) \<Longrightarrow> \<bar>if c then a else b\<bar> < k" for a b k :: int
  by simp

lemma rect_small_no_overflow:
  assumes "rect_small s" "rect_small t"
  shows "\<bar>rect_xsize (GetUnionWith s t)\<bar> < 2 ^ 31" "\<bar>rect_ysize (GetUnionWith s t)\<bar> < 2 ^ 31"
    "\<bar>rect_xsize (GetIntersectionWith s t)\<bar> < 2 ^ 31" "\<bar>rect_ysize (GetIntersectionWith s t)\<bar> < 2 ^ 31"
proof -
  have z: "\<bar>0 :: int\<bar> < 2 ^ 31" by simp
  note r = assms[unfolded rect_small_def]
  note i = interval_no_overflow[of "rect_x s" "rect_xsize s" "rect_x t" "rect_xsize t"]
    interval_no_overflow[of "rect_y s" "rect_ysize s" "rect_y t" "rect_ysize t"]
  show "\<bar>rect_xsize (GetUnionWith s t)\<bar> < 2 ^ 31" "\<bar>rect_ysize (GetUnionWith s t)\<bar> < 2 ^ 31"
    unfolding GetUnionWith_def Let_def rect.simps using r i(1,3) by blast+
  show "\<bar>rect_xsize (GetIntersectionWith s t)\<bar> < 2 ^ 31" "\<bar>rect_ysize (GetIntersectionWith s t)\<bar> < 2 ^ 31"
    unfolding GetIntersectionWith_def Let_def if_distrib[of rect_xsize] if_distrib[of rect_ysize] rect.simps
    using r i(2,4) z by (intro if_bound; blast)+
qed

text \<open>
  \<open>IsEmptyRect\<close> recognises only the rectangle with all fields zero: the intersection of
  two disjoint rectangles has no point, yet it counts as empty only if it lies at the origin.
\<close>

lemma IsEmptyRect_misses_empty_intersections:
  "\<exists>s t. rect_proper s \<and> rect_proper t \<and> (\<forall>px py. \<not> IsPointInRect (GetIntersectionWith s t) px py) \<and>
     \<not> IsEmptyRect (GetIntersectionWith s t)"
  by (intro exI[of _ "mk_rect 0 0 2 2"] exI[of _ "mk_rect 5 5 2 2"])
     (simp add: rect_proper_def IsPointInRect_def GetIntersectionWith_def IsEmptyRect_def)

section \<open>Properties\<close>



end
