(* ===== verification/Sheets.thy ===== *)
theory Sheets
  imports Geometry
begin

text \<open>
  The window sheets of src/src/sheet.h and src/src/sheet.cc and the painting routines of
  src/src/sheet_painter.h/.cc.  A sheet is a record in a store indexed by sheet identities; its
  pointers are optional identities, its pixel buffer and its owner map are arrays indexed by
  \<open>int\<close>.  Every sheet has a buffer and a map of its own.
\<close>

section \<open>Sheets and their store\<close>

type_synonym sid = nat

record sheet =
  sh_parent :: "sid option"
  sh_upper :: "sid option"
  sh_bottom_child :: "sid option"
  sh_buf :: "int \<Rightarrow> u32"
  sh_map :: "(int \<Rightarrow> sid option) option"
  sh_rect :: rect
  sh_pixels_per_scan_line :: int
  sh_is_topmost :: bool
  sh_is_alpha_enabled :: bool
  sh_is_locked :: bool

type_synonym sheets = "sid \<Rightarrow> sheet"

definition Sheet_Init ::
    "sid \<Rightarrow> (int \<Rightarrow> u32) \<Rightarrow> int \<Rightarrow> int \<Rightarrow> int \<Rightarrow> int \<Rightarrow> int \<Rightarrow> sheets \<Rightarrow> sheets" where
  "Sheet_Init this buf xsize ysize pixels_per_scan_line x y st =
     st(this := (st this)\<lparr>sh_parent := None, sh_upper := None, sh_bottom_child := None, sh_buf := buf,
       sh_rect := mk_rect x y xsize ysize, sh_pixels_per_scan_line := pixels_per_scan_line,
       sh_map := None, sh_is_topmost := False, sh_is_alpha_enabled := False\<rparr>)"

definition GetClientRect :: "sheet \<Rightarrow> rect" where
  "GetClientRect s = mk_rect 0 0 (rect_xsize (sh_rect s)) (rect_ysize (sh_rect s))"

definition GetBufSize :: "sheet \<Rightarrow> int" where
  "GetBufSize s = rect_ysize (sh_rect s) * sh_pixels_per_scan_line s * 4"

text \<open>The sheets met when following \<open>upper_\<close> links; a cycle of links never ends (\<open>None\<close>).\<close>

partial_function (option) sheets_from :: "sheets \<Rightarrow> sid option \<Rightarrow> sid list option" where
  "sheets_from st p =
     (case p of None \<Rightarrow> Some []
      | Some s \<Rightarrow> Option.bind (sheets_from st (sh_upper (st s))) (\<lambda>ss. Some (s # ss)))"

declare sheets_from.simps [code]

definition each_upper :: "sheets \<Rightarrow> sid option \<Rightarrow> (sid list \<Rightarrow> 'b res) \<Rightarrow> 'b res" where
  "each_upper st p k = (case sheets_from st p of None \<Rightarrow> Fail Diverges | Some ss \<Rightarrow> k ss)"

text \<open>The points which a pair of nested loops over a rectangle visits, in order.\<close>

definition rect_points :: "rect \<Rightarrow> (int \<times> int) list" where
  "rect_points r = concat (map (\<lambda>y. map (\<lambda>x. (x, y)) [rect_x r .. GetRight r - 1])
                             [rect_y r .. GetBottom r - 1])"

definition pix :: "int \<Rightarrow> int \<Rightarrow> int \<Rightarrow> int" where
  "pix line x y = y * line + x"

section \<open>The owner map\<close>

definition clear_points :: "int \<Rightarrow> rect \<Rightarrow> (int \<Rightarrow> sid option) \<Rightarrow> int \<Rightarrow> sid option" where
  "clear_points line r m = fold (\<lambda>(x, y) m. m(pix line x y := None)) (rect_points r) m"

definition opaque_at :: "sheet \<Rightarrow> int \<Rightarrow> int \<Rightarrow> bool" where
  "opaque_at s x y \<longleftrightarrow> drop_bit 24 (sh_buf s (pix (sh_pixels_per_scan_line s)
     (x - rect_x (sh_rect s)) (y - rect_y (sh_rect s)))) \<noteq> 0"

definition claim_points :: "sheets \<Rightarrow> int \<Rightarrow> rect \<Rightarrow> sid \<Rightarrow> (int \<Rightarrow> sid option) \<Rightarrow> int \<Rightarrow> sid option" where
  "claim_points st line target s m =
     (let in_view = GetIntersectionWith target (sh_rect (st s)) in
      if sh_is_alpha_enabled (st s) then
        fold (\<lambda>(x, y) m. if \<not> opaque_at (st s) x y then m else m(pix line x y := Some s))
          (rect_points in_view) m
      else fold (\<lambda>(x, y) m. m(pix line x y := Some s)) (rect_points in_view) m)"

definition Sheet_UpdateMap :: "sid \<Rightarrow> rect \<Rightarrow> sheets \<Rightarrow> sheets res" where
  "Sheet_UpdateMap this target0 st =
     (case sh_map (st this) of None \<Rightarrow> Ok st
      | Some m \<Rightarrow>
        let target = GetIntersectionWith target0 (GetClientRect (st this));
            m1 = clear_points (rect_xsize (sh_rect (st this))) target m
        in each_upper st (sh_bottom_child (st this)) (\<lambda>ss.
           Ok (st(this := (st this)\<lparr>sh_map :=
             Some (fold (claim_points st (sh_pixels_per_scan_line (st this)) target) ss m1)\<rparr>))))"

definition Sheet_SetMap :: "sid \<Rightarrow> (int \<Rightarrow> sid option) option \<Rightarrow> sheets \<Rightarrow> sheets res" where
  "Sheet_SetMap this m st =
     (let st1 = st(this := (st this)\<lparr>sh_map := m\<rparr>) in
      Sheet_UpdateMap this (sh_rect (st1 this)) st1)"

section \<open>Flushing to the parent\<close>

definition Sheet_FlushInParent :: "sid \<Rightarrow> int \<Rightarrow> int \<Rightarrow> int \<Rightarrow> int \<Rightarrow> sheets \<Rightarrow> sheets res" where
  "Sheet_FlushInParent this rx ry rw rh st =
     (case sh_parent (st this) of None \<Rightarrow> Fail Null_Deref
      | Some p \<Rightarrow>
        let r = GetIntersectionWith (GetClientRect (st p)) (mk_rect rx ry rw rh) in
        if rect_xsize r \<le> 0 \<or> rect_ysize r \<le> 0 then Ok st
        else (case sh_map (st p) of None \<Rightarrow> Ok st
        | Some m \<Rightarrow>
          bind_res (check_that (0 \<le> rect_x r \<and> 0 \<le> rect_y r \<and>
              rect_x r + rect_xsize r \<le> rect_xsize (sh_rect (st p)) \<and>
              rect_y r + rect_ysize r \<le> rect_ysize (sh_rect (st p))) Assert_Failed) (\<lambda>_.
          let line = sh_pixels_per_scan_line (st p); s = st this in
          Ok (st(p := (st p)\<lparr>sh_buf := fold (\<lambda>(x, y) b.
                if m (pix line x y) \<noteq> Some this then b
                else b(pix line x y := sh_buf s (pix (sh_pixels_per_scan_line s)
                       (x - rect_x (sh_rect s)) (y - rect_y (sh_rect s)))))
              (rect_points r) (sh_buf (st p))\<rparr>)))))"

definition Sheet_Flush :: "sid \<Rightarrow> int \<Rightarrow> int \<Rightarrow> int \<Rightarrow> int \<Rightarrow> sheets \<Rightarrow> sheets res" where
  "Sheet_Flush this rx ry rw rh st =
     (case sh_parent (st this) of None \<Rightarrow> Fail Null_Deref
      | Some p \<Rightarrow>
        let s = sh_rect (st this);
            r = GetIntersectionWith (GetClientRect (st p))
                  (GetIntersectionWith s (mk_rect (rx + rect_x s) (ry + rect_y s) rw rh))
        in Sheet_FlushInParent this (rect_x r) (rect_y r) (rect_xsize r) (rect_ysize r) st)"

definition Sheet_FlushAll :: "sid \<Rightarrow> sheets \<Rightarrow> sheets res" where
  "Sheet_FlushAll this st =
     Sheet_Flush this 0 0 (rect_xsize (sh_rect (st this))) (rect_ysize (sh_rect (st this))) st"

section \<open>Stacking and moving\<close>

definition Sheet_SetParent :: "sid \<Rightarrow> sid option \<Rightarrow> sheets \<Rightarrow> sheets res" where
  "Sheet_SetParent this parent st =
     (let st1 = st(this := (st this)\<lparr>sh_parent := parent\<rparr>) in
      case parent of None \<Rightarrow> Ok st1
      | Some p \<Rightarrow> each_upper st1 (sh_bottom_child (st1 p)) (\<lambda>ss.
        let lower = takeWhile (\<lambda>s. \<not> sh_is_topmost (st1 s)) ss;
            above = (case dropWhile (\<lambda>s. \<not> sh_is_topmost (st1 s)) ss of [] \<Rightarrow> None | s # _ \<Rightarrow> Some s);
            st2 = st1(this := (st1 this)\<lparr>sh_upper := above\<rparr>);
            st3 = (if lower = [] then st2(p := (st2 p)\<lparr>sh_bottom_child := Some this\<rparr>)
                   else st2(last lower := (st2 (last lower))\<lparr>sh_upper := Some this\<rparr>))
        in bind_res (Sheet_UpdateMap p (sh_rect (st3 this)) st3) (Sheet_FlushAll this)))"

text \<open>The parts of the parent whose owners may change when a rectangle moves.\<close>

definition moved_regions :: "rect \<Rightarrow> rect \<Rightarrow> rect list" where
  "moved_regions prev_rect next_rect =
     (let intersection = GetIntersectionWith prev_rect next_rect in
      if IsEmptyRect intersection then [prev_rect, next_rect]
      else if rect_eq prev_rect next_rect then [prev_rect]
      else if rect_x prev_rect = rect_x next_rect \<or> rect_y prev_rect = rect_y next_rect
      then [GetUnionWith prev_rect next_rect]
      else
        let (s1, s2) = (if rect_x prev_rect < rect_x next_rect then (prev_rect, next_rect)
                        else (next_rect, prev_rect));
            dx = rect_x s2 - rect_x s1;
            dy = \<bar>rect_y s2 - rect_y s1\<bar>;
            w = rect_xsize s1;
            h = rect_ysize s1
        in if rect_y s1 < rect_y s2 then
             [mk_rect (rect_x s1) (rect_y s1) w dy,
              mk_rect (rect_x s1) (rect_y s2) (w + dx) (h - dy),
              mk_rect (rect_x s2) (rect_y s1 + h) w dy]
           else
             [mk_rect (rect_x s2) (rect_y s2) w dy,
              mk_rect (rect_x s1) (rect_y s1) (w + dx) (h - dy),
              mk_rect (rect_x s1) (rect_y s2 + h) w dy])"

primrec update_regions :: "sid \<Rightarrow> rect list \<Rightarrow> sheets \<Rightarrow> sheets res" where
  "update_regions p [] st = Ok st"
| "update_regions p (r # rs) st = bind_res (Sheet_UpdateMap p r st) (update_regions p rs)"

primrec flush_each :: "sid list \<Rightarrow> int \<Rightarrow> int \<Rightarrow> int \<Rightarrow> int \<Rightarrow> sheets \<Rightarrow> sheets res" where
  "flush_each [] x y w h st = Ok st"
| "flush_each (s # ss) x y w h st =
     bind_res (Sheet_FlushInParent s x y w h st) (flush_each ss x y w h)"

definition Sheet_SetPosition :: "sid \<Rightarrow> int \<Rightarrow> int \<Rightarrow> sheets \<Rightarrow> sheets res" where
  "Sheet_SetPosition this x y st =
     (let prev_rect = sh_rect (st this);
          next_rect = prev_rect\<lparr>rect_x := x, rect_y := y\<rparr>;
          st1 = st(this := (st this)\<lparr>sh_rect := next_rect\<rparr>);
          w = rect_xsize next_rect;
          h = rect_ysize next_rect
      in case sh_parent (st1 this) of None \<Rightarrow> Ok st1
      | Some p \<Rightarrow>
        bind_res (update_regions p (moved_regions prev_rect next_rect) st1) (\<lambda>st2.
        each_upper st2 (sh_bottom_child (st2 p)) (\<lambda>ss.
        bind_res (flush_each (takeWhile (\<lambda>s. s \<noteq> this) ss) (rect_x prev_rect) (rect_y prev_rect) w h st2)
          (Sheet_FlushInParent this (rect_x next_rect) (rect_y next_rect) w h))))"

definition Sheet_MoveRelative :: "sid \<Rightarrow> int \<Rightarrow> int \<Rightarrow> sheets \<Rightarrow> sheets res" where
  "Sheet_MoveRelative this dx dy st =
     Sheet_SetPosition this (rect_x (sh_rect (st this)) + dx) (rect_y (sh_rect (st this)) + dy) st"

definition Sheet_SetTopmost :: "sid \<Rightarrow> bool \<Rightarrow> sheets \<Rightarrow> sheets" where
  "Sheet_SetTopmost this is_topmost st = st(this := (st this)\<lparr>sh_is_topmost := is_topmost\<rparr>)"

definition Sheet_SetLocked :: "sid \<Rightarrow> bool \<Rightarrow> sheets \<Rightarrow> sheets" where
  "Sheet_SetLocked this is_locked st = st(this := (st this)\<lparr>sh_is_locked := is_locked\<rparr>)"

definition Sheet_SetAlphaEnabled :: "sid \<Rightarrow> bool \<Rightarrow> sheets \<Rightarrow> sheets res" where
  "Sheet_SetAlphaEnabled this is_enabled st =
     (let st1 = st(this := (st this)\<lparr>sh_is_alpha_enabled := is_enabled\<rparr>) in
      if is_enabled then Sheet_MoveRelative this 0 0 st1 else Ok st1)"

end
