(* ===== verification/Sheet_Compositing.thy ===== *)
theory Sheet_Compositing
  imports Sheets
begin

text \<open>
  Correctness of the window compositor of src/src/sheet.h and src/src/sheet.cc.  The children
  of a parent sheet form a stack; \<open>owner\<close> is the specification of what is seen at a point (the
  uppermost child covering it), and \<open>composited\<close> says that the parent's map and pixels show
  exactly that.  \<open>SetPosition\<close>, which updates only the regions whose owners may change, and
  \<open>SetParent\<close> keep it.
\<close>

section \<open>Loops over points\<close>

lemma rect_points_iff [simp]: "(x, y) \<in> set (rect_points r) \<longleftrightarrow> IsPointInRect r x y"
  by (auto simp: rect_points_def IsPointInRect_def GetRight_def GetBottom_def image_iff Bex_def)

lemma IsPointInRect_proper: "IsPointInRect r x y \<Longrightarrow> rect_proper r"
  by (auto simp: IsPointInRect_def rect_proper_def)

lemma pix_inj:
  "\<lbrakk>pix line x y = pix line x' y'; 0 \<le> x; x < line; 0 \<le> x'; x' < line\<rbrakk> \<Longrightarrow> x = x' \<and> y = y'"
proof -
  assume eq: "pix line x y = pix line x' y'" and b: "0 \<le> x" "x < line" "0 \<le> x'" "x' < line"
  have "x = pix line x y mod line" "x' = pix line x' y' mod line" using b by (simp_all add: pix_def)
  then have "x = x'" using eq by simp
  moreover have "y = pix line x y div line" "y' = pix line x' y' div line" using b by (simp_all add: pix_def)
  ultimately show ?thesis using eq by simp
qed

lemma fold_upd_hit:
  assumes "\<And>q. q \<in> set ps \<Longrightarrow> f q = f p \<Longrightarrow> q = p"
  shows "fold (\<lambda>p m. if P p then m(f p := g p) else m) ps m (f p) = (if p \<in> set ps \<and> P p then g p else m (f p))"
  using assms
proof (induction ps arbitrary: m)
  case (Cons a ps)
  have a: "f p = f a \<longleftrightarrow> a = p" using Cons.prems[of a] by auto
  show ?case using Cons a by (cases "a = p") auto
qed simp

text \<open>Writing \<open>g\<close> at the points of \<open>r\<close> selected by \<open>P\<close>, seen at a point inside the scan line.\<close>

lemma fold_pix:
  assumes r: "\<And>x y. IsPointInRect r x y \<Longrightarrow> 0 \<le> x \<and> x < line" and x: "0 \<le> x" "x < line"
  shows "fold (\<lambda>(x, y) m. if P x y then m(pix line x y := g x y) else m) (rect_points r) m (pix line x y)
    = (if IsPointInRect r x y \<and> P x y then g x y else m (pix line x y))"
proof -
  let ?f = "\<lambda>p. pix line (fst p) (snd p)"
  have inj: "q = (x, y)" if "q \<in> set (rect_points r)" "?f q = ?f (x, y)" for q
  proof -
    obtain x' y' where q: "q = (x', y')" by force
    have "0 \<le> x'" "x' < line" using that(1) q r[of x' y'] by simp_all
    then show ?thesis using pix_inj[of line x' y' x y] that(2) x q by simp
  qed
  have "(\<lambda>(x, y) m. if P x y then m(pix line x y := g x y) else m) =
      (\<lambda>p m. if P (fst p) (snd p) then m(?f p := g (fst p) (snd p)) else m)"
    by (simp add: fun_eq_iff)
  then show ?thesis
    using fold_upd_hit[of "rect_points r" ?f "(x, y)" "\<lambda>p. P (fst p) (snd p)" "\<lambda>p. g (fst p) (snd p)" m] inj
    by simp
qed

lemma fold_pix_all:
  assumes "\<And>x y. IsPointInRect r x y \<Longrightarrow> 0 \<le> x \<and> x < line" "0 \<le> x" "x < line"
  shows "fold (\<lambda>(x, y) m. m(pix line x y := g x y)) (rect_points r) m (pix line x y)
    = (if IsPointInRect r x y then g x y else m (pix line x y))"
  using fold_pix[OF assms, where P = "\<lambda>_ _. True" and g = g and m = m] by simp

lemma fold_upd_miss:
  "k \<notin> f ` set ps \<Longrightarrow> fold (\<lambda>p m. if P p then m(f p := g p) else m) ps m k = m k"
  by (induction ps arbitrary: m) auto

section \<open>Children, owners and pixels\<close>

primrec upper_list :: "sheets \<Rightarrow> sid option \<Rightarrow> sid list \<Rightarrow> bool" where
  "upper_list st p [] \<longleftrightarrow> p = None"
| "upper_list st p (s # ss) \<longleftrightarrow> p = Some s \<and> upper_list st (sh_upper (st s)) ss"

lemma sheets_from_upper_list: "upper_list st p ss \<Longrightarrow> sheets_from st p = Some ss"
  by (induction ss arbitrary: p) (subst sheets_from.simps, simp)+

lemma each_upper_list: "upper_list st p ss \<Longrightarrow> each_upper st p k = k ss"
  by (simp add: each_upper_def sheets_from_upper_list)

lemma upper_list_cong:
  "(\<And>s. s \<in> set ss \<Longrightarrow> sh_upper (st' s) = sh_upper (st s)) \<Longrightarrow> upper_list st' p ss = upper_list st p ss"
  by (induction ss arbitrary: p) auto

definition covers :: "sheet \<Rightarrow> int \<Rightarrow> int \<Rightarrow> bool" where
  "covers s x y \<longleftrightarrow> IsPointInRect (sh_rect s) x y \<and> (sh_is_alpha_enabled s \<longrightarrow> opaque_at s x y)"

text \<open>The sheet seen at a point: the uppermost child which covers it.\<close>

definition owner :: "sheets \<Rightarrow> sid list \<Rightarrow> int \<Rightarrow> int \<Rightarrow> sid option" where
  "owner st ss x y = find (\<lambda>s. covers (st s) x y) (rev ss)"

definition pixel :: "sheet \<Rightarrow> int \<Rightarrow> int \<Rightarrow> u32" where
  "pixel s x y = sh_buf s (pix (sh_pixels_per_scan_line s) (x - rect_x (sh_rect s)) (y - rect_y (sh_rect s)))"

lemma owner_snoc: "owner st (ss @ [s]) x y = (if covers (st s) x y then Some s else owner st ss x y)"
  by (simp add: owner_def)

lemma owner_Nil [simp]: "owner st [] x y = None"
  by (simp add: owner_def)

lemma owner_append: "owner st (ss @ ts) x y = (case owner st ts x y of None \<Rightarrow> owner st ss x y | Some s \<Rightarrow> Some s)"
  by (induction ts rule: rev_induct) (auto simp: owner_snoc simp flip: append_assoc)

lemma owner_in: "owner st ss x y = Some s \<Longrightarrow> s \<in> set ss \<and> covers (st s) x y"
  unfolding owner_def by (drule find_SomeD) simp

lemma find_cong_set: "(\<And>s. s \<in> set ss \<Longrightarrow> P s = Q s) \<Longrightarrow> find P ss = find Q ss"
  by (induction ss) auto

lemma owner_cong:
  "(\<And>s. s \<in> set ss \<Longrightarrow> covers (st' s) x y = covers (st s) x y) \<Longrightarrow> owner st' ss x y = owner st ss x y"
  unfolding owner_def by (rule find_cong_set) simp

text \<open>
  \<open>family st p ss\<close>: the children of \<open>p\<close> are \<open>ss\<close>, from bottom to top; \<open>p\<close> has a map, and its
  scan line is as wide as the sheet.
\<close>

definition family :: "sheets \<Rightarrow> sid \<Rightarrow> sid list \<Rightarrow> bool" where
  "family st p ss \<longleftrightarrow> upper_list st (sh_bottom_child (st p)) ss \<and> p \<notin> set ss \<and> distinct ss \<and>
     (\<forall>s\<in>set ss. sh_parent (st s) = Some p) \<and> sh_map (st p) \<noteq> None \<and>
     sh_pixels_per_scan_line (st p) = rect_xsize (sh_rect (st p)) \<and> rect_proper (sh_rect (st p))"

abbreviation in_client :: "sheets \<Rightarrow> sid \<Rightarrow> int \<Rightarrow> int \<Rightarrow> bool" where
  "in_client st p x y \<equiv> IsPointInRect (GetClientRect (st p)) x y"

text \<open>\<open>redrawn p f b st\<close>: only the map of \<open>p\<close> (to \<open>f\<close>) and its pixels (to \<open>b\<close>) are replaced.\<close>

definition redrawn :: "sid \<Rightarrow> (int \<Rightarrow> sid option) \<Rightarrow> (int \<Rightarrow> u32) \<Rightarrow> sheets \<Rightarrow> sheets" where
  "redrawn p f b st = st(p := (st p)\<lparr>sh_map := Some f, sh_buf := b\<rparr>)"

lemma redrawn_simps [simp]:
  "s \<noteq> p \<Longrightarrow> redrawn p f b st s = st s"
  "sh_rect (redrawn p f b st s) = sh_rect (st s)"
  "sh_parent (redrawn p f b st s) = sh_parent (st s)"
  "sh_upper (redrawn p f b st s) = sh_upper (st s)"
  "sh_bottom_child (redrawn p f b st s) = sh_bottom_child (st s)"
  "sh_pixels_per_scan_line (redrawn p f b st s) = sh_pixels_per_scan_line (st s)"
  "sh_map (redrawn p f b st p) = Some f" "sh_buf (redrawn p f b st p) = b"
  "GetClientRect (redrawn p f b st s) = GetClientRect (st s)"
  "redrawn p f' b' (redrawn p f b st) = redrawn p f' b' st"
  by (simp_all add: redrawn_def GetClientRect_def)

lemma redrawn_self: "sh_map (st p) = Some f \<Longrightarrow> redrawn p f (sh_buf (st p)) st = st"
  by (auto simp: redrawn_def)

lemma redrawn_buf: "sh_map (st p) = Some m \<Longrightarrow> st(p := (st p)\<lparr>sh_buf := b\<rparr>) = redrawn p m b st"
  by (auto simp: redrawn_def fun_eq_iff intro: sheet.equality)

lemma redrawn_family [simp]: "family st p ss \<Longrightarrow> family (redrawn p f b st) p ss"
  unfolding family_def using upper_list_cong[of ss "redrawn p f b st" st] by auto

lemma redrawn_owner [simp]: "p \<notin> set ss \<Longrightarrow> owner (redrawn p f b st) ss x y = owner st ss x y"
  by (rule owner_cong) (auto simp: redrawn_def)

section \<open>What \<open>UpdateMap\<close> computes\<close>

lemma in_client_iff:
  "in_client st p x y \<longleftrightarrow> 0 \<le> x \<and> x < rect_xsize (sh_rect (st p)) \<and> 0 \<le> y \<and> y < rect_ysize (sh_rect (st p))"
  by (auto simp: IsPointInRect_def GetClientRect_def)

lemma clear_points_at:
  assumes "\<And>x y. IsPointInRect r x y \<Longrightarrow> 0 \<le> x \<and> x < line" "0 \<le> x" "x < line"
  shows "clear_points line r m (pix line x y) = (if IsPointInRect r x y then None else m (pix line x y))"
  unfolding clear_points_def by (rule fold_pix_all[OF assms])

lemma claim_points_at:
  assumes t: "\<And>x y. IsPointInRect target x y \<Longrightarrow> 0 \<le> x \<and> x < line" and x: "0 \<le> x" "x < line"
  shows "claim_points st line target s m (pix line x y) =
    (if IsPointInRect target x y \<and> covers (st s) x y then Some s else m (pix line x y))"
proof -
  let ?v = "GetIntersectionWith target (sh_rect (st s))"
  have v: "IsPointInRect ?v a b \<longleftrightarrow> IsPointInRect target a b \<and> IsPointInRect (sh_rect (st s)) a b" for a b
    using IsPointInRect_intersection[of target "sh_rect (st s)" a b] IsPointInRect_proper by blast
  then have b: "\<And>a b. IsPointInRect ?v a b \<Longrightarrow> 0 \<le> a \<and> a < line" using t by blast
  have neg: "(\<lambda>(x, y) m. if \<not> opaque_at (st s) x y then m else m(pix line x y := Some s)) =
      (\<lambda>(x, y) m. if opaque_at (st s) x y then m(pix line x y := Some s) else m)"
    by (simp add: fun_eq_iff)
  show ?thesis
    unfolding claim_points_def Let_def neg
    using fold_pix[OF b x, where P = "opaque_at (st s)" and g = "\<lambda>_ _. Some s" and m = m and y = y]
      fold_pix_all[OF b x, where g = "\<lambda>_ _. Some s" and m = m and y = y] v[of x y]
    by (auto simp: covers_def)
qed

lemma claim_all_at:
  assumes "\<And>x y. IsPointInRect target x y \<Longrightarrow> 0 \<le> x \<and> x < line" "0 \<le> x" "x < line"
  shows "fold (claim_points st line target) ss m (pix line x y) =
    (if IsPointInRect target x y then (case owner st ss x y of None \<Rightarrow> m (pix line x y) | Some s \<Rightarrow> Some s)
     else m (pix line x y))"
proof (induction ss rule: rev_induct)
  case (snoc s ss)
  then show ?case by (simp add: claim_points_at[OF assms] owner_snoc)
qed simp

lemma UpdateMap_at:
  assumes fam: "family st p ss" and m: "sh_map (st p) = Some m"
  obtains m' where "Sheet_UpdateMap p target st = Ok (redrawn p m' (sh_buf (st p)) st)"
    and "\<And>x y. in_client st p x y \<Longrightarrow> m' (pix (sh_pixels_per_scan_line (st p)) x y) =
      (if IsPointInRect target x y then owner st ss x y else m (pix (sh_pixels_per_scan_line (st p)) x y))"
proof -
  let ?line = "sh_pixels_per_scan_line (st p)"
  let ?t = "GetIntersectionWith target (GetClientRect (st p))"
  let ?m1 = "clear_points (rect_xsize (sh_rect (st p))) ?t m"
  let ?m' = "fold (claim_points st ?line ?t) ss ?m1"
  have line: "?line = rect_xsize (sh_rect (st p))" and ul: "upper_list st (sh_bottom_child (st p)) ss"
    using fam by (auto simp: family_def)
  have t: "IsPointInRect ?t x y \<longleftrightarrow> IsPointInRect target x y \<and> in_client st p x y" for x y
    using IsPointInRect_intersection[of target "GetClientRect (st p)" x y] IsPointInRect_proper by blast
  then have b: "\<And>x y. IsPointInRect ?t x y \<Longrightarrow> 0 \<le> x \<and> x < ?line" by (simp add: in_client_iff line)
  have "Sheet_UpdateMap p target st = Ok (redrawn p ?m' (sh_buf (st p)) st)"
    by (simp add: Sheet_UpdateMap_def m each_upper_list[OF ul] redrawn_def Let_def)
  moreover have "?m' (pix ?line x y) = (if IsPointInRect target x y then owner st ss x y else m (pix ?line x y))"
    if c: "in_client st p x y" for x y
  proof -
    have x: "0 \<le> x" "x < ?line" using c by (auto simp: in_client_iff line)
    have "?m1 (pix ?line x y) = (if IsPointInRect target x y then None else m (pix ?line x y))"
      using clear_points_at[where r = ?t, OF b x, where m = m and y = y] t c line by simp
    then show ?thesis using claim_all_at[where target = ?t, OF b x, where st = st and ss = ss and m = ?m1 and y = y] t c by (auto split: option.splits)
  qed
  ultimately show thesis by (rule that)
qed

lemma update_regions_at:
  assumes "family st p ss" "sh_map (st p) = Some m"
  shows "\<exists>m'. update_regions p rs st = Ok (redrawn p m' (sh_buf (st p)) st) \<and>
    (\<forall>x y. in_client st p x y \<longrightarrow> m' (pix (sh_pixels_per_scan_line (st p)) x y) =
      (if \<exists>r\<in>set rs. IsPointInRect r x y then owner st ss x y else m (pix (sh_pixels_per_scan_line (st p)) x y)))"
  using assms
proof (induction rs arbitrary: st m)
  case Nil
  then show ?case by (auto simp: redrawn_self intro: exI[of _ m])
next
  case (Cons r rs)
  obtain m1 where u: "Sheet_UpdateMap p r st = Ok (redrawn p m1 (sh_buf (st p)) st)"
    and m1: "\<And>x y. in_client st p x y \<Longrightarrow> m1 (pix (sh_pixels_per_scan_line (st p)) x y) =
      (if IsPointInRect r x y then owner st ss x y else m (pix (sh_pixels_per_scan_line (st p)) x y))"
    using UpdateMap_at[OF Cons.prems] by blast
  let ?st = "redrawn p m1 (sh_buf (st p)) st"
  have p: "p \<notin> set ss" using Cons.prems by (simp add: family_def)
  from Cons.IH[of ?st m1] Cons.prems(1) p
  obtain m' where "update_regions p rs ?st = Ok (redrawn p m' (sh_buf (st p)) st)"
    and "\<forall>x y. in_client st p x y \<longrightarrow> m' (pix (sh_pixels_per_scan_line (st p)) x y) =
      (if \<exists>r\<in>set rs. IsPointInRect r x y then owner st ss x y else m1 (pix (sh_pixels_per_scan_line (st p)) x y))"
    by auto
  then show ?case using u m1 by (intro exI[of _ m']) auto
qed

section \<open>What flushing writes\<close>

lemma FlushInParent_at:
  assumes fam: "family st p ss" and m: "sh_map (st p) = Some m" and s: "s \<in> set ss"
  shows "\<exists>b'. Sheet_FlushInParent s rx ry rw rh st = Ok (redrawn p m b' st) \<and>
    (\<forall>x y. in_client st p x y \<longrightarrow> b' (pix (sh_pixels_per_scan_line (st p)) x y) =
      (if IsPointInRect (mk_rect rx ry rw rh) x y \<and> m (pix (sh_pixels_per_scan_line (st p)) x y) = Some s
       then pixel (st s) x y else sh_buf (st p) (pix (sh_pixels_per_scan_line (st p)) x y)))"
proof -
  let ?line = "sh_pixels_per_scan_line (st p)"
  let ?r = "GetIntersectionWith (GetClientRect (st p)) (mk_rect rx ry rw rh)"
  have par: "sh_parent (st s) = Some p" and line: "?line = rect_xsize (sh_rect (st p))"
    using fam s by (auto simp: family_def)
  have r: "IsPointInRect ?r x y \<longleftrightarrow> in_client st p x y \<and> IsPointInRect (mk_rect rx ry rw rh) x y" for x y
    using IsPointInRect_intersection[of "GetClientRect (st p)" "mk_rect rx ry rw rh" x y] IsPointInRect_proper by blast
  show ?thesis
  proof (cases "rect_xsize ?r \<le> 0 \<or> rect_ysize ?r \<le> 0")
    case True
    then have "\<not> IsPointInRect ?r x y" for x y by (auto simp: IsPointInRect_def)
    then have "\<not> (in_client st p x y \<and> IsPointInRect (mk_rect rx ry rw rh) x y)" for x y using r by blast
    then show ?thesis using True par m redrawn_self[of st p m, OF m]
      by (intro exI[of _ "sh_buf (st p)"]) (auto simp: Sheet_FlushInParent_def Let_def)
  next
    case False
    let ?b' = "fold (\<lambda>(x, y) b. if m (pix ?line x y) = Some s then b(pix ?line x y := pixel (st s) x y) else b)
        (rect_points ?r) (sh_buf (st p))"
    have neg: "(\<lambda>(x, y) b. if m (pix ?line x y) \<noteq> Some s then b
          else b(pix ?line x y := sh_buf (st s) (pix (sh_pixels_per_scan_line (st s))
            (x - rect_x (sh_rect (st s))) (y - rect_y (sh_rect (st s)))))) =
        (\<lambda>(x, y) b. if m (pix ?line x y) = Some s then b(pix ?line x y := pixel (st s) x y) else b)"
      by (auto simp: fun_eq_iff pixel_def)
    have first: "IsPointInRect ?r (rect_x ?r) (rect_y ?r)"
      "IsPointInRect ?r (rect_x ?r + rect_xsize ?r - 1) (rect_y ?r + rect_ysize ?r - 1)"
      using False by (auto simp: IsPointInRect_def)
    then have inb: "0 \<le> rect_x ?r \<and> 0 \<le> rect_y ?r \<and>
        rect_x ?r + rect_xsize ?r \<le> rect_xsize (sh_rect (st p)) \<and>
        rect_y ?r + rect_ysize ?r \<le> rect_ysize (sh_rect (st p))"
      unfolding r in_client_iff by linarith
    have b: "\<And>x y. IsPointInRect ?r x y \<Longrightarrow> 0 \<le> x \<and> x < ?line" using r by (simp add: in_client_iff line)
    have "Sheet_FlushInParent s rx ry rw rh st = Ok (st(p := (st p)\<lparr>sh_buf := ?b'\<rparr>))"
      using False inb par m by (simp add: Sheet_FlushInParent_def Let_def neg check_that_def)
    moreover have "st(p := (st p)\<lparr>sh_buf := ?b'\<rparr>) = redrawn p m ?b' st"
      by (rule redrawn_buf[of st p m, OF m])
    moreover have "?b' (pix ?line x y) = (if IsPointInRect (mk_rect rx ry rw rh) x y \<and> m (pix ?line x y) = Some s
       then pixel (st s) x y else sh_buf (st p) (pix ?line x y))" if "in_client st p x y" for x y
    proof -
      have x: "0 \<le> x" "x < ?line" using that by (auto simp: in_client_iff line)
      show ?thesis
        using fold_pix[where r = ?r, OF b x, where P = "\<lambda>x y. m (pix ?line x y) = Some s" and g = "pixel (st s)"
            and m = "sh_buf (st p)" and y = y] r that by simp
    qed
    ultimately show ?thesis by (intro exI[of _ ?b']) simp
  qed
qed

lemma flush_each_at:
  assumes "family st p ss" "sh_map (st p) = Some m" "set ls \<subseteq> set ss"
  shows "\<exists>b'. flush_each ls rx ry rw rh st = Ok (redrawn p m b' st) \<and>
    (\<forall>x y. in_client st p x y \<longrightarrow> b' (pix (sh_pixels_per_scan_line (st p)) x y) =
      (if IsPointInRect (mk_rect rx ry rw rh) x y \<and> m (pix (sh_pixels_per_scan_line (st p)) x y) \<in> Some ` set ls
       then pixel (st (the (m (pix (sh_pixels_per_scan_line (st p)) x y)))) x y
       else sh_buf (st p) (pix (sh_pixels_per_scan_line (st p)) x y)))"
  using assms
proof (induction ls arbitrary: st)
  case Nil
  then show ?case by (auto simp: redrawn_self intro!: exI[of _ "sh_buf (st p)"])
next
  case (Cons s ls)
  let ?line = "sh_pixels_per_scan_line (st p)" and ?R = "mk_rect rx ry rw rh"
  obtain b1 where f: "Sheet_FlushInParent s rx ry rw rh st = Ok (redrawn p m b1 st)"
    and b1: "\<forall>x y. in_client st p x y \<longrightarrow> b1 (pix ?line x y) =
      (if IsPointInRect ?R x y \<and> m (pix ?line x y) = Some s
       then pixel (st s) x y else sh_buf (st p) (pix ?line x y))"
    using FlushInParent_at[OF Cons.prems(1,2), of s rx ry rw rh] Cons.prems(3) by auto
  have ne: "a \<noteq> p" if "a \<in> set ss" for a using Cons.prems(1) that by (auto simp: family_def)
  from Cons.IH[of "redrawn p m b1 st"] Cons.prems(1,3)
  obtain b' where "flush_each ls rx ry rw rh (redrawn p m b1 st) = Ok (redrawn p m b' st)"
    and b': "\<forall>x y. in_client st p x y \<longrightarrow> b' (pix ?line x y) =
      (if IsPointInRect ?R x y \<and> m (pix ?line x y) \<in> Some ` set ls
       then pixel (redrawn p m b1 st (the (m (pix ?line x y)))) x y else b1 (pix ?line x y))"
    by auto
  moreover have "b' (pix ?line x y) =
      (if IsPointInRect ?R x y \<and> m (pix ?line x y) \<in> Some ` set (s # ls)
       then pixel (st (the (m (pix ?line x y)))) x y else sh_buf (st p) (pix ?line x y))"
    if "in_client st p x y" for x y
    using that b' b1 ne Cons.prems(3) by auto
  ultimately show ?case using f by (intro exI[of _ b']) simp
qed

section \<open>Compositing\<close>

text \<open>
  \<open>composited st p ss\<close>: inside of \<open>p\<close>, its map names the uppermost child covering each point,
  and where there is one, \<open>p\<close> shows that child's pixel.
\<close>

definition composited :: "sheets \<Rightarrow> sid \<Rightarrow> sid list \<Rightarrow> bool" where
  "composited st p ss \<longleftrightarrow> (\<forall>x y. in_client st p x y \<longrightarrow>
     (let k = pix (sh_pixels_per_scan_line (st p)) x y in
      the (sh_map (st p)) k = owner st ss x y \<and>
      (\<forall>s. owner st ss x y = Some s \<longrightarrow> sh_buf (st p) k = pixel (st s) x y)))"

lemma three_regions_down:
  assumes "a1 < a2" "b1 < b2" "IsPointInRect (mk_rect a1 b1 w h) px py \<or> IsPointInRect (mk_rect a2 b2 w h) px py"
  shows "IsPointInRect (mk_rect a1 b1 w (b2 - b1)) px py \<or> IsPointInRect (mk_rect a1 b2 (w + (a2 - a1)) (h - (b2 - b1))) px py
    \<or> IsPointInRect (mk_rect a2 (b1 + h) w (b2 - b1)) px py"
  using assms unfolding IsPointInRect_def rect.simps by linarith

lemma three_regions_up:
  assumes "a1 < a2" "b2 < b1" "IsPointInRect (mk_rect a1 b1 w h) px py \<or> IsPointInRect (mk_rect a2 b2 w h) px py"
  shows "IsPointInRect (mk_rect a2 b2 w (b1 - b2)) px py \<or> IsPointInRect (mk_rect a1 b1 (w + (a2 - a1)) (h - (b1 - b2))) px py
    \<or> IsPointInRect (mk_rect a1 (b2 + h) w (b1 - b2)) px py"
  using assms unfolding IsPointInRect_def rect.simps by linarith

lemma moved_regions_cover:
  assumes "rect_proper prev" "IsPointInRect prev px py \<or> IsPointInRect (prev\<lparr>rect_x := x, rect_y := y\<rparr>) px py"
  shows "\<exists>r\<in>set (moved_regions prev (prev\<lparr>rect_x := x, rect_y := y\<rparr>)). IsPointInRect r px py"
proof -
  obtain a b w h where p: "prev = mk_rect a b w h" by (metis rect.surjective old.unit.exhaust)
  let ?n = "mk_rect x y w h"
  consider "IsEmptyRect (GetIntersectionWith prev ?n)" | "\<not> IsEmptyRect (GetIntersectionWith prev ?n)" "prev = ?n"
    | "\<not> IsEmptyRect (GetIntersectionWith prev ?n)" "prev \<noteq> ?n" "a = x \<or> b = y"
    | "\<not> IsEmptyRect (GetIntersectionWith prev ?n)" "a \<noteq> x" "b \<noteq> y" by blast
  then show ?thesis
  proof cases
    case 3
    then have "moved_regions prev ?n = [GetUnionWith prev ?n]"
      unfolding moved_regions_def Let_def rect_eq_iff by (auto simp: p)
    then show ?thesis using assms(2) IsPointInRect_union[of prev px py ?n] by (simp add: p)
  next
    case 4
    have pts: "IsPointInRect (mk_rect a b w h) px py \<or> IsPointInRect (mk_rect x y w h) px py"
      using assms(2) by (simp add: p)
    consider "a < x" "b < y" | "a < x" "y < b" | "x < a" "b < y" | "x < a" "y < b" using 4 by linarith
    then show ?thesis
      using 4(1) three_regions_down[of a x b y w h px py] three_regions_up[of a x y b w h px py]
        three_regions_down[of x a y b w h px py] three_regions_up[of x a b y w h px py] pts
      by cases (simp_all add: moved_regions_def Let_def rect_eq_iff p, blast+)
  qed (use assms in \<open>auto simp: moved_regions_def rect_eq_iff p Let_def\<close>)
qed

text \<open>
  The general form of a change to one child: after updating the map on regions which contain
  all points it covered or covers now, flushing the lower siblings where it was and the child
  itself where it is restores the picture.
\<close>

lemma recompose:
  assumes fam: "family st1 p ss" and ss: "ss = lower @ this # upper"
    and comp: "composited st p ss" and same: "\<And>s. s \<noteq> this \<Longrightarrow> st1 s = st s"
    and old: "\<And>x y. covers (st this) x y \<Longrightarrow> IsPointInRect prev x y"
    and new: "\<And>x y. covers (st1 this) x y \<Longrightarrow> IsPointInRect next x y"
    and rs: "\<And>x y. IsPointInRect prev x y \<or> IsPointInRect next x y \<Longrightarrow> \<exists>r\<in>set rs. IsPointInRect r x y"
  shows "\<exists>f b st2 st3. update_regions p rs st1 = Ok st2 \<and>
    flush_each lower (rect_x prev) (rect_y prev) (rect_xsize prev) (rect_ysize prev) st2 = Ok st3 \<and>
    Sheet_FlushInParent this (rect_x next) (rect_y next) (rect_xsize next) (rect_ysize next) st3
      = Ok (redrawn p f b st1) \<and>
    upper_list st2 (sh_bottom_child (st2 p)) ss \<and> composited (redrawn p f b st1) p ss"
proof -
  have p: "p \<notin> set ss" and d: "distinct ss" using fam by (auto simp: family_def)
  have pt: "p \<noteq> this" using p ss by auto
  then have stp: "st1 p = st p" using same by blast
  obtain m where m: "sh_map (st1 p) = Some m" using fam by (auto simp: family_def)
  let ?line = "sh_pixels_per_scan_line (st1 p)"
  have R: "mk_rect (rect_x r) (rect_y r) (rect_xsize r) (rect_ysize r) = r" for r by simp
  obtain f where u: "update_regions p rs st1 = Ok (redrawn p f (sh_buf (st1 p)) st1)"
    and f: "\<forall>x y. in_client st1 p x y \<longrightarrow> f (pix ?line x y) =
      (if \<exists>r\<in>set rs. IsPointInRect r x y then owner st1 ss x y else m (pix ?line x y))"
    using update_regions_at[OF fam m, of rs] by blast
  let ?st2 = "redrawn p f (sh_buf (st1 p)) st1"
  have fam2: "family ?st2 p ss" using fam by simp
  obtain b where fe: "flush_each lower (rect_x prev) (rect_y prev) (rect_xsize prev) (rect_ysize prev) ?st2
      = Ok (redrawn p f b st1)"
    and b: "\<forall>x y. in_client st1 p x y \<longrightarrow> b (pix ?line x y) =
      (if IsPointInRect prev x y \<and> f (pix ?line x y) \<in> Some ` set lower
       then pixel (?st2 (the (f (pix ?line x y)))) x y else sh_buf (st1 p) (pix ?line x y))"
    using flush_each_at[OF fam2, of f lower "rect_x prev" "rect_y prev" "rect_xsize prev" "rect_ysize prev"] ss R[of prev]
    by (auto cong: if_cong)
  have fam3: "family (redrawn p f b st1) p ss" using fam by simp
  obtain c where fl: "Sheet_FlushInParent this (rect_x next) (rect_y next) (rect_xsize next) (rect_ysize next)
      (redrawn p f b st1) = Ok (redrawn p f c st1)"
    and c: "\<forall>x y. in_client st1 p x y \<longrightarrow> c (pix ?line x y) =
      (if IsPointInRect next x y \<and> f (pix ?line x y) = Some this
       then pixel (redrawn p f b st1 this) x y else b (pix ?line x y))"
    using FlushInParent_at[OF fam3, of f this "rect_x next" "rect_y next" "rect_xsize next" "rect_ysize next"] ss R[of "next"]
    by (auto cong: if_cong)
  have o: "owner st ss x y = (case owner st upper x y of Some s \<Rightarrow> Some s
      | None \<Rightarrow> if covers (st this) x y then Some this else owner st lower x y)" for st x y
    using owner_append[of st "lower @ [this]" upper x y] owner_snoc[of st lower this x y]
    by (simp add: ss split: option.split)
  have oa: "owner st1 upper x y = owner st upper x y" "owner st1 lower x y = owner st lower x y" for x y
  proof -
    have eq: "st1 s = st s" if "s \<in> set upper \<or> s \<in> set lower" for s
    proof (rule same)
      show "s \<noteq> this" using d that by (auto simp: ss)
    qed
    show "owner st1 upper x y = owner st upper x y" "owner st1 lower x y = owner st lower x y"
      by (rule owner_cong, simp add: eq)+
  qed
  have "composited (redrawn p f c st1) p ss"
    unfolding composited_def Let_def
  proof (intro allI impI, goal_cases)
    case (1 x y)
    then have cl: "in_client st1 p x y" by simp
    then have cl0: "in_client st p x y" by (simp add: stp)
    let ?k = "pix ?line x y"
    have mo: "m ?k = owner st ss x y" and bo: "\<And>s. owner st ss x y = Some s \<Longrightarrow> sh_buf (st1 p) ?k = pixel (st s) x y"
      using comp cl0 m by (auto simp: composited_def Let_def stp)
    have nopt: "owner st1 ss x y = owner st ss x y" if "\<not> IsPointInRect prev x y" "\<not> IsPointInRect next x y"
      using o[of st x y] o[of st1 x y] oa[of x y] old[of x y] new[of x y] that
      by (auto split: option.split)
    have fk: "f ?k = owner st1 ss x y"
    proof (cases "\<exists>r\<in>set rs. IsPointInRect r x y")
      case True
      then show ?thesis using f cl by simp
    next
      case False
      then have "\<not> IsPointInRect prev x y" "\<not> IsPointInRect next x y" using rs by blast+
      then show ?thesis using False f cl mo nopt by simp
    qed
    have ck: "c ?k = pixel (st1 s) x y" if s: "owner st1 ss x y = Some s" for s
    proof -
      consider "s = this" | "s \<in> set lower" "s \<noteq> this" "owner st upper x y = None" | "owner st upper x y = Some s"
        using s o[of st1 x y] oa[of x y] owner_in[of st lower x y s] d
        by (auto simp: ss split: option.splits if_splits)
      then show ?thesis
      proof cases
        case 1
        then have "IsPointInRect next x y" using owner_in[OF s] new by auto
        then show ?thesis using c cl fk s 1 pt by simp
      next
        case 2
        then have sp: "s \<noteq> p" using p ss by auto
        have "b ?k = pixel (st1 s) x y"
        proof (cases "IsPointInRect prev x y")
          case True
          then show ?thesis using b cl fk s 2 sp by auto
        next
          case False
          then have "owner st ss x y = Some s"
            using o[of st x y] o[of st1 x y] s 2 oa[of x y] old[of x y] by (auto split: if_splits)
          then show ?thesis using b cl False bo same 2 by simp
        qed
        then show ?thesis using c cl fk s 2 by simp
      next
        case 3
        then have os: "owner st ss x y = Some s" using o[of st x y] by simp
        have sa: "s \<in> set upper" using owner_in[OF 3] by simp
        then have "s \<noteq> this" "s \<notin> set lower" using d by (auto simp: ss)
        then show ?thesis using c b cl fk s bo[OF os] same by auto
      qed
    qed
    moreover have "redrawn p f c st1 s = st1 s" if "owner st1 ss x y = Some s" for s
      using owner_in[OF that] p by (metis redrawn_simps(1))
    ultimately show ?case using fk p by simp
  qed
  moreover have "upper_list ?st2 (sh_bottom_child (?st2 p)) ss" using fam2 by (simp add: family_def)
  ultimately show ?thesis using u fe fl by blast
qed

lemma covers_in_rect: "covers s x y \<Longrightarrow> IsPointInRect (sh_rect s) x y"
  by (simp add: covers_def)

lemma takeWhile_upto: "distinct (xs @ a # ys) \<Longrightarrow> takeWhile (\<lambda>s. s \<noteq> a) (xs @ a # ys) = xs"
  by (induction xs) auto

lemma family_update:
  assumes "family st p ss" "this \<in> set ss" "sh_upper new = sh_upper (st this)" "sh_parent new = sh_parent (st this)"
  shows "family (st(this := new)) p ss"
proof -
  have "upper_list (st(this := new)) (sh_bottom_child (st p)) ss = upper_list st (sh_bottom_child (st p)) ss"
    using assms by (intro upper_list_cong) auto
  then show ?thesis using assms by (auto simp: family_def)
qed

lemma SetPosition_composited:
  assumes fam: "family st p ss" and th: "this \<in> set ss" and comp: "composited st0 p ss"
    and st0: "\<And>s. s \<noteq> this \<Longrightarrow> st0 s = st s" "sh_rect (st0 this) = sh_rect (st this)"
    and pr: "rect_proper (sh_rect (st this))"
  shows "\<exists>f b. Sheet_SetPosition this x y st =
      Ok (redrawn p f b (st(this := (st this)\<lparr>sh_rect := (sh_rect (st this))\<lparr>rect_x := x, rect_y := y\<rparr>\<rparr>))) \<and>
    composited (redrawn p f b (st(this := (st this)\<lparr>sh_rect := (sh_rect (st this))\<lparr>rect_x := x, rect_y := y\<rparr>\<rparr>))) p ss"
proof -
  let ?prev = "sh_rect (st this)"
  let ?next = "?prev\<lparr>rect_x := x, rect_y := y\<rparr>"
  let ?st1 = "st(this := (st this)\<lparr>sh_rect := ?next\<rparr>)"
  obtain lower upper where ss: "ss = lower @ this # upper" using th by (meson split_list)
  have par: "sh_parent (st this) = Some p" and d: "distinct ss" using fam th by (auto simp: family_def)
  have fam1: "family ?st1 p ss" by (rule family_update[OF fam th]) simp_all
  have same: "?st1 s = st0 s" if "s \<noteq> this" for s using that st0(1) by simp
  have old: "IsPointInRect ?prev a c" if "covers (st0 this) a c" for a c
    using covers_in_rect[OF that] st0(2) by simp
  have new: "IsPointInRect ?next a c" if "covers (?st1 this) a c" for a c
    using covers_in_rect[OF that] by simp
  from recompose[OF fam1 ss comp same old new moved_regions_cover[OF pr]]
  obtain f b st2 st3 where u: "update_regions p (moved_regions ?prev ?next) ?st1 = Ok st2"
    and fe: "flush_each lower (rect_x ?prev) (rect_y ?prev) (rect_xsize ?prev) (rect_ysize ?prev) st2 = Ok st3"
    and fl: "Sheet_FlushInParent this (rect_x ?next) (rect_y ?next) (rect_xsize ?next) (rect_ysize ?next) st3
      = Ok (redrawn p f b ?st1)"
    and ul: "upper_list st2 (sh_bottom_child (st2 p)) ss" and c: "composited (redrawn p f b ?st1) p ss"
    by blast
  have "Sheet_SetPosition this x y st = Ok (redrawn p f b ?st1)"
    using u fe fl par takeWhile_upto[of lower this upper] d
    by (simp add: Sheet_SetPosition_def Let_def each_upper_list[OF ul]) (simp add: ss)
  then show ?thesis using c by blast
qed

section \<open>Stacking order\<close>

primrec upper_seg :: "sheets \<Rightarrow> sid option \<Rightarrow> sid list \<Rightarrow> sid option \<Rightarrow> bool" where
  "upper_seg st p [] q \<longleftrightarrow> p = q"
| "upper_seg st p (s # ss) q \<longleftrightarrow> p = Some s \<and> upper_seg st (sh_upper (st s)) ss q"

lemma upper_list_append:
  "upper_list st p (xs @ ys) \<longleftrightarrow> (\<exists>q. upper_seg st p xs q \<and> upper_list st q ys)"
  by (induction xs arbitrary: p) auto

lemma upper_seg_snoc: "upper_seg st p (xs @ [l]) q \<longleftrightarrow> upper_seg st p xs (Some l) \<and> sh_upper (st l) = q"
  by (induction xs arbitrary: p) auto

lemma upper_seg_cong:
  "(\<And>s. s \<in> set ss \<Longrightarrow> sh_upper (st' s) = sh_upper (st s)) \<Longrightarrow> upper_seg st' p ss q = upper_seg st p ss q"
  by (induction ss arbitrary: p) auto

lemma upper_list_hd: "upper_list st q ys \<Longrightarrow> q = (case ys of [] \<Rightarrow> None | s # _ \<Rightarrow> Some s)"
  by (cases ys) auto

text \<open>The links which \<open>SetParent\<close> changes to put \<open>this\<close> between \<open>lower\<close> and \<open>upper\<close>.\<close>

definition linked :: "sid \<Rightarrow> sid \<Rightarrow> sid list \<Rightarrow> sid list \<Rightarrow> sheets \<Rightarrow> sheets" where
  "linked this p lower upper st =
     (let st1 = st(this := (st this)\<lparr>sh_parent := Some p\<rparr>);
          st2 = st1(this := (st1 this)\<lparr>sh_upper := (case upper of [] \<Rightarrow> None | s # _ \<Rightarrow> Some s)\<rparr>)
      in if lower = [] then st2(p := (st2 p)\<lparr>sh_bottom_child := Some this\<rparr>)
         else st2(last lower := (st2 (last lower))\<lparr>sh_upper := Some this\<rparr>))"

lemma linked_fields:
  assumes "this \<noteq> p" "this \<notin> set lower" "p \<notin> set lower"
  shows "covers (linked this p lower upper st s) x y = covers (st s) x y"
    "pixel (linked this p lower upper st s) x y = pixel (st s) x y"
    "sh_rect (linked this p lower upper st s) = sh_rect (st s)"
    "sh_map (linked this p lower upper st s) = sh_map (st s)"
    "sh_buf (linked this p lower upper st s) = sh_buf (st s)"
    "sh_pixels_per_scan_line (linked this p lower upper st s) = sh_pixels_per_scan_line (st s)"
    "sh_parent (linked this p lower upper st s) = (if s = this then Some p else sh_parent (st s))"
  using assms last_in_set[of lower]
  by (auto simp: linked_def Let_def covers_def opaque_at_def pixel_def)

lemma linked_family:
  assumes fam: "family st p (lower @ upper)" and new: "this \<notin> set (lower @ upper)" "this \<noteq> p"
  shows "family (linked this p lower upper st) p (lower @ this # upper)"
proof -
  let ?st = "linked this p lower upper st"
  have ul: "upper_list st (sh_bottom_child (st p)) (lower @ upper)" and p: "p \<notin> set lower" "p \<notin> set upper"
    and d: "distinct (lower @ upper)" using fam by (auto simp: family_def)
  then obtain q where q: "upper_seg st (sh_bottom_child (st p)) lower q" "upper_list st q upper"
    by (auto simp: upper_list_append)
  have up: "sh_upper (?st s) = sh_upper (st s)" if "s \<noteq> this" "lower = [] \<or> s \<noteq> last lower" for s
    using that p new by (auto simp: linked_def Let_def)
  have ut: "sh_upper (?st this) = q"
    using new p upper_list_hd[OF q(2)] last_in_set[of lower] by (auto simp: linked_def Let_def)
  have tail: "upper_list ?st (Some this) (this # upper)"
  proof -
    have "upper_list ?st q upper = upper_list st q upper"
    proof (intro upper_list_cong up)
      fix s assume s: "s \<in> set upper"
      then show "s \<noteq> this" using new by auto
      show "lower = [] \<or> s \<noteq> last lower" using s d last_in_set[of lower] by (auto simp: disjoint_iff)
    qed
    then show ?thesis using q ut by simp
  qed
  have "upper_list ?st (sh_bottom_child (?st p)) (lower @ this # upper)"
  proof (cases lower rule: rev_cases)
    case Nil
    then have "sh_bottom_child (?st p) = Some this" using new by (simp add: linked_def Let_def)
    then show ?thesis using tail Nil by simp
  next
    case (snoc xs l)
    have bc: "sh_bottom_child (?st p) = sh_bottom_child (st p)"
      using snoc p new by (auto simp: linked_def Let_def)
    have "upper_seg st (sh_bottom_child (st p)) xs (Some l)" using q snoc by (simp add: upper_seg_snoc)
    moreover have "upper_seg ?st (sh_bottom_child (st p)) xs (Some l) = upper_seg st (sh_bottom_child (st p)) xs (Some l)"
      using d new snoc by (intro upper_seg_cong up) auto
    moreover have "sh_upper (?st l) = Some this" using snoc new by (auto simp: linked_def Let_def)
    ultimately have "upper_seg ?st (sh_bottom_child (?st p)) lower (Some this)"
      using bc snoc by (simp add: upper_seg_snoc)
    then show ?thesis using tail by (auto simp: upper_list_append simp del: upper_list.simps)
  qed
  then show ?thesis
    using fam new p d linked_fields(3,4,6,7)[OF new(2), of lower upper st] by (auto simp: family_def)
qed

lemma SetParent_composited:
  assumes fam: "family st p ss" and new: "this \<notin> set ss" "this \<noteq> p" and comp: "composited st p ss"
    and lo: "lower = takeWhile (\<lambda>s. \<not> sh_is_topmost (st s)) ss" and up: "upper = dropWhile (\<lambda>s. \<not> sh_is_topmost (st s)) ss"
  shows "\<exists>f b. Sheet_SetParent this (Some p) st = Ok (redrawn p f b (linked this p lower upper st)) \<and>
    composited (redrawn p f b (linked this p lower upper st)) p (lower @ this # upper)"
proof -
  let ?st = "linked this p lower upper st" and ?ss = "lower @ this # upper"
  have ss: "ss = lower @ upper" by (simp add: lo up)
  have n: "this \<notin> set (lower @ upper)" "this \<noteq> p" "p \<notin> set lower" "p \<notin> set upper" "this \<notin> set lower"
    using new fam by (auto simp: ss family_def)
  have fam1: "family ?st p ?ss" by (rule linked_family[OF fam[unfolded ss] n(1,2)])
  note lf = linked_fields[OF n(2,5,3)]
  obtain m where m: "sh_map (st p) = Some m" using fam by (auto simp: family_def)
  then have m1: "sh_map (?st p) = Some m" by (simp add: lf)
  let ?line = "sh_pixels_per_scan_line (st p)" and ?R = "sh_rect (st this)"
  obtain f where u: "Sheet_UpdateMap p ?R ?st = Ok (redrawn p f (sh_buf (st p)) ?st)"
    and f: "\<And>x y. in_client st p x y \<Longrightarrow> f (pix ?line x y) =
      (if IsPointInRect ?R x y then owner ?st ?ss x y else m (pix ?line x y))"
    using UpdateMap_at[OF fam1 m1, of ?R] by (auto simp: lf GetClientRect_def cong: if_cong)
  let ?st2 = "redrawn p f (sh_buf (st p)) ?st"
  define r where "r = GetIntersectionWith (GetClientRect (st p))
      (GetIntersectionWith ?R (mk_rect (0 + rect_x ?R) (0 + rect_y ?R) (rect_xsize ?R) (rect_ysize ?R)))"
  have rp: "IsPointInRect r x y \<longleftrightarrow> in_client st p x y \<and> IsPointInRect ?R x y" for x y
  proof -
    have e: "mk_rect (0 + rect_x ?R) (0 + rect_y ?R) (rect_xsize ?R) (rect_ysize ?R) = ?R" by simp
    show ?thesis
      unfolding r_def e IsPointInRect_intersection
      using IsPointInRect_proper[of ?R x y] IsPointInRect_proper[of "GetClientRect (st p)" x y] GetIntersectionWith_proper
      by blast
  qed
  have fam2: "family ?st2 p ?ss" using fam1 by simp
  obtain b where fl: "Sheet_FlushInParent this (rect_x r) (rect_y r) (rect_xsize r) (rect_ysize r) ?st2
      = Ok (redrawn p f b ?st)"
    and b: "\<And>x y. in_client st p x y \<Longrightarrow> b (pix ?line x y) =
      (if IsPointInRect r x y \<and> f (pix ?line x y) = Some this then pixel (st this) x y else sh_buf (st p) (pix ?line x y))"
    using FlushInParent_at[OF fam2, of f this "rect_x r" "rect_y r" "rect_xsize r" "rect_ysize r"] n
    by (auto simp: lf GetClientRect_def cong: if_cong)
  have fa: "Sheet_FlushAll this ?st2 = Ok (redrawn p f b ?st)"
    using fl n by (simp add: Sheet_FlushAll_def Sheet_Flush_def Let_def lf r_def GetClientRect_def)
  have ul: "upper_list st (sh_bottom_child (st p)) ss" using fam by (simp add: family_def)
  let ?st1 = "st(this := (st this)\<lparr>sh_parent := Some p\<rparr>)"
  have ul1: "upper_list ?st1 (sh_bottom_child (?st1 p)) ss"
    using ul new upper_list_cong[of ss ?st1 st] by auto
  have tm: "sh_is_topmost (?st1 s) = sh_is_topmost (st s)" for s by simp
  have "Sheet_SetParent this (Some p) st = Ok (redrawn p f b ?st)"
    using u fa n unfolding Sheet_SetParent_def Let_def option.case each_upper_list[OF ul1] tm lo[symmetric] up[symmetric]
    by (auto simp: linked_def Let_def lf)
  moreover have "composited (redrawn p f b ?st) p ?ss"
    unfolding composited_def Let_def
  proof (intro allI impI, goal_cases)
    case (1 x y)
    then have cl: "in_client st p x y" by (simp add: lf GetClientRect_def)
    have os: "owner ?st zs x y = owner st zs x y" for zs by (rule owner_cong) (simp add: lf)
    have mo: "m (pix ?line x y) = owner st ss x y"
      and bo: "\<And>s. owner st ss x y = Some s \<Longrightarrow> sh_buf (st p) (pix ?line x y) = pixel (st s) x y"
      using comp cl m by (auto simp: composited_def Let_def)
    have o1: "owner st ?ss x y = (case owner st upper x y of Some s \<Rightarrow> Some s
        | None \<Rightarrow> if covers (st this) x y then Some this else owner st lower x y)"
      using owner_append[of st "lower @ [this]" upper x y] owner_snoc[of st lower this x y] by (simp split: option.split)
    have o2: "owner st ss x y = (case owner st upper x y of Some s \<Rightarrow> Some s | None \<Rightarrow> owner st lower x y)"
      using owner_append[of st lower upper x y] by (simp add: ss split: option.split)
    have same: "owner st ?ss x y = owner st ss x y" if "owner st ?ss x y \<noteq> Some this"
      using that o1 o2 by (auto split: option.splits)
    have inr: "IsPointInRect ?R x y" if "owner st ?ss x y = Some this"
      using owner_in[OF that] by (simp add: covers_def)
    have fk: "f (pix ?line x y) = owner st ?ss x y" using f[OF cl] mo same inr os by metis
    have "b (pix ?line x y) = pixel (st s) x y" if "owner st ?ss x y = Some s" for s
      using b[OF cl] fk that rp cl inr same bo by (cases "s = this") auto
    moreover have "pixel (redrawn p f b ?st s) x y = pixel (st s) x y" if "owner st ?ss x y = Some s" for s
    proof -
      have "s \<noteq> p" using owner_in[OF that] n by auto
      then show ?thesis by (simp add: lf)
    qed
    moreover have "owner (redrawn p f b ?st) ?ss x y = owner st ?ss x y" using n os by simp
    ultimately show ?case using fk by (simp add: lf)
  qed
  ultimately show ?thesis by blast
qed

text \<open>A 2x2 parent (sheet 0) with one opaque 1x1 child (sheet 1) in its upper left corner.\<close>

definition example_sheets :: sheets where
  "example_sheets = (\<lambda>s. \<lparr>sh_parent = (if s = 1 then Some 0 else None), sh_upper = None,
     sh_bottom_child = (if s = 0 then Some 1 else None), sh_buf = (\<lambda>_. if s = 0 \<or> s = 1 then 0xff else 0xaa),
     sh_map = (if s = 0 then Some (\<lambda>k. if k = 0 then Some 1 else None) else None),
     sh_rect = (if s = 0 then mk_rect 0 0 2 2 else mk_rect 0 0 1 1),
     sh_pixels_per_scan_line = (if s = 0 then 2 else 1),
     sh_is_topmost = False, sh_is_alpha_enabled = False, sh_is_locked = False\<rparr>)"

lemma example_family: "family example_sheets 0 [1]"
  by (simp add: family_def example_sheets_def rect_proper_def)

lemma example_composited: "composited example_sheets 0 [1]"
  by (auto simp: composited_def owner_def covers_def pixel_def example_sheets_def pix_def
      GetClientRect_def IsPointInRect_def Let_def)

lemma example_proper: "rect_proper (sh_rect (example_sheets 1))"
  by (simp add: example_sheets_def rect_proper_def)

section \<open>Properties\<close>

text \<open>
  C2: moving a window keeps the screen consistent.  If the parent's map names, for every point
  inside of it, the uppermost child covering the point, and the parent shows that child's
  pixel, then both still hold after \<open>SetPosition\<close>, for every old and new position; the call
  does not fail, and the sheet is at its new position.
\<close>

theorem SetPosition_keeps_composition:
  assumes "family st p ss" "this \<in> set ss" "composited st p ss" "rect_proper (sh_rect (st this))"
  shows "\<exists>st'. Sheet_SetPosition this x y st = Ok st' \<and> family st' p ss \<and> composited st' p ss \<and>
    sh_rect (st' this) = (sh_rect (st this))\<lparr>rect_x := x, rect_y := y\<rparr>"
proof -
  let ?st1 = "st(this := (st this)\<lparr>sh_rect := (sh_rect (st this))\<lparr>rect_x := x, rect_y := y\<rparr>\<rparr>)"
  have "family ?st1 p ss" by (rule family_update[OF assms(1,2)]) simp_all
  then have "family (redrawn p f b ?st1) p ss" for f b by simp
  then show ?thesis
    using SetPosition_composited[OF assms(1-3) refl refl assms(4), of x y] by fastforce
qed

theorem SetPosition_keeps_composition_witness:
  "\<exists>st'. Sheet_SetPosition 1 1 1 example_sheets = Ok st' \<and> family st' 0 [1] \<and> composited st' 0 [1] \<and>
    sh_rect (st' 1) = (sh_rect (example_sheets 1))\<lparr>rect_x := 1, rect_y := 1\<rparr>"
  by (rule SetPosition_keeps_composition[OF example_family _ example_composited example_proper]) simp

text \<open>
  C17: a sheet given a parent is put directly below the topmost ones, and the screen stays
  consistent with the new stacking order.
\<close>

theorem SetParent_keeps_composition:
  assumes "family st p ss" "composited st p ss" "this \<notin> set ss" "this \<noteq> p"
  shows "\<exists>st'. Sheet_SetParent this (Some p) st = Ok st' \<and>
    family st' p (takeWhile (\<lambda>s. \<not> sh_is_topmost (st s)) ss @ this # dropWhile (\<lambda>s. \<not> sh_is_topmost (st s)) ss) \<and>
    composited st' p (takeWhile (\<lambda>s. \<not> sh_is_topmost (st s)) ss @ this # dropWhile (\<lambda>s. \<not> sh_is_topmost (st s)) ss)"
proof -
  have "family (linked this p (takeWhile (\<lambda>s. \<not> sh_is_topmost (st s)) ss) (dropWhile (\<lambda>s. \<not> sh_is_topmost (st s)) ss) st) p
      (takeWhile (\<lambda>s. \<not> sh_is_topmost (st s)) ss @ this # dropWhile (\<lambda>s. \<not> sh_is_topmost (st s)) ss)"
    by (rule linked_family) (use assms in simp_all)
  then show ?thesis
    using SetParent_composited[OF assms(1,3,4,2) refl refl] redrawn_family by blast
qed

theorem SetParent_keeps_composition_witness:
  "\<exists>st'. Sheet_SetParent 2 (Some 0) example_sheets = Ok st' \<and> family st' 0 [1, 2] \<and> composited st' 0 [1, 2]"
  using SetParent_keeps_composition[OF example_family example_composited, of 2]
  by (simp add: example_sheets_def)

end
