(* ===== verification/Sheet_Painting.thy ===== *)
theory Sheet_Painting
  imports Sheet_Compositing
begin

text \<open>
  Painting into a sheet: \<open>BlockTransfer\<close> of src/src/sheet.cc and the routines of
  src/src/sheet_painter.h and src/src/sheet_painter.cc.  Painting a rectangle and flushing it
  sets exactly the pixels of the rectangle and keeps the parent composited.
\<close>

section \<open>Moving and storing pixels\<close>

text \<open>
  The string-move helpers of src/src/asm.S: \<open>count\<close> elements of 4 or 8 bytes, in ascending
  order.  Addresses are pixel indices.
\<close>

primrec RepeatStore4Bytes :: "nat \<Rightarrow> int \<Rightarrow> u32 \<Rightarrow> (int \<Rightarrow> u32) \<Rightarrow> int \<Rightarrow> u32" where
  "RepeatStore4Bytes 0 d v b = b"
| "RepeatStore4Bytes (Suc n) d v b = RepeatStore4Bytes n (d + 1) v (b(d := v))"

primrec RepeatStore8Bytes :: "nat \<Rightarrow> int \<Rightarrow> u64 \<Rightarrow> (int \<Rightarrow> u32) \<Rightarrow> int \<Rightarrow> u32" where
  "RepeatStore8Bytes 0 d v b = b"
| "RepeatStore8Bytes (Suc n) d v b =
     RepeatStore8Bytes n (d + 2) v (b(d := ucast v, d + 1 := ucast (drop_bit 32 v)))"

primrec RepeatMove4Bytes :: "nat \<Rightarrow> int \<Rightarrow> int \<Rightarrow> (int \<Rightarrow> u32) \<Rightarrow> int \<Rightarrow> u32" where
  "RepeatMove4Bytes 0 d s b = b"
| "RepeatMove4Bytes (Suc n) d s b = RepeatMove4Bytes n (d + 1) (s + 1) (b(d := b s))"

primrec RepeatMove8Bytes :: "nat \<Rightarrow> int \<Rightarrow> int \<Rightarrow> (int \<Rightarrow> u32) \<Rightarrow> int \<Rightarrow> u32" where
  "RepeatMove8Bytes 0 d s b = b"
| "RepeatMove8Bytes (Suc n) d s b =
     RepeatMove8Bytes n (d + 2) (s + 2) (b(d := b s, d + 1 := b (s + 1)))"

section \<open>Painting\<close>

abbreviation set_buf :: "sid \<Rightarrow> (int \<Rightarrow> u32) \<Rightarrow> sheets \<Rightarrow> sheets" where
  "set_buf this b st \<equiv> st(this := (st this)\<lparr>sh_buf := b\<rparr>)"

definition flush_if :: "bool \<Rightarrow> sid \<Rightarrow> int \<Rightarrow> int \<Rightarrow> int \<Rightarrow> int \<Rightarrow> sheets \<Rightarrow> sheets res" where
  "flush_if do_flush this px py w h st = (if do_flush then Sheet_Flush this px py w h st else Ok st)"

text \<open>
  Widths and heights are non-negative; a negative width would reach the helpers as a huge
  unsigned count.
\<close>

definition Sheet_BlockTransfer :: "sid \<Rightarrow> int \<Rightarrow> int \<Rightarrow> int \<Rightarrow> int \<Rightarrow> int \<Rightarrow> int \<Rightarrow> sheets \<Rightarrow> sheets res" where
  "Sheet_BlockTransfer this to_x to_y from_x from_y w h st =
     bind_res (check_that (0 \<le> w \<or> h \<le> 0) Out_Of_Bounds) (\<lambda>_.
     let line = sh_pixels_per_scan_line (st this);
         b = (if odd w
              then fold (\<lambda>dy b. RepeatMove4Bytes (nat w) (pix line to_x (to_y + dy)) (pix line from_x (from_y + dy)) b)
                     [0 .. h - 1] (sh_buf (st this))
              else fold (\<lambda>dy b. RepeatMove8Bytes (nat (w div 2)) (pix line to_x (to_y + dy)) (pix line from_x (from_y + dy)) b)
                     [0 .. h - 1] (sh_buf (st this)))
     in Sheet_Flush this to_x to_y w h (set_buf this b st))"

definition fill_rect :: "int \<Rightarrow> int \<Rightarrow> int \<Rightarrow> int \<Rightarrow> int \<Rightarrow> u32 \<Rightarrow> (int \<Rightarrow> u32) \<Rightarrow> int \<Rightarrow> u32" where
  "fill_rect line px py w h col b =
     (if odd w then fold (\<lambda>y b. RepeatStore4Bytes (nat w) (pix line px y) col b) [py .. py + h - 1] b
      else fold (\<lambda>y b. RepeatStore8Bytes (nat (w div 2)) (pix line px y)
                   (push_bit 32 (ucast col) OR ucast col) b) [py .. py + h - 1] b)"

definition SheetPainter_DrawRect :: "sid \<Rightarrow> int \<Rightarrow> int \<Rightarrow> int \<Rightarrow> int \<Rightarrow> u32 \<Rightarrow> bool \<Rightarrow> sheets \<Rightarrow> sheets res" where
  "SheetPainter_DrawRect this px py w h col do_flush st =
     bind_res (check_that (0 \<le> w \<or> h \<le> 0) Out_Of_Bounds) (\<lambda>_.
     flush_if do_flush this px py w h
       (set_buf this (fill_rect (sh_pixels_per_scan_line (st this)) px py w h col (sh_buf (st this))) st))"

definition SheetPainter_DrawPoint :: "sid \<Rightarrow> int \<Rightarrow> int \<Rightarrow> u32 \<Rightarrow> bool \<Rightarrow> sheets \<Rightarrow> sheets res" where
  "SheetPainter_DrawPoint this px py col do_flush st =
     flush_if do_flush this px py 1 1
       (set_buf this ((sh_buf (st this))(pix (sh_pixels_per_scan_line (st this)) px py := col)) st)"

text \<open>The generated table \<open>font\<close> gives, for a character and a row, 8 pixels.\<close>

definition SheetPainter_DrawCharacter ::
    "(u8 \<Rightarrow> nat \<Rightarrow> u8) \<Rightarrow> sid \<Rightarrow> u8 \<Rightarrow> int \<Rightarrow> int \<Rightarrow> bool \<Rightarrow> sheets \<Rightarrow> sheets res" where
  "SheetPainter_DrawCharacter font this c px py do_flush st =
     flush_if do_flush this px py 8 16
       (set_buf this (fold (\<lambda>(dx, dy) b.
            b(pix (sh_pixels_per_scan_line (st this)) (px + dx) (py + dy) :=
              (if bit (font c (nat dy)) (nat (7 - dx)) then 0xffffff else 0)))
          (rect_points (mk_rect 0 0 8 16)) (sh_buf (st this))) st)"

definition SheetPainter_DrawCharacterForeground ::
    "(u8 \<Rightarrow> nat \<Rightarrow> u8) \<Rightarrow> sid \<Rightarrow> u8 \<Rightarrow> int \<Rightarrow> int \<Rightarrow> u32 \<Rightarrow> bool \<Rightarrow> sheets \<Rightarrow> sheets res" where
  "SheetPainter_DrawCharacterForeground font this c px py col do_flush st =
     flush_if do_flush this px py 8 16
       (set_buf this (fold (\<lambda>(dx, dy) b.
            if \<not> bit (font c (nat dy)) (nat (7 - dx)) then b
            else b(pix (sh_pixels_per_scan_line (st this)) (px + dx) (py + dy) := col))
          (rect_points (mk_rect 0 0 8 16)) (sh_buf (st this))) st)"

primrec draw_chars :: "(u8 \<Rightarrow> nat \<Rightarrow> u8) \<Rightarrow> sid \<Rightarrow> u8 list \<Rightarrow> int \<Rightarrow> int \<Rightarrow> sheets \<Rightarrow> sheets res" where
  "draw_chars font this [] px py st = Ok st"
| "draw_chars font this (c # cs) px py st =
     bind_res (SheetPainter_DrawCharacter font this c px py False st) (draw_chars font this cs (px + 8) py)"

definition SheetPainter_DrawString ::
    "(u8 \<Rightarrow> nat \<Rightarrow> u8) \<Rightarrow> sid \<Rightarrow> u8 list \<Rightarrow> int \<Rightarrow> int \<Rightarrow> bool \<Rightarrow> sheets \<Rightarrow> sheets res" where
  "SheetPainter_DrawString font this s px py do_flush st =
     bind_res (draw_chars font this s px py st) (\<lambda>st1.
     flush_if do_flush this px py (px + 8 * int (length s)) (py + 16) st1)"

lemma RepeatStore4Bytes_at: "RepeatStore4Bytes n d v b k = (if d \<le> k \<and> k < d + int n then v else b k)"
  by (induction n arbitrary: d b) auto

lemma RepeatStore8Bytes_at:
  "ucast v = col \<Longrightarrow> ucast (drop_bit 32 v) = col \<Longrightarrow>
   RepeatStore8Bytes n d v b k = (if d \<le> k \<and> k < d + 2 * int n then col else b k)"
  by (induction n arbitrary: d b) auto

lemma two_pixels:
  fixes col :: u32
  shows "ucast (push_bit 32 (ucast col) OR ucast col :: u64) = col"
    "ucast (drop_bit 32 (push_bit 32 (ucast col) OR ucast col :: u64)) = col"
  by (rule bit_word_eqI, auto simp: bit_simps dest: bit_imp_le_length)+

lemma fold_rows_at:
  assumes row: "\<And>y b k. f y b k = (if pix line px y \<le> k \<and> k < pix line px y + w then col else b k)"
    and "0 \<le> px" "px + w \<le> line" "0 \<le> x" "x < line"
  shows "fold f ys b (pix line x y) = (if y \<in> set ys \<and> px \<le> x \<and> x < px + w then col else b (pix line x y))"
proof (induction ys arbitrary: b)
  case (Cons z ys)
  have "pix line px z \<le> pix line x y \<and> pix line x y < pix line px z + w \<longleftrightarrow> y = z \<and> px \<le> x \<and> x < px + w"
  proof
    assume a: "pix line px z \<le> pix line x y \<and> pix line x y < pix line px z + w"
    then have "pix line x y = pix line (px + (pix line x y - pix line px z)) z" by (simp add: pix_def)
    moreover have "0 \<le> px + (pix line x y - pix line px z)" "px + (pix line x y - pix line px z) < line"
      using a assms by linarith+
    ultimately have "x = px + (pix line x y - pix line px z) \<and> y = z" using pix_inj assms(4,5) by blast
    then show "y = z \<and> px \<le> x \<and> x < px + w" using a by auto
  qed (auto simp: pix_def)
  then have "f z b (pix line x y) = (if y = z \<and> px \<le> x \<and> x < px + w then col else b (pix line x y))"
    by (simp only: row)
  then show ?case unfolding fold_simps Cons.IH by auto
qed simp

lemma fill_rect_at:
  assumes "0 \<le> px" "px + w \<le> line" "0 \<le> x" "x < line" "0 \<le> w"
  shows "fill_rect line px py w h col b (pix line x y) =
    (if IsPointInRect (mk_rect px py w h) x y then col else b (pix line x y))"
proof -
  have 4: "RepeatStore4Bytes (nat w) d col b k = (if d \<le> k \<and> k < d + w then col else b k)" for d b k
    using assms(5) by (simp add: RepeatStore4Bytes_at)
  have 8: "RepeatStore8Bytes (nat (w div 2)) d (push_bit 32 (ucast col) OR ucast col) b k =
      (if d \<le> k \<and> k < d + w then col else b k)" if "even w" for d b k
    using that assms(5) RepeatStore8Bytes_at[OF two_pixels, of "nat (w div 2)" d col b k] by simp
  show ?thesis
    using fold_rows_at[where f = "\<lambda>y b. RepeatStore4Bytes (nat w) (pix line px y) col b", OF 4 assms(1-4)]
      fold_rows_at[where f = "\<lambda>y b. RepeatStore8Bytes (nat (w div 2)) (pix line px y) (push_bit 32 (ucast col) OR ucast col) b", OF 8 assms(1-4)]
    by (auto simp: fill_rect_def IsPointInRect_def)
qed

section \<open>Flushing what was painted\<close>

lemma Flush_composited:
  assumes fam: "family st p ss" and th: "this \<in> set ss" and comp: "composited st0 p ss"
    and st0: "\<And>s. s \<noteq> this \<Longrightarrow> st0 s = st s"
    and cov: "\<And>x y. covers (st0 this) x y = covers (st this) x y"
    and pixl: "\<And>x y. \<lbrakk>IsPointInRect (sh_rect (st this)) x y;
      \<not> IsPointInRect (mk_rect (rx + rect_x (sh_rect (st this))) (ry + rect_y (sh_rect (st this))) rw rh) x y\<rbrakk> \<Longrightarrow>
      pixel (st0 this) x y = pixel (st this) x y"
  shows "\<exists>f b. Sheet_Flush this rx ry rw rh st = Ok (redrawn p f b st) \<and> composited (redrawn p f b st) p ss"
proof -
  have pr: "sh_parent (st this) = Some p" and p: "p \<notin> set ss" and pt: "p \<noteq> this" using fam th by (auto simp: family_def)
  obtain m where m: "sh_map (st p) = Some m" using fam by (auto simp: family_def)
  let ?line = "sh_pixels_per_scan_line (st p)" and ?R = "sh_rect (st this)"
  define r where "r = GetIntersectionWith (GetClientRect (st p))
      (GetIntersectionWith ?R (mk_rect (rx + rect_x ?R) (ry + rect_y ?R) rw rh))"
  have rp: "IsPointInRect r x y \<longleftrightarrow> in_client st p x y \<and> IsPointInRect ?R x y \<and>
      IsPointInRect (mk_rect (rx + rect_x ?R) (ry + rect_y ?R) rw rh) x y" for x y
    unfolding r_def IsPointInRect_intersection
    using IsPointInRect_proper[of ?R x y] IsPointInRect_proper[of "GetClientRect (st p)" x y]
      IsPointInRect_proper[of "mk_rect (rx + rect_x ?R) (ry + rect_y ?R) rw rh" x y] GetIntersectionWith_proper by blast
  obtain b where fl: "Sheet_FlushInParent this (rect_x r) (rect_y r) (rect_xsize r) (rect_ysize r) st
      = Ok (redrawn p m b st)"
    and b: "\<forall>x y. in_client st p x y \<longrightarrow> b (pix ?line x y) =
      (if IsPointInRect r x y \<and> m (pix ?line x y) = Some this then pixel (st this) x y else sh_buf (st p) (pix ?line x y))"
    using FlushInParent_at[OF fam m th, of "rect_x r" "rect_y r" "rect_xsize r" "rect_ysize r"] by auto
  have run: "Sheet_Flush this rx ry rw rh st = Ok (redrawn p m b st)"
    using fl pr by (simp add: Sheet_Flush_def Let_def r_def)
  have "composited (redrawn p m b st) p ss"
    unfolding composited_def Let_def
  proof (intro allI impI, goal_cases)
    case (1 x y)
    then have cl: "in_client st p x y" by simp
    then have cl0: "in_client st0 p x y" using st0[OF pt] by simp
    have oc: "owner st0 ss x y = owner st ss x y" by (rule owner_cong) (metis cov st0)
    have mo: "m (pix ?line x y) = owner st ss x y"
      and bo: "\<And>s. owner st ss x y = Some s \<Longrightarrow> sh_buf (st p) (pix ?line x y) = pixel (st0 s) x y"
      using comp cl0 m st0[OF pt] oc by (auto simp: composited_def Let_def)
    have bk: "b (pix ?line x y) = pixel (st s) x y" if s: "owner st ss x y = Some s" for s
    proof (cases "s = this")
      case True
      then have R: "IsPointInRect ?R x y" using owner_in[OF s] by (simp add: covers_def)
      show ?thesis
      proof (cases "IsPointInRect r x y")
        case True
        then show ?thesis using b cl mo s \<open>s = this\<close> by simp
      next
        case False
        then have "pixel (st0 this) x y = pixel (st this) x y" using rp cl R pixl by blast
        then show ?thesis using b cl False bo[OF s] \<open>s = this\<close> by simp
      qed
    next
      case False
      then show ?thesis using b cl mo s bo[OF s] st0 by simp
    qed
    moreover have "redrawn p m b st s = st s" if "owner st ss x y = Some s" for s
      using owner_in[OF that] p by (metis redrawn_simps(1))
    ultimately show ?case using mo p by simp
  qed
  then show ?thesis using run by blast
qed

lemma set_buf_family: "family st p ss \<Longrightarrow> this \<in> set ss \<Longrightarrow> family (set_buf this b st) p ss"
  by (rule family_update) simp_all

section \<open>Painting and flushing\<close>

text \<open>Replacing pixels of a sheet and flushing a rectangle which contains all of them.\<close>

lemma paint_composited:
  assumes fam: "family st p ss" and th: "this \<in> set ss" and comp: "composited st p ss"
    and al: "\<not> sh_is_alpha_enabled (st this)"
    and line: "rect_xsize (sh_rect (st this)) \<le> sh_pixels_per_scan_line (st this)"
    and b: "\<And>x y. \<lbrakk>0 \<le> x; x < sh_pixels_per_scan_line (st this); \<not> IsPointInRect (mk_rect px py w h) x y\<rbrakk> \<Longrightarrow>
      b (pix (sh_pixels_per_scan_line (st this)) x y) = sh_buf (st this) (pix (sh_pixels_per_scan_line (st this)) x y)"
  shows "\<exists>f b'. Sheet_Flush this px py w h (set_buf this b st) = Ok (redrawn p f b' (set_buf this b st)) \<and>
    family (redrawn p f b' (set_buf this b st)) p ss \<and> composited (redrawn p f b' (set_buf this b st)) p ss"
proof -
  let ?R = "sh_rect (st this)" and ?st = "set_buf this b st"
  have "pixel (st this) x y = pixel (?st this) x y"
    if "IsPointInRect (sh_rect (?st this)) x y"
      "\<not> IsPointInRect (mk_rect (px + rect_x (sh_rect (?st this))) (py + rect_y (sh_rect (?st this))) w h) x y" for x y
  proof -
    have "0 \<le> x - rect_x ?R" "x - rect_x ?R < sh_pixels_per_scan_line (st this)" using that(1) line by (auto simp: IsPointInRect_def)
    moreover have "\<not> IsPointInRect (mk_rect px py w h) (x - rect_x ?R) (y - rect_y ?R)"
      using that(2) by (auto simp: IsPointInRect_def)
    ultimately show ?thesis using b by (simp add: pixel_def)
  qed
  moreover have "covers (st this) x y = covers (?st this) x y" for x y using al by (simp add: covers_def)
  ultimately show ?thesis
    using Flush_composited[OF set_buf_family[OF fam th] th comp, of b px py w h] set_buf_family[OF fam th, of b] by auto
qed

lemma DrawRect_redrawn:
  assumes fam: "family st p ss" and th: "this \<in> set ss" and comp: "composited st p ss"
    and al: "\<not> sh_is_alpha_enabled (st this)"
    and line: "rect_xsize (sh_rect (st this)) \<le> sh_pixels_per_scan_line (st this)"
    and r: "0 \<le> px" "px + w \<le> sh_pixels_per_scan_line (st this)" "0 \<le> w"
  shows "\<exists>f b b'. SheetPainter_DrawRect this px py w h col True st = Ok (redrawn p f b' (set_buf this b st)) \<and>
    family (redrawn p f b' (set_buf this b st)) p ss \<and> composited (redrawn p f b' (set_buf this b st)) p ss \<and>
    (\<forall>x y. 0 \<le> x \<and> x < sh_pixels_per_scan_line (st this) \<longrightarrow>
      b (pix (sh_pixels_per_scan_line (st this)) x y) =
      (if IsPointInRect (mk_rect px py w h) x y then col
       else sh_buf (st this) (pix (sh_pixels_per_scan_line (st this)) x y)))"
proof -
  let ?line = "sh_pixels_per_scan_line (st this)"
  let ?b = "fill_rect ?line px py w h col (sh_buf (st this))"
  have fill: "?b (pix ?line x y) = (if IsPointInRect (mk_rect px py w h) x y then col else sh_buf (st this) (pix ?line x y))"
    if "0 \<le> x" "x < ?line" for x y using fill_rect_at[OF r(1,2) that r(3)] by simp
  have "SheetPainter_DrawRect this px py w h col True st = Sheet_Flush this px py w h (set_buf this ?b st)"
    using r(3) by (simp add: SheetPainter_DrawRect_def flush_if_def check_that_def)
  then show ?thesis using paint_composited[OF fam th comp al line, of px py w h ?b] fill by fastforce
qed

text \<open>A character is drawn in the 8 by 16 points at the position.\<close>

definition glyph :: "(u8 \<Rightarrow> nat \<Rightarrow> u8) \<Rightarrow> u8 \<Rightarrow> int \<Rightarrow> int \<Rightarrow> u32" where
  "glyph font c dx dy = (if bit (font c (nat dy)) (nat (7 - dx)) then 0xffffff else 0)"

lemma DrawCharacter_at:
  assumes "0 \<le> px" "px + 8 \<le> line" "0 \<le> x" "x < line"
  shows "fold (\<lambda>(dx, dy) b. b(pix line (px + dx) (py + dy) := glyph font c dx dy)) (rect_points (mk_rect 0 0 8 16)) b (pix line x y) =
    (if IsPointInRect (mk_rect px py 8 16) x y then glyph font c (x - px) (y - py) else b (pix line x y))"
proof -
  let ?f = "\<lambda>p. pix line (px + fst p) (py + snd p)" and ?ps = "rect_points (mk_rect 0 0 8 16)"
  have inj: "q = (x - px, y - py)" if "q \<in> set ?ps" "?f q = ?f (x - px, y - py)" for q
  proof -
    obtain dx dy where q: "q = (dx, dy)" by force
    have "0 \<le> dx" "dx < 8" using that(1) q by (simp_all add: IsPointInRect_def)
    then show ?thesis using pix_inj[of line "px + dx" "py + dy" x y] that(2) assms q by auto
  qed
  have "(\<lambda>(dx, dy) b. b(pix line (px + dx) (py + dy) := glyph font c dx dy)) =
      (\<lambda>p b. if True then b(?f p := glyph font c (fst p) (snd p)) else b)" by (simp add: fun_eq_iff)
  moreover have "(x - px, y - py) \<in> set ?ps \<longleftrightarrow> IsPointInRect (mk_rect px py 8 16) x y"
    unfolding rect_points_iff by (auto simp: IsPointInRect_def)
  ultimately show ?thesis
    using fold_upd_hit[of ?ps ?f "(x - px, y - py)" "\<lambda>_. True" "\<lambda>p. glyph font c (fst p) (snd p)" b] inj by simp
qed

lemma DrawCharacter_composited:
  assumes fam: "family st p ss" and th: "this \<in> set ss" and comp: "composited st p ss"
    and al: "\<not> sh_is_alpha_enabled (st this)"
    and line: "rect_xsize (sh_rect (st this)) \<le> sh_pixels_per_scan_line (st this)"
    and r: "0 \<le> px" "px + 8 \<le> sh_pixels_per_scan_line (st this)"
  shows "\<exists>f b b'. SheetPainter_DrawCharacter font this c px py True st = Ok (redrawn p f b' (set_buf this b st)) \<and>
    family (redrawn p f b' (set_buf this b st)) p ss \<and> composited (redrawn p f b' (set_buf this b st)) p ss \<and>
    (\<forall>x y. 0 \<le> x \<and> x < sh_pixels_per_scan_line (st this) \<longrightarrow>
      b (pix (sh_pixels_per_scan_line (st this)) x y) =
      (if IsPointInRect (mk_rect px py 8 16) x y then glyph font c (x - px) (y - py)
       else sh_buf (st this) (pix (sh_pixels_per_scan_line (st this)) x y)))"
proof -
  let ?line = "sh_pixels_per_scan_line (st this)"
  let ?b = "fold (\<lambda>(dx, dy) b. b(pix ?line (px + dx) (py + dy) := glyph font c dx dy)) (rect_points (mk_rect 0 0 8 16)) (sh_buf (st this))"
  have "SheetPainter_DrawCharacter font this c px py True st = Sheet_Flush this px py 8 16 (set_buf this ?b st)"
    by (simp add: SheetPainter_DrawCharacter_def flush_if_def glyph_def)
  then show ?thesis
    using paint_composited[OF fam th comp al line, of px py 8 16 ?b] DrawCharacter_at[OF r] by fastforce
qed

section \<open>Moving pixels up\<close>

lemma RepeatMove4Bytes_at:
  "d < s \<Longrightarrow> RepeatMove4Bytes n d s b k = (if d \<le> k \<and> k < d + int n then b (k - d + s) else b k)"
  by (induction n arbitrary: d s b) (auto simp: algebra_simps)

lemma RepeatMove8Bytes_at:
  "d + 1 < s \<Longrightarrow> RepeatMove8Bytes n d s b k = (if d \<le> k \<and> k < d + 2 * int n then b (k - d + s) else b k)"
proof (induction n arbitrary: d s b)
  case (Suc n)
  have e: "k - (d + 2) + (s + 2) = k - d + s" by simp
  have "RepeatMove8Bytes (Suc n) d s b k = (if d + 2 \<le> k \<and> k < d + 2 + 2 * int n then
      (b(d := b s, d + 1 := b (s + 1))) (k - d + s) else (b(d := b s, d + 1 := b (s + 1))) k)"
    using Suc.IH[of "d + 2" "s + 2" "b(d := b s, d + 1 := b (s + 1))"] Suc.prems unfolding e by (simp del: fun_upd_apply)
  then show ?case using Suc.prems by (cases "k = d"; cases "k = d + 1") (auto simp: algebra_simps)
qed auto

lemma fold_move_up:
  assumes row: "\<And>dy b k. f dy b k = (if pix line 0 dy \<le> k \<and> k < pix line 0 dy + w then b (k + line * up) else b k)"
    and "0 < up" "w \<le> line" "0 \<le> x" "x < line"
  shows "fold f [0 .. h - 1] b (pix line x y) = (if x < w \<and> 0 \<le> y \<and> y < h then b (pix line x (y + up)) else b (pix line x y))"
proof -
  have row': "f dy b (pix line x y) = (if dy = y \<and> x < w then b (pix line x (y + up)) else b (pix line x y))" for dy b y
  proof -
    have "pix line 0 dy \<le> pix line x y \<and> pix line x y < pix line 0 dy + w \<longleftrightarrow> dy = y \<and> x < w"
    proof
      assume a: "pix line 0 dy \<le> pix line x y \<and> pix line x y < pix line 0 dy + w"
      then have "pix line x y = pix line (pix line x y - pix line 0 dy) dy" by (simp add: pix_def)
      moreover have "0 \<le> pix line x y - pix line 0 dy" "pix line x y - pix line 0 dy < line" using a assms(3) by linarith+
      ultimately show "dy = y \<and> x < w" using pix_inj[of line x y] assms(4,5) a by fastforce
    qed (use assms(4) in \<open>auto simp: pix_def\<close>)
    moreover have "pix line x y + line * up = pix line x (y + up)" by (simp add: pix_def algebra_simps)
    ultimately show ?thesis by (simp add: row)
  qed
  have "fold f [i .. h - 1] b (pix line x y) = (if x < w \<and> i \<le> y \<and> y < h then b (pix line x (y + up)) else b (pix line x y))" for i b y
  proof (induction "nat (h - i)" arbitrary: i b y)
    case 0
    then have "[i .. h - 1] = []" by simp
    then show ?case using 0 by auto
  next
    case (Suc n)
    then have u: "[i .. h - 1] = i # [i + 1 .. h - 1]" by (subst upto_rec1) simp_all
    have "n = nat (h - (i + 1))" using Suc.hyps(2) by simp
    from Suc.hyps(1)[OF this] show ?case using assms(2) Suc.hyps(2) by (auto simp: u row')
  qed
  then show ?thesis by simp
qed

lemma BlockTransfer_composited:
  assumes fam: "family st p ss" and th: "this \<in> set ss" and comp: "composited st p ss"
    and al: "\<not> sh_is_alpha_enabled (st this)"
    and line: "rect_xsize (sh_rect (st this)) \<le> sh_pixels_per_scan_line (st this)"
    and r: "0 < up" "0 \<le> w" "w \<le> sh_pixels_per_scan_line (st this)" "1 < sh_pixels_per_scan_line (st this)"
  shows "\<exists>f b b'. Sheet_BlockTransfer this 0 0 0 up w h st = Ok (redrawn p f b' (set_buf this b st)) \<and>
    family (redrawn p f b' (set_buf this b st)) p ss \<and> composited (redrawn p f b' (set_buf this b st)) p ss \<and>
    (\<forall>x y. 0 \<le> x \<and> x < sh_pixels_per_scan_line (st this) \<longrightarrow>
      b (pix (sh_pixels_per_scan_line (st this)) x y) =
      sh_buf (st this) (pix (sh_pixels_per_scan_line (st this)) x (if x < w \<and> 0 \<le> y \<and> y < h then y + up else y)))"
proof -
  let ?line = "sh_pixels_per_scan_line (st this)"
  let ?f4 = "\<lambda>dy b. RepeatMove4Bytes (nat w) (pix ?line 0 (0 + dy)) (pix ?line 0 (up + dy)) b"
  let ?f8 = "\<lambda>dy b. RepeatMove8Bytes (nat (w div 2)) (pix ?line 0 (0 + dy)) (pix ?line 0 (up + dy)) b"
  let ?b = "(if odd w then fold ?f4 [0 .. h - 1] (sh_buf (st this)) else fold ?f8 [0 .. h - 1] (sh_buf (st this)))"
  have lu: "?line \<le> ?line * up" using r by (simp add: mult_le_cancel_left1)
  have d: "pix ?line 0 (0 + dy) + 1 < pix ?line 0 (up + dy)" for dy
  proof -
    have "pix ?line 0 (up + dy) = pix ?line 0 (0 + dy) + ?line * up" by (simp add: pix_def algebra_simps)
    then show ?thesis using lu r(4) by linarith
  qed
  have o: "k - pix ?line 0 (0 + dy) + pix ?line 0 (up + dy) = k + ?line * up" for k dy by (simp add: pix_def algebra_simps)
  have 4: "?f4 dy b k = (if pix ?line 0 dy \<le> k \<and> k < pix ?line 0 dy + w then b (k + ?line * up) else b k)" for dy b k
    using RepeatMove4Bytes_at[of "pix ?line 0 (0 + dy)" "pix ?line 0 (up + dy)" "nat w" b k] d[of dy] r(2) unfolding o by simp
  have 8: "?f8 dy b k = (if pix ?line 0 dy \<le> k \<and> k < pix ?line 0 dy + w then b (k + ?line * up) else b k)" if "even w" for dy b k
    using RepeatMove8Bytes_at[of "pix ?line 0 (0 + dy)" "pix ?line 0 (up + dy)" "nat (w div 2)" b k] d[of dy] r(2) that unfolding o by simp
  have at: "?b (pix ?line x y) = sh_buf (st this) (pix ?line x (if x < w \<and> 0 \<le> y \<and> y < h then y + up else y))"
    if "0 \<le> x" "x < ?line" for x y
    using fold_move_up[where f = ?f4, OF 4 r(1,3) that] fold_move_up[where f = ?f8, OF 8 r(1,3) that] by simp
  have run: "Sheet_BlockTransfer this 0 0 0 up w h st = Sheet_Flush this 0 0 w h (set_buf this ?b st)"
    using r(2) by (simp add: Sheet_BlockTransfer_def check_that_def Let_def)
  have "?b (pix ?line x y) = sh_buf (st this) (pix ?line x y)"
    if "0 \<le> x" "x < ?line" "\<not> IsPointInRect (mk_rect 0 0 w h) x y" for x y
  proof -
    have n: "\<not> (x < w \<and> 0 \<le> y \<and> y < h)" using that by (auto simp: IsPointInRect_def)
    show ?thesis using at[OF that(1,2), of y] unfolding if_not_P[OF n] .
  qed
  then obtain f b' where R: "Sheet_Flush this 0 0 w h (set_buf this ?b st) = Ok (redrawn p f b' (set_buf this ?b st))"
    "family (redrawn p f b' (set_buf this ?b st)) p ss" "composited (redrawn p f b' (set_buf this ?b st)) p ss"
    using paint_composited[OF fam th comp al line] by blast
  show ?thesis
  proof (intro exI conjI allI impI)
    show "Sheet_BlockTransfer this 0 0 0 up w h st = Ok (redrawn p f b' (set_buf this ?b st))" using run R(1) by (rule trans)
  next
    fix x y
    assume "0 \<le> x \<and> x < ?line"
    then show "?b (pix ?line x y) = sh_buf (st this) (pix ?line x (if x < w \<and> 0 \<le> y \<and> y < h then y + up else y))"
      using at by blast
  qed (rule R)+
qed

section \<open>Properties\<close>



end
