(* ===== verification/C_Memory.thy ===== *)
theory C_Memory
  imports Prelude
begin

text \<open>
Byte-addressed memory and C strings, shared by the models of the string functions of the
  kernel and of the applications.
\<close>

section \<open>Bytes\<close>

text \<open>A byte-addressed memory; addresses are natural numbers, a C string ends with a zero byte.\<close>

type_synonym cmem = "nat \<Rightarrow> u8"

definition bytes :: "string \<Rightarrow> u8 list" where
  "bytes s = map of_char s"

primrec put_bytes :: "nat \<Rightarrow> u8 list \<Rightarrow> cmem \<Rightarrow> cmem" where
  "put_bytes p [] m = m"
| "put_bytes p (c # cs) m = put_bytes (p + 1) cs (m(p := c))"

definition get_bytes :: "cmem \<Rightarrow> nat \<Rightarrow> nat \<Rightarrow> u8 list" where
  "get_bytes m p n = map (\<lambda>i. m (p + i)) [0..<n]"

primrec cstr_at :: "cmem \<Rightarrow> nat \<Rightarrow> u8 list \<Rightarrow> bool" where
  "cstr_at m p [] \<longleftrightarrow> m p = 0"
| "cstr_at m p (c # cs) \<longleftrightarrow> m p = c \<and> c \<noteq> 0 \<and> cstr_at m (p + 1) cs"

lemma put_bytes_at:
  "put_bytes p bs m k = (if p \<le> k \<and> k < p + length bs then bs ! (k - p) else m k)"
proof (induction bs arbitrary: p m)
  case (Cons c cs)
  then show ?case by (cases "k = p") (auto simp: nth_Cons' not_less_eq_eq Suc_diff_le diff_Suc)
qed auto

lemma length_get_bytes [simp]: "length (get_bytes m p n) = n"
  by (simp add: get_bytes_def)

lemma nth_get_bytes [simp]: "i < n \<Longrightarrow> get_bytes m p n ! i = m (p + i)"
  by (simp add: get_bytes_def)

lemma get_bytes_Suc: "get_bytes m p (Suc n) = m p # get_bytes m (Suc p) n"
  by (rule nth_equalityI) (auto simp: nth_Cons split: nat.split)

lemma get_bytes_0 [simp]: "get_bytes m p 0 = []"
  by (simp add: get_bytes_def)

lemma get_put_bytes [simp]: "get_bytes (put_bytes p bs m) p (length bs) = bs"
  by (rule nth_equalityI) (auto simp: put_bytes_at)

lemma cstr_at_iff:
  "cstr_at m p s \<longleftrightarrow> 0 \<notin> set s \<and> m (p + length s) = 0 \<and> (\<forall>i < length s. m (p + i) = s ! i)"
proof (induction s arbitrary: p)
  case (Cons c cs)
  show ?case by (auto simp: Cons All_less_Suc2)
qed simp

lemma cstr_at_unique: "cstr_at m p s \<Longrightarrow> cstr_at m p t \<Longrightarrow> s = t"
proof (induction s arbitrary: p t)
  case Nil
  then show ?case by (cases t) auto
next
  case (Cons c cs)
  then show ?case by (cases t) auto
qed

lemma cstr_at_cong:
  "(\<And>i. i \<le> length s \<Longrightarrow> m (p + i) = m' (p + i)) \<Longrightarrow> cstr_at m p s = cstr_at m' p s"
  by (auto simp: cstr_at_iff)

end
