(* ===== verification/Number_Text.thy ===== *)
theory Number_Text
  imports C_Memory
begin

text \<open>
Decimal and hexadecimal text of numbers: what the printing loops of the kernel
  (src/src/string_buffer.h, src/src/console.cc) produce, and the values such texts denote.
\<close>

lemma unat_u64_less: "unat (v :: u64) < 18446744073709551616"
proof -
  have "unat v < 2 ^ LENGTH(64)" by (rule unsigned_less)
  then show ?thesis by simp
qed

section \<open>Decimal text\<close>

fun dec_text :: "nat \<Rightarrow> u8 list" where
  "dec_text n = (if n < 10 then [48 + of_nat n] else dec_text (n div 10) @ [48 + of_nat (n mod 10)])"

declare dec_text.simps [simp del]

definition is_digit :: "u8 \<Rightarrow> bool" where
  "is_digit c \<longleftrightarrow> 48 \<le> c \<and> c \<le> 57"

definition digit_val :: "u8 \<Rightarrow> nat" where
  "digit_val c = unat c - 48"

definition dec_value :: "u8 list \<Rightarrow> nat" where
  "dec_value s = foldl (\<lambda>v c. v * 10 + digit_val c) 0 s"

lemma unat_digit: "n < 10 \<Longrightarrow> unat (48 + of_nat n :: u8) = 48 + n"
  by (simp add: unat_word_ariths unat_of_nat)

lemma is_digit_char [simp]: "n < 10 \<Longrightarrow> is_digit (48 + of_nat n)"
  by (simp add: is_digit_def word_le_nat_alt unat_digit)

lemma digit_val_char [simp]: "n < 10 \<Longrightarrow> digit_val (48 + of_nat n) = n"
  by (simp add: digit_val_def unat_digit)

lemma dec_text_digits: "c \<in> set (dec_text n) \<Longrightarrow> is_digit c"
proof (induction n rule: dec_text.induct)
  case (1 n)
  then show ?case by (subst (asm) dec_text.simps) (auto split: if_splits)
qed

lemma dec_value_snoc [simp]: "dec_value (s @ [c]) = dec_value s * 10 + digit_val c"
  by (simp add: dec_value_def)

lemma dec_value_Nil [simp]: "dec_value [] = 0"
  by (simp add: dec_value_def)

lemma dec_value_text [simp]: "dec_value (dec_text n) = n"
proof (induction n rule: dec_text.induct)
  case (1 n)
  then show ?case by (subst dec_text.simps) (use dec_value_snoc[of "[]"] in \<open>auto simp del: dec_value_snoc\<close>, simp)
qed

lemma dec_text_not_Nil [simp]: "dec_text n \<noteq> []"
  by (subst dec_text.simps) simp

lemma length_dec_text: "n < 10 ^ k \<Longrightarrow> 0 < k \<Longrightarrow> length (dec_text n) \<le> k"
proof (induction k arbitrary: n)
  case (Suc k)
  show ?case
  proof (cases "n < 10")
    case False
    then have "n div 10 < 10 ^ k" "0 < k" using Suc.prems by (auto intro: Nat.gr0I)
    then show ?thesis using Suc.IH[of "n div 10"] False by (subst dec_text.simps) simp
  qed (subst dec_text.simps, simp)
qed simp

text \<open>
  The loop which the kernel's printing routines share: digits of a 64-bit number, the last one
  first, at most \<open>k\<close> of them; running out of the array is a fault.
\<close>

primrec digits_loop :: "nat \<Rightarrow> u64 \<Rightarrow> u8 list res" where
  "digits_loop 0 v = Fail Out_Of_Bounds"
| "digits_loop (Suc k) v =
     (let d = ucast (v mod 10); v' = v div 10 in
      if v' = 0 then Ok [d] else bind_res (digits_loop k v') (\<lambda>ds. Ok (d # ds)))"

lemma digit_word: "(ucast (v mod 10 :: u64) :: u8) = of_nat (unat v mod 10)"
  by (simp add: word_unat_eq_iff unsigned_ucast_eq unat_mod take_bit_eq_mod unat_of_nat)

lemma digits_loop_text:
  "unat v < 10 ^ k \<Longrightarrow> 0 < k \<Longrightarrow> \<exists>ds. digits_loop k v = Ok ds \<and> map ((+) 48) (rev ds) = dec_text (unat v)"
proof (induction k arbitrary: v)
  case (Suc k)
  show ?case
  proof (cases "v div 10 = 0")
    case True
    then have "unat (v div 10) = 0" by simp
    then have "unat v < 10" by (simp add: unat_div div_eq_0_iff)
    then show ?thesis using True by (subst dec_text.simps) (simp add: digit_word)
  next
    case False
    have d: "unat (v div 10) = unat v div 10" by (simp add: unat_div)
    have ge: "\<not> unat v < 10" using False d by (metis div_less unat_eq_zero)
    have "unat (v div 10) < 10 ^ k" "0 < k" using Suc.prems ge d by (auto intro: Nat.gr0I)
    then obtain ds where "digits_loop k (v div 10) = Ok ds" "map ((+) 48) (rev ds) = dec_text (unat (v div 10))"
      using Suc.IH by blast
    then show ?thesis using False ge d by (subst dec_text.simps) (simp add: digit_word Let_def)
  qed
qed simp

lemma digits_loop_20: "\<exists>ds. digits_loop 20 v = Ok ds \<and> map ((+) 48) (rev ds) = dec_text (unat v)"
  using unat_u64_less[of v] by (intro digits_loop_text) simp_all

section \<open>Hexadecimal text\<close>

definition nibble :: "u64 \<Rightarrow> nat \<Rightarrow> u8" where
  "nibble v i = ucast (drop_bit (4 * i) v AND 0xF)"

definition hex_char :: "u8 \<Rightarrow> u8" where
  "hex_char c = (if c < 10 then c + 48 else c + 55)"

definition hex_digits :: "u64 \<Rightarrow> nat \<Rightarrow> u8 list" where
  "hex_digits v k = map (\<lambda>i. hex_char (nibble v i)) (rev [0..<k])"

text \<open>How many digits are printed: up to the highest non-zero one, but at least \<open>min_digits\<close>.\<close>

definition hex_count :: "u64 \<Rightarrow> nat \<Rightarrow> nat" where
  "hex_count v min_digits =
     (case find (\<lambda>i. nibble v i \<noteq> 0) (rev [min_digits..<16]) of Some i \<Rightarrow> i + 1 | None \<Rightarrow> min 16 min_digits)"

definition hex_val :: "u8 \<Rightarrow> nat" where
  "hex_val c = (if c < 65 then unat c - 48 else unat c - 55)"

definition hex_value :: "u8 list \<Rightarrow> nat" where
  "hex_value s = foldl (\<lambda>v c. v * 16 + hex_val c) 0 s"

lemma unat_nibble: "unat (nibble v i) = unat v div 16 ^ i mod 16"
proof -
  have "unat (drop_bit (4 * i) v AND mask 4) = unat v div 2 ^ (4 * i) mod 2 ^ 4"
    by (simp only: unat_and_mask unat_drop_bit)
  moreover have "mask 4 = (0xF :: u64)" by (simp add: mask_eq_exp_minus_1)
  ultimately have "unat (drop_bit (4 * i) v AND 0xF) = unat v div 16 ^ i mod 16" by (simp add: power_mult)
  then show ?thesis by (simp add: nibble_def unsigned_ucast_eq take_bit_eq_mod)
qed

lemma hex_val_char: "unat c < 16 \<Longrightarrow> hex_val (hex_char c) = unat c"
proof -
  assume a: "unat c < 16"
  have "unat (c + 48) = unat c + 48" "unat (c + 55) = unat c + 55"
    using a by (simp_all add: unat_plus_less)
  then show ?thesis using a by (auto simp: hex_val_def hex_char_def word_less_nat_alt)
qed

lemma hex_value_snoc: "hex_value (s @ [c]) = hex_value s * 16 + hex_val c"
  by (simp add: hex_value_def)

lemma hex_value_from: "foldl (\<lambda>v c. v * 16 + hex_val c) a s = a * 16 ^ length s + hex_value s"
proof (induction s rule: rev_induct)
  case (snoc c s)
  then show ?case by (simp add: hex_value_snoc algebra_simps)
qed (simp add: hex_value_def)

lemma hex_value_digits: "hex_value (hex_digits v k) = unat v mod 16 ^ k"
proof (induction k)
  case (Suc k)
  have "hex_value (hex_digits v (Suc k)) = hex_val (hex_char (nibble v k)) * 16 ^ k + hex_value (hex_digits v k)"
    using hex_value_from[of "hex_val (hex_char (nibble v k))" "hex_digits v k"]
    by (simp add: hex_digits_def hex_value_def[of "_ # _"])
  also have "\<dots> = unat v div 16 ^ k mod 16 * 16 ^ k + unat v mod 16 ^ k"
    by (simp add: Suc hex_val_char unat_nibble)
  also have "\<dots> = unat v mod 16 ^ Suc k"
    using mod_mult2_eq[of "unat v" "16 ^ k" 16] by (simp add: mult.commute)
  finally show ?case .
qed (simp add: hex_digits_def hex_value_def)

lemma high_nibbles_zero:
  assumes "a \<le> 16" "\<And>j. a \<le> j \<Longrightarrow> j < 16 \<Longrightarrow> nibble v j = 0"
  shows "unat v < 16 ^ a"
  using assms(1)
proof (induction rule: inc_induct)
  case (step n)
  then have "unat v div 16 ^ n < 16" by (simp add: div_less_iff_less_mult mult.commute)
  moreover have "unat v div 16 ^ n mod 16 = 0" using assms(2)[of n] step.hyps unat_nibble[of v n] by simp
  ultimately show ?case by (simp add: div_eq_0_iff)
qed (use unat_u64_less[of v] in simp)

lemma hex_count_covers:
  assumes "min_digits \<le> 16"
  shows "unat v < 16 ^ hex_count v min_digits"
proof (cases "find (\<lambda>i. nibble v i \<noteq> 0) (rev [min_digits..<16])")
  case None
  then have "\<And>j. min_digits \<le> j \<Longrightarrow> j < 16 \<Longrightarrow> nibble v j = 0" by (auto simp: find_None_iff)
  then show ?thesis using None assms high_nibbles_zero by (simp add: hex_count_def)
next
  case (Some i)
  then obtain k where k: "k < length (rev [min_digits..<16])" "rev [min_digits..<16] ! k = i"
      "\<forall>j < k. \<not> nibble v (rev [min_digits..<16] ! j) \<noteq> 0"
    by (auto simp: find_Some_iff)
  have i: "i = 15 - k" "min_digits \<le> i" using k by (auto simp: rev_nth)
  have "nibble v j = 0" if "i + 1 \<le> j" "j < 16" for j
    using spec[OF k(3), of "15 - j"] that k(1) i by (auto simp: rev_nth)
  then have "unat v < 16 ^ (i + 1)" using i by (intro high_nibbles_zero) auto
  then show ?thesis using Some by (simp add: hex_count_def)
qed

lemma hex_text_value: "min_digits \<le> 16 \<Longrightarrow> hex_value (hex_digits v (hex_count v min_digits)) = unat v"
  using hex_count_covers[of min_digits v] by (simp add: hex_value_digits)

end
