(* ===== verification/String_Buffer.thy ===== *)
theory String_Buffer
  imports Number_Text
begin

text \<open>
The fixed-capacity text buffer of src/src/string_buffer.h.  Shown: every write appends its
  text and cuts at the capacity, and the texts of numbers denote them.
\<close>

section \<open>The class\<close>

text \<open>\<open>StringBuffer<N>\<close>: the array has \<open>N + 1\<close> bytes, the last for the terminating zero.\<close>

record string_buffer =
  sb_write_index :: nat
  sb_buf :: "u8 list"

definition StringBuffer_new :: "u8 list \<Rightarrow> string_buffer" where
  "StringBuffer_new storage = \<lparr>sb_write_index = 0, sb_buf = storage\<rparr>"

definition WriteChar :: "nat \<Rightarrow> u8 \<Rightarrow> string_buffer \<Rightarrow> string_buffer" where
  "WriteChar N c b =
     (if N \<le> sb_write_index b then b
      else b\<lparr>sb_buf := (sb_buf b)[sb_write_index b := c], sb_write_index := sb_write_index b + 1\<rparr>)"

definition WriteString :: "nat \<Rightarrow> u8 list \<Rightarrow> string_buffer \<Rightarrow> string_buffer" where
  "WriteString N s b = fold (WriteChar N) s b"

definition WriteHex8ZeroFilled :: "nat \<Rightarrow> u8 \<Rightarrow> string_buffer \<Rightarrow> string_buffer" where
  "WriteHex8ZeroFilled N v b = fold (\<lambda>i. WriteChar N (hex_char (drop_bit (4 * i) v AND 0xF))) [1, 0] b"

definition WriteHex64 :: "nat \<Rightarrow> u64 \<Rightarrow> nat \<Rightarrow> string_buffer \<Rightarrow> string_buffer" where
  "WriteHex64 N v min_digits b =
     fold (\<lambda>i. WriteChar N (hex_char (nibble v i))) (rev [0..<hex_count v min_digits]) b"

definition WriteDecimal64 :: "nat \<Rightarrow> u64 \<Rightarrow> string_buffer \<Rightarrow> string_buffer res" where
  "WriteDecimal64 N value b =
     bind_res (digits_loop 20 value) (\<lambda>s. Ok (fold (\<lambda>d. WriteChar N (48 + d)) (rev s) b))"

definition WriteHex64ZeroFilled :: "nat \<Rightarrow> u64 \<Rightarrow> string_buffer \<Rightarrow> string_buffer" where
  "WriteHex64ZeroFilled N v b =
     fold (\<lambda>i b. WriteChar N (hex_char (nibble v i)) (if i \<in> {11, 7, 3} then WriteChar N 39 b else b))
       (rev [0..<16]) b"

text \<open>\<open>GetString\<close> terminates the text; the result is the array, read up to its first zero byte.\<close>

definition GetString :: "string_buffer \<Rightarrow> (u8 list \<times> string_buffer) res" where
  "GetString b =
     bind_res (check_that (sb_write_index b < length (sb_buf b)) Out_Of_Bounds) (\<lambda>_.
     let buf = (sb_buf b)[sb_write_index b := 0] in
     Ok (takeWhile (\<lambda>c. c \<noteq> 0) buf, b\<lparr>sb_buf := buf\<rparr>))"

definition StringBuffer_Clear :: "string_buffer \<Rightarrow> string_buffer" where
  "StringBuffer_Clear b = b\<lparr>sb_write_index := 0\<rparr>"

section \<open>What has been written\<close>

definition sb_wf :: "nat \<Rightarrow> string_buffer \<Rightarrow> bool" where
  "sb_wf N b \<longleftrightarrow> sb_write_index b \<le> N \<and> length (sb_buf b) = N + 1"

definition sb_text :: "string_buffer \<Rightarrow> u8 list" where
  "sb_text b = take (sb_write_index b) (sb_buf b)"

lemma WriteChar_wf: "sb_wf N b \<Longrightarrow> sb_wf N (WriteChar N c b)"
  by (auto simp: sb_wf_def WriteChar_def)

lemma WriteChar_text: "sb_wf N b \<Longrightarrow> sb_text (WriteChar N c b) = take N (sb_text b @ [c])"
  by (auto simp: sb_wf_def WriteChar_def sb_text_def take_Suc_conv_app_nth list_update_append
      take_update_swap min_def)

lemma take_take_append: "take n (take n xs @ ys) = take n (xs @ ys)"
  by (cases "length xs \<le> n") auto

lemma fold_WriteChar:
  "sb_wf N b \<Longrightarrow> sb_wf N (fold (\<lambda>x. WriteChar N (f x)) xs b) \<and>
   sb_text (fold (\<lambda>x. WriteChar N (f x)) xs b) = take N (sb_text b @ map f xs)"
proof (induction xs arbitrary: b)
  case Nil
  then show ?case by (simp add: sb_wf_def sb_text_def)
next
  case (Cons x xs)
  have "take N (take N (sb_text b @ [f x]) @ map f xs) = take N (sb_text b @ map f (x # xs))"
    unfolding take_take_append by simp
  then show ?case
    using Cons.IH[OF WriteChar_wf[OF Cons.prems, of "f x"]] WriteChar_text[OF Cons.prems, of "f x"] by simp
qed

text \<open>Every write appends its text and cuts at the capacity.\<close>

definition appends :: "nat \<Rightarrow> (string_buffer \<Rightarrow> string_buffer) \<Rightarrow> u8 list \<Rightarrow> bool" where
  "appends N w t \<longleftrightarrow> (\<forall>b. sb_wf N b \<longrightarrow> sb_wf N (w b) \<and> sb_text (w b) = take N (sb_text b @ t))"

lemma appends_String: "appends N (WriteString N s) s"
  using fold_WriteChar[of N _ "\<lambda>x. x"] by (simp add: appends_def WriteString_def)

lemma appends_Hex8: "appends N (WriteHex8ZeroFilled N v) [hex_char (drop_bit 4 v AND 0xF), hex_char (v AND 0xF)]"
  using fold_WriteChar[of N _ "\<lambda>i. hex_char (drop_bit (4 * i) v AND 0xF)" "[1, 0]"]
  by (simp add: appends_def WriteHex8ZeroFilled_def)

lemma appends_Hex64: "appends N (WriteHex64 N v k) (hex_digits v (hex_count v k))"
  using fold_WriteChar[of N _ "\<lambda>i. hex_char (nibble v i)"] by (simp add: appends_def WriteHex64_def hex_digits_def)

lemma appends_Decimal64: "\<exists>w. (\<forall>b. WriteDecimal64 N v b = Ok (w b)) \<and> appends N w (dec_text (unat v))"
proof -
  obtain ds where ds: "digits_loop 20 v = Ok ds" "map ((+) 48) (rev ds) = dec_text (unat v)"
    using digits_loop_20 by blast
  have "appends N (fold (\<lambda>d. WriteChar N (48 + d)) (rev ds)) (dec_text (unat v))"
    using fold_WriteChar[of N _ "\<lambda>d. 48 + d" "rev ds"] ds(2) by (simp add: appends_def)
  then show ?thesis using ds(1) by (intro exI[of _ "fold (\<lambda>d. WriteChar N (48 + d)) (rev ds)"]) (simp add: WriteDecimal64_def)
qed

lemma appends_ZeroFilled:
  "appends N (WriteHex64ZeroFilled N v)
     (concat (map (\<lambda>i. (if i \<in> {11, 7, 3} then [39] else []) @ [hex_char (nibble v i)]) (rev [0..<16])))"
proof -
  have "fold (\<lambda>i b. WriteChar N (hex_char (nibble v i)) (if i \<in> {11, 7, 3} then WriteChar N 39 b else b)) is b
      = fold (WriteChar N) (concat (map (\<lambda>i. (if i \<in> {11, 7, 3} then [39] else []) @ [hex_char (nibble v i)]) is)) b"
    for "is" b by (induction "is" arbitrary: b) auto
  then show ?thesis using fold_WriteChar[of N _ "\<lambda>x. x"] by (simp only: appends_def WriteHex64ZeroFilled_def) simp
qed

lemma appends_comp: "appends N w t \<Longrightarrow> appends N w' t' \<Longrightarrow> appends N (w' \<circ> w) (t @ t')"
proof -
  assume a: "appends N w t" "appends N w' t'"
  have "take N (take N (sb_text b @ t) @ t') = take N (sb_text b @ t @ t')" for b
    unfolding take_take_append by simp
  then show ?thesis using a by (simp add: appends_def)
qed

lemma GetString_text:
  assumes "sb_wf N b" "0 \<notin> set (sb_text b)"
  shows "\<exists>b'. GetString b = Ok (sb_text b, b') \<and> sb_wf N b'"
proof -
  let ?i = "sb_write_index b"
  have i: "?i < length (sb_buf b)" using assms(1) by (simp add: sb_wf_def)
  then have u: "(sb_buf b)[?i := 0] = sb_text b @ 0 # drop (Suc ?i) (sb_buf b)"
    by (simp add: sb_text_def upd_conv_take_nth_drop)
  have "takeWhile (\<lambda>c. c \<noteq> 0) ((sb_buf b)[?i := 0]) = sb_text b"
    unfolding u using assms(2) by (subst takeWhile_append2) auto
  then show ?thesis using assms(1) i by (simp add: GetString_def check_that_def Let_def sb_wf_def)
qed

lemma sb_text_new: "sb_text (StringBuffer_new s) = []" "length s = N + 1 \<Longrightarrow> sb_wf N (StringBuffer_new s)"
  by (simp_all add: sb_text_def StringBuffer_new_def sb_wf_def)

lemma sb_text_Clear: "sb_text (StringBuffer_Clear b) = []" "sb_wf N b \<Longrightarrow> sb_wf N (StringBuffer_Clear b)"
  by (simp_all add: sb_text_def StringBuffer_Clear_def sb_wf_def)

lemma hex_char_nz: "unat c < 16 \<Longrightarrow> hex_char c \<noteq> 0"
  using hex_val_char[of c] by (auto simp: hex_char_def unat_arith_simps split: if_splits)

section \<open>Properties\<close>

text \<open>
  C35: formatting into a string buffer.  A text, a decimal and a hexadecimal number written one
  after the other are read back as the concatenation of their texts, cut to the capacity of the
  buffer; the decimal and hexadecimal texts denote the numbers, and nothing is ever written
  outside of the array.
\<close>

theorem StringBuffer_writes:
  assumes "sb_wf N b" "0 \<notin> set (sb_text b)" "0 \<notin> set s"
  shows "\<exists>d h b' b''. WriteDecimal64 N v (WriteString N s b) = Ok b' \<and>
    GetString (WriteHex64 N w 1 b') = Ok (take N (sb_text b @ s @ d @ h), b'') \<and> sb_wf N b'' \<and>
    dec_value d = unat v \<and> hex_value h = unat w \<and> (\<forall>c\<in>set d. is_digit c)"
proof -
  obtain dw where dw: "\<And>b. WriteDecimal64 N v b = Ok (dw b)" "appends N dw (dec_text (unat v))"
    using appends_Decimal64 by blast
  let ?h = "hex_digits w (hex_count w 1)"
  have "appends N (WriteHex64 N w 1 \<circ> (dw \<circ> WriteString N s)) ((s @ dec_text (unat v)) @ ?h)"
    by (intro appends_comp appends_String appends_Hex64 dw(2))
  then have f: "sb_wf N (WriteHex64 N w 1 (dw (WriteString N s b)))"
      "sb_text (WriteHex64 N w 1 (dw (WriteString N s b))) = take N (sb_text b @ s @ dec_text (unat v) @ ?h)"
    using assms(1) by (auto simp: appends_def)
  have nib: "hex_char (nibble w i) \<noteq> 0" for i by (rule hex_char_nz) (simp add: unat_nibble)
  have "0 \<notin> set (dec_text (unat v))" using dec_text_digits[of 0 "unat v"] by (auto simp: is_digit_def)
  then have "0 \<notin> set (take N (sb_text b @ s @ dec_text (unat v) @ ?h))"
    using assms(2,3) nib by (auto simp: hex_digits_def dest!: in_set_takeD)
  then obtain b'' where "GetString (WriteHex64 N w 1 (dw (WriteString N s b))) =
      Ok (take N (sb_text b @ s @ dec_text (unat v) @ ?h), b'')" "sb_wf N b''"
    using GetString_text[OF f(1)] f(2) by auto
  then show ?thesis using dw(1) dec_text_digits hex_text_value[of 1 w]
    by (intro exI[of _ "dec_text (unat v)"] exI[of _ ?h] exI[of _ "dw (WriteString N s b)"] exI[of _ b'']) simp
qed

theorem StringBuffer_writes_witness:
  "\<exists>d h b' b''. WriteDecimal64 128 42 (WriteString 128 (bytes ''pid '') (StringBuffer_new (replicate 129 0))) = Ok b' \<and>
    GetString (WriteHex64 128 0xAB 1 b') = Ok (take 128 (bytes ''pid '' @ d @ h), b'') \<and> dec_value d = 42 \<and> hex_value h = 0xAB"
  using StringBuffer_writes[of 128 "StringBuffer_new (replicate 129 0)" "bytes ''pid ''" 42 "0xAB"]
  by (auto simp: sb_text_new bytes_def of_char_def)

end
