(* ===== verification/Port_IO.thy ===== *)
theory Port_IO
  imports Prelude
begin

text \<open>
Port-mapped input and output (src/src/asm.S) and the serial port of src/src/serial.cc and
  serial.h.  What the devices answer is a parameter; a run records the reads made and the bytes
  written.  A loop that polls a status port returns if the device keeps becoming ready.
\<close>

section \<open>Ports\<close>

text \<open>What the devices return: the value of the \<open>n\<close>-th read, if it is of the given port.\<close>

type_synonym ports = "nat \<Rightarrow> u16 \<Rightarrow> u8"

record port_io =
  pio_reads :: nat
  pio_writes :: "(u16 \<times> u8) list"

definition ReadIOPort8 :: "ports \<Rightarrow> u16 \<Rightarrow> port_io \<Rightarrow> u8 \<times> port_io" where
  "ReadIOPort8 inp p io = (inp (pio_reads io) p, io\<lparr>pio_reads := pio_reads io + 1\<rparr>)"

definition WriteIOPort8 :: "u16 \<Rightarrow> u8 \<Rightarrow> port_io \<Rightarrow> port_io" where
  "WriteIOPort8 p v io = io\<lparr>pio_writes := pio_writes io @ [(p, v)]\<rparr>"

text \<open>Reading a status port until a condition holds; \<open>None\<close> if it never does.\<close>

partial_function (option) wait_port :: "ports \<Rightarrow> u16 \<Rightarrow> (u8 \<Rightarrow> bool) \<Rightarrow> port_io \<Rightarrow> port_io option" where
  "wait_port inp p ready io =
     (case ReadIOPort8 inp p io of (v, io') \<Rightarrow> if ready v then Some io' else wait_port inp p ready io')"

declare wait_port.simps [code]

text \<open>A device is responsive if the condition keeps recurring.\<close>

definition responsive :: "ports \<Rightarrow> u16 \<Rightarrow> (u8 \<Rightarrow> bool) \<Rightarrow> bool" where
  "responsive inp p ready \<longleftrightarrow> (\<forall>n. \<exists>m\<ge>n. ready (inp m p))"

lemma wait_port_returns:
  assumes "responsive inp p ready"
  shows "\<exists>n. wait_port inp p ready io = Some (io\<lparr>pio_reads := n\<rparr>)"
proof -
  obtain m where "pio_reads io \<le> m" "ready (inp m p)" using assms by (auto simp: responsive_def)
  then show ?thesis
  proof (induction "m - pio_reads io" arbitrary: io)
    case 0
    then show ?case by (auto simp: wait_port.simps[of inp p ready io] ReadIOPort8_def)
  next
    case (Suc k)
    then show ?case using Suc.hyps(1)[of "io\<lparr>pio_reads := pio_reads io + 1\<rparr>"]
      by (auto simp: wait_port.simps[of inp p ready io] ReadIOPort8_def)
  qed
qed

definition wait_for :: "ports \<Rightarrow> u16 \<Rightarrow> (u8 \<Rightarrow> bool) \<Rightarrow> port_io \<Rightarrow> port_io res" where
  "wait_for inp p ready io = (case wait_port inp p ready io of None \<Rightarrow> Fail Diverges | Some io' \<Rightarrow> Ok io')"

lemma wait_for_returns: "responsive inp p ready \<Longrightarrow> \<exists>n. wait_for inp p ready io = Ok (io\<lparr>pio_reads := n\<rparr>)"
  using wait_port_returns[of inp p ready io] by (auto simp: wait_for_def)

section \<open>The serial port\<close>

definition kPortCOM1 :: u16 where "kPortCOM1 = 0x3f8"
definition kPortCOM2 :: u16 where "kPortCOM2 = 0x2f8"

text \<open>A \<open>SerialPort\<close> is its base port.\<close>

definition SerialPort_Init :: "u16 \<Rightarrow> port_io \<Rightarrow> port_io" where
  "SerialPort_Init port io =
     (let baud_divisor = 0x0001 :: u16 in
      fold (\<lambda>(p, v). WriteIOPort8 p v)
        [(port + 1, 0x00), (port + 3, 0x80), (port + 0, ucast (baud_divisor AND 0xff)),
         (port + 1, ucast (drop_bit 8 baud_divisor)), (port + 3, 0x03), (port + 2, 0xC7), (port + 4, 0x0B)] io)"

definition transmit_empty :: "u8 \<Rightarrow> bool" where
  "transmit_empty status \<longleftrightarrow> status AND 0x20 \<noteq> 0"

definition SerialPort_IsTransmitEmpty :: "ports \<Rightarrow> u16 \<Rightarrow> port_io \<Rightarrow> bool \<times> port_io" where
  "SerialPort_IsTransmitEmpty inp port io =
     (case ReadIOPort8 inp (port + 5) io of (v, io') \<Rightarrow> (transmit_empty v, io'))"

definition SerialPort_SendChar :: "ports \<Rightarrow> u16 \<Rightarrow> u8 \<Rightarrow> port_io \<Rightarrow> port_io res" where
  "SerialPort_SendChar inp port c io =
     bind_res (wait_for inp (port + 5) transmit_empty io) (\<lambda>io'. Ok (WriteIOPort8 port c io'))"

definition SerialPort_IsReceived :: "ports \<Rightarrow> u16 \<Rightarrow> port_io \<Rightarrow> bool \<times> port_io" where
  "SerialPort_IsReceived inp port io =
     (case ReadIOPort8 inp (port + 5) io of (v, io') \<Rightarrow> (v AND 1 \<noteq> 0, io'))"

definition SerialPort_ReadCharReceived :: "ports \<Rightarrow> u16 \<Rightarrow> port_io \<Rightarrow> u8 \<times> port_io" where
  "SerialPort_ReadCharReceived inp port io =
     (case SerialPort_IsReceived inp port io of (r, io') \<Rightarrow>
        if \<not> r then (0, io') else ReadIOPort8 inp port io')"

text \<open>The bytes written to a port, in order.\<close>

definition sent :: "u16 \<Rightarrow> port_io \<Rightarrow> u8 list" where
  "sent port io = map snd (filter (\<lambda>w. fst w = port) (pio_writes io))"

lemma sent_reads [simp]: "sent port (io\<lparr>pio_reads := n\<rparr>) = sent port io"
  by (simp add: sent_def)

lemma SendChar_returns:
  assumes "responsive inp (port + 5) transmit_empty"
  shows "\<exists>io'. SerialPort_SendChar inp port c io = Ok io' \<and> sent port io' = sent port io @ [c]"
  using wait_for_returns[OF assms, of io] by (auto simp: SerialPort_SendChar_def WriteIOPort8_def sent_def)

primrec SerialPort_SendChars :: "ports \<Rightarrow> u16 \<Rightarrow> u8 list \<Rightarrow> port_io \<Rightarrow> port_io res" where
  "SerialPort_SendChars inp port [] io = Ok io"
| "SerialPort_SendChars inp port (c # cs) io =
     bind_res (SerialPort_SendChar inp port c io) (SerialPort_SendChars inp port cs)"

lemma SendChars_returns:
  assumes "responsive inp (port + 5) transmit_empty"
  shows "\<exists>io'. SerialPort_SendChars inp port cs io = Ok io' \<and> sent port io' = sent port io @ cs"
proof (induction cs arbitrary: io)
  case (Cons c cs)
  from SendChar_returns[OF assms, of c io] Cons show ?case by fastforce
qed simp

end
