(* ===== verification/Console.thy ===== *)
theory Console
  imports Sheet_Painting Port_IO C_Memory Number_Text
begin

text \<open>
The text console of src/src/console.h and console.cc: characters to the serial port, the sheet
  or the firmware, the printing of numbers, and the abstract grid of characters which the console
  implements on its sheet.
\<close>

section \<open>The console\<close>

record console =
  con_cursor_x :: int
  con_cursor_y :: int
  con_sheet :: "sid option"
  con_serial_port :: "u16 option"

definition Console_new :: console where
  "Console_new = \<lparr>con_cursor_x = 0, con_cursor_y = 0, con_sheet = None, con_serial_port = None\<rparr>"

definition Console_SetCursorPosition :: "int \<Rightarrow> int \<Rightarrow> console \<Rightarrow> console" where
  "Console_SetCursorPosition x y con = con\<lparr>con_cursor_x := x, con_cursor_y := y\<rparr>"

definition Console_ResetCursorPosition :: "console \<Rightarrow> console" where
  "Console_ResetCursorPosition con = Console_SetCursorPosition 0 0 con"

definition Console_GetCursorPosition :: "console \<Rightarrow> int \<times> int" where
  "Console_GetCursorPosition con = (con_cursor_x con, con_cursor_y con)"

definition Console_SetSheet :: "sid option \<Rightarrow> console \<Rightarrow> console" where
  "Console_SetSheet sheet con = con\<lparr>con_sheet := sheet\<rparr>"

definition Console_SetSerial :: "u16 option \<Rightarrow> console \<Rightarrow> console" where
  "Console_SetSerial serial_port con = con\<lparr>con_serial_port := serial_port\<rparr>"

text \<open>What a console writes to: the sheets, the ports and the characters given to EFI.\<close>

record con_world =
  cw_sheets :: sheets
  cw_io :: port_io
  cw_efi :: "u8 list"

abbreviation newline :: u8 where "newline \<equiv> 0x0A"
abbreviation backspace :: u8 where "backspace \<equiv> 0x08"
abbreviation carriage_return :: u8 where "carriage_return \<equiv> 0x0D"

definition serial_chars :: "u8 \<Rightarrow> u8 list" where
  "serial_chars c = (if c = newline then [carriage_return, c] else [c])"

definition put_serial :: "ports \<Rightarrow> u16 option \<Rightarrow> u8 \<Rightarrow> port_io \<Rightarrow> port_io res" where
  "put_serial inp serial_port c io =
     (case serial_port of None \<Rightarrow> Ok io | Some port \<Rightarrow> SerialPort_SendChars inp port (serial_chars c) io)"

definition advance_cursor ::
    "(u8 \<Rightarrow> nat \<Rightarrow> u8) \<Rightarrow> sid \<Rightarrow> u8 \<Rightarrow> int \<Rightarrow> int \<Rightarrow> sheets \<Rightarrow> (int \<times> int \<times> sheets) res" where
  "advance_cursor font sheet c x y st =
     (if c = newline then Ok (0, y + 16, st)
      else if c = backspace then Ok (x - 8, y, st)
      else bind_res (SheetPainter_DrawCharacter font sheet c x y True st) (\<lambda>st'. Ok (x + 8, y, st')))"

definition wrap_cursor :: "int \<Rightarrow> int \<Rightarrow> int \<Rightarrow> int \<times> int" where
  "wrap_cursor xsize x y =
     (if x \<ge> xsize then (0, y + 16)
      else if x < 0 then ((xsize - 8) AND NOT 7, y - 16)
      else (x, y))"

definition scroll_console :: "sid \<Rightarrow> int \<Rightarrow> sheets \<Rightarrow> (int \<times> sheets) res" where
  "scroll_console sheet y st =
     (let xsize = rect_xsize (sh_rect (st sheet)); ysize = rect_ysize (sh_rect (st sheet)) in
      if y + 16 > ysize then
        bind_res (Sheet_BlockTransfer sheet 0 0 0 16 xsize (ysize - 16) st) (\<lambda>st1.
        bind_res (SheetPainter_DrawRect sheet 0 (y - 16) xsize 16 0x000000 True st1) (\<lambda>st2.
        Ok (y - 16, st2)))
      else Ok (y, st))"

definition put_on_sheet ::
    "(u8 \<Rightarrow> nat \<Rightarrow> u8) \<Rightarrow> sid \<Rightarrow> u8 \<Rightarrow> int \<Rightarrow> int \<Rightarrow> sheets \<Rightarrow> (int \<times> int \<times> sheets) res" where
  "put_on_sheet font sheet c x y st =
     bind_res (advance_cursor font sheet c x y st) (\<lambda>(x, y, st).
     case wrap_cursor (rect_xsize (sh_rect (st sheet))) x y of (x, y) \<Rightarrow>
     bind_res (if c = backspace then SheetPainter_DrawRect sheet x y 8 16 0x000000 True st else Ok st) (\<lambda>st.
     bind_res (scroll_console sheet y st) (\<lambda>(y, st). Ok (x, y, st))))"

definition Console_PutCharWithoutLocking ::
    "ports \<Rightarrow> (u8 \<Rightarrow> nat \<Rightarrow> u8) \<Rightarrow> u8 \<Rightarrow> console \<times> con_world \<Rightarrow> (console \<times> con_world) res" where
  "Console_PutCharWithoutLocking inp font c s =
     (case s of (con, w) \<Rightarrow>
      bind_res (put_serial inp (con_serial_port con) c (cw_io w)) (\<lambda>io.
      case con_sheet con of
        None \<Rightarrow> Ok (con, w\<lparr>cw_io := io, cw_efi := cw_efi w @ serial_chars c\<rparr>)
      | Some sheet \<Rightarrow>
          bind_res (put_on_sheet font sheet c (con_cursor_x con) (con_cursor_y con) (cw_sheets w)) (\<lambda>(x, y, st).
          Ok (con\<lparr>con_cursor_x := x, con_cursor_y := y\<rparr>, w\<lparr>cw_io := io, cw_sheets := st\<rparr>))))"

text \<open>The process lock is held around the output; what it excludes is another process.\<close>

definition Console_PutChar :: "ports \<Rightarrow> (u8 \<Rightarrow> nat \<Rightarrow> u8) \<Rightarrow> u8 \<Rightarrow> console \<times> con_world \<Rightarrow> (console \<times> con_world) res" where
  "Console_PutChar inp font c s = Console_PutCharWithoutLocking inp font c s"

primrec Console_PutString :: "ports \<Rightarrow> (u8 \<Rightarrow> nat \<Rightarrow> u8) \<Rightarrow> u8 list \<Rightarrow> console \<times> con_world \<Rightarrow> (console \<times> con_world) res" where
  "Console_PutString inp font [] s = Ok s"
| "Console_PutString inp font (c # cs) s =
     bind_res (Console_PutCharWithoutLocking inp font c s) (Console_PutString inp font cs)"

section \<open>A grid of characters\<close>

text \<open>What the console promises: a grid of \<open>rows\<close> by \<open>cols\<close> cells, each black or a character.\<close>

type_synonym grid = "int \<Rightarrow> int \<Rightarrow> u8 option"

definition grid_advance :: "u8 \<Rightarrow> grid \<times> int \<times> int \<Rightarrow> grid \<times> int \<times> int" where
  "grid_advance c s = (case s of (g, row, col) \<Rightarrow>
     if c = newline then (g, row + 1, 0)
     else if c = backspace then (g, row, col - 1)
     else (g(row := (g row)(col := Some c)), row, col + 1))"

definition grid_wrap :: "int \<Rightarrow> grid \<times> int \<times> int \<Rightarrow> grid \<times> int \<times> int" where
  "grid_wrap cols s = (case s of (g, row, col) \<Rightarrow>
     if cols \<le> col then (g, row + 1, 0) else if col < 0 then (g, row - 1, cols - 1) else (g, row, col))"

definition grid_erase :: "u8 \<Rightarrow> grid \<times> int \<times> int \<Rightarrow> grid \<times> int \<times> int" where
  "grid_erase c s = (case s of (g, row, col) \<Rightarrow>
     if c = backspace then (g(row := (g row)(col := None)), row, col) else s)"

definition grid_scroll :: "int \<Rightarrow> grid \<times> int \<times> int \<Rightarrow> grid \<times> int \<times> int" where
  "grid_scroll rows s = (case s of (g, row, col) \<Rightarrow>
     if rows \<le> row then (\<lambda>r. if r + 1 < rows then g (r + 1) else (\<lambda>_. None), row - 1, col) else s)"

definition grid_put :: "int \<Rightarrow> int \<Rightarrow> u8 \<Rightarrow> grid \<times> int \<times> int \<Rightarrow> grid \<times> int \<times> int" where
  "grid_put rows cols c s = grid_scroll rows (grid_erase c (grid_wrap cols (grid_advance c s)))"

definition cell :: "(u8 \<Rightarrow> nat \<Rightarrow> u8) \<Rightarrow> u8 option \<Rightarrow> int \<Rightarrow> int \<Rightarrow> u32" where
  "cell font ch dx dy = (case ch of None \<Rightarrow> 0 | Some c \<Rightarrow> glyph font c dx dy)"

text \<open>The sheet of a console: an opaque child of a composited parent, of \<open>rows\<close> by \<open>cols\<close> cells.\<close>

definition con_ok :: "sid \<Rightarrow> sid list \<Rightarrow> sid \<Rightarrow> int \<Rightarrow> int \<Rightarrow> sheets \<Rightarrow> bool" where
  "con_ok p ss s rows cols st \<longleftrightarrow> family st p ss \<and> s \<in> set ss \<and> composited st p ss \<and> \<not> sh_is_alpha_enabled (st s) \<and>
     rect_xsize (sh_rect (st s)) = 8 * cols \<and> rect_ysize (sh_rect (st s)) = 16 * rows \<and>
     8 * cols \<le> sh_pixels_per_scan_line (st s) \<and> 1 \<le> rows \<and> 1 \<le> cols"

definition shows_grid :: "(u8 \<Rightarrow> nat \<Rightarrow> u8) \<Rightarrow> sid \<Rightarrow> int \<Rightarrow> int \<Rightarrow> grid \<Rightarrow> sheets \<Rightarrow> bool" where
  "shows_grid font s rows cols g st \<longleftrightarrow> (\<forall>r c dx dy. 0 \<le> r \<and> r < rows \<and> 0 \<le> c \<and> c < cols \<and> 0 \<le> dx \<and> dx < 8 \<and> 0 \<le> dy \<and> dy < 16 \<longrightarrow>
     sh_buf (st s) (pix (sh_pixels_per_scan_line (st s)) (8 * c + dx) (16 * r + dy)) = cell font (g r c) dx dy)"

text \<open>The effect of painting on the console's sheet: \<open>v\<close> gives the new pixels.\<close>

definition repainted :: "sid \<Rightarrow> sid list \<Rightarrow> sid \<Rightarrow> int \<Rightarrow> int \<Rightarrow> sheets \<Rightarrow> (int \<Rightarrow> int \<Rightarrow> u32) \<Rightarrow> sheets \<Rightarrow> bool" where
  "repainted p ss s rows cols st v st' \<longleftrightarrow> con_ok p ss s rows cols st' \<and>
     sh_pixels_per_scan_line (st' s) = sh_pixels_per_scan_line (st s) \<and> sh_rect (st' s) = sh_rect (st s) \<and>
     (\<forall>x y. 0 \<le> x \<and> x < sh_pixels_per_scan_line (st s) \<longrightarrow>
       sh_buf (st' s) (pix (sh_pixels_per_scan_line (st s)) x y) = v x y)"

lemma con_ok_D:
  assumes "con_ok p ss s rows cols st"
  shows "family st p ss" "s \<in> set ss" "composited st p ss" "\<not> sh_is_alpha_enabled (st s)"
    "rect_xsize (sh_rect (st s)) \<le> sh_pixels_per_scan_line (st s)"
  using assms by (auto simp: con_ok_def)

lemma redrawn_repainted:
  assumes ok: "con_ok p ss s rows cols st"
    and "family (redrawn p f b' (set_buf s b st)) p ss" "composited (redrawn p f b' (set_buf s b st)) p ss"
    and "\<forall>x y. 0 \<le> x \<and> x < sh_pixels_per_scan_line (st s) \<longrightarrow> b (pix (sh_pixels_per_scan_line (st s)) x y) = v x y"
  shows "repainted p ss s rows cols st v (redrawn p f b' (set_buf s b st))"
proof -
  have "s \<noteq> p" using ok by (auto simp: con_ok_def family_def)
  then show ?thesis using assms by (simp add: repainted_def con_ok_def)
qed

lemma DrawCharacter_repainted:
  assumes ok: "con_ok p ss s rows cols st" and "0 \<le> x" "x + 8 \<le> 8 * cols"
  shows "\<exists>st'. SheetPainter_DrawCharacter font s c x y True st = Ok st' \<and>
    repainted p ss s rows cols st (\<lambda>u v. if IsPointInRect (mk_rect x y 8 16) u v then glyph font c (u - x) (v - y)
      else sh_buf (st s) (pix (sh_pixels_per_scan_line (st s)) u v)) st'"
proof -
  have "x + 8 \<le> sh_pixels_per_scan_line (st s)" using assms by (simp add: con_ok_def)
  from DrawCharacter_composited[OF con_ok_D[OF ok] assms(2) this, of font c y] show ?thesis
    by (elim exE conjE) (intro exI conjI, assumption, rule redrawn_repainted[OF ok])
qed

lemma DrawRect_repainted:
  assumes ok: "con_ok p ss s rows cols st" and "0 \<le> x" "x + w \<le> 8 * cols" "0 \<le> w"
  shows "\<exists>st'. SheetPainter_DrawRect s x y w h col True st = Ok st' \<and>
    repainted p ss s rows cols st (\<lambda>u v. if IsPointInRect (mk_rect x y w h) u v then col
      else sh_buf (st s) (pix (sh_pixels_per_scan_line (st s)) u v)) st'"
proof -
  have "x + w \<le> sh_pixels_per_scan_line (st s)" using assms by (simp add: con_ok_def)
  from DrawRect_redrawn[OF con_ok_D[OF ok] assms(2) this assms(4), of y h col] show ?thesis
    by (elim exE conjE) (intro exI conjI, assumption, rule redrawn_repainted[OF ok])
qed

lemma BlockTransfer_repainted:
  assumes ok: "con_ok p ss s rows cols st"
  shows "\<exists>st'. Sheet_BlockTransfer s 0 0 0 16 (8 * cols) h st = Ok st' \<and>
    repainted p ss s rows cols st (\<lambda>u v. sh_buf (st s) (pix (sh_pixels_per_scan_line (st s)) u
      (if u < 8 * cols \<and> 0 \<le> v \<and> v < h then v + 16 else v))) st'"
proof -
  have "(0::int) < 16" "0 \<le> 8 * cols" "8 * cols \<le> sh_pixels_per_scan_line (st s)" "1 < sh_pixels_per_scan_line (st s)"
    using ok by (auto simp: con_ok_def)
  from BlockTransfer_composited[OF con_ok_D[OF ok] this, of h] show ?thesis
    by (elim exE conjE) (intro exI conjI, assumption, rule redrawn_repainted[OF ok])
qed

section \<open>The sheet shows the grid\<close>

lemma repainted_shows:
  assumes "repainted p ss s rows cols st v st'"
    and "\<And>r c dx dy. \<lbrakk>0 \<le> r; r < rows; 0 \<le> c; c < cols; 0 \<le> dx; dx < 8; 0 \<le> dy; dy < 16\<rbrakk> \<Longrightarrow>
      v (8 * c + dx) (16 * r + dy) = cell font (g r c) dx dy"
  shows "con_ok p ss s rows cols st' \<and> shows_grid font s rows cols g st'"
proof -
  have ok: "con_ok p ss s rows cols st'" and l: "sh_pixels_per_scan_line (st' s) = sh_pixels_per_scan_line (st s)"
    and v: "\<And>x y. 0 \<le> x \<Longrightarrow> x < sh_pixels_per_scan_line (st s) \<Longrightarrow>
      sh_buf (st' s) (pix (sh_pixels_per_scan_line (st s)) x y) = v x y"
    using assms(1) by (auto simp: repainted_def)
  have "8 * cols \<le> sh_pixels_per_scan_line (st s)" using ok l by (simp add: con_ok_def)
  then have "shows_grid font s rows cols g st'" using assms(2) by (auto simp: shows_grid_def l v)
  then show ?thesis using ok by blast
qed

lemma in_cell:
  fixes dx dy :: int
  assumes "0 \<le> dx" "dx < 8" "0 \<le> dy" "dy < 16"
  shows "IsPointInRect (mk_rect (8 * c') (16 * r') 8 16) (8 * c + dx) (16 * r + dy) \<longleftrightarrow> c = c' \<and> r = r'"
  using assms by (auto simp: IsPointInRect_def)

lemma mult8_and: "(8 * k) AND NOT 7 = 8 * k" for k :: int
proof -
  have e: "8 * k = push_bit 3 k" "(7 :: int) = mask 3" by (simp_all add: push_bit_eq_mult mask_eq_exp_minus_1)
  show ?thesis unfolding e by (rule bit_eqI) (auto simp: bit_simps)
qed

lemma wrap_cursor_grid:
  assumes "grid_wrap cols (g, row, col) = (g', row', col')"
  shows "wrap_cursor (8 * cols) (8 * col) (16 * row) = (8 * col', 16 * row')" "g' = g"
proof -
  have "(8 * cols - 8) AND NOT 7 = 8 * (cols - 1)" using mult8_and[of "cols - 1"] by (simp add: algebra_simps)
  then show "wrap_cursor (8 * cols) (8 * col) (16 * row) = (8 * col', 16 * row')" "g' = g"
    using assms by (auto simp: wrap_cursor_def grid_wrap_def split: if_splits)
qed

lemma advance_cursor_grid:
  assumes ok: "con_ok p ss s rows cols st" and sh: "shows_grid font s rows cols g st"
    and b: "0 \<le> row" "row < rows" "0 \<le> col" "col < cols"
    and a: "grid_advance c (g, row, col) = (g1, row1, col1)"
  shows "\<exists>st1. advance_cursor font s c (8 * col) (16 * row) st = Ok (8 * col1, 16 * row1, st1) \<and>
    con_ok p ss s rows cols st1 \<and> shows_grid font s rows cols g1 st1"
proof (cases "c = newline \<or> c = backspace")
  case True
  then show ?thesis using a ok sh by (auto simp: advance_cursor_def grid_advance_def algebra_simps)
next
  case False
  then have g1: "g1 = g(row := (g row)(col := Some c))" "row1 = row" "col1 = col + 1"
    using a by (auto simp: grid_advance_def)
  have "8 * col + 8 \<le> 8 * cols" using b by simp
  then obtain st1 where st1: "SheetPainter_DrawCharacter font s c (8 * col) (16 * row) True st = Ok st1"
    "repainted p ss s rows cols st (\<lambda>u v. if IsPointInRect (mk_rect (8 * col) (16 * row) 8 16) u v then glyph font c (u - 8 * col) (v - 16 * row)
      else sh_buf (st s) (pix (sh_pixels_per_scan_line (st s)) u v)) st1"
    using DrawCharacter_repainted[OF ok, of "8 * col" font c "16 * row"] b by auto
  have "con_ok p ss s rows cols st1 \<and> shows_grid font s rows cols g1 st1"
    by (rule repainted_shows[OF st1(2)]) (use sh in \<open>auto simp: in_cell g1 cell_def shows_grid_def\<close>)
  then show ?thesis using False st1(1) g1 by (auto simp: advance_cursor_def algebra_simps)
qed

lemma erase_grid:
  assumes ok: "con_ok p ss s rows cols st" and sh: "shows_grid font s rows cols g st"
    and b: "0 \<le> col" "col < cols" and e: "grid_erase c (g, row, col) = (g1, row1, col1)"
  shows "row1 = row \<and> col1 = col \<and> (\<exists>st1. (if c = backspace then SheetPainter_DrawRect s (8 * col) (16 * row) 8 16 0x000000 True st else Ok st) = Ok st1 \<and>
    con_ok p ss s rows cols st1 \<and> shows_grid font s rows cols g1 st1)"
proof (cases "c = backspace")
  case True
  then have g1: "g1 = g(row := (g row)(col := None))" "row1 = row" "col1 = col" using e by (auto simp: grid_erase_def)
  obtain st1 where st1: "SheetPainter_DrawRect s (8 * col) (16 * row) 8 16 0x000000 True st = Ok st1"
    "repainted p ss s rows cols st (\<lambda>u v. if IsPointInRect (mk_rect (8 * col) (16 * row) 8 16) u v then 0
      else sh_buf (st s) (pix (sh_pixels_per_scan_line (st s)) u v)) st1"
    using DrawRect_repainted[OF ok, of "8 * col" 8 "16 * row" 16 0] b by auto
  have "con_ok p ss s rows cols st1 \<and> shows_grid font s rows cols g1 st1"
    by (rule repainted_shows[OF st1(2)]) (use sh in \<open>auto simp: in_cell g1 cell_def shows_grid_def\<close>)
  then show ?thesis using True st1(1) g1 by auto
qed (use assms in \<open>auto simp: grid_erase_def\<close>)

lemma scroll_grid:
  assumes ok: "con_ok p ss s rows cols st" and sh: "shows_grid font s rows cols g st"
    and b: "0 \<le> row" "row \<le> rows" and e: "grid_scroll rows (g, row, col) = (g1, row1, col1)"
  shows "col1 = col \<and> 0 \<le> row1 \<and> row1 < rows \<and> (\<exists>st1. scroll_console s (16 * row) st = Ok (16 * row1, st1) \<and>
    con_ok p ss s rows cols st1 \<and> shows_grid font s rows cols g1 st1)"
proof (cases "row = rows")
  case True
  let ?line = "sh_pixels_per_scan_line (st s)"
  have rc: "1 \<le> rows" "rect_xsize (sh_rect (st s)) = 8 * cols" "rect_ysize (sh_rect (st s)) = 16 * rows" using ok by (simp_all add: con_ok_def)
  have g1: "g1 = (\<lambda>r. if r + 1 < rows then g (r + 1) else (\<lambda>_. None))" "row1 = row - 1" "col1 = col"
    using e True by (auto simp: grid_scroll_def)
  obtain st1 where st1: "Sheet_BlockTransfer s 0 0 0 16 (8 * cols) (16 * rows - 16) st = Ok st1"
    "repainted p ss s rows cols st (\<lambda>u v. sh_buf (st s) (pix ?line u (if u < 8 * cols \<and> 0 \<le> v \<and> v < 16 * rows - 16 then v + 16 else v))) st1"
    using BlockTransfer_repainted[OF ok] by blast
  have ok1: "con_ok p ss s rows cols st1" and l1: "sh_pixels_per_scan_line (st1 s) = ?line" and lw: "8 * cols \<le> ?line"
    using st1(2) ok by (auto simp: repainted_def con_ok_def)
  obtain st2 where st2: "SheetPainter_DrawRect s 0 (16 * rows - 16) (8 * cols) 16 0 True st1 = Ok st2"
    "repainted p ss s rows cols st1 (\<lambda>u v. if IsPointInRect (mk_rect 0 (16 * rows - 16) (8 * cols) 16) u v then 0
      else sh_buf (st1 s) (pix (sh_pixels_per_scan_line (st1 s)) u v)) st2"
    using DrawRect_repainted[OF ok1, of 0 "8 * cols" "16 * rows - 16" 16 0] ok by (auto simp: con_ok_def)
  have b1: "sh_buf (st1 s) (pix ?line u v) = sh_buf (st s) (pix ?line u (if u < 8 * cols \<and> 0 \<le> v \<and> v < 16 * rows - 16 then v + 16 else v))"
    if "0 \<le> u" "u < ?line" for u v using st1(2) that by (simp add: repainted_def)
  have "con_ok p ss s rows cols st2 \<and> shows_grid font s rows cols g1 st2"
  proof (rule repainted_shows[OF st2(2)], goal_cases)
    case (1 r c dx dy)
    show ?case
    proof (cases "r + 1 < rows")
      case False
      then show ?thesis using 1 by (simp add: g1 cell_def IsPointInRect_def)
    next
      case True
      have e: "16 * (r + 1) + dy = 16 * r + dy + 16" by simp
      have "sh_buf (st s) (pix ?line (8 * c + dx) (16 * (r + 1) + dy)) = cell font (g (r + 1) c) dx dy"
        using sh 1 True unfolding shows_grid_def by (metis add_increasing2 zero_le_one)
      note A = this[unfolded e]
      have "8 * c + dx < ?line" "8 * c + dx < 8 * cols" "16 * r + dy < 16 * rows - 16" using 1 lw True by linarith+
      then show ?thesis using 1 True b1 A by (simp add: l1 g1 IsPointInRect_def)
    qed
  qed
  then show ?thesis using True st1(1) st2(1) g1 rc by (auto simp: scroll_console_def algebra_simps)
next
  case False
  then show ?thesis using assms by (auto simp: grid_scroll_def scroll_console_def con_ok_def)
qed

lemma put_on_sheet_grid:
  assumes ok: "con_ok p ss s rows cols st" and sh: "shows_grid font s rows cols g st"
    and b: "0 \<le> row" "row < rows" "0 \<le> col" "col < cols" and nb: "c = backspace \<longrightarrow> 0 < row \<or> 0 < col"
    and e: "grid_put rows cols c (g, row, col) = (g', row', col')"
  shows "\<exists>st'. put_on_sheet font s c (8 * col) (16 * row) st = Ok (8 * col', 16 * row', st') \<and>
    con_ok p ss s rows cols st' \<and> shows_grid font s rows cols g' st' \<and> 0 \<le> row' \<and> row' < rows \<and> 0 \<le> col' \<and> col' < cols"
proof -
  obtain g1 row1 col1 where 1: "grid_advance c (g, row, col) = (g1, row1, col1)" by (metis prod_cases3)
  obtain g2 row2 col2 where 2: "grid_wrap cols (g1, row1, col1) = (g2, row2, col2)" by (metis prod_cases3)
  obtain g3 row3 col3 where 3: "grid_erase c (g2, row2, col2) = (g3, row3, col3)" by (metis prod_cases3)
  have 4: "grid_scroll rows (g3, row3, col3) = (g', row', col')" using e 1 2 3 by (simp add: grid_put_def)
  obtain st1 where a: "advance_cursor font s c (8 * col) (16 * row) st = Ok (8 * col1, 16 * row1, st1)"
    "con_ok p ss s rows cols st1" "shows_grid font s rows cols g1 st1" using advance_cursor_grid[OF ok sh b 1] by blast
  note w = wrap_cursor_grid[OF 2]
  have x1: "rect_xsize (sh_rect (st1 s)) = 8 * cols" using a(2) by (simp add: con_ok_def)
  have r2: "0 \<le> row2" "row2 \<le> rows" "0 \<le> col2" "col2 < cols"
    using 1 2 b nb by (auto simp: grid_advance_def grid_wrap_def split: if_splits)
  obtain st2 where d: "(if c = backspace then SheetPainter_DrawRect s (8 * col2) (16 * row2) 8 16 0x000000 True st1 else Ok st1) = Ok st2"
    "con_ok p ss s rows cols st2" "shows_grid font s rows cols g3 st2" and rc3: "row3 = row2" "col3 = col2"
    using erase_grid[OF a(2) _ r2(3,4) 3] a(3) w(2) by blast
  obtain st3 where f: "scroll_console s (16 * row2) st2 = Ok (16 * row', st3)" "con_ok p ss s rows cols st3" "shows_grid font s rows cols g' st3"
    and rc: "col' = col3" "0 \<le> row'" "row' < rows"
    using scroll_grid[OF d(2,3) r2(1,2) 4[unfolded rc3]] rc3 by blast
  have "put_on_sheet font s c (8 * col) (16 * row) st = Ok (8 * col', 16 * row', st3)"
    using a(1) w(1) d(1) f(1) rc rc3 x1 by (simp add: put_on_sheet_def)
  then show ?thesis using f rc rc3 r2 by blast
qed

section \<open>Strings and numbers\<close>

lemma put_serial_sent:
  assumes "responsive inp (port + 5) transmit_empty"
  shows "\<exists>io'. put_serial inp (Some port) c io = Ok io' \<and> sent port io' = sent port io @ serial_chars c"
  using SendChars_returns[OF assms, of "serial_chars c" io] by (simp add: put_serial_def)

text \<open>The cursor of a console on the cell \<open>(row, col)\<close> of its sheet, which shows the grid.\<close>

definition con_shows ::
    "(u8 \<Rightarrow> nat \<Rightarrow> u8) \<Rightarrow> sid \<Rightarrow> sid list \<Rightarrow> sid \<Rightarrow> int \<Rightarrow> int \<Rightarrow> grid \<times> int \<times> int \<Rightarrow> console \<times> con_world \<Rightarrow> bool" where
  "con_shows font p ss s rows cols gs cw \<longleftrightarrow> (case gs of (g, row, col) \<Rightarrow> case cw of (con, w) \<Rightarrow>
     con_ok p ss s rows cols (cw_sheets w) \<and> shows_grid font s rows cols g (cw_sheets w) \<and>
     con_sheet con = Some s \<and> con_cursor_x con = 8 * col \<and> con_cursor_y con = 16 * row \<and>
     0 \<le> row \<and> row < rows \<and> 0 \<le> col \<and> col < cols)"

lemma PutChar_grid:
  assumes sh: "con_shows font p ss s rows cols gs cw" and nb: "c = backspace \<longrightarrow> 0 < fst (snd gs) \<or> 0 < snd (snd gs)"
    and po: "con_serial_port (fst cw) = Some port" "responsive inp (port + 5) transmit_empty"
  shows "\<exists>cw'. Console_PutCharWithoutLocking inp font c cw = Ok cw' \<and>
    con_shows font p ss s rows cols (grid_put rows cols c gs) cw' \<and>
    con_serial_port (fst cw') = Some port \<and> sent port (cw_io (snd cw')) = sent port (cw_io (snd cw)) @ serial_chars c"
proof -
  obtain g row col where gs: "gs = (g, row, col)" by (metis prod_cases3)
  obtain con w where cw: "cw = (con, w)" by fastforce
  obtain g' row' col' where g': "grid_put rows cols c (g, row, col) = (g', row', col')" by (metis prod_cases3)
  have h: "con_ok p ss s rows cols (cw_sheets w)" "shows_grid font s rows cols g (cw_sheets w)"
    "0 \<le> row" "row < rows" "0 \<le> col" "col < cols" "con_sheet con = Some s" "con_cursor_x con = 8 * col" "con_cursor_y con = 16 * row"
    using sh by (auto simp: con_shows_def gs cw)
  obtain io' where io': "put_serial inp (Some port) c (cw_io w) = Ok io'" "sent port io' = sent port (cw_io w) @ serial_chars c"
    using put_serial_sent[OF po(2)] by blast
  have nb': "c = backspace \<longrightarrow> 0 < row \<or> 0 < col" using nb by (simp add: gs)
  obtain st' where st': "put_on_sheet font s c (8 * col) (16 * row) (cw_sheets w) = Ok (8 * col', 16 * row', st')"
    "con_ok p ss s rows cols st'" "shows_grid font s rows cols g' st'" "0 \<le> row'" "row' < rows" "0 \<le> col'" "col' < cols"
    using put_on_sheet_grid[OF h(1-6) nb' g'] by blast
  have "Console_PutCharWithoutLocking inp font c cw =
      Ok (con\<lparr>con_cursor_x := 8 * col', con_cursor_y := 16 * row'\<rparr>, w\<lparr>cw_io := io', cw_sheets := st'\<rparr>)"
    using io'(1) st'(1) h(7-9) po(1) by (simp add: Console_PutCharWithoutLocking_def cw)
  then show ?thesis using st' io'(2) h(7) po(1) by (simp add: con_shows_def gs g' cw)
qed

lemma PutString_grid:
  assumes "con_shows font p ss s rows cols gs cw" "backspace \<notin> set str"
    and "con_serial_port (fst cw) = Some port" "responsive inp (port + 5) transmit_empty"
  shows "\<exists>cw'. Console_PutString inp font str cw = Ok cw' \<and>
    con_shows font p ss s rows cols (fold (grid_put rows cols) str gs) cw' \<and>
    sent port (cw_io (snd cw')) = sent port (cw_io (snd cw)) @ concat (map serial_chars str)"
  using assms
proof (induction str arbitrary: gs cw)
  case (Cons c str)
  then obtain cw1 where "Console_PutCharWithoutLocking inp font c cw = Ok cw1"
    "con_shows font p ss s rows cols (grid_put rows cols c gs) cw1"
    "con_serial_port (fst cw1) = Some port" "sent port (cw_io (snd cw1)) = sent port (cw_io (snd cw)) @ serial_chars c"
    using PutChar_grid[OF Cons.prems(1) _ Cons.prems(3,4), of c] by auto
  then show ?case using Cons.IH[of "grid_put rows cols c gs" cw1] Cons.prems by auto
qed simp

text \<open>The characters which the printing functions pass to \<open>PutChar\<close>, in order.\<close>

definition PutDecimal64 :: "u64 \<Rightarrow> u8 list res" where
  "PutDecimal64 v = bind_res (digits_loop 20 v) (\<lambda>s. Ok (map ((+) 48) (rev s)))"

primrec fraction_digits :: "nat \<Rightarrow> u64 \<Rightarrow> u8 list \<times> u64" where
  "fraction_digits 0 v = ([], v)"
| "fraction_digits (Suc k) v = (case fraction_digits k (v div 10) of (ds, r) \<Rightarrow> (ucast (v mod 10) # ds, r))"

definition PutDecimal64WithPointPos :: "u64 \<Rightarrow> int \<Rightarrow> u8 list res" where
  "PutDecimal64WithPointPos v point_pos =
     (if 20 \<le> point_pos then Fail Out_Of_Bounds
      else case fraction_digits (nat point_pos) v of (fs, v') \<Rightarrow>
        bind_res (digits_loop (20 - nat point_pos) v') (\<lambda>ds.
        let s = fs @ ds in
        Ok (concat (map (\<lambda>i. (48 + s ! i) # (if int i = point_pos then [46] else [])) (rev [0..<length s])))))"

definition PutHex64 :: "u64 \<Rightarrow> u8 list" where
  "PutHex64 v = map (\<lambda>i. hex_char (nibble v i)) (rev [0..<hex_count v 1])"

definition PutHex64ZeroFilled :: "u64 \<Rightarrow> u8 list" where
  "PutHex64ZeroFilled v =
     concat (map (\<lambda>i. (if i \<in> {11, 7, 3} then [39] else []) @ [hex_char (nibble v i)]) (rev [0..<16]))"

definition PutHex8ZeroFilled :: "u8 \<Rightarrow> u8 list" where
  "PutHex8ZeroFilled v = map (\<lambda>i. hex_char (drop_bit (4 * i) v AND 0xF)) [1, 0]"

definition PutStringAndDecimal :: "u8 list \<Rightarrow> u64 \<Rightarrow> u8 list res" where
  "PutStringAndDecimal s v = bind_res (PutDecimal64 v) (\<lambda>t. Ok (s @ bytes '': '' @ t @ [newline]))"

definition PutStringAndDecimalWithPointPos :: "u8 list \<Rightarrow> u64 \<Rightarrow> int \<Rightarrow> u8 list res" where
  "PutStringAndDecimalWithPointPos s v pos =
     bind_res (PutDecimal64WithPointPos v pos) (\<lambda>t. Ok (s @ bytes '': '' @ t @ [newline]))"

definition PutStringAndHex :: "u8 list \<Rightarrow> u64 \<Rightarrow> u8 list" where
  "PutStringAndHex s v = s @ bytes '': 0x'' @ PutHex64 v @ [newline]"

definition PutStringAndBool :: "u8 list \<Rightarrow> bool \<Rightarrow> u8 list" where
  "PutStringAndBool s b = s @ bytes '': '' @ bytes (if b then ''True'' else ''False'') @ [newline]"

definition PutAddressRange :: "u64 \<Rightarrow> u64 \<Rightarrow> u8 list" where
  "PutAddressRange addr bsize =
     bytes ''['' @ PutHex64ZeroFilled addr @ bytes ''-'' @ PutHex64ZeroFilled (addr + bsize) @ bytes '')''"

lemma fraction_digits_at:
  "fraction_digits k v = (fs, r) \<Longrightarrow> unat r = unat v div 10 ^ k \<and> length fs = k \<and>
     (\<forall>d\<in>set fs. unat d < 10) \<and> dec_value (map ((+) 48) (rev fs)) = unat v mod 10 ^ k"
proof (induction k arbitrary: v fs)
  case (Suc k)
  obtain gs where g: "fraction_digits k (v div 10) = (gs, r)" "fs = ucast (v mod 10) # gs"
    using Suc.prems by (auto split: prod.splits)
  have d: "unat (v div 10) = unat v div 10" by (simp add: unat_div)
  have w: "(ucast (v mod 10) :: u8) = of_nat (unat v mod 10)" by (rule digit_word)
  have m: "unat v mod (10 * 10 ^ k) = unat v div 10 mod 10 ^ k * 10 + unat v mod 10"
    using mod_mult2_eq[of "unat v" 10 "10 ^ k"] by simp
  show ?case using Suc.IH[OF g(1)] by (auto simp: g(2) d w m div_mult2_eq unat_of_nat)
qed simp

lemma concat_digits:
  assumes "\<And>i. i \<in> set is \<Longrightarrow> \<not> P i"
  shows "concat (map (\<lambda>i. f i # (if P i then [c] else [])) is) = map f is"
  using assms by (induction "is") auto

lemma concat_point:
  assumes "length fs = k"
  shows "concat (map (\<lambda>i. (48 + (fs @ d # ds) ! i) # (if int i = int k then [46] else [])) (rev [0..<length (fs @ d # ds)])) =
    map ((+) 48) (rev (d # ds)) @ [46] @ map ((+) 48) (rev (fs :: u8 list))"
proof -
  let ?n = "length (fs @ d # ds)" and ?s = "fs @ d # ds"
  have "[0..<?n] = [0..<k] @ [k] @ [Suc k..<?n]"
    using assms upt_add_eq_append[of 0 k "?n - k"] upt_conv_Cons[of k ?n] by simp
  then have r: "rev [0..<?n] = rev [Suc k..<?n] @ [k] @ rev [0..<k]" by simp
  have M: "map (\<lambda>i. 48 + ?s ! i) (rev js) = map ((+) 48) (rev (map ((!) ?s) js))" for js
    by (simp add: rev_map comp_def)
  have hi: "map (\<lambda>i. 48 + ?s ! i) (rev [Suc k..<?n]) = map ((+) 48) (rev ds)"
  proof -
    have "map (\<lambda>i. ?s ! i) [Suc k..<?n] = ds" by (rule nth_equalityI) (auto simp: nth_append assms simp del: upt_Suc)
    then show ?thesis unfolding M by (rule arg_cong)
  qed
  have lo: "map (\<lambda>i. 48 + ?s ! i) (rev [0..<k]) = map ((+) 48) (rev fs)"
  proof -
    have "map (\<lambda>i. ?s ! i) [0..<k] = fs" by (rule nth_equalityI) (auto simp: nth_append assms simp del: upt_Suc)
    then show ?thesis unfolding M by (rule arg_cong)
  qed
  have "concat (map (\<lambda>i. (48 + ?s ! i) # (if int i = int k then [46] else [])) (rev [Suc k..<?n])) = map (\<lambda>i. 48 + ?s ! i) (rev [Suc k..<?n])"
    by (rule concat_digits) auto
  moreover have "concat (map (\<lambda>i. (48 + ?s ! i) # (if int i = int k then [46] else [])) (rev [0..<k])) = map (\<lambda>i. 48 + ?s ! i) (rev [0..<k])"
    by (rule concat_digits) auto
  ultimately show ?thesis unfolding r map_append concat_append hi lo using assms by (simp add: nth_append)
qed

lemma PutDecimal64WithPointPos_text:
  assumes "p < 20"
  shows "\<exists>frac. PutDecimal64WithPointPos v (int p) = Ok (dec_text (unat v div 10 ^ p) @ [46] @ frac) \<and>
    length frac = p \<and> (\<forall>c\<in>set frac. is_digit c) \<and> dec_value frac = unat v mod 10 ^ p"
proof -
  obtain fs r where f: "fraction_digits p v = (fs, r)" by fastforce
  note F = fraction_digits_at[OF f]
  have "unat v < 10 ^ (p + (20 - p))" using unat_u64_less[of v] assms by simp
  then have "unat r < 10 ^ (20 - p)" using F unfolding power_add by (simp add: less_mult_imp_div_less mult.commute)
  then obtain ds where ds: "digits_loop (20 - p) r = Ok ds" "map ((+) 48) (rev ds) = dec_text (unat r)"
    using digits_loop_text[of r "20 - p"] assms by auto
  obtain d ds' where dd: "ds = d # ds'" using ds(2) dec_text_not_Nil[of "unat r"] by (cases ds) (auto simp del: dec_text_not_Nil)
  have "PutDecimal64WithPointPos v (int p) = Ok (map ((+) 48) (rev ds) @ [46] @ map ((+) 48) (rev fs))"
    using concat_point[of fs p d ds'] assms F f ds(1) by (simp add: PutDecimal64WithPointPos_def dd Let_def)
  moreover have "is_digit c" if c: "c \<in> set (map ((+) 48) (rev fs))" for c
  proof -
    obtain e where e: "c = 48 + e" "e \<in> set fs" using c unfolding set_map set_rev by (rule imageE)
    then have "unat e < 10" using F by blast
    then show ?thesis using is_digit_char[of "unat e"] e(1) by simp
  qed
  ultimately show ?thesis using F ds(2) by (intro exI[of _ "map ((+) 48) (rev fs)"]) auto
qed

lemma PutDecimal64_text: "PutDecimal64 v = Ok (dec_text (unat v))"
  using digits_loop_20[of v] by (auto simp: PutDecimal64_def)

lemma PutHex64_value: "hex_value (PutHex64 v) = unat v"
  using hex_text_value[of 1 v] by (simp add: PutHex64_def hex_digits_def)

text \<open>
  Deleting at the upper left cell moves the cursor above the sheet: the next characters are
  drawn outside of it.
\<close>

theorem backspace_at_origin:
  assumes "con_ok p ss s rows cols st"
  shows "\<exists>st'. put_on_sheet font s backspace 0 0 st = Ok (8 * cols - 8, -16, st')"
proof -
  have rc: "rect_xsize (sh_rect (st s)) = 8 * cols" "1 \<le> cols" "1 \<le> rows" using assms by (simp_all add: con_ok_def)
  have m: "(8 * cols - 8) AND (-8) = 8 * cols - 8" using mult8_and[of "cols - 1"] by (simp add: algebra_simps)
  obtain st1 where st1: "SheetPainter_DrawRect s (8 * cols - 8) (-16) 8 16 0 True st = Ok st1"
    "sh_rect (st1 s) = sh_rect (st s)"
    using DrawRect_repainted[OF assms, of "8 * cols - 8" 8 "-16" 16 0] rc(2) by (auto simp: repainted_def)
  have y: "rect_ysize (sh_rect (st s)) = 16 * rows" using assms by (simp add: con_ok_def)
  show ?thesis using st1 rc y
    by (simp add: put_on_sheet_def advance_cursor_def wrap_cursor_def m scroll_console_def Let_def)
qed

text \<open>A parent of 8 by 16 points covered by one sheet of the same size.\<close>

definition example_console_sheets :: sheets where
  "example_console_sheets = (\<lambda>s. \<lparr>sh_parent = (if s = 1 then Some 0 else None), sh_upper = None,
     sh_bottom_child = (if s = 0 then Some 1 else None), sh_buf = (\<lambda>_. 0),
     sh_map = (if s = 0 then Some (\<lambda>k. Some 1) else None), sh_rect = mk_rect 0 0 8 16,
     sh_pixels_per_scan_line = 8, sh_is_topmost = False, sh_is_alpha_enabled = False, sh_is_locked = False\<rparr>)"

lemma example_con_ok: "con_ok 0 [1] 1 1 1 example_console_sheets"
  by (auto simp: con_ok_def example_console_sheets_def family_def composited_def owner_def covers_def pixel_def
      GetClientRect_def rect_proper_def IsPointInRect_def Let_def)

section \<open>Properties\<close>

text \<open>
  C22: a console is a grid of characters.  Printing any text without backspaces never fails, the
  cursor stays on a cell of the grid, the sheet shows in every cell exactly the character which
  the abstract grid has there after wrapping and scrolling, the parent stays composited, and the
  serial port receives the text with each newline preceded by a carriage return.
\<close>

theorem Console_refines_grid:
  assumes "con_ok p ss s rows cols (cw_sheets w)" "shows_grid font s rows cols g (cw_sheets w)"
    and "con_sheet con = Some s" "con_serial_port con = Some port" "responsive inp (port + 5) transmit_empty"
    and "con_cursor_x con = 8 * col" "con_cursor_y con = 16 * row" "0 \<le> row" "row < rows" "0 \<le> col" "col < cols"
    and "backspace \<notin> set str"
  shows "\<exists>con' w' g' row' col'. Console_PutString inp font str (con, w) = Ok (con', w') \<and>
    fold (grid_put rows cols) str (g, row, col) = (g', row', col') \<and>
    con_cursor_x con' = 8 * col' \<and> con_cursor_y con' = 16 * row' \<and> 0 \<le> row' \<and> row' < rows \<and> 0 \<le> col' \<and> col' < cols \<and>
    shows_grid font s rows cols g' (cw_sheets w') \<and> family (cw_sheets w') p ss \<and> composited (cw_sheets w') p ss \<and>
    sent port (cw_io w') = sent port (cw_io w) @ concat (map serial_chars str)"
proof -
  obtain g' row' col' where gs: "fold (grid_put rows cols) str (g, row, col) = (g', row', col')" by (metis prod_cases3)
  have "con_shows font p ss s rows cols (g, row, col) (con, w)" using assms by (simp add: con_shows_def)
  from PutString_grid[OF this assms(12), of port inp] assms(4,5) show ?thesis
    by (auto simp: gs con_shows_def con_ok_def)
qed

theorem Console_refines_grid_witness:
  "\<exists>con' w' g' row' col'. Console_PutString (\<lambda>_ _. 0x20) (\<lambda>_ _. 0x81) [65, newline, 66]
      (\<lparr>con_cursor_x = 0, con_cursor_y = 0, con_sheet = Some 1, con_serial_port = Some kPortCOM1\<rparr>,
       \<lparr>cw_sheets = example_console_sheets, cw_io = \<lparr>pio_reads = 0, pio_writes = []\<rparr>, cw_efi = []\<rparr>) = Ok (con', w') \<and>
    sent kPortCOM1 (cw_io w') = [65, carriage_return, newline, 66]"
proof -
  have "shows_grid (\<lambda>_ _. 0x81) 1 1 1 (\<lambda>_ _. None) example_console_sheets"
    by (simp add: shows_grid_def cell_def example_console_sheets_def)
  moreover have "responsive (\<lambda>_ _. 0x20) (kPortCOM1 + 5) transmit_empty" by (auto simp: responsive_def transmit_empty_def)
  ultimately show ?thesis
    using Console_refines_grid[of 0 "[1]" 1 1 1 "\<lparr>cw_sheets = example_console_sheets, cw_io = \<lparr>pio_reads = 0, pio_writes = []\<rparr>, cw_efi = []\<rparr>"
        "\<lambda>_ _. 0x81" "\<lambda>_ _. None" "\<lparr>con_cursor_x = 0, con_cursor_y = 0, con_sheet = Some 1, con_serial_port = Some kPortCOM1\<rparr>"
        kPortCOM1 "\<lambda>_ _. 0x20" 0 0 "[65, newline, 66]"] example_con_ok
    by (auto simp: serial_chars_def sent_def)
qed

text \<open>
  Printed numbers denote their value.  \<open>PutDecimal64\<close> prints the decimal text of the number;
  \<open>PutHex64\<close> its hexadecimal text; with a point position below 20, the digits before the point are
  the text of the quotient by that power of ten and the ones behind it, as many as the position
  says, denote the remainder.
\<close>

theorem printed_numbers:
  assumes "p < 20"
  shows "PutDecimal64 v = Ok (dec_text (unat v)) \<and> hex_value (PutHex64 v) = unat v \<and>
    (\<exists>frac. PutDecimal64WithPointPos v (int p) = Ok (dec_text (unat v div 10 ^ p) @ [46] @ frac) \<and>
      length frac = p \<and> (\<forall>c\<in>set frac. is_digit c) \<and> dec_value frac = unat v mod 10 ^ p)"
  using PutDecimal64_text PutHex64_value PutDecimal64WithPointPos_text[OF assms] by blast

theorem printed_numbers_witness:
  "\<exists>frac. PutDecimal64WithPointPos 1234 2 = Ok (dec_text 12 @ [46] @ frac) \<and> length frac = 2 \<and> dec_value frac = 34"
proof -
  have "(2::nat) < 20" by simp
  from printed_numbers[OF this, of 1234] show ?thesis by auto
qed

end
