(* ===== verification/Keyboard.thy ===== *)
theory Keyboard
  imports Ring_Buffer
begin

text \<open>
The keyboard driver of src/src/keyboard.cc, keyboard.h and keyid.h.  Scan codes are queued by the
  interrupt handler in a ring buffer of 16 slots and turned into key identifiers on reading; the
  parser keeps the state of the shift and control keys.  The theorems relate that state to the
  codes seen and show that reading returns the first key which the waiting codes give.
\<close>

section \<open>Key identifiers\<close>

definition kMaskBreak :: u16 where "kMaskBreak = 0x8000"
definition kMaskExtended :: u16 where "kMaskExtended = 0x4000"
definition kMaskCode :: u16 where "kMaskCode = 0x00FF"
definition kMaskAttr :: u16 where "kMaskAttr = 0x0300"
definition kAttrShift :: u16 where "kAttrShift = 0x0100"
definition kAttrCtrl :: u16 where "kAttrCtrl = 0x0200"

definition ext_key :: "u16 \<Rightarrow> u16" where "ext_key code = kMaskExtended OR code"

definition kEsc :: u16 where "kEsc = ext_key 0x0000"
definition kF1 :: u16 where "kF1 = ext_key 0x0001"
definition kF2 :: u16 where "kF2 = ext_key 0x0002"
definition kF3 :: u16 where "kF3 = ext_key 0x0003"
definition kF4 :: u16 where "kF4 = ext_key 0x0004"
definition kF5 :: u16 where "kF5 = ext_key 0x0005"
definition kF6 :: u16 where "kF6 = ext_key 0x0006"
definition kF7 :: u16 where "kF7 = ext_key 0x0007"
definition kF8 :: u16 where "kF8 = ext_key 0x0008"
definition kF9 :: u16 where "kF9 = ext_key 0x0009"
definition kF10 :: u16 where "kF10 = ext_key 0x000a"
definition kF11 :: u16 where "kF11 = ext_key 0x000b"
definition kF12 :: u16 where "kF12 = ext_key 0x000c"
definition kNumLock :: u16 where "kNumLock = ext_key 0x000d"
definition kScrollLock :: u16 where "kScrollLock = ext_key 0x000e"
definition kCapsLock :: u16 where "kCapsLock = ext_key 0x000f"
definition kShiftL :: u16 where "kShiftL = ext_key 0x0010"
definition kShiftR :: u16 where "kShiftR = ext_key 0x0011"
definition kCtrlL :: u16 where "kCtrlL = ext_key 0x0012"
definition kCtrlR :: u16 where "kCtrlR = ext_key 0x0013"
definition kAltL :: u16 where "kAltL = ext_key 0x0014"
definition kAltR :: u16 where "kAltR = ext_key 0x0015"
definition kDelete :: u16 where "kDelete = ext_key 0x0016"
definition kInsert :: u16 where "kInsert = ext_key 0x0017"
definition kPause :: u16 where "kPause = ext_key 0x0018"
definition kBreak :: u16 where "kBreak = ext_key 0x0019"
definition kPrintScreen :: u16 where "kPrintScreen = ext_key 0x001a"
definition kSysRq :: u16 where "kSysRq = ext_key 0x001b"
definition kCursorUp :: u16 where "kCursorUp = ext_key 0x001c"
definition kCursorDown :: u16 where "kCursorDown = ext_key 0x001d"
definition kCursorLeft :: u16 where "kCursorLeft = ext_key 0x001e"
definition kCursorRight :: u16 where "kCursorRight = ext_key 0x001f"
definition kPageUp :: u16 where "kPageUp = ext_key 0x0020"
definition kPageDown :: u16 where "kPageDown = ext_key 0x0021"
definition kHome :: u16 where "kHome = ext_key 0x0022"
definition kEnd :: u16 where "kEnd = ext_key 0x0023"
definition kCmdL :: u16 where "kCmdL = ext_key 0x0024"
definition kCmdR :: u16 where "kCmdR = ext_key 0x0025"
definition kMenu :: u16 where "kMenu = ext_key 0x0026"
definition kKanji :: u16 where "kKanji = ext_key 0x0027"
definition kHiragana :: u16 where "kHiragana = ext_key 0x0028"
definition kHenkan :: u16 where "kHenkan = ext_key 0x0029"
definition kMuhenkan :: u16 where "kMuhenkan = ext_key 0x002a"
definition kBackspace :: u16 where "kBackspace = ext_key 0x0040"
definition kTab :: u16 where "kTab = ext_key 0x0041"
definition kEnter :: u16 where "kEnter = ext_key 0x0042"
definition kError :: u16 where "kError = ext_key 0x007e"
definition kUnknown :: u16 where "kUnknown = ext_key 0x007f"
definition kNoInput :: u16 where "kNoInput = ext_key 0x00ff"

definition IsWithShift :: "u16 \<Rightarrow> bool" where
  "IsWithShift k \<longleftrightarrow> k AND kAttrShift \<noteq> 0"

definition IsWithCtrl :: "u16 \<Rightarrow> bool" where
  "IsWithCtrl k \<longleftrightarrow> k AND kAttrCtrl \<noteq> 0"

text \<open>The comparison with a \<open>char\<close> is one of \<open>int\<close>s: a negative character never matches.\<close>

definition IsChar :: "u16 \<Rightarrow> u8 \<Rightarrow> bool" where
  "IsChar k c \<longleftrightarrow> k AND kMaskExtended = 0 \<and> int (unat (k AND kMaskCode)) = sint c"

definition IsBreak :: "u16 \<Rightarrow> bool" where
  "IsBreak k \<longleftrightarrow> k AND kMaskBreak \<noteq> 0"

definition WithoutAttr :: "u16 \<Rightarrow> u16" where
  "WithoutAttr k = k AND NOT kMaskAttr"

section \<open>Scan code tables\<close>

definition ch16 :: "char \<Rightarrow> u16" where "ch16 c = of_char c"

definition tenkey :: "char \<Rightarrow> u16" where "tenkey c = 0x0100 OR of_char c"

definition kKeyCodeTable :: "u16 list" where
  "kKeyCodeTable =
     [0, kEsc] @ map ch16 ''1234567890-^'' @ [kBackspace, kTab] @
     map ch16 ''QWERTYUIOP@['' @ [kEnter, kCtrlL] @ map ch16 ''AS'' @
     map ch16 ''DFGHJKL;:'' @ [kKanji, kShiftL] @ map ch16 '']ZXCV'' @
     map ch16 ''BNM,./'' @ [kShiftR, tenkey CHR ''*'', kAltL] @ map ch16 '' '' @ [kCapsLock] @
     [kF1, kF2, kF3, kF4, kF5] @
     [kF6, kF7, kF8, kF9, kF10, kNumLock, kScrollLock] @ map tenkey ''789-456+1'' @
     map tenkey ''230.'' @ [kSysRq, 0, 0, kF11, kF12] @ replicate 7 0 @
     replicate 16 0 @
     [kHiragana, 0, 0, ch16 CHR ''_'', 0, 0, 0, 0, 0, kHenkan, 0, kMuhenkan, 0, 0x5c, 0, 0]"

definition kKeyCodeTableWithShift :: "u16 list" where
  "kKeyCodeTableWithShift =
     [0, 0] @ [0x21, 0x22, 0x23, 0x24, 0x25, 0x26, 0x27, 0x28, 0x29, 0x7e, 0x3d, 0x7e] @ [0, 0] @
     replicate 10 0 @ [0x60, 0x7b] @ replicate 4 0 @
     replicate 7 0 @ [0x2b, 0x2a, 0, 0, 0x7d] @ replicate 4 0 @
     replicate 3 0 @ [0x3c, 0x3e, 0x3f] @ replicate 10 0 @
     replicate 48 0 @
     [0, 0, 0, 0x5f, 0, 0, 0, 0, 0, 0, 0, 0, 0, 0x7c, 0, 0]"

lemma tables_length: "length kKeyCodeTable = 128" "length kKeyCodeTableWithShift = 128"
  by (simp_all add: kKeyCodeTable_def kKeyCodeTableWithShift_def)

section \<open>The controller\<close>

record keyboard =
  kb_keycode_buffer :: "u8 ring_buffer"
  kb_state_shift :: u8
  kb_state_ctrl :: u8

definition Keyboard_Init :: "u8 list \<Rightarrow> keyboard" where
  "Keyboard_Init storage =
     \<lparr>kb_keycode_buffer = RingBuffer_new storage, kb_state_shift = 0, kb_state_ctrl = 0\<rparr>"

definition Keyboard_IntHandlerSub :: "u8 \<Rightarrow> keyboard \<Rightarrow> keyboard" where
  "Keyboard_IntHandlerSub port_data k =
     k\<lparr>kb_keycode_buffer := RingBuffer_Push 16 port_data (kb_keycode_buffer k)\<rparr>"

text \<open>The identifier of a key before the state of the modifiers is looked at; 0 if unknown.\<close>

definition lookup_key :: "bool \<Rightarrow> u8 \<Rightarrow> u16" where
  "lookup_key shifted keycode =
     (let i = unat keycode in
      if shifted then (if kKeyCodeTableWithShift ! i \<noteq> 0 then kKeyCodeTableWithShift ! i else kKeyCodeTable ! i)
      else kKeyCodeTable ! i)"

definition key_of :: "bool \<Rightarrow> u8 \<Rightarrow> u16" where
  "key_of shifted keycode =
     (let is_break = keycode AND 0x80 \<noteq> 0;
          keyid = lookup_key shifted (keycode AND NOT 0x80)
      in if keyid = 0 then 0
         else let keyid = (if 65 \<le> keyid \<and> keyid \<le> 90 \<and> \<not> shifted then keyid + 0x20 else keyid)
         in if is_break then keyid OR kMaskBreak else keyid)"

text \<open>The bits for the left and the right key of a modifier follow make and break codes.\<close>

definition track :: "u16 \<Rightarrow> u16 \<Rightarrow> u16 \<Rightarrow> u8 \<Rightarrow> u8" where
  "track left right k st =
     (if k = left then st OR 1
      else if k = right then st OR 2
      else if k = left OR kMaskBreak then st AND NOT 1
      else if k = right OR kMaskBreak then st AND NOT 2
      else st)"

definition Keyboard_ParseKeyCode :: "u8 \<Rightarrow> keyboard \<Rightarrow> u16 \<times> keyboard" where
  "Keyboard_ParseKeyCode keycode k =
     (let keyid = key_of (kb_state_shift k \<noteq> 0) keycode in
      if keyid = 0 then (0, k)
      else let shift = track kShiftL kShiftR (WithoutAttr keyid) (kb_state_shift k);
               keyid1 = (if shift \<noteq> 0 then keyid OR kAttrShift else keyid);
               ctrl = track kCtrlL kCtrlR (WithoutAttr keyid1) (kb_state_ctrl k);
               keyid2 = (if ctrl \<noteq> 0 then keyid1 OR kAttrCtrl else keyid1)
           in (keyid2, k\<lparr>kb_state_shift := shift, kb_state_ctrl := ctrl\<rparr>))"

text \<open>
  \<open>ReadKeyID\<close> parses buffered scan codes until one gives a key; the buffer shrinks with each
  round, and \<open>fuel\<close>, the capacity of the buffer, bounds the rounds.
\<close>

primrec read_keys :: "nat \<Rightarrow> keyboard \<Rightarrow> u16 \<times> keyboard" where
  "read_keys 0 k = (0, k)"
| "read_keys (Suc fuel) k =
     (if RingBuffer_IsEmpty (kb_keycode_buffer k) then (0, k)
      else case RingBuffer_Pop 16 0 (kb_keycode_buffer k) of (kc, b) \<Rightarrow>
        case Keyboard_ParseKeyCode kc (k\<lparr>kb_keycode_buffer := b\<rparr>) of (keyid, k') \<Rightarrow>
          if keyid \<noteq> 0 then (keyid, k') else read_keys fuel k')"

definition Keyboard_ReadKeyID :: "keyboard \<Rightarrow> u16 \<times> keyboard" where
  "Keyboard_ReadKeyID k = read_keys 16 k"

section \<open>Modifiers\<close>

text \<open>The entries of both tables for a code give the key.\<close>

definition entry_key :: "bool \<Rightarrow> bool \<Rightarrow> u16 \<Rightarrow> u16 \<Rightarrow> u16" where
  "entry_key shifted is_break e es =
     (let keyid = (if shifted \<and> es \<noteq> 0 then es else e) in
      if keyid = 0 then 0
      else let keyid = (if 65 \<le> keyid \<and> keyid \<le> 90 \<and> \<not> shifted then keyid + 0x20 else keyid)
      in if is_break then keyid OR kMaskBreak else keyid)"

lemma key_of_entry:
  "key_of shifted kc = entry_key shifted (kc AND 0x80 \<noteq> 0) (kKeyCodeTable ! unat (kc AND NOT 0x80))
     (kKeyCodeTableWithShift ! unat (kc AND NOT 0x80))"
  by (simp add: key_of_def entry_key_def lookup_key_def Let_def)

text \<open>Which entries are modifier keys, and that attribute bits occur on characters only.\<close>

definition entry_ok :: "nat \<Rightarrow> u16 \<Rightarrow> u16 \<Rightarrow> bool" where
  "entry_ok i e es \<longleftrightarrow> (e = kShiftL \<longleftrightarrow> i = 0x2A) \<and> (e = kShiftR \<longleftrightarrow> i = 0x36) \<and> (e = kCtrlL \<longleftrightarrow> i = 0x1D) \<and>
     e \<noteq> kCtrlR \<and> \<not> bit e 15 \<and> (bit e 14 \<longrightarrow> \<not> bit e 8 \<and> \<not> bit e 9 \<and> es = 0) \<and> \<not> bit es 14 \<and> \<not> bit es 15"

lemma table_values:
  "kKeyCodeTable = [
     0, 16384, 49, 50, 51, 52, 53, 54, 55, 56, 57, 48, 45, 94, 16448, 16449, 81, 87, 69, 82, 84,
     89, 85, 73, 79, 80, 64, 91, 16450, 16402, 65, 83, 68, 70, 71, 72, 74, 75, 76, 59, 58, 16423,
     16400, 93, 90, 88, 67, 86, 66, 78, 77, 44, 46, 47, 16401, 298, 16404, 32, 16399, 16385, 16386,
     16387, 16388, 16389, 16390, 16391, 16392, 16393, 16394, 16397, 16398, 311, 312, 313, 301, 308,
     309, 310, 299, 305, 306, 307, 304, 302, 16411, 0, 0, 16395, 16396, 0, 0, 0, 0, 0, 0, 0, 0, 0,
     0, 0, 0, 0, 0, 0, 0, 0, 0, 0, 0, 0, 0, 0, 16424, 0, 0, 95, 0, 0, 0, 0, 0, 16425, 0, 16426, 0,
     92, 0, 0]"
  "kKeyCodeTableWithShift = [
     0, 0, 33, 34, 35, 36, 37, 38, 39, 40, 41, 126, 61, 126, 0, 0, 0, 0, 0, 0, 0, 0, 0, 0, 0, 0,
     96, 123, 0, 0, 0, 0, 0, 0, 0, 0, 0, 0, 0, 43, 42, 0, 0, 125, 0, 0, 0, 0, 0, 0, 0, 60, 62, 63,
     0, 0, 0, 0, 0, 0, 0, 0, 0, 0, 0, 0, 0, 0, 0, 0, 0, 0, 0, 0, 0, 0, 0, 0, 0, 0, 0, 0, 0, 0, 0,
     0, 0, 0, 0, 0, 0, 0, 0, 0, 0, 0, 0, 0, 0, 0, 0, 0, 0, 0, 0, 0, 0, 0, 0, 0, 0, 0, 0, 0, 0, 95,
     0, 0, 0, 0, 0, 0, 0, 0, 0, 124, 0, 0]"
  by code_simp+

lemma entries_ok_all:
  "list_all (\<lambda>(i, e, es). entry_ok i e es) (zip [0..<128] (zip kKeyCodeTable kKeyCodeTableWithShift))"
  unfolding table_values
  by (simp add: entry_ok_def ext_key_def upt_rec kShiftL_def kShiftR_def kCtrlL_def kCtrlR_def kMaskExtended_def)

lemma entries_ok: "i < 128 \<Longrightarrow> entry_ok i (kKeyCodeTable ! i) (kKeyCodeTableWithShift ! i)"
  using entries_ok_all[unfolded list_all_length, rule_format, of i] by (simp add: tables_length)

lemma code_parts:
  fixes kc :: u8
  shows "unat (kc AND NOT 0x80) = unat kc mod 128" "kc AND 0x80 \<noteq> 0 \<longleftrightarrow> 128 \<le> unat kc" "unat kc < 256"
proof -
  show lt: "unat kc < 256" using unsigned_less[of kc] by simp
  have "NOT 0x80 = (mask 7 :: u8)" by (simp add: mask_eq_exp_minus_1)
  then show "unat (kc AND NOT 0x80) = unat kc mod 128" using unat_and_mask[of kc 7] by simp
  have "kc AND 0x80 \<noteq> 0 \<longleftrightarrow> bit kc 7" using and_exp_eq_0_iff_not_bit[of kc 7] by simp
  also have "\<dots> \<longleftrightarrow> odd (unat kc div 2 ^ 7)" using bit_iff_odd[of "unat kc" 7] bit_unsigned_iff[of kc 7, where ?'a = nat] by simp
  also have "\<dots> \<longleftrightarrow> 128 \<le> unat kc" using lt by (cases "128 \<le> unat kc") (simp_all add: le_div_geq)
  finally show "kc AND 0x80 \<noteq> 0 \<longleftrightarrow> 128 \<le> unat kc" .
qed

lemma code_eq: "n < 256 \<Longrightarrow> kc = of_nat n \<longleftrightarrow> unat kc = n" for kc :: u8
  by (auto simp: unat_of_nat word_unat_eq_iff)

text \<open>The key of a scan code, seen through \<open>WithoutAttr\<close>: only four codes and their breaks are modifiers.\<close>

lemma without_attr_id: "\<not> bit k 8 \<Longrightarrow> \<not> bit k 9 \<Longrightarrow> WithoutAttr k = k"
proof -
  assume a: "\<not> bit k 8" "\<not> bit k 9"
  have m: "(0x300 :: u16) = push_bit 8 (mask 2)" by (simp add: mask_eq_exp_minus_1)
  show ?thesis
    unfolding WithoutAttr_def kMaskAttr_def m
  proof (rule bit_word_eqI)
    fix n
    assume "n < LENGTH(16)"
    have "8 \<le> n \<and> n - 8 < 2 \<longleftrightarrow> n = 8 \<or> n = 9" by auto
    then show "bit (k AND NOT (push_bit 8 (mask 2))) n = bit k n" using a
      by (auto simp: bit_simps dest: bit_imp_le_length)
  qed
qed

lemma bit_without_attr: "bit (WithoutAttr k) 14 = bit k 14"
  by (simp add: WithoutAttr_def kMaskAttr_def bit_simps)

lemma bit_break: "bit kMaskBreak n \<longleftrightarrow> n = 15"
proof -
  have "kMaskBreak = 2 ^ 15" by (simp add: kMaskBreak_def)
  then show ?thesis using bit_exp_iff[of 15 n, where ?'a = u16] by (auto simp del: power_numeral)
qed

lemma or_break_inj: "\<not> bit a 15 \<Longrightarrow> \<not> bit b 15 \<Longrightarrow> a OR kMaskBreak = b OR kMaskBreak \<longleftrightarrow> a = b"
proof
  assume a: "a OR kMaskBreak = b OR kMaskBreak" and b: "\<not> bit a 15" "\<not> bit b 15"
  show "a = b"
  proof (rule bit_word_eqI)
    fix n
    show "bit a n = bit b n"
      using b arg_cong[OF a, of "\<lambda>w. bit w n"] by (cases "n = 15") (auto simp: bit_or_iff bit_break)
  qed
qed simp

lemma or_break_ne: "\<not> bit a 15 \<Longrightarrow> a \<noteq> b OR kMaskBreak"
  by (auto simp: bit_or_iff bit_break)

lemma small_not_bit: "unat w < 2 ^ n \<Longrightarrow> \<not> bit w n" for w :: u16
  using bit_iff_odd[of "unat w" n] bit_unsigned_iff[of w n, where ?'a = nat] by simp

definition modifier_key :: "u16 \<Rightarrow> bool" where
  "modifier_key x \<longleftrightarrow> bit x 14 \<and> \<not> bit x 8 \<and> \<not> bit x 9 \<and> \<not> bit x 15"

lemma modifier_keys [simp]: "modifier_key kShiftL" "modifier_key kShiftR" "modifier_key kCtrlL" "modifier_key kCtrlR"
  by (simp_all add: modifier_key_def kShiftL_def kShiftR_def kCtrlL_def kCtrlR_def ext_key_def kMaskExtended_def)

lemma entry_key_modifier:
  assumes e: "\<not> bit e 15" "bit e 14 \<longrightarrow> \<not> bit e 8 \<and> \<not> bit e 9 \<and> es = 0" "\<not> bit es 14" "\<not> bit es 15"
    and x: "modifier_key x"
  shows "WithoutAttr (entry_key sh br e es) = x \<longleftrightarrow> e = x \<and> \<not> br"
    "WithoutAttr (entry_key sh br e es) = x OR kMaskBreak \<longleftrightarrow> e = x \<and> br"
proof -
  have b: "\<not> bit kMaskBreak 14" "\<not> bit kMaskBreak 8" "\<not> bit kMaskBreak 9" "bit kMaskBreak 15"
    by (simp_all add: kMaskBreak_def)
  have "(WithoutAttr (entry_key sh br e es) = x \<longleftrightarrow> e = x \<and> \<not> br) \<and>
    (WithoutAttr (entry_key sh br e es) = x OR kMaskBreak \<longleftrightarrow> e = x \<and> br)"
  proof (cases "bit e 14")
    case True
    then have "\<not> e \<le> 90" using small_not_bit[of e 14] by (auto simp: word_le_nat_alt)
    moreover have "e \<noteq> 0" using True by auto
    ultimately have k: "entry_key sh br e es = (if br then e OR kMaskBreak else e)"
      using True e(2) by (simp add: entry_key_def Let_def)
    have w: "WithoutAttr e = e" "WithoutAttr (e OR kMaskBreak) = e OR kMaskBreak"
      using True e(2) b by (auto intro!: without_attr_id simp: bit_simps)
    show ?thesis using x or_break_inj[OF e(1)] or_break_ne[OF e(1)] or_break_ne[of x] e(1)
      by (auto simp: k w modifier_key_def split: if_splits)
  next
    case False
    define y where "y = (if sh \<and> es \<noteq> 0 then es else e)"
    have y: "\<not> bit y 14" using False e(3) by (simp add: y_def)
    have "\<not> bit (y + 0x20) 14" if "y \<le> 90"
    proof (rule small_not_bit)
      have "unat y \<le> 90" using that by (simp add: word_le_nat_alt)
      then show "unat (y + 0x20) < 2 ^ 14" by (subst unat_plus_less) simp_all
    qed
    then have "\<not> bit (entry_key sh br e es) 14"
      using y b by (simp add: entry_key_def Let_def bit_simps flip: y_def)
    then have "\<not> bit (WithoutAttr (entry_key sh br e es)) 14" by (simp add: bit_without_attr)
    then show ?thesis using x False b by (auto simp: modifier_key_def bit_simps)
  qed
  then show "WithoutAttr (entry_key sh br e es) = x \<longleftrightarrow> e = x \<and> \<not> br"
    "WithoutAttr (entry_key sh br e es) = x OR kMaskBreak \<longleftrightarrow> e = x \<and> br" by blast+
qed

lemma key_of_modifier:
  assumes "modifier_key x"
  shows "WithoutAttr (key_of sh kc) = x \<longleftrightarrow> kKeyCodeTable ! (unat kc mod 128) = x \<and> unat kc < 128"
    "WithoutAttr (key_of sh kc) = x OR kMaskBreak \<longleftrightarrow> kKeyCodeTable ! (unat kc mod 128) = x \<and> 128 \<le> unat kc"
proof -
  let ?i = "unat kc mod 128"
  note P = code_parts[of kc]
  have ok: "entry_ok ?i (kKeyCodeTable ! ?i) (kKeyCodeTableWithShift ! ?i)" by (rule entries_ok) simp
  note M = entry_key_modifier[of "kKeyCodeTable ! ?i" "kKeyCodeTableWithShift ! ?i" x sh "128 \<le> unat kc"]
  have k: "key_of sh kc = entry_key sh (128 \<le> unat kc) (kKeyCodeTable ! ?i) (kKeyCodeTableWithShift ! ?i)"
    unfolding key_of_entry P(1,2) ..
  show "WithoutAttr (key_of sh kc) = x \<longleftrightarrow> kKeyCodeTable ! ?i = x \<and> unat kc < 128"
    "WithoutAttr (key_of sh kc) = x OR kMaskBreak \<longleftrightarrow> kKeyCodeTable ! ?i = x \<and> 128 \<le> unat kc"
    using M ok assms unfolding k entry_ok_def not_le[symmetric] by blast+
qed

lemma key_of_modifiers:
  "WithoutAttr (key_of sh kc) = kShiftL \<longleftrightarrow> kc = 0x2A" "WithoutAttr (key_of sh kc) = kShiftL OR kMaskBreak \<longleftrightarrow> kc = 0xAA"
  "WithoutAttr (key_of sh kc) = kShiftR \<longleftrightarrow> kc = 0x36" "WithoutAttr (key_of sh kc) = kShiftR OR kMaskBreak \<longleftrightarrow> kc = 0xB6"
  "WithoutAttr (key_of sh kc) = kCtrlL \<longleftrightarrow> kc = 0x1D" "WithoutAttr (key_of sh kc) = kCtrlL OR kMaskBreak \<longleftrightarrow> kc = 0x9D"
  "WithoutAttr (key_of sh kc) \<noteq> kCtrlR" "WithoutAttr (key_of sh kc) \<noteq> kCtrlR OR kMaskBreak"
proof -
  have t: "kKeyCodeTable ! (unat kc mod 128) = kShiftL \<longleftrightarrow> unat kc mod 128 = 0x2A"
    "kKeyCodeTable ! (unat kc mod 128) = kShiftR \<longleftrightarrow> unat kc mod 128 = 0x36"
    "kKeyCodeTable ! (unat kc mod 128) = kCtrlL \<longleftrightarrow> unat kc mod 128 = 0x1D"
    "kKeyCodeTable ! (unat kc mod 128) \<noteq> kCtrlR"
    using entries_ok[of "unat kc mod 128"] by (simp_all add: entry_ok_def)
  have lo: "unat kc mod 128 = n \<and> unat kc < 128 \<longleftrightarrow> kc = of_nat n" if "n < 128" for n
    using that code_eq[of n kc] by auto
  have hi: "unat kc mod 128 = n \<and> 128 \<le> unat kc \<longleftrightarrow> kc = of_nat (n + 128)" if "n < 128" for n
    using that code_eq[of "n + 128" kc] code_parts(3)[of kc] by (auto simp: mod_if)
  note m = key_of_modifier[of _ sh kc]
  show "WithoutAttr (key_of sh kc) = kShiftL \<longleftrightarrow> kc = 0x2A" "WithoutAttr (key_of sh kc) = kShiftL OR kMaskBreak \<longleftrightarrow> kc = 0xAA"
    "WithoutAttr (key_of sh kc) = kShiftR \<longleftrightarrow> kc = 0x36" "WithoutAttr (key_of sh kc) = kShiftR OR kMaskBreak \<longleftrightarrow> kc = 0xB6"
    "WithoutAttr (key_of sh kc) = kCtrlL \<longleftrightarrow> kc = 0x1D" "WithoutAttr (key_of sh kc) = kCtrlL OR kMaskBreak \<longleftrightarrow> kc = 0x9D"
    using lo[of "0x2A"] hi[of "0x2A"] lo[of "0x36"] hi[of "0x36"] lo[of "0x1D"] hi[of "0x1D"] by (simp_all add: m t)
  show "WithoutAttr (key_of sh kc) \<noteq> kCtrlR" "WithoutAttr (key_of sh kc) \<noteq> kCtrlR OR kMaskBreak"
    using t(4) by (simp_all add: m)
qed

lemma without_attr_shift: "WithoutAttr (k OR kAttrShift) = WithoutAttr k"
  by (simp add: WithoutAttr_def kMaskAttr_def kAttrShift_def bit.conj_disj_distrib2)

text \<open>The key with make code \<open>m\<close> is held after \<open>codes\<close> if its last code was not a break.\<close>

definition held_step :: "u8 \<Rightarrow> u8 \<Rightarrow> bool \<Rightarrow> bool" where
  "held_step m c h = (if c = m then True else if c = m + 0x80 then False else h)"

definition held :: "u8 \<Rightarrow> u8 list \<Rightarrow> bool" where
  "held m codes = fold (held_step m) codes False"

definition state_bits :: "bool \<Rightarrow> bool \<Rightarrow> u8" where
  "state_bits l r = (if l then 1 else 0) OR (if r then 2 else 0)"

lemma state_bits_track:
  "state_bits l r OR 1 = state_bits True r" "state_bits l r OR 2 = state_bits l True"
  "state_bits l r AND NOT 1 = state_bits False r" "state_bits l r AND NOT 2 = state_bits l False"
  by (cases l; cases r; simp add: state_bits_def)+

lemma ParseKeyCode_state:
  assumes "kb_state_shift k = state_bits sl sr" "kb_state_ctrl k = state_bits cl False"
  shows "kb_state_shift (snd (Keyboard_ParseKeyCode c k)) = state_bits (held_step 0x2A c sl) (held_step 0x36 c sr)"
    "kb_state_ctrl (snd (Keyboard_ParseKeyCode c k)) = state_bits (held_step 0x1D c cl) False"
proof -
  let ?k = "key_of (kb_state_shift k \<noteq> 0) c"
  note K = key_of_modifiers[of "kb_state_shift k \<noteq> 0" c]
  have z: "track kShiftL kShiftR (WithoutAttr ?k) (kb_state_shift k) = kb_state_shift k"
    "track kCtrlL kCtrlR (WithoutAttr ?k) (kb_state_ctrl k) = kb_state_ctrl k" if "?k = 0"
    using that by (simp_all add: track_def WithoutAttr_def kShiftL_def kShiftR_def kCtrlL_def kCtrlR_def kMaskBreak_def ext_key_def kMaskExtended_def)
  have "kb_state_shift (snd (Keyboard_ParseKeyCode c k)) = track kShiftL kShiftR (WithoutAttr ?k) (kb_state_shift k)"
    "kb_state_ctrl (snd (Keyboard_ParseKeyCode c k)) = track kCtrlL kCtrlR (WithoutAttr ?k) (kb_state_ctrl k)"
    using z by (simp_all add: Keyboard_ParseKeyCode_def Let_def without_attr_shift)
  note S = this[unfolded track_def K(1-6) K(7,8)[THEN eq_False[THEN iffD2]] if_False, unfolded assms state_bits_track]
  show "kb_state_shift (snd (Keyboard_ParseKeyCode c k)) = state_bits (held_step 0x2A c sl) (held_step 0x36 c sr)"
    "kb_state_ctrl (snd (Keyboard_ParseKeyCode c k)) = state_bits (held_step 0x1D c cl) False"
    unfolding S held_step_def by auto
qed

definition parse_codes :: "u8 list \<Rightarrow> keyboard \<Rightarrow> keyboard" where
  "parse_codes codes k = fold (\<lambda>c k. snd (Keyboard_ParseKeyCode c k)) codes k"

lemma parse_codes_state:
  assumes "kb_state_shift k = state_bits sl sr" "kb_state_ctrl k = state_bits cl False"
  shows "kb_state_shift (parse_codes codes k) = state_bits (fold (held_step 0x2A) codes sl) (fold (held_step 0x36) codes sr) \<and>
    kb_state_ctrl (parse_codes codes k) = state_bits (fold (held_step 0x1D) codes cl) False"
  using assms
proof (induction codes arbitrary: k sl sr cl)
  case (Cons c codes)
  from Cons.IH[OF ParseKeyCode_state[OF Cons.prems]] show ?case by (simp add: parse_codes_def)
qed (simp add: parse_codes_def)

lemma parse_codes_Init:
  "kb_state_shift (parse_codes codes (Keyboard_Init s)) = state_bits (held 0x2A codes) (held 0x36 codes)"
  "kb_state_ctrl (parse_codes codes (Keyboard_Init s)) = state_bits (held 0x1D codes) False"
  using parse_codes_state[of "Keyboard_Init s" False False False codes]
  by (simp_all add: Keyboard_Init_def state_bits_def held_def)

lemma state_bits_zero: "state_bits l r = 0 \<longleftrightarrow> \<not> l \<and> \<not> r"
  by (simp add: state_bits_def)

text \<open>The make code of a letter.\<close>

lemma letter_codes:
  "i < 128 \<Longrightarrow> 65 \<le> kKeyCodeTable ! i \<Longrightarrow> kKeyCodeTable ! i \<le> 90 \<Longrightarrow> kKeyCodeTableWithShift ! i = 0"
proof -
  have "list_all (\<lambda>(e, es). 65 \<le> e \<and> e \<le> 90 \<longrightarrow> es = 0) (zip kKeyCodeTable kKeyCodeTableWithShift)"
    unfolding table_values by simp
  then show "i < 128 \<Longrightarrow> 65 \<le> kKeyCodeTable ! i \<Longrightarrow> kKeyCodeTable ! i \<le> 90 \<Longrightarrow> kKeyCodeTableWithShift ! i = 0"
    by (simp add: list_all_length tables_length)
qed

lemma track_char: "\<not> bit k 14 \<Longrightarrow> modifier_key x \<Longrightarrow> modifier_key y \<Longrightarrow> track x y k st = st"
  by (auto simp: track_def modifier_key_def bit_simps)

lemma ParseKeyCode_letter:
  assumes "unat c < 128" "kKeyCodeTable ! unat c = l" "65 \<le> l" "l \<le> 90"
  shows "fst (Keyboard_ParseKeyCode c k) =
    (if kb_state_shift k \<noteq> 0 then l OR kAttrShift else l + 0x20) OR (if kb_state_ctrl k \<noteq> 0 then kAttrCtrl else 0)"
proof -
  have s: "kKeyCodeTableWithShift ! unat c = 0" using letter_codes[of "unat c"] assms by simp
  have n: "l \<noteq> 0" using assms(3) by auto
  have k: "key_of sh c = (if sh then l else l + 0x20)" for sh
    using assms s n code_parts[of c] unfolding key_of_entry by (simp add: entry_key_def)
  have "unat l + 32 < 2 ^ 16" using assms(4) by (simp add: word_le_nat_alt)
  then have "l + 0x20 \<noteq> 0" by (auto simp: unat_eq_0[symmetric] unat_plus_less)
  moreover have "\<not> bit l 14" "\<not> bit (l + 0x20) 14"
    using assms(4) by (auto intro!: small_not_bit simp: word_le_nat_alt unat_plus_less)
  ultimately show ?thesis using n
    by (simp add: Keyboard_ParseKeyCode_def k Let_def track_char bit_without_attr without_attr_shift)
qed


section \<open>Reading keys\<close>

text \<open>What \<open>ReadKeyID\<close> promises: the first key that the waiting codes give, and the codes left.\<close>

primrec first_key :: "u8 list \<Rightarrow> keyboard \<Rightarrow> u16 \<times> u8 \<times> u8 \<times> u8 list" where
  "first_key [] k = (0, kb_state_shift k, kb_state_ctrl k, [])"
| "first_key (c # cs) k =
     (case Keyboard_ParseKeyCode c k of (keyid, k') \<Rightarrow>
        if keyid \<noteq> 0 then (keyid, kb_state_shift k', kb_state_ctrl k', cs) else first_key cs k')"

lemma ParseKeyCode_buffer:
  "Keyboard_ParseKeyCode c (k\<lparr>kb_keycode_buffer := b\<rparr>) =
     (fst (Keyboard_ParseKeyCode c k), (snd (Keyboard_ParseKeyCode c k))\<lparr>kb_keycode_buffer := b\<rparr>)"
  by (simp add: Keyboard_ParseKeyCode_def Let_def)

lemma first_key_buffer: "first_key cs (k\<lparr>kb_keycode_buffer := b\<rparr>) = first_key cs k"
  by (induction cs arbitrary: k) (simp_all add: ParseKeyCode_buffer split: prod.splits)

definition key_outcome :: "u16 \<times> keyboard \<Rightarrow> u16 \<times> u8 \<times> u8 \<times> u8 list" where
  "key_outcome r = (fst r, kb_state_shift (snd r), kb_state_ctrl (snd r), rb_contents 16 (kb_keycode_buffer (snd r)))"

lemma read_keys_first_key:
  assumes "rb_wf 16 (kb_keycode_buffer k)" "length (rb_contents 16 (kb_keycode_buffer k)) \<le> fuel"
  shows "rb_wf 16 (kb_keycode_buffer (snd (read_keys fuel k))) \<and>
    key_outcome (read_keys fuel k) = first_key (rb_contents 16 (kb_keycode_buffer k)) k"
  using assms
proof (induction fuel arbitrary: k)
  case (Suc fuel)
  let ?b = "kb_keycode_buffer k"
  show ?case
  proof (cases "rb_contents 16 ?b")
    case Nil
    then show ?thesis using Suc.prems by (simp add: rb16.is_empty_iff key_outcome_def)
  next
    case (Cons c cs)
    obtain b where pop: "RingBuffer_Pop 16 0 ?b = (c, b)" "rb_wf 16 b" "rb_contents 16 b = cs"
      using Suc.prems(1) Cons rb16.pop_fst[of ?b 0] rb16.pop_snd[of ?b 0] rb16.pop_wf[of ?b 0]
      by (cases "RingBuffer_Pop 16 0 ?b") auto
    obtain i k' where p: "Keyboard_ParseKeyCode c k = (i, k')" by fastforce
    have ne: "\<not> RingBuffer_IsEmpty ?b" using Suc.prems(1) Cons by (simp add: rb16.is_empty_iff)
    let ?k' = "k'\<lparr>kb_keycode_buffer := b\<rparr>"
    have "i = 0 \<Longrightarrow> rb_wf 16 (kb_keycode_buffer (snd (read_keys fuel ?k'))) \<and> key_outcome (read_keys fuel ?k') = first_key cs k'"
      using Suc.IH[of ?k'] Suc.prems(2) Cons pop by (simp add: first_key_buffer)
    then show ?thesis using Cons pop p ne by (auto simp: ParseKeyCode_buffer key_outcome_def)
  qed
qed (simp add: key_outcome_def)

lemma first_key_drains: "fst (first_key cs k) = 0 \<Longrightarrow> snd (snd (snd (first_key cs k))) = []"
  by (induction cs arbitrary: k) (auto split: prod.splits if_splits)

lemma contents_le_16: "rb_wf 16 b \<Longrightarrow> length (rb_contents 16 b) \<le> 16"
  using rb_count_less[of 16 b] by (simp add: rb_contents_def)

section \<open>Properties\<close>

text \<open>
  C37: the keyboard driver tracks the modifier keys.  After any sequence of scan codes the shift
  state is that of the two shift keys (a key is held if its last code was its make code), the
  control state that of the left control key, and the make code of a letter then gives the upper
  case letter with the shift attribute if a shift key is held and the lower case letter otherwise,
  with the control attribute if control is held.
\<close>

theorem keyboard_modifiers:
  assumes "unat c < 128" "kKeyCodeTable ! unat c = l" "65 \<le> l" "l \<le> 90"
    and "k = parse_codes codes (Keyboard_Init storage)"
  shows "kb_state_shift k = state_bits (held 0x2A codes) (held 0x36 codes) \<and>
    kb_state_ctrl k = state_bits (held 0x1D codes) False \<and>
    fst (Keyboard_ParseKeyCode c k) =
      (if held 0x2A codes \<or> held 0x36 codes then l OR kAttrShift else l + 0x20)
        OR (if held 0x1D codes then kAttrCtrl else 0)"
  using ParseKeyCode_letter[OF assms(1-4), of k] parse_codes_Init[of codes storage]
  unfolding assms(5) by (simp add: state_bits_zero)

theorem keyboard_modifiers_witness:
  "fst (Keyboard_ParseKeyCode 0x1E (parse_codes [0x2A, 0x36, 0xAA, 0x1D] (Keyboard_Init (replicate 16 0)))) = 0x341"
  using keyboard_modifiers[of "0x1E" 65 _ "[0x2A, 0x36, 0xAA, 0x1D]" "replicate 16 0", OF _ _ _ _ refl]
  by (simp add: table_values held_def held_step_def kAttrShift_def kAttrCtrl_def)

text \<open>
  \<open>ReadKeyID\<close> returns the first key that the waiting scan codes give, in the order in which
  the interrupt handler stored them, and leaves the codes behind it in the buffer; it returns 0
  only when every waiting code has been consumed.
\<close>

theorem ReadKeyID_first_key:
  assumes "rb_wf 16 (kb_keycode_buffer k)"
  shows "key_outcome (Keyboard_ReadKeyID k) = first_key (rb_contents 16 (kb_keycode_buffer k)) k \<and>
    (fst (Keyboard_ReadKeyID k) = 0 \<longrightarrow> rb_contents 16 (kb_keycode_buffer (snd (Keyboard_ReadKeyID k))) = [])"
proof -
  have o: "key_outcome (Keyboard_ReadKeyID k) = first_key (rb_contents 16 (kb_keycode_buffer k)) k"
    using read_keys_first_key[OF assms contents_le_16[OF assms]] by (simp add: Keyboard_ReadKeyID_def)
  show ?thesis using o first_key_drains[of "rb_contents 16 (kb_keycode_buffer k)" k]
    by (auto simp: key_outcome_def simp flip: o)
qed

theorem ReadKeyID_first_key_witness:
  "fst (key_outcome (Keyboard_ReadKeyID (fold Keyboard_IntHandlerSub [0x55, 0x1E, 0x1F] (Keyboard_Init (replicate 16 0))))) = 97"
proof -
  let ?k = "fold Keyboard_IntHandlerSub [0x55, 0x1E, 0x1F] (Keyboard_Init (replicate 16 0))"
  have c: "rb_contents 16 (kb_keycode_buffer ?k) = [0x55, 0x1E, 0x1F]" by code_simp
  have "rb_wf 16 (kb_keycode_buffer ?k)" by code_simp
  from ReadKeyID_first_key[OF this] show ?thesis unfolding c by code_simp
qed

end
