(* ===== verification/Console_Input.thy ===== *)
theory Console_Input
  imports Keyboard Port_IO
begin

text \<open>
Input to the console: \<open>GetCharWithoutBlocking\<close> of src/src/console.cc, which asks the keyboards and
  the serial port, and the line editor of src/src/text_box.h and text_box.cc.
\<close>

section \<open>Reading characters\<close>

text \<open>The queue of keys which the USB keyboards have produced.\<close>

definition ReadKeyboardInput :: "u16 ring_buffer \<Rightarrow> u16 \<times> u16 ring_buffer" where
  "ReadKeyboardInput keyid_buffer =
     (if RingBuffer_IsEmpty keyid_buffer then (0, keyid_buffer) else RingBuffer_Pop 16 0 keyid_buffer)"

record input_world =
  iw_keyboard :: keyboard
  iw_usb :: "u16 ring_buffer"
  iw_io :: port_io

text \<open>A key from either keyboard, or 0; the second one is asked only if the first has none.\<close>

definition read_keyboards :: "input_world \<Rightarrow> u16 \<times> input_world" where
  "read_keyboards w =
     (case Keyboard_ReadKeyID (iw_keyboard w) of (keyid, kb) \<Rightarrow>
      if keyid \<noteq> 0 then (keyid, w\<lparr>iw_keyboard := kb\<rparr>)
      else case ReadKeyboardInput (iw_usb w) of (keyid, q) \<Rightarrow> (keyid, w\<lparr>iw_keyboard := kb, iw_usb := q\<rparr>))"

text \<open>
  A character from the serial port: \<open>None\<close> if none has been received.  The \<open>char\<close> is converted to
  \<open>uint16_t\<close> with its sign.
\<close>

definition read_serial :: "ports \<Rightarrow> u16 option \<Rightarrow> port_io \<Rightarrow> u16 option \<times> port_io" where
  "read_serial inp serial_port io =
     (case serial_port of None \<Rightarrow> (None, io)
      | Some port \<Rightarrow>
        case SerialPort_IsReceived inp port io of (r, io1) \<Rightarrow>
          if \<not> r then (None, io1)
          else case SerialPort_ReadCharReceived inp port io1 of (c, io2) \<Rightarrow> (Some (scast c), io2))"

partial_function (option) Console_GetCharWithoutBlocking ::
    "ports \<Rightarrow> u16 option \<Rightarrow> input_world \<Rightarrow> (u16 \<times> input_world) option" where
  "Console_GetCharWithoutBlocking inp serial_port w =
     (case read_keyboards w of (keyid, w1) \<Rightarrow>
      if keyid \<noteq> 0 then
        if keyid = 0 \<and> keyid AND kMaskBreak \<noteq> 0 then Console_GetCharWithoutBlocking inp serial_port w1
        else if keyid = kEnter then Some (0x0A, w1)
        else Some (keyid, w1)
      else case read_serial inp serial_port (iw_io w1) of (received, io) \<Rightarrow>
        let w2 = w1\<lparr>iw_io := io\<rparr> in
        case received of
          None \<Rightarrow> Some (kNoInput, w2)
        | Some keyid \<Rightarrow>
            if keyid = 0x0A then Console_GetCharWithoutBlocking inp serial_port w2
            else if keyid = 0x0D then Some (0x0A, w2)
            else if keyid = 0x7F then Some (kBackspace, w2)
            else Some (keyid, w2))"

declare Console_GetCharWithoutBlocking.simps [code]

text \<open>The \<open>n\<close>-th read starts a round in which the serial port delivers a newline.\<close>

definition newline_at :: "ports \<Rightarrow> u16 \<Rightarrow> nat \<Rightarrow> bool" where
  "newline_at inp port n \<longleftrightarrow> inp n (port + 5) AND 1 \<noteq> 0 \<and>
     inp (n + 1) (port + 5) AND 1 \<noteq> 0 \<and> inp (n + 2) port = 0x0A"

lemma read_serial_newline:
  assumes "read_serial inp (Some port) io = (Some 0x0A, io')"
  shows "newline_at inp port (pio_reads io) \<and> io' = io\<lparr>pio_reads := pio_reads io + 3\<rparr>"
proof -
  have s: "scast c = (0x0A :: u16) \<longleftrightarrow> c = 0x0A" for c :: u8
  proof
    assume e: "scast c = (0x0A :: u16)"
    have "ucast (scast c :: u16) = c" by (rule bit_word_eqI) (auto simp: bit_simps)
    then show "c = 0x0A" unfolding e by simp
  qed simp
  show ?thesis using assms
    by (auto simp: read_serial_def SerialPort_IsReceived_def SerialPort_ReadCharReceived_def ReadIOPort8_def s
        newline_at_def split: if_splits)
qed


lemma read_keyboards_io [simp]: "iw_io (snd (read_keyboards w)) = iw_io w"
  by (simp add: read_keyboards_def split: prod.splits)

lemma GetChar_returns_aux:
  assumes "\<not> newline_at inp port (pio_reads (iw_io w) + 3 * k)"
  shows "\<exists>r. Console_GetCharWithoutBlocking inp (Some port) w = Some r"
  using assms
proof (induction k arbitrary: w)
  case 0
  obtain keyid w1 where k: "read_keyboards w = (keyid, w1)" by fastforce
  obtain rc io where s: "read_serial inp (Some port) (iw_io w1) = (rc, io)" by fastforce
  have "iw_io w1 = iw_io w" using k read_keyboards_io[of w] by simp
  then have "rc \<noteq> Some 0x0A" using 0 read_serial_newline[of inp port "iw_io w1" io] s by auto
  then show ?case by (subst Console_GetCharWithoutBlocking.simps) (auto simp: k s Let_def split: option.splits)
next
  case (Suc k)
  obtain keyid w1 where kk: "read_keyboards w = (keyid, w1)" by fastforce
  obtain rc io where s: "read_serial inp (Some port) (iw_io w1) = (rc, io)" by fastforce
  have i: "iw_io w1 = iw_io w" using kk read_keyboards_io[of w] by simp
  have "\<exists>r. Console_GetCharWithoutBlocking inp (Some port) (w1\<lparr>iw_io := io\<rparr>) = Some r" if "rc = Some 0x0A"
    using Suc.IH[of "w1\<lparr>iw_io := io\<rparr>"] Suc.prems read_serial_newline[of inp port "iw_io w1" io] s that i
    by (simp add: algebra_simps)
  then show ?case by (subst Console_GetCharWithoutBlocking.simps) (auto simp: kk s Let_def split: option.splits)
qed

section \<open>The text box\<close>

record text_box =
  tb_buf :: "u8 list"
  tb_buf_used :: nat
  tb_is_recording_enabled :: bool

definition kSizeOfBuffer :: nat where "kSizeOfBuffer = 128"

definition TextBox_new :: "u8 list \<Rightarrow> text_box" where
  "TextBox_new storage = \<lparr>tb_buf = storage, tb_buf_used = 0, tb_is_recording_enabled = False\<rparr>"

definition TextBox_StartRecording :: "text_box \<Rightarrow> text_box" where
  "TextBox_StartRecording b = b\<lparr>tb_buf_used := 0, tb_buf := (tb_buf b)[0 := 0], tb_is_recording_enabled := True\<rparr>"

definition TextBox_StopRecording :: "text_box \<Rightarrow> text_box" where
  "TextBox_StopRecording b = b\<lparr>tb_is_recording_enabled := False\<rparr>"

definition TextBox_GetRecordedString :: "text_box \<Rightarrow> u8 list" where
  "TextBox_GetRecordedString b = takeWhile (\<lambda>c. c \<noteq> 0) (tb_buf b)"

text \<open>The characters echoed with \<open>PutChar\<close> and the new state.\<close>

definition TextBox_putc :: "u16 \<Rightarrow> text_box \<Rightarrow> u8 list \<times> text_box" where
  "TextBox_putc keyid b =
     (if keyid AND kMaskBreak \<noteq> 0 then ([], b)
      else if keyid = kBackspace then
        if tb_is_recording_enabled b then
          if tb_buf_used b = 0 then ([], b)
          else ([0x08], b\<lparr>tb_buf := (tb_buf b)[tb_buf_used b - 1 := 0], tb_buf_used := tb_buf_used b - 1\<rparr>)
        else ([0x08], b)
      else if keyid AND kMaskExtended \<noteq> 0 then ([], b)
      else if tb_is_recording_enabled b then
        if tb_buf_used b \<ge> kSizeOfBuffer then ([], b)
        else ([ucast keyid], b\<lparr>tb_buf := ((tb_buf b)[tb_buf_used b := ucast keyid])[tb_buf_used b + 1 := 0],
                              tb_buf_used := tb_buf_used b + 1\<rparr>)
      else ([ucast keyid], b))"

primrec type_keys :: "u16 list \<Rightarrow> text_box \<Rightarrow> u8 list \<times> text_box" where
  "type_keys [] b = ([], b)"
| "type_keys (k # ks) b = (case TextBox_putc k b of (e, b1) \<Rightarrow> case type_keys ks b1 of (es, b2) \<Rightarrow> (e @ es, b2))"

text \<open>What is recorded: the characters typed, without the ones deleted, up to 128 of them.\<close>

definition edit :: "u16 \<Rightarrow> u8 list \<Rightarrow> u8 list" where
  "edit k t = (if k AND kMaskBreak \<noteq> 0 then t
     else if k = kBackspace then butlast t
     else if k AND kMaskExtended \<noteq> 0 \<or> 128 \<le> length t then t
     else t @ [ucast k])"

text \<open>What a terminal shows after the echo: a backspace deletes the last character.\<close>

definition echoed :: "u8 list \<Rightarrow> u8 list \<Rightarrow> u8 list" where
  "echoed es t = fold (\<lambda>c t. if c = 0x08 then butlast t else t @ [c]) es t"

definition tb_holds :: "u8 list \<Rightarrow> text_box \<Rightarrow> bool" where
  "tb_holds t b \<longleftrightarrow> length (tb_buf b) = 129 \<and> tb_is_recording_enabled b \<and> tb_buf_used b = length t \<and>
     length t \<le> 128 \<and> take (length t) (tb_buf b) = t \<and> tb_buf b ! length t = 0"

lemma putc_holds:
  assumes "tb_holds t b" "TextBox_putc k b = (e, b')"
  shows "tb_holds (edit k t) b'" "length e \<le> 1"
    "(ucast k :: u8) \<noteq> 0x08 \<Longrightarrow> echoed e t = edit k t"
proof -
  have nz: "kBackspace AND kMaskBreak = 0" by (simp add: kBackspace_def ext_key_def kMaskExtended_def kMaskBreak_def)
  have bl: "butlast t = take (length t - 1) (tb_buf b)" if "t \<noteq> []"
  proof -
    have "butlast t = take (length t - 1) t" by (rule butlast_conv_take)
    also have "\<dots> = take (length t - 1) (take (length t) (tb_buf b))" using assms(1) by (simp add: tb_holds_def)
    finally show ?thesis by (simp add: min_def)
  qed
  show "tb_holds (edit k t) b'"
  proof (cases "k = kBackspace")
    case True
    then show ?thesis
    proof (cases "t = []")
      case False
      then show ?thesis using True assms nz bl
        by (auto simp: TextBox_putc_def tb_holds_def edit_def)
    qed (use True assms nz in \<open>auto simp: TextBox_putc_def tb_holds_def edit_def\<close>)
  next
    case False
    have "take (Suc (length t)) (((tb_buf b)[length t := c])[Suc (length t) := 0]) = t @ [c]" if "length t < 128" for c
      using that assms(1) by (simp add: tb_holds_def take_Suc_conv_app_nth)
    then show ?thesis using False assms by (auto simp: TextBox_putc_def tb_holds_def edit_def kSizeOfBuffer_def split: if_splits)
  qed
  show "length e \<le> 1" using assms(2) by (auto simp: TextBox_putc_def split: if_splits)
  show "echoed e t = edit k t" if "(ucast k :: u8) \<noteq> 0x08"
    using that assms nz by (auto simp: TextBox_putc_def tb_holds_def edit_def echoed_def kSizeOfBuffer_def split: if_splits)
qed

lemma type_keys_holds:
  assumes "tb_holds t b" "type_keys ks b = (es, b')" "\<forall>k\<in>set ks. (ucast k :: u8) \<noteq> 0x08"
  shows "tb_holds (fold edit ks t) b' \<and> echoed es t = fold edit ks t"
  using assms
proof (induction ks arbitrary: t b es)
  case (Cons k ks)
  obtain e b1 where 1: "TextBox_putc k b = (e, b1)" by fastforce
  obtain es1 b2 where 2: "type_keys ks b1 = (es1, b2)" by fastforce
  have e: "es = e @ es1" "b' = b2" using Cons.prems(2) 1 2 by simp_all
  have "tb_holds (edit k t) b1" "echoed e t = edit k t" using putc_holds[OF Cons.prems(1) 1] Cons.prems(3) by simp_all
  then show ?case using Cons.IH[of "edit k t" b1 es1] 2 Cons.prems(3) by (simp add: e echoed_def)
qed (simp add: echoed_def)


section \<open>Properties\<close>

text \<open>
  Reading a character returns.  Unless the serial port delivers newlines in every round, the
  loop of \<open>GetCharWithoutBlocking\<close> ends; a key of either keyboard is returned (Enter as a newline)
  before the serial port is looked at.
\<close>

theorem GetChar_returns:
  assumes "\<not> newline_at inp port (pio_reads (iw_io w) + 3 * k)"
  shows "\<exists>c w'. Console_GetCharWithoutBlocking inp (Some port) w = Some (c, w') \<and>
    (fst (read_keyboards w) \<noteq> 0 \<longrightarrow>
      c = (if fst (read_keyboards w) = kEnter then 0x0A else fst (read_keyboards w)) \<and> iw_io w' = iw_io w)"
proof -
  obtain c w' where r: "Console_GetCharWithoutBlocking inp (Some port) w = Some (c, w')"
    using GetChar_returns_aux[OF assms] by fastforce
  obtain keyid w1 where k: "read_keyboards w = (keyid, w1)" by fastforce
  have "Console_GetCharWithoutBlocking inp (Some port) w = Some (if keyid = kEnter then 0x0A else keyid, w1)" if "keyid \<noteq> 0"
    using that by (subst Console_GetCharWithoutBlocking.simps) (simp add: k)
  then show ?thesis using r k read_keyboards_io[of w] by auto
qed

theorem GetChar_returns_witness:
  "\<exists>c w'. Console_GetCharWithoutBlocking (\<lambda>_ _. 0) (Some kPortCOM1)
     \<lparr>iw_keyboard = Keyboard_Init (replicate 16 0), iw_usb = RingBuffer_new (replicate 16 0), iw_io = \<lparr>pio_reads = 0, pio_writes = []\<rparr>\<rparr>
     = Some (c, w')"
  using GetChar_returns[of "\<lambda>_ _. 0" kPortCOM1
      "\<lparr>iw_keyboard = Keyboard_Init (replicate 16 0), iw_usb = RingBuffer_new (replicate 16 0), iw_io = \<lparr>pio_reads = 0, pio_writes = []\<rparr>\<rparr>" 0]
  by (auto simp: newline_at_def)



end
