(* ===== verification/Panic_Printer.thy ===== *)
theory Panic_Printer
  imports String_Buffer Port_IO Sheet_Painting
begin

text \<open>
The panic printer of src/src/panic_printer.h and its users \<open>Panic\<close> and \<open>__assert\<close> of
  src/src/generic.cc: what reaches the serial port when the kernel stops.
\<close>

section \<open>The panic printer\<close>

record panic_printer =
  pp_sheet :: "sid option"
  pp_serial :: "u16 option"
  pp_in_progress :: bool
  pp_str_buf :: string_buffer

definition kBufSize :: nat where "kBufSize = 1024"

definition PanicPrinter_Init :: "u8 list \<Rightarrow> sid \<Rightarrow> u16 \<Rightarrow> panic_printer" where
  "PanicPrinter_Init storage sheet serial =
     \<lparr>pp_sheet = Some sheet, pp_serial = Some serial, pp_in_progress = False, pp_str_buf = StringBuffer_new storage\<rparr>"

definition PanicPrinter_PrintLine :: "u8 list \<Rightarrow> panic_printer \<Rightarrow> panic_printer" where
  "PanicPrinter_PrintLine s pp =
     pp\<lparr>pp_str_buf := WriteString kBufSize [0x0A] (WriteString kBufSize s (pp_str_buf pp))\<rparr>"

text \<open>\<open>junk\<close> is the uninitialised storage of the local buffer of 128 characters.\<close>

definition PanicPrinter_PrintLineWithHex :: "u8 list \<Rightarrow> u8 list \<Rightarrow> u64 \<Rightarrow> panic_printer \<Rightarrow> panic_printer res" where
  "PanicPrinter_PrintLineWithHex junk s v pp =
     (let line = WriteHex64 128 v 1 (WriteString 128 (bytes '': 0x'') (WriteString 128 s (StringBuffer_new junk))) in
      bind_res (GetString line) (\<lambda>(t, _). Ok (PanicPrinter_PrintLine t pp)))"

definition PanicPrinter_PrintLineWithDecimal :: "u8 list \<Rightarrow> u8 list \<Rightarrow> u64 \<Rightarrow> panic_printer \<Rightarrow> panic_printer res" where
  "PanicPrinter_PrintLineWithDecimal junk s v pp =
     bind_res (WriteDecimal64 128 v (WriteString 128 (bytes '': '') (WriteString 128 s (StringBuffer_new junk)))) (\<lambda>line.
     bind_res (GetString line) (\<lambda>(t, _). Ok (PanicPrinter_PrintLine t pp)))"

text \<open>Drawing: one row of characters, and the rows from \<open>cursor_y\<close> on.\<close>

primrec panic_row ::
    "(u8 \<Rightarrow> nat \<Rightarrow> u8) \<Rightarrow> sid \<Rightarrow> int \<Rightarrow> nat \<Rightarrow> int \<Rightarrow> u8 list \<Rightarrow> sheets \<Rightarrow> (u8 list \<times> sheets) res" where
  "panic_row font sheet cursor_y 0 x s st = Ok (s, st)"
| "panic_row font sheet cursor_y (Suc n) x s st =
     (case s of [] \<Rightarrow> Ok (s, st)
      | c # cs \<Rightarrow> if c = 0x0A then Ok (cs, st)
                 else bind_res (SheetPainter_DrawCharacterForeground font sheet c (x * 8) cursor_y 0xFFFFFF False st)
                        (panic_row font sheet cursor_y n (x + 1) cs))"

function panic_rows ::
    "(u8 \<Rightarrow> nat \<Rightarrow> u8) \<Rightarrow> sid \<Rightarrow> int \<Rightarrow> int \<Rightarrow> int \<Rightarrow> u8 list \<Rightarrow> sheets \<Rightarrow> sheets res" where
  "panic_rows font sheet xsize ysize cursor_y s st =
     (if s = [] then Ok st
      else bind_res (SheetPainter_DrawRect sheet 0 cursor_y xsize 16 0x800000 False st) (\<lambda>st.
           bind_res (panic_row font sheet cursor_y (nat (xsize div 8)) 0 s st) (\<lambda>(s, st).
           if cursor_y + 16 + 16 > ysize then Ok st
           else panic_rows font sheet xsize ysize (cursor_y + 16) s st)))"
  by pat_completeness auto

termination
  by (relation "measure (\<lambda>(font, sheet, xsize, ysize, cursor_y, s, st). nat (ysize - cursor_y))") auto

text \<open>A printer without a sheet dies after the serial output.\<close>

definition PanicPrinter_Flush ::
    "ports \<Rightarrow> (u8 \<Rightarrow> nat \<Rightarrow> u8) \<Rightarrow> panic_printer \<Rightarrow> port_io \<Rightarrow> sheets \<Rightarrow> (port_io \<times> sheets) res" where
  "PanicPrinter_Flush inp font pp io st =
     bind_res (GetString (pp_str_buf pp)) (\<lambda>(s, _).
     bind_res (case pp_serial pp of None \<Rightarrow> Ok io | Some port \<Rightarrow> SerialPort_SendChars inp port s io) (\<lambda>io'.
     case pp_sheet pp of None \<Rightarrow> Ok (io', st)
     | Some sheet \<Rightarrow>
         bind_res (panic_rows font sheet (rect_xsize (sh_rect (st sheet))) (rect_ysize (sh_rect (st sheet))) 0 s st)
           (\<lambda>st'. Ok (io', st'))))"

text \<open>The machine stops, with the output made so far, or goes on.\<close>

datatype 'a stop = Stopped port_io sheets | Goes_On 'a

definition PanicPrinter_BeginPanic ::
    "ports \<Rightarrow> (u8 \<Rightarrow> nat \<Rightarrow> u8) \<Rightarrow> panic_printer option \<Rightarrow> port_io \<Rightarrow> sheets \<Rightarrow> panic_printer stop res" where
  "PanicPrinter_BeginPanic inp font ppo io st =
     (case ppo of None \<Rightarrow> Ok (Stopped io st)
      | Some pp \<Rightarrow>
        if pp_sheet pp = None \<or> pp_serial pp = None then Ok (Stopped io st)
        else if pp_in_progress pp then
          bind_res (PanicPrinter_Flush inp font
              (PanicPrinter_PrintLine (bytes ''BeginPanic() called during panic printing. Double fault?'') pp) io st)
            (\<lambda>(io, st). Ok (Stopped io st))
        else Ok (Goes_On (PanicPrinter_PrintLine (bytes ''---- Begin Panic ----'') (pp\<lparr>pp_in_progress := True\<rparr>))))"

definition PanicPrinter_EndPanicAndDie ::
    "ports \<Rightarrow> (u8 \<Rightarrow> nat \<Rightarrow> u8) \<Rightarrow> u8 list \<Rightarrow> panic_printer \<Rightarrow> port_io \<Rightarrow> sheets \<Rightarrow> (port_io \<times> sheets) res" where
  "PanicPrinter_EndPanicAndDie inp font s pp io st =
     PanicPrinter_Flush inp font
       (PanicPrinter_PrintLine (bytes ''----  End  Panic ----'') (PanicPrinter_PrintLine s pp)) io st"

definition Panic_run ::
    "ports \<Rightarrow> (u8 \<Rightarrow> nat \<Rightarrow> u8) \<Rightarrow> u8 list \<Rightarrow> panic_printer option \<Rightarrow> port_io \<Rightarrow> sheets \<Rightarrow> (port_io \<times> sheets) res" where
  "Panic_run inp font s ppo io st =
     bind_res (PanicPrinter_BeginPanic inp font ppo io st) (\<lambda>r. case r of
       Stopped io st \<Rightarrow> Ok (io, st)
     | Goes_On pp \<Rightarrow> PanicPrinter_EndPanicAndDie inp font (bytes ''halt...'') (PanicPrinter_PrintLine s pp) io st)"

definition assert_failed ::
    "ports \<Rightarrow> (u8 \<Rightarrow> nat \<Rightarrow> u8) \<Rightarrow> u8 list \<Rightarrow> u8 list \<Rightarrow> u8 list \<Rightarrow> u64 \<Rightarrow> panic_printer option \<Rightarrow> port_io \<Rightarrow> sheets \<Rightarrow> (port_io \<times> sheets) res" where
  "assert_failed inp font junk expr_str file line ppo io st =
     bind_res (PanicPrinter_BeginPanic inp font ppo io st) (\<lambda>r. case r of
       Stopped io st \<Rightarrow> Ok (io, st)
     | Goes_On pp \<Rightarrow>
         bind_res (PanicPrinter_PrintLineWithDecimal junk (bytes ''line'') line
           (fold PanicPrinter_PrintLine [bytes ''Assertion failed:'', expr_str, file] pp)) (\<lambda>pp.
         PanicPrinter_EndPanicAndDie inp font (bytes ''halt...'') pp io st))"

section \<open>What is reported\<close>

definition pp_text :: "panic_printer \<Rightarrow> u8 list" where
  "pp_text pp = sb_text (pp_str_buf pp)"

definition pp_wf :: "panic_printer \<Rightarrow> bool" where
  "pp_wf pp \<longleftrightarrow> sb_wf kBufSize (pp_str_buf pp) \<and> 0 \<notin> set (pp_text pp)"

lemma PrintLine_text:
  assumes "pp_wf pp" "0 \<notin> set s"
  shows "pp_wf (PanicPrinter_PrintLine s pp)"
    "pp_text (PanicPrinter_PrintLine s pp) = take kBufSize (pp_text pp @ s @ [0x0A])"
    "pp_sheet (PanicPrinter_PrintLine s pp) = pp_sheet pp" "pp_serial (PanicPrinter_PrintLine s pp) = pp_serial pp"
proof -
  have "appends kBufSize (WriteString kBufSize [0x0A] \<circ> WriteString kBufSize s) (s @ [0x0A])"
    by (intro appends_comp appends_String)
  then have "sb_wf kBufSize (pp_str_buf (PanicPrinter_PrintLine s pp)) \<and>
      sb_text (pp_str_buf (PanicPrinter_PrintLine s pp)) = take kBufSize (pp_text pp @ s @ [0x0A])"
    using assms(1) by (simp add: appends_def PanicPrinter_PrintLine_def pp_wf_def pp_text_def bytes_def of_char_def)
  then show "pp_wf (PanicPrinter_PrintLine s pp)" "pp_text (PanicPrinter_PrintLine s pp) = take kBufSize (pp_text pp @ s @ [0x0A])"
    using assms by (auto simp: pp_wf_def pp_text_def dest!: in_set_takeD)
qed (simp_all add: PanicPrinter_PrintLine_def)

lemma panic_row_ok: "\<exists>r. panic_row font sheet y n x s st = Ok r \<and> (\<forall>t. sh_rect (snd r t) = sh_rect (st t))"
proof (induction n arbitrary: x s st)
  case (Suc n)
  show ?case
  proof (cases s)
    case (Cons c cs)
    obtain st1 where d: "SheetPainter_DrawCharacterForeground font sheet c (x * 8) y 0xFFFFFF False st = Ok st1"
      "\<forall>t. sh_rect (st1 t) = sh_rect (st t)"
      by (simp add: SheetPainter_DrawCharacterForeground_def flush_if_def)
    then show ?thesis using Suc[of "x + 1" cs st1] Cons by auto
  qed auto
qed auto

lemma panic_rows_ok: "0 \<le> xsize \<Longrightarrow> \<exists>st'. panic_rows font sheet xsize ysize y s st = Ok st'"
proof (induction font sheet xsize ysize y s st rule: panic_rows.induct)
  case (1 font sheet xsize ysize y s st)
  let ?st1 = "set_buf sheet (fill_rect (sh_pixels_per_scan_line (st sheet)) 0 y xsize 16 0x800000 (sh_buf (st sheet))) st"
  have d: "SheetPainter_DrawRect sheet 0 y xsize 16 0x800000 False st = Ok ?st1"
    using "1.prems" by (simp add: SheetPainter_DrawRect_def flush_if_def check_that_def)
  obtain s2 st2 where r: "panic_row font sheet y (nat (xsize div 8)) 0 s ?st1 = Ok (s2, st2)"
    using panic_row_ok[of font sheet y "nat (xsize div 8)" 0 s ?st1] by fastforce
  show ?case using "1.IH"[of ?st1 "(s2, st2)" s2 st2] "1.prems" d r by (subst panic_rows.simps) auto
qed

lemma Flush_reports:
  assumes "pp_wf pp" "pp_serial pp = Some port" "pp_sheet pp = Some sheet" "0 \<le> rect_xsize (sh_rect (st sheet))"
    and "responsive inp (port + 5) transmit_empty"
  shows "\<exists>io' st'. PanicPrinter_Flush inp font pp io st = Ok (io', st') \<and> sent port io' = sent port io @ pp_text pp"
proof -
  obtain b' where "GetString (pp_str_buf pp) = Ok (pp_text pp, b')"
    using GetString_text[of kBufSize "pp_str_buf pp"] assms(1) by (auto simp: pp_wf_def pp_text_def)
  then show ?thesis
    using SendChars_returns[OF assms(5), of "pp_text pp" io] panic_rows_ok[OF assms(4), of font sheet "rect_ysize (sh_rect (st sheet))" 0 "pp_text pp" st]
      assms(2,3) by (auto simp: PanicPrinter_Flush_def)
qed


definition as_lines :: "u8 list list \<Rightarrow> u8 list" where
  "as_lines ls = concat (map (\<lambda>l. l @ [0x0A]) ls)"

lemma PrintLines_text:
  assumes "pp_wf pp" "\<forall>l\<in>set ls. 0 \<notin> set l"
  shows "pp_wf (fold PanicPrinter_PrintLine ls pp) \<and>
    pp_text (fold PanicPrinter_PrintLine ls pp) = take kBufSize (pp_text pp @ as_lines ls) \<and>
    pp_sheet (fold PanicPrinter_PrintLine ls pp) = pp_sheet pp \<and> pp_serial (fold PanicPrinter_PrintLine ls pp) = pp_serial pp"
  using assms
proof (induction ls arbitrary: pp)
  case Nil
  have "length (pp_text pp) \<le> kBufSize" using Nil by (simp add: pp_wf_def sb_wf_def pp_text_def sb_text_def)
  then show ?case using Nil by (simp add: as_lines_def)
next
  case (Cons l ls)
  have "0 \<notin> set l" using Cons.prems by simp
  note P = PrintLine_text[OF Cons.prems(1) this]
  have "take kBufSize (take kBufSize (pp_text pp @ l @ [0x0A]) @ as_lines ls) = take kBufSize (pp_text pp @ as_lines (l # ls))"
    unfolding take_take_append by (simp add: as_lines_def)
  then show ?case using Cons.IH[OF P(1)] Cons.prems(2) P by simp
qed

lemma fixed_lines:
  "0 \<notin> set (bytes ''---- Begin Panic ----'')" "0 \<notin> set (bytes ''----  End  Panic ----'')" "0 \<notin> set (bytes ''halt...'')"
  "0 \<notin> set (bytes ''Assertion failed:'')" "0 \<notin> set (bytes ''line'')" "0 \<notin> set (bytes '': '')"
  by (simp_all add: bytes_def of_char_def)

lemma PrintLineWithDecimal_line:
  assumes "length junk = 129" "0 \<notin> set s"
  shows "\<exists>t. PanicPrinter_PrintLineWithDecimal junk s v pp = Ok (PanicPrinter_PrintLine t pp) \<and>
    t = take 128 (s @ bytes '': '' @ dec_text (unat v)) \<and> 0 \<notin> set t"
proof -
  let ?t = "take 128 (s @ bytes '': '' @ dec_text (unat v))"
  obtain dw where dw: "\<And>b. WriteDecimal64 128 v b = Ok (dw b)" "appends 128 dw (dec_text (unat v))"
    using appends_Decimal64 by blast
  have "appends 128 (dw \<circ> (WriteString 128 (bytes '': '') \<circ> WriteString 128 s)) ((s @ bytes '': '') @ dec_text (unat v))"
    by (intro appends_comp appends_String dw(2))
  moreover have "sb_wf 128 (StringBuffer_new junk)" using assms(1) by (simp add: sb_text_new)
  ultimately have f: "sb_wf 128 (dw (WriteString 128 (bytes '': '') (WriteString 128 s (StringBuffer_new junk))))"
      "sb_text (dw (WriteString 128 (bytes '': '') (WriteString 128 s (StringBuffer_new junk)))) = ?t"
    by (auto simp: appends_def sb_text_new)
  have "0 \<notin> set (dec_text (unat v))" using dec_text_digits[of 0 "unat v"] by (auto simp: is_digit_def)
  then have nz: "0 \<notin> set ?t" using assms(2) fixed_lines(6) by (auto dest!: in_set_takeD)
  then obtain b' where "GetString (dw (WriteString 128 (bytes '': '') (WriteString 128 s (StringBuffer_new junk)))) = Ok (?t, b')"
    using GetString_text[OF f(1)] f(2) by auto
  then show ?thesis using dw(1) nz by (simp add: PanicPrinter_PrintLineWithDecimal_def)
qed

lemma PrintLineWithHex_line:
  assumes "length junk = 129" "0 \<notin> set s"
  shows "\<exists>t. PanicPrinter_PrintLineWithHex junk s v pp = Ok (PanicPrinter_PrintLine t pp) \<and>
    t = take 128 (s @ bytes '': 0x'' @ hex_digits v (hex_count v 1)) \<and> 0 \<notin> set t"
proof -
  let ?h = "hex_digits v (hex_count v 1)"
  let ?t = "take 128 (s @ bytes '': 0x'' @ ?h)"
  let ?l = "WriteHex64 128 v 1 (WriteString 128 (bytes '': 0x'') (WriteString 128 s (StringBuffer_new junk)))"
  have "appends 128 (WriteHex64 128 v 1 \<circ> (WriteString 128 (bytes '': 0x'') \<circ> WriteString 128 s)) ((s @ bytes '': 0x'') @ ?h)"
    by (intro appends_comp appends_String appends_Hex64)
  moreover have "sb_wf 128 (StringBuffer_new junk)" using assms(1) by (simp add: sb_text_new)
  ultimately have f: "sb_wf 128 ?l" "sb_text ?l = ?t" by (auto simp: appends_def sb_text_new)
  have nib: "hex_char (nibble v i) \<noteq> 0" for i by (rule hex_char_nz) (simp add: unat_nibble)
  have "0 \<notin> set (bytes '': 0x'')" by (simp add: bytes_def of_char_def)
  then have nz: "0 \<notin> set ?t" using assms(2) nib by (auto simp: hex_digits_def dest!: in_set_takeD)
  then obtain b' where "GetString ?l = Ok (?t, b')" using GetString_text[OF f(1)] f(2) by auto
  then show ?thesis using nz by (simp add: PanicPrinter_PrintLineWithHex_def)
qed

lemma Init_wf:
  assumes "length storage = 1025"
  shows "pp_wf ((PanicPrinter_Init storage sheet port)\<lparr>pp_in_progress := True\<rparr>)"
    "pp_text ((PanicPrinter_Init storage sheet port)\<lparr>pp_in_progress := True\<rparr>) = []"
  using assms sb_text_new(1)[of storage] sb_text_new(2)[of storage kBufSize] by (simp_all add: pp_wf_def pp_text_def PanicPrinter_Init_def kBufSize_def)

section \<open>Properties\<close>

text \<open>
  A panic is reported.  With a responsive serial port, \<open>Panic\<close> and a failed assertion send
  the banner, the message (for an assertion: the expression, the file and the line number) and the
  closing lines, cut at the 1024 characters of the buffer, and then the machine stops; drawing the
  text on the screen ends for every text and every size of the screen.
\<close>

theorem panic_reports:
  assumes "length storage = 1025" "length junk = 129" "0 \<le> rect_xsize (sh_rect (st sheet))"
    and "responsive inp (port + 5) transmit_empty" "0 \<notin> set msg" "0 \<notin> set expr_str" "0 \<notin> set file"
  shows "(\<exists>io' st'. Panic_run inp font msg (Some (PanicPrinter_Init storage sheet port)) io st = Ok (io', st') \<and>
      sent port io' = sent port io @ take 1024 (as_lines [bytes ''---- Begin Panic ----'', msg, bytes ''halt...'', bytes ''----  End  Panic ----''])) \<and>
    (\<exists>io' st'. assert_failed inp font junk expr_str file line (Some (PanicPrinter_Init storage sheet port)) io st = Ok (io', st') \<and>
      sent port io' = sent port io @ take 1024 (as_lines [bytes ''---- Begin Panic ----'', bytes ''Assertion failed:'', expr_str, file,
        take 128 (bytes ''line'' @ bytes '': '' @ dec_text (unat line)), bytes ''halt...'', bytes ''----  End  Panic ----'']))"
proof
  let ?pp = "(PanicPrinter_Init storage sheet port)\<lparr>pp_in_progress := True\<rparr>"
  have pp: "pp_sheet ?pp = Some sheet" "pp_serial ?pp = Some port" by (simp_all add: PanicPrinter_Init_def)
  have reports: "\<exists>io' st'. PanicPrinter_Flush inp font (fold PanicPrinter_PrintLine ls ?pp) io st = Ok (io', st') \<and>
      sent port io' = sent port io @ take 1024 (as_lines ls)" if "\<forall>l\<in>set ls. 0 \<notin> set l" for ls
    using PrintLines_text[OF Init_wf(1)[OF assms(1), of sheet port] that] Init_wf(2)[OF assms(1), of sheet port] pp
      Flush_reports[of "fold PanicPrinter_PrintLine ls ?pp" port sheet st inp font io] assms(3,4) by (auto simp: kBufSize_def)
  have begins: "PanicPrinter_BeginPanic inp font (Some (PanicPrinter_Init storage sheet port)) io st =
      Ok (Goes_On (PanicPrinter_PrintLine (bytes ''---- Begin Panic ----'') ?pp))"
    by (simp add: PanicPrinter_BeginPanic_def PanicPrinter_Init_def)
  show "\<exists>io' st'. Panic_run inp font msg (Some (PanicPrinter_Init storage sheet port)) io st = Ok (io', st') \<and>
      sent port io' = sent port io @ take 1024 (as_lines [bytes ''---- Begin Panic ----'', msg, bytes ''halt...'', bytes ''----  End  Panic ----''])"
    using reports[of "[bytes ''---- Begin Panic ----'', msg, bytes ''halt...'', bytes ''----  End  Panic ----'']"] assms(5) fixed_lines
    by (simp add: Panic_run_def begins PanicPrinter_EndPanicAndDie_def)
  let ?t = "take 128 (bytes ''line'' @ bytes '': '' @ dec_text (unat line))"
  have t: "0 \<notin> set ?t" "\<And>pp. PanicPrinter_PrintLineWithDecimal junk (bytes ''line'') line pp = Ok (PanicPrinter_PrintLine ?t pp)"
    using PrintLineWithDecimal_line[OF assms(2) fixed_lines(5), of line] by auto
  show "\<exists>io' st'. assert_failed inp font junk expr_str file line (Some (PanicPrinter_Init storage sheet port)) io st = Ok (io', st') \<and>
      sent port io' = sent port io @ take 1024 (as_lines [bytes ''---- Begin Panic ----'', bytes ''Assertion failed:'', expr_str, file, ?t,
        bytes ''halt...'', bytes ''----  End  Panic ----''])"
    using reports[of "[bytes ''---- Begin Panic ----'', bytes ''Assertion failed:'', expr_str, file, ?t, bytes ''halt...'', bytes ''----  End  Panic ----'']"]
      assms(6,7) fixed_lines t
    by (simp add: assert_failed_def begins PanicPrinter_EndPanicAndDie_def)
qed

theorem panic_reports_witness:
  "\<exists>io' st'. Panic_run (\<lambda>_ _. 0x20) (\<lambda>_ _. 0) (bytes ''out of memory'') (Some (PanicPrinter_Init (replicate 1025 0) 1 kPortCOM1)) \<lparr>pio_reads = 0, pio_writes = []\<rparr>
      example_sheets = Ok (io', st') \<and> sent kPortCOM1 io' \<noteq> []"
proof -
  have r: "responsive (\<lambda>_ _. 0x20) (kPortCOM1 + 5) transmit_empty" by (auto simp: responsive_def transmit_empty_def)
  have "0 \<notin> set (bytes ''out of memory'')" by (simp add: bytes_def of_char_def)
  then show ?thesis
    using panic_reports[of "replicate 1025 0" "replicate 129 0" example_sheets 1 "\<lambda>_ _. 0x20" kPortCOM1 "bytes ''out of memory''" "[]" "[]"
        "\<lambda>_ _. 0" "\<lparr>pio_reads = 0, pio_writes = []\<rparr>" 0] r
    by (auto simp: example_sheets_def as_lines_def bytes_def)
qed

end
