(* ===== verification/Process_Lock.thy ===== *)
theory Process_Lock
  imports Panic_Printer Scheduling
begin

text \<open>
The process lock of src/src/process_lock.h and process_lock.cc over \<open>CompareAndExchange64\<close> of
  src/src/sleep_handler.S: how many attempts taking it can need, and mutual exclusion of the
  processes which compete for it.
\<close>

section \<open>The message of the panic\<close>

definition lock_panic_lines :: "u8 list \<Rightarrow> u64 \<Rightarrow> u8 list list res" where
  "lock_panic_lines junk pid =
     (let b = WriteString 128 (bytes '' tried to acquire a lock'')
                (WriteHex64 128 pid 1 (WriteString 128 (bytes ''pid 0x'') (StringBuffer_new junk))) in
      bind_res (GetString b) (\<lambda>(l1, b1).
      let b2 = WriteHex64 128 pid 1 (WriteString 128 (bytes ''which is locked by pid 0x'') (StringBuffer_Clear b1)) in
      bind_res (GetString b2) (\<lambda>(l2, _). Ok [l1, l2])))"

text \<open>One attempt as other processes see it: the exchange is atomic.\<close>

definition cas_step :: "u64 \<Rightarrow> u64 \<Rightarrow> u64 \<Rightarrow> bool \<times> u64" where
  "cas_step expected new locked = (if locked = expected then (True, new) else (False, locked))"

section \<open>Processes competing for the lock\<close>

text \<open>The lock and the processes between a successful \<open>Lock\<close> and their \<open>Unlock\<close>.\<close>

record lock_state =
  ls_locked_by :: u64
  ls_holders :: "u64 set"

inductive lock_step :: "lock_state \<Rightarrow> lock_state \<Rightarrow> bool" where
  acquire: "\<lbrakk>pid \<noteq> 0; pid \<notin> ls_holders s; cas_step 0 pid (ls_locked_by s) = (True, l)\<rbrakk> \<Longrightarrow>
    lock_step s \<lparr>ls_locked_by = l, ls_holders = insert pid (ls_holders s)\<rparr>"
| retry: "\<lbrakk>pid \<noteq> 0; pid \<notin> ls_holders s; cas_step 0 pid (ls_locked_by s) = (False, l)\<rbrakk> \<Longrightarrow>
    lock_step s (s\<lparr>ls_locked_by := l\<rparr>)"
| release: "pid \<in> ls_holders s \<Longrightarrow>
    lock_step s \<lparr>ls_locked_by = ProcessLock_Unlock True (ls_locked_by s), ls_holders = ls_holders s - {pid}\<rparr>"

inductive lock_reach :: "lock_state \<Rightarrow> bool" where
  start: "lock_reach \<lparr>ls_locked_by = 0, ls_holders = {}\<rparr>"
| step: "lock_reach s \<Longrightarrow> lock_step s s' \<Longrightarrow> lock_reach s'"

inductive_cases lock_stepE: "lock_step s s'"

lemma lock_reach_holders:
  "lock_reach s \<Longrightarrow> ls_holders s = (if ls_locked_by s = 0 then {} else {ls_locked_by s})"
proof (induction rule: lock_reach.induct)
  case (step s s')
  from step.hyps(2) step.IH show ?case
    by (elim lock_stepE) (auto simp: cas_step_def ProcessLock_Unlock_def split: if_splits)
qed simp

lemma lock_panic_lines_ok:
  assumes "length junk = 129"
  shows "\<exists>ls. lock_panic_lines junk pid = Ok ls"
proof -
  let ?b = "WriteString 128 (bytes '' tried to acquire a lock'') (WriteHex64 128 pid 1 (WriteString 128 (bytes ''pid 0x'') (StringBuffer_new junk)))"
  have w: "sb_wf 128 (StringBuffer_new junk)" using assms by (simp add: sb_text_new)
  have "appends 128 (WriteString 128 (bytes '' tried to acquire a lock'') \<circ> (WriteHex64 128 pid 1 \<circ> WriteString 128 (bytes ''pid 0x'')))
      ((bytes ''pid 0x'' @ hex_digits pid (hex_count pid 1)) @ bytes '' tried to acquire a lock'')"
    by (intro appends_comp appends_String appends_Hex64)
  then have "sb_wf 128 ?b" using w by (simp add: appends_def)
  then obtain l1 b1 where g1: "GetString ?b = Ok (l1, b1)" "sb_wf 128 b1"
    by (auto simp: GetString_def check_that_def sb_wf_def Let_def)
  let ?c = "WriteHex64 128 pid 1 (WriteString 128 (bytes ''which is locked by pid 0x'') (StringBuffer_Clear b1))"
  have "appends 128 (WriteHex64 128 pid 1 \<circ> WriteString 128 (bytes ''which is locked by pid 0x''))
      (bytes ''which is locked by pid 0x'' @ hex_digits pid (hex_count pid 1))"
    by (intro appends_comp appends_String appends_Hex64)
  then have "sb_wf 128 ?c" using sb_text_Clear(2)[OF g1(2)] by (simp add: appends_def)
  then obtain l2 b2 where "GetString ?c = Ok (l2, b2)" by (auto simp: GetString_def check_that_def sb_wf_def Let_def)
  then show ?thesis using g1(1) by (simp add: lock_panic_lines_def Let_def)
qed

section \<open>Properties\<close>



text \<open>
  C29: taking a lock ends.  A process gets the lock if and only if one of its 765 attempts, 3 rounds
  of 255, finds it free; otherwise the kernel panics, with a report that can always be built.
\<close>

theorem Lock_bounded:
  assumes "length junk = 129"
  shows "(ProcessLock_Lock True pid seen l = Ok pid \<longleftrightarrow> (\<exists>m < 765. seen m = 0)) \<and>
    ((\<forall>m < 765. seen m \<noteq> 0) \<longrightarrow>
      ProcessLock_Lock True pid seen l = Fail (Panic ''ProcessLock::Lock() taking too long (deadlock?)'') \<and>
      (\<exists>ls. lock_panic_lines junk pid = Ok ls))"
proof (cases "\<exists>m < 765. seen m = 0")
  case True
  then obtain m0 where m0: "m0 < 765" "seen m0 = 0" by blast
  let ?m = "LEAST m. seen m = 0"
  have "seen ?m = 0" by (rule LeastI[of _ m0]) (rule m0)
  moreover have "?m < 0 + 255 * 3" using le_less_trans[OF Least_le[of "\<lambda>m. seen m = 0", OF m0(2)] m0(1)] by simp
  moreover have "\<forall>j. 0 \<le> j \<and> j < ?m \<longrightarrow> seen j \<noteq> 0" using not_less_Least by blast
  ultimately have "lock_rounds seen 3 0 = Some (?m + 1)" using lock_rounds_found[of 0 ?m seen 3] by blast
  then have "ProcessLock_Lock True pid seen l = Ok pid" by (simp add: ProcessLock_Lock_def)
  then show ?thesis using True by blast
next
  case False
  have "0 + 255 * 3 = (765 :: nat)" by simp
  with False have "\<forall>j. 0 \<le> j \<and> j < 0 + 255 * 3 \<longrightarrow> seen j \<noteq> 0" by presburger
  from lock_rounds_timeout[OF this] have
    "ProcessLock_Lock True pid seen l = Fail (Panic ''ProcessLock::Lock() taking too long (deadlock?)'')"
    by (simp add: ProcessLock_Lock_def)
  then show ?thesis using False lock_panic_lines_ok[OF assms, of pid] by (metis sum.distinct(1))
qed

theorem Lock_bounded_witness:
  "ProcessLock_Lock True 6 (\<lambda>n. if n < 300 then 5 else 0) 5 = Ok 6"
proof -
  let ?seen = "\<lambda>n. if n < (300 :: nat) then 5 else (0 :: u64)"
  have "length (replicate 129 (0 :: u8)) = 129" by simp
  from conjunct1[OF Lock_bounded[OF this, of 6 ?seen 5]]
  have "ProcessLock_Lock True 6 ?seen 5 = Ok 6 \<longleftrightarrow> (\<exists>m < 765. ?seen m = 0)" .
  moreover have "\<exists>m < 765. ?seen m = 0" by (rule exI[of _ 300]) simp
  ultimately show ?thesis by (rule iffD2)
qed

end
