(* ===== verification/PS2_Mouse.thy ===== *)
theory PS2_Mouse
  imports Port_IO Ring_Buffer
begin

text \<open>
The PS/2 mouse driver of src/src/ps2_mouse.h and ps2_mouse.cc: the phases of its interrupt
  handler, the handshake with the device and the decoding of packets into mouse events.
\<close>

section \<open>The controller\<close>

record mouse_event =
  me_buttonL :: bool
  me_buttonC :: bool
  me_buttonR :: bool
  me_dx :: "8 word"
  me_dy :: "8 word"

datatype mouse_phase =
  kInitialState
| kWaitingACKForInitCommand
| kWaitingInitSuccess
| kWaitingACKForSamplingRateCmd
| kWaitingACKForSamplingRateData
| kWaitingACKForGetDeviceIDCmd
| kWaitingDeviceID
| kWaitingACKForStartDataReportingCmd
| kWaitingFirstByte
| kWaitingSecondByte
| kWaitingThirdByte

record ps2_mouse =
  ms_buffer :: "mouse_event ring_buffer"
  ms_phase :: mouse_phase
  ms_data0 :: u8
  ms_data1 :: u8
  ms_data2 :: u8

definition kbc_ready :: "u8 \<Rightarrow> bool" where
  "kbc_ready status \<longleftrightarrow> status AND 0x02 = 0"

definition WaitForReadyToSendKBCCmd :: "ports \<Rightarrow> port_io \<Rightarrow> port_io res" where
  "WaitForReadyToSendKBCCmd inp io = wait_for inp 0x0064 kbc_ready io"

definition SendToMouse :: "ports \<Rightarrow> u8 \<Rightarrow> port_io \<Rightarrow> port_io res" where
  "SendToMouse inp v io =
     bind_res (WaitForReadyToSendKBCCmd inp io) (\<lambda>io1.
     bind_res (WaitForReadyToSendKBCCmd inp (WriteIOPort8 0x0064 0xD4 io1)) (\<lambda>io2.
     Ok (WriteIOPort8 0x0060 v io2)))"

definition PS2Mouse_Init :: "ports \<Rightarrow> ps2_mouse \<Rightarrow> port_io \<Rightarrow> (ps2_mouse \<times> port_io) res" where
  "PS2Mouse_Init inp m io =
     bind_res (SendToMouse inp 0xFF io) (\<lambda>io'. Ok (m\<lparr>ms_phase := kWaitingACKForInitCommand\<rparr>, io'))"

text \<open>
  \<open>value\<close> is the byte which the interrupt handler reads from the data port; a move is an
  \<open>int8_t\<close>, and the negated vertical one is converted back to \<open>int8_t\<close>.
\<close>

definition decode_packet :: "u8 \<Rightarrow> u8 \<Rightarrow> u8 \<Rightarrow> mouse_event" where
  "decode_packet d0 d1 d2 =
     \<lparr>me_buttonL = d0 AND 0b0000001 \<noteq> 0, me_buttonC = d0 AND 0b0000100 \<noteq> 0,
      me_buttonR = d0 AND 0b0000010 \<noteq> 0, me_dx = d1, me_dy = - d2\<rparr>"

definition first_byte_ok :: "u8 \<Rightarrow> bool" where
  "first_byte_ok d \<longleftrightarrow> d AND 0b11001000 = 0b00001000"

definition send_and :: "ports \<Rightarrow> u8 \<Rightarrow> mouse_phase \<Rightarrow> ps2_mouse \<Rightarrow> port_io \<Rightarrow> (ps2_mouse \<times> port_io) res" where
  "send_and inp v phase m io = bind_res (SendToMouse inp v io) (\<lambda>io'. Ok (m\<lparr>ms_phase := phase\<rparr>, io'))"

definition PS2Mouse_IntHandler :: "ports \<Rightarrow> u8 \<Rightarrow> ps2_mouse \<Rightarrow> port_io \<Rightarrow> (ps2_mouse \<times> port_io) res" where
  "PS2Mouse_IntHandler inp v m io =
     (case ms_phase m of
        kWaitingACKForInitCommand \<Rightarrow>
          Ok (if v = 0xFA then m\<lparr>ms_phase := kWaitingInitSuccess\<rparr> else m, io)
      | kWaitingInitSuccess \<Rightarrow>
          if v = 0xAA then send_and inp 0xF3 kWaitingACKForSamplingRateCmd m io else Ok (m, io)
      | kWaitingACKForSamplingRateCmd \<Rightarrow>
          if v = 0xFA then send_and inp 100 kWaitingACKForSamplingRateData m io else Ok (m, io)
      | kWaitingACKForSamplingRateData \<Rightarrow>
          if v = 0xFA then send_and inp 0xF2 kWaitingACKForGetDeviceIDCmd m io else Ok (m, io)
      | kWaitingACKForGetDeviceIDCmd \<Rightarrow>
          Ok (if v = 0xFA then m\<lparr>ms_phase := kWaitingDeviceID\<rparr> else m, io)
      | kWaitingDeviceID \<Rightarrow> send_and inp 0xF4 kWaitingACKForStartDataReportingCmd m io
      | kWaitingACKForStartDataReportingCmd \<Rightarrow>
          Ok (if v = 0xFA then m\<lparr>ms_phase := kWaitingFirstByte\<rparr> else m, io)
      | kWaitingFirstByte \<Rightarrow>
          Ok (if first_byte_ok v then m\<lparr>ms_data0 := v, ms_phase := kWaitingSecondByte\<rparr>
              else m\<lparr>ms_data0 := v\<rparr>, io)
      | kWaitingSecondByte \<Rightarrow> Ok (m\<lparr>ms_data1 := v, ms_phase := kWaitingThirdByte\<rparr>, io)
      | kWaitingThirdByte \<Rightarrow>
          Ok (m\<lparr>ms_data2 := v,
                ms_buffer := RingBuffer_Push 32 (decode_packet (ms_data0 m) (ms_data1 m) v) (ms_buffer m),
                ms_phase := kWaitingFirstByte\<rparr>, io)
      | kInitialState \<Rightarrow> Ok (m, io))"

text \<open>A sequence of interrupts.\<close>

primrec mouse_bytes :: "ports \<Rightarrow> u8 list \<Rightarrow> ps2_mouse \<Rightarrow> port_io \<Rightarrow> (ps2_mouse \<times> port_io) res" where
  "mouse_bytes inp [] m io = Ok (m, io)"
| "mouse_bytes inp (v # vs) m io =
     bind_res (PS2Mouse_IntHandler inp v m io) (\<lambda>(m', io'). mouse_bytes inp vs m' io')"

section \<open>The byte stream\<close>

text \<open>The packets in a stream of bytes: a byte that cannot start a packet is skipped.\<close>

fun packets :: "u8 list \<Rightarrow> mouse_event list" where
  "packets (d0 # d1 # d2 # ds) =
     (if first_byte_ok d0 then decode_packet d0 d1 d2 # packets ds else packets (d1 # d2 # ds))"
| "packets _ = []"

definition reporting :: "ps2_mouse \<Rightarrow> bool" where
  "reporting m \<longleftrightarrow> ms_phase m \<in> {kWaitingFirstByte, kWaitingSecondByte, kWaitingThirdByte}"

text \<open>The bytes of the packet under way.\<close>

definition pending :: "ps2_mouse \<Rightarrow> u8 list" where
  "pending m = (case ms_phase m of kWaitingSecondByte \<Rightarrow> [ms_data0 m]
     | kWaitingThirdByte \<Rightarrow> [ms_data0 m, ms_data1 m] | _ \<Rightarrow> [])"

definition mouse_wf :: "ps2_mouse \<Rightarrow> bool" where
  "mouse_wf m \<longleftrightarrow> rb_wf 32 (ms_buffer m) \<and>
     (ms_phase m = kWaitingSecondByte \<or> ms_phase m = kWaitingThirdByte \<longrightarrow> first_byte_ok (ms_data0 m))"

lemma IntHandler_reporting:
  assumes "reporting m" "mouse_wf m"
  shows "\<exists>m'. PS2Mouse_IntHandler inp v m io = Ok (m', io) \<and> reporting m' \<and> mouse_wf m' \<and>
    ms_buffer m' = fold (RingBuffer_Push 32) (if length (pending m) = 2 then [decode_packet (ms_data0 m) (ms_data1 m) v] else [])
      (ms_buffer m) \<and>
    (pending m' = (if length (pending m) = 2 \<or> (pending m = [] \<and> \<not> first_byte_ok v) then [] else pending m @ [v]))"
  using assms by (auto simp: reporting_def mouse_wf_def PS2Mouse_IntHandler_def pending_def intro!: rb_push_wf)

lemma packets_skip: "\<not> first_byte_ok v \<Longrightarrow> packets (v # vs) = packets vs"
  by (cases "(v # vs)" rule: packets.cases) auto

lemma mouse_bytes_reporting:
  assumes "reporting m" "mouse_wf m"
  shows "\<exists>m'. mouse_bytes inp vs m io = Ok (m', io) \<and> reporting m' \<and> mouse_wf m' \<and>
    ms_buffer m' = fold (RingBuffer_Push 32) (packets (pending m @ vs)) (ms_buffer m)"
  using assms
proof (induction vs arbitrary: m)
  case Nil
  then show ?case by (auto simp: pending_def reporting_def split: mouse_phase.splits)
next
  case (Cons v vs)
  obtain m1 where m1: "PS2Mouse_IntHandler inp v m io = Ok (m1, io)" "reporting m1" "mouse_wf m1"
    "ms_buffer m1 = fold (RingBuffer_Push 32) (if length (pending m) = 2 then [decode_packet (ms_data0 m) (ms_data1 m) v] else []) (ms_buffer m)"
    "pending m1 = (if length (pending m) = 2 \<or> (pending m = [] \<and> \<not> first_byte_ok v) then [] else pending m @ [v])"
    using IntHandler_reporting[OF Cons.prems, of inp v io] by blast
  obtain m2 where m2: "mouse_bytes inp vs m1 io = Ok (m2, io)" "reporting m2" "mouse_wf m2"
    "ms_buffer m2 = fold (RingBuffer_Push 32) (packets (pending m1 @ vs)) (ms_buffer m1)"
    using Cons.IH[OF m1(2,3)] by blast
  have "fold (RingBuffer_Push 32) (packets (pending m1 @ vs)) (ms_buffer m1) =
      fold (RingBuffer_Push 32) (packets (pending m @ v # vs)) (ms_buffer m)"
    using Cons.prems m1(4,5)
    by (auto simp: reporting_def mouse_wf_def pending_def packets_skip)
  then show ?case using m1 m2 by auto
qed

section \<open>The handshake\<close>

lemma SendToMouse_returns:
  assumes "responsive inp 0x0064 kbc_ready"
  shows "\<exists>n. SendToMouse inp v io =
    Ok (io\<lparr>pio_reads := n, pio_writes := pio_writes io @ [(0x0064, 0xD4), (0x0060, v)]\<rparr>)"
proof -
  obtain n where n: "wait_for inp 0x0064 kbc_ready io = Ok (io\<lparr>pio_reads := n\<rparr>)"
    using wait_for_returns[OF assms] by blast
  let ?io = "WriteIOPort8 0x0064 0xD4 (io\<lparr>pio_reads := n\<rparr>)"
  obtain n2 where "wait_for inp 0x0064 kbc_ready ?io = Ok (?io\<lparr>pio_reads := n2\<rparr>)"
    using wait_for_returns[OF assms] by blast
  then show ?thesis using n by (auto simp: SendToMouse_def WaitForReadyToSendKBCCmd_def WriteIOPort8_def)
qed

definition to_mouse :: "u8 list \<Rightarrow> (u16 \<times> u8) list" where
  "to_mouse vs = concat (map (\<lambda>v. [(0x0064, 0xD4), (0x0060, v)]) vs)"

definition sends :: "port_io \<Rightarrow> u8 list \<Rightarrow> port_io \<Rightarrow> bool" where
  "sends io vs io' \<longleftrightarrow> pio_writes io' = pio_writes io @ to_mouse vs"

lemma send_and_returns:
  assumes "responsive inp 0x0064 kbc_ready"
  shows "\<exists>io'. send_and inp v phase m io = Ok (m\<lparr>ms_phase := phase\<rparr>, io') \<and> sends io [v] io'"
  using SendToMouse_returns[OF assms, of v io] by (auto simp: send_and_def sends_def to_mouse_def)

lemma sends_trans: "sends io vs io1 \<Longrightarrow> sends io1 ws io2 \<Longrightarrow> sends io (vs @ ws) io2"
  by (simp add: sends_def to_mouse_def)

lemma handshake:
  assumes dev: "responsive inp 0x0064 kbc_ready"
  shows "\<exists>io'. bind_res (PS2Mouse_Init inp m io) (\<lambda>(m, io). mouse_bytes inp [0xFA, 0xAA, 0xFA, 0xFA, 0xFA, device_id, 0xFA] m io) =
      Ok (m\<lparr>ms_phase := kWaitingFirstByte\<rparr>, io') \<and> sends io [0xFF, 0xF3, 100, 0xF2, 0xF4] io'"
proof -
  note R = send_and_returns[OF dev]
  have R1: "\<exists>io'. send_and inp v phase (m\<lparr>ms_phase := q\<rparr>) io = Ok (m\<lparr>ms_phase := phase\<rparr>, io') \<and> sends io [v] io'" for v phase q io
    using R[of v phase "m\<lparr>ms_phase := q\<rparr>" io] by simp
  obtain io0 where 0: "send_and inp 0xFF kWaitingACKForInitCommand m io = Ok (m\<lparr>ms_phase := kWaitingACKForInitCommand\<rparr>, io0)" "sends io [0xFF] io0"
    using R by blast
  obtain io1 where 1: "send_and inp 0xF3 kWaitingACKForSamplingRateCmd (m\<lparr>ms_phase := kWaitingInitSuccess\<rparr>) io0
      = Ok (m\<lparr>ms_phase := kWaitingACKForSamplingRateCmd\<rparr>, io1)" "sends io0 [0xF3] io1" using R1 by blast
  obtain io2 where 2: "send_and inp 100 kWaitingACKForSamplingRateData (m\<lparr>ms_phase := kWaitingACKForSamplingRateCmd\<rparr>) io1
      = Ok (m\<lparr>ms_phase := kWaitingACKForSamplingRateData\<rparr>, io2)" "sends io1 [100] io2" using R1 by blast
  obtain io3 where 3: "send_and inp 0xF2 kWaitingACKForGetDeviceIDCmd (m\<lparr>ms_phase := kWaitingACKForSamplingRateData\<rparr>) io2
      = Ok (m\<lparr>ms_phase := kWaitingACKForGetDeviceIDCmd\<rparr>, io3)" "sends io2 [0xF2] io3" using R1 by blast
  obtain io4 where 4: "send_and inp 0xF4 kWaitingACKForStartDataReportingCmd (m\<lparr>ms_phase := kWaitingDeviceID\<rparr>) io3
      = Ok (m\<lparr>ms_phase := kWaitingACKForStartDataReportingCmd\<rparr>, io4)" "sends io3 [0xF4] io4" using R1 by blast
  have i: "PS2Mouse_Init inp m io = Ok (m\<lparr>ms_phase := kWaitingACKForInitCommand\<rparr>, io0)"
    using 0(1) by (simp add: PS2Mouse_Init_def send_and_def)
  have "sends io [0xFF, 0xF3, 100, 0xF2, 0xF4] io4"
    using sends_trans[OF sends_trans[OF sends_trans[OF sends_trans[OF 0(2) 1(2)] 2(2)] 3(2)] 4(2)] by simp
  then show ?thesis using 1(1) 2(1) 3(1) 4(1) by (simp add: i PS2Mouse_IntHandler_def)
qed

lemma mouse_bytes_append:
  "mouse_bytes inp (us @ vs) m io = bind_res (mouse_bytes inp us m io) (\<lambda>(m', io'). mouse_bytes inp vs m' io')"
proof (induction us arbitrary: m io)
  case (Cons u us)
  then show ?case by (cases "PS2Mouse_IntHandler inp u m io") auto
qed simp

definition example_mouse :: ps2_mouse where
  "example_mouse = \<lparr>ms_buffer = RingBuffer_new (replicate 32 (decode_packet 0 0 0)), ms_phase = kInitialState,
     ms_data0 = 0, ms_data1 = 0, ms_data2 = 0\<rparr>"

section \<open>Properties\<close>

text \<open>
  C36: a session with a PS/2 mouse.  If the controller keeps becoming ready for commands, then
  initialisation and the mouse's answers to it lead the driver through reset, sampling rate 100,
  device identification and start of reporting, with exactly these commands sent; after that,
  whatever bytes arrive, the events queued are the packets of the byte stream, in order, where
  bytes that cannot start a packet are skipped.
\<close>

theorem mouse_session:
  assumes "responsive inp 0x0064 kbc_ready" "rb_wf 32 (ms_buffer m)"
  shows "\<exists>m' io'. bind_res (PS2Mouse_Init inp m io)
      (\<lambda>(m, io). mouse_bytes inp ([0xFA, 0xAA, 0xFA, 0xFA, 0xFA, device_id, 0xFA] @ bytes) m io) = Ok (m', io') \<and>
    sends io [0xFF, 0xF3, 100, 0xF2, 0xF4] io' \<and>
    ms_buffer m' = fold (RingBuffer_Push 32) (packets bytes) (ms_buffer m)"
proof -
  let ?m = "m\<lparr>ms_phase := kWaitingFirstByte\<rparr>"
  obtain io' where h: "bind_res (PS2Mouse_Init inp m io) (\<lambda>(m, io). mouse_bytes inp [0xFA, 0xAA, 0xFA, 0xFA, 0xFA, device_id, 0xFA] m io) =
      Ok (?m, io')" "sends io [0xFF, 0xF3, 100, 0xF2, 0xF4] io'" using handshake[OF assms(1)] by blast
  have "reporting ?m" "mouse_wf ?m" using assms(2) by (simp_all add: reporting_def mouse_wf_def)
  then obtain m' where "mouse_bytes inp bytes ?m io' = Ok (m', io')"
    "ms_buffer m' = fold (RingBuffer_Push 32) (packets bytes) (ms_buffer m)"
    using mouse_bytes_reporting[of ?m inp bytes io'] by (auto simp: pending_def)
  with h show ?thesis by (cases "PS2Mouse_Init inp m io") (auto simp: mouse_bytes_append simp del: mouse_bytes.simps append.simps)
qed

theorem mouse_session_witness:
  "\<exists>m' io'. bind_res (PS2Mouse_Init (\<lambda>_ _. 0) example_mouse \<lparr>pio_reads = 0, pio_writes = []\<rparr>)
      (\<lambda>(m, io). mouse_bytes (\<lambda>_ _. 0) ([0xFA, 0xAA, 0xFA, 0xFA, 0xFA, 0, 0xFA] @ [0xFF, 0x09, 3, 4]) m io) = Ok (m', io') \<and>
    ms_buffer m' = RingBuffer_Push 32 (decode_packet 0x09 3 4) (ms_buffer example_mouse)"
proof -
  have r: "responsive (\<lambda>_ _. 0) 0x0064 kbc_ready" by (auto simp: responsive_def kbc_ready_def)
  have w: "rb_wf 32 (ms_buffer example_mouse)" by (simp add: example_mouse_def)
  have "packets [0xFF, 0x09, 3, 4] = [decode_packet 0x09 3 4]" by (simp add: first_byte_ok_def)
  then show ?thesis
    using mouse_session[OF r w, of "\<lparr>pio_reads = 0, pio_writes = []\<rparr>" 0 "[0xFF, 0x09, 3, 4]"] by auto
qed

end
