(* ===== verification/Mouse_Manager.thy ===== *)
theory Mouse_Manager
  imports PS2_Mouse Sheet_Painting
begin

text \<open>
\<open>MouseManager\<close> of src/src/ps2_mouse.cc: the sheets it creates, the cursor, the window under the
  cursor and dragging.  The invariant of its loop is that the screen stays composited and that the
  cursor sheet is at the mouse position, inside of the screen.
\<close>

section \<open>Flushing a whole sheet\<close>

lemma FlushAll_composited:
  assumes fam: "family st p ss" and th: "this \<in> set ss" and comp: "composited st p ss"
    and al: "\<not> sh_is_alpha_enabled (st this)"
  shows "\<exists>f b'. Sheet_FlushAll this (set_buf this b st) = Ok (redrawn p f b' (set_buf this b st)) \<and>
    family (redrawn p f b' (set_buf this b st)) p ss \<and> composited (redrawn p f b' (set_buf this b st)) p ss"
proof -
  let ?st = "set_buf this b st" and ?R = "sh_rect (st this)"
  have "covers (st this) x y = covers (?st this) x y" for x y using al by (simp add: covers_def)
  moreover have "pixel (st this) x y = pixel (?st this) x y"
    if "IsPointInRect (sh_rect (?st this)) x y"
      "\<not> IsPointInRect (mk_rect (0 + rect_x (sh_rect (?st this))) (0 + rect_y (sh_rect (?st this))) (rect_xsize ?R) (rect_ysize ?R)) x y" for x y
    using that by (simp add: IsPointInRect_def)
  ultimately obtain f b' where "Sheet_Flush this 0 0 (rect_xsize ?R) (rect_ysize ?R) ?st = Ok (redrawn p f b' ?st)"
    "composited (redrawn p f b' ?st) p ss"
    using Flush_composited[OF set_buf_family[OF fam th] th comp, of b 0 0 "rect_xsize ?R" "rect_ysize ?R"] by auto
  then show ?thesis using set_buf_family[OF fam th, of b] by (auto simp: Sheet_FlushAll_def)
qed

section \<open>The mouse manager\<close>

definition FixPositionInVRAM :: "sheet \<Rightarrow> int \<times> int \<Rightarrow> int \<times> int" where
  "FixPositionInVRAM vram p =
     (let px = (if fst p < 0 then 0 else fst p);
          py = (if snd p < 0 then 0 else snd p);
          px = (if px \<ge> rect_xsize (sh_rect vram) then rect_xsize (sh_rect vram) - 1 else px);
          py = (if py \<ge> rect_ysize (sh_rect vram) then rect_ysize (sh_rect vram) - 1 else py)
      in (px, py))"

definition MoveMouseCursor :: "sheet \<Rightarrow> int \<times> int \<Rightarrow> int \<Rightarrow> int \<Rightarrow> int \<times> int" where
  "MoveMouseCursor vram p dx dy = FixPositionInVRAM vram (fst p + dx, snd p + dy)"

definition FindWindowAtPosition :: "sid \<Rightarrow> int \<Rightarrow> int \<Rightarrow> sheets \<Rightarrow> sid option res" where
  "FindWindowAtPosition vram px py st =
     each_upper st (sh_bottom_child (st vram)) (\<lambda>ss.
       Ok (fold (\<lambda>s focused. if \<not> IsPointInRect (sh_rect (st s)) px py \<or> sh_is_locked (st s) then focused else Some s)
             (takeWhile (\<lambda>s. \<not> sh_is_topmost (st s)) ss) None))"

record mouse_manager =
  mm_x :: int
  mm_y :: int
  mm_last_left_button_state :: bool
  mm_focused :: "sid option"
  mm_focused_ofs_x :: int
  mm_focused_ofs_y :: int

definition mm_focus :: "sid \<Rightarrow> sheets \<Rightarrow> mouse_manager \<Rightarrow> mouse_manager res" where
  "mm_focus vram st mm =
     bind_res (FindWindowAtPosition vram (mm_x mm) (mm_y mm) st) (\<lambda>focused.
     Ok (case focused of None \<Rightarrow> mm\<lparr>mm_focused := None\<rparr>
         | Some s \<Rightarrow> mm\<lparr>mm_focused := Some s, mm_focused_ofs_x := mm_x mm - rect_x (sh_rect (st s)),
                        mm_focused_ofs_y := mm_y mm - rect_y (sh_rect (st s))\<rparr>))"

definition mm_drag :: "sid \<Rightarrow> mouse_event \<Rightarrow> mouse_manager \<Rightarrow> sheets \<Rightarrow> (mouse_manager \<times> sheets) res" where
  "mm_drag vram me mm st =
     (if me_buttonL me then
        bind_res (if \<not> mm_last_left_button_state mm then mm_focus vram st mm else Ok mm) (\<lambda>mm1.
        case mm_focused mm1 of None \<Rightarrow> Ok (mm1, st)
        | Some s \<Rightarrow> bind_res (Sheet_SetPosition s (mm_x mm1 - mm_focused_ofs_x mm1) (mm_y mm1 - mm_focused_ofs_y mm1) st)
            (\<lambda>st1. Ok (mm1, st1)))
      else Ok (mm\<lparr>mm_focused := None\<rparr>, st))"

definition ascii8 :: "char \<Rightarrow> u8" where "ascii8 c = of_char c"

definition mm_show_buttons :: "(u8 \<Rightarrow> nat \<Rightarrow> u8) \<Rightarrow> sid \<Rightarrow> mouse_event \<Rightarrow> sheets \<Rightarrow> sheets res" where
  "mm_show_buttons font debug me st =
     bind_res (SheetPainter_DrawCharacter font debug (ascii8 (if me_buttonL me then CHR ''L'' else CHR ''l'')) (8 * 2) 32 False st) (\<lambda>st.
     bind_res (SheetPainter_DrawCharacter font debug (ascii8 (if me_buttonC me then CHR ''C'' else CHR ''c'')) (8 * 3) 32 False st) (\<lambda>st.
     bind_res (SheetPainter_DrawCharacter font debug (ascii8 (if me_buttonR me then CHR ''R'' else CHR ''r'')) (8 * 4) 32 False st) (\<lambda>st.
     Sheet_FlushAll debug st)))"

text \<open>One round of the loop, for an event taken from the queue.\<close>

definition MouseManager_step ::
    "(u8 \<Rightarrow> nat \<Rightarrow> u8) \<Rightarrow> sid \<Rightarrow> sid \<Rightarrow> sid \<Rightarrow> mouse_event \<Rightarrow> mouse_manager \<times> sheets \<Rightarrow> (mouse_manager \<times> sheets) res" where
  "MouseManager_step font vram cursor debug me s =
     (case s of (mm, st) \<Rightarrow>
      let (mx, my) = MoveMouseCursor (st vram) (mm_x mm, mm_y mm) (sint (me_dx me)) (sint (me_dy me));
          mm1 = mm\<lparr>mm_x := mx, mm_y := my\<rparr>
      in bind_res (Sheet_SetPosition cursor mx my st) (\<lambda>st1.
         bind_res (mm_drag vram me mm1 st1) (\<lambda>(mm2, st2).
         bind_res (mm_show_buttons font debug me st2) (\<lambda>st3.
         Ok (mm2\<lparr>mm_last_left_button_state := me_buttonL me\<rparr>, st3)))))"

text \<open>The loop over the events which arrive; an empty queue only sleeps.\<close>

primrec MouseManager_loop ::
    "(u8 \<Rightarrow> nat \<Rightarrow> u8) \<Rightarrow> sid \<Rightarrow> sid \<Rightarrow> sid \<Rightarrow> mouse_event list \<Rightarrow> mouse_manager \<times> sheets \<Rightarrow> (mouse_manager \<times> sheets) res" where
  "MouseManager_loop font vram cursor debug [] s = Ok s"
| "MouseManager_loop font vram cursor debug (me # es) s =
     bind_res (MouseManager_step font vram cursor debug me s) (MouseManager_loop font vram cursor debug es)"

text \<open>
  The sheets which the manager creates: \<open>mem\<close> is what the memory allocated for a buffer held
  before.
\<close>

definition zero_sheet :: sheet where
  "zero_sheet = \<lparr>sh_parent = None, sh_upper = None, sh_bottom_child = None, sh_buf = (\<lambda>_. 0), sh_map = None,
     sh_rect = mk_rect 0 0 0 0, sh_pixels_per_scan_line = 0, sh_is_topmost = False,
     sh_is_alpha_enabled = False, sh_is_locked = False\<rparr>"

definition cursor_buf :: "(int \<Rightarrow> u32) \<Rightarrow> int \<Rightarrow> u32" where
  "cursor_buf mem = fold (\<lambda>(x, y) b. b(y * 8 + x := if x < 8 - y then 0xff88ff88 else 0)) (rect_points (mk_rect 0 0 8 8)) mem"

definition debug_buf :: "(int \<Rightarrow> u32) \<Rightarrow> int \<Rightarrow> u32" where
  "debug_buf mem = fold (\<lambda>(x, y) b. b(y * 128 + x := 0xffffff)) (rect_points (mk_rect 0 0 128 128)) mem"

definition mm_cursor_sheet :: "sid \<Rightarrow> sid \<Rightarrow> (int \<Rightarrow> u32) \<Rightarrow> sheets \<Rightarrow> sheets res" where
  "mm_cursor_sheet vram cursor mem st =
     bind_res (Sheet_SetParent cursor (Some vram)
       (Sheet_Init cursor (cursor_buf mem) 8 8 8 50 50 (st(cursor := zero_sheet)))) (\<lambda>st.
     Sheet_SetAlphaEnabled cursor True (Sheet_SetTopmost cursor True st))"

definition mm_debug_sheet :: "(u8 \<Rightarrow> nat \<Rightarrow> u8) \<Rightarrow> sid \<Rightarrow> sid \<Rightarrow> u8 list \<Rightarrow> (int \<Rightarrow> u32) \<Rightarrow> sheets \<Rightarrow> sheets res" where
  "mm_debug_sheet font vram debug label mem st =
     bind_res (Sheet_SetParent debug (Some vram)
       (Sheet_Init debug (debug_buf mem) 128 128 128 0 0 (st(debug := zero_sheet)))) (\<lambda>st.
     bind_res (SheetPainter_DrawString font debug label 8 16 False st) (Sheet_FlushAll debug))"

definition MouseManager ::
    "(u8 \<Rightarrow> nat \<Rightarrow> u8) \<Rightarrow> sid \<Rightarrow> sid \<Rightarrow> sid \<Rightarrow> sid \<Rightarrow> (sid \<Rightarrow> int \<Rightarrow> u32) \<Rightarrow> mouse_event list \<Rightarrow> sheets \<Rightarrow> (mouse_manager \<times> sheets) res" where
  "MouseManager font vram cursor debug debug2 mem events st =
     bind_res (mm_cursor_sheet vram cursor (mem cursor) st) (\<lambda>st.
     bind_res (mm_debug_sheet font vram debug (map ascii8 ''mouse:'') (mem debug) st) (\<lambda>st.
     bind_res (mm_debug_sheet font vram debug2 (map ascii8 ''sheet2'') (mem debug2) st) (\<lambda>st.
     MouseManager_loop font vram cursor debug events
       (\<lparr>mm_x = 50, mm_y = 50, mm_last_left_button_state = False, mm_focused = None,
         mm_focused_ofs_x = 0, mm_focused_ofs_y = 0\<rparr>, st))))"

section \<open>The cursor and the windows\<close>

lemma FixPositionInVRAM_bounds:
  assumes "0 < rect_xsize (sh_rect vram)" "0 < rect_ysize (sh_rect vram)" "FixPositionInVRAM vram p = (x, y)"
  shows "0 \<le> x \<and> x < rect_xsize (sh_rect vram) \<and> 0 \<le> y \<and> y < rect_ysize (sh_rect vram)"
  using assms by (auto simp: FixPositionInVRAM_def Let_def)

text \<open>The facts of a sheet which painting and moving other sheets leaves alone.\<close>

definition same_frame :: "sheets \<Rightarrow> sheets \<Rightarrow> bool" where
  "same_frame st st' \<longleftrightarrow> (\<forall>s. sh_is_topmost (st' s) = sh_is_topmost (st s) \<and>
     sh_is_alpha_enabled (st' s) = sh_is_alpha_enabled (st s))"

lemma same_frame_trans: "same_frame a b \<Longrightarrow> same_frame b c \<Longrightarrow> same_frame a c"
  by (simp add: same_frame_def)

lemma redrawn_same_frame [simp]: "same_frame st0 (redrawn p f b st) \<longleftrightarrow> same_frame st0 st"
  by (auto simp: same_frame_def redrawn_def)

lemma SetPosition_step:
  assumes "family st p ss" "this \<in> set ss" "composited st p ss" "rect_proper (sh_rect (st this))"
  shows "\<exists>st'. Sheet_SetPosition this x y st = Ok st' \<and> family st' p ss \<and> composited st' p ss \<and> same_frame st st' \<and>
    (\<forall>s. sh_rect (st' s) = (if s = this then (sh_rect (st this))\<lparr>rect_x := x, rect_y := y\<rparr> else sh_rect (st s)))"
proof -
  let ?st1 = "st(this := (st this)\<lparr>sh_rect := (sh_rect (st this))\<lparr>rect_x := x, rect_y := y\<rparr>\<rparr>)"
  have "family ?st1 p ss" by (rule family_update[OF assms(1,2)]) simp_all
  then have "family (redrawn p f b ?st1) p ss" for f b by simp
  moreover have "same_frame st ?st1" by (simp add: same_frame_def)
  ultimately show ?thesis
    using SetPosition_composited[OF assms(1-3) refl refl assms(4), of x y] by fastforce
qed

text \<open>The invariant of the loop.\<close>

definition mm_inv :: "sid \<Rightarrow> sid list \<Rightarrow> sid \<Rightarrow> sid \<Rightarrow> mouse_manager \<times> sheets \<Rightarrow> bool" where
  "mm_inv vram ss cursor debug s \<longleftrightarrow> (case s of (mm, st) \<Rightarrow>
     family st vram ss \<and> composited st vram ss \<and> cursor \<in> set ss \<and> debug \<in> set ss \<and>
     (\<forall>s\<in>set ss. rect_proper (sh_rect (st s))) \<and> sh_is_topmost (st cursor) \<and>
     \<not> sh_is_alpha_enabled (st debug) \<and>
     0 < rect_xsize (sh_rect (st vram)) \<and> 0 < rect_ysize (sh_rect (st vram)) \<and>
     0 \<le> mm_x mm \<and> mm_x mm < rect_xsize (sh_rect (st vram)) \<and>
     0 \<le> mm_y mm \<and> mm_y mm < rect_ysize (sh_rect (st vram)) \<and>
     sh_rect (st cursor) = mk_rect (mm_x mm) (mm_y mm) 8 8 \<and>
     (\<forall>s. mm_focused mm = Some s \<longrightarrow> s \<in> set ss \<and> s \<noteq> cursor))"

lemma FindWindow_in:
  assumes "family st vram ss"
  shows "\<exists>r. FindWindowAtPosition vram px py st = Ok r \<and>
    (\<forall>s. r = Some s \<longrightarrow> s \<in> set ss \<and> \<not> sh_is_topmost (st s))"
proof -
  have *: "fold (\<lambda>s focused. if \<not> IsPointInRect (sh_rect (st s)) px py \<or> sh_is_locked (st s) then focused else Some s) xs r = Some s \<Longrightarrow>
      s \<in> set xs \<or> r = Some s" for xs r s
    by (induction xs arbitrary: r) (auto split: if_splits)
  have "upper_list st (sh_bottom_child (st vram)) ss" using assms by (simp add: family_def)
  then have "FindWindowAtPosition vram px py st = Ok (fold (\<lambda>s focused. if \<not> IsPointInRect (sh_rect (st s)) px py \<or> sh_is_locked (st s) then focused else Some s)
             (takeWhile (\<lambda>s. \<not> sh_is_topmost (st s)) ss) None)"
    by (simp add: FindWindowAtPosition_def each_upper_list)
  then show ?thesis using * by (fastforce dest: set_takeWhileD)
qed

text \<open>The manager's screen: a composited family with proper rectangles and the debug sheet opaque.\<close>

definition mm_screen :: "sid \<Rightarrow> sid list \<Rightarrow> sid \<Rightarrow> sheets \<Rightarrow> bool" where
  "mm_screen vram ss debug st \<longleftrightarrow> family st vram ss \<and> composited st vram ss \<and> debug \<in> set ss \<and>
     (\<forall>s\<in>set ss. rect_proper (sh_rect (st s))) \<and> \<not> sh_is_alpha_enabled (st debug)"

lemma SetPosition_screen:
  assumes "mm_screen vram ss debug st" "this \<in> set ss"
  shows "\<exists>st'. Sheet_SetPosition this x y st = Ok st' \<and> mm_screen vram ss debug st' \<and> same_frame st st' \<and>
    (\<forall>s. sh_rect (st' s) = (if s = this then (sh_rect (st this))\<lparr>rect_x := x, rect_y := y\<rparr> else sh_rect (st s)))"
proof -
  obtain st' where st': "Sheet_SetPosition this x y st = Ok st'" "family st' vram ss" "composited st' vram ss" "same_frame st st'"
    and r: "\<forall>s. sh_rect (st' s) = (if s = this then (sh_rect (st this))\<lparr>rect_x := x, rect_y := y\<rparr> else sh_rect (st s))"
    using SetPosition_step[of st vram ss this x y] assms by (auto simp: mm_screen_def)
  have "rect_proper (sh_rect (st' s))" if "s \<in> set ss" for s
    using that assms r by (auto simp: mm_screen_def rect_proper_def)
  then have "mm_screen vram ss debug st'" using st' assms(1) by (auto simp: mm_screen_def same_frame_def)
  then show ?thesis using st' r by blast
qed

lemma mm_drag_screen:
  assumes scr: "mm_screen vram ss debug st" and cur: "sh_is_topmost (st cursor)"
    and foc: "\<And>s. mm_focused mm = Some s \<Longrightarrow> s \<in> set ss \<and> s \<noteq> cursor" and v: "vram \<notin> set ss"
  shows "\<exists>mm' st'. mm_drag vram me mm st = Ok (mm', st') \<and> mm_screen vram ss debug st' \<and> same_frame st st' \<and>
    sh_rect (st' cursor) = sh_rect (st cursor) \<and> sh_rect (st' vram) = sh_rect (st vram) \<and>
    mm_x mm' = mm_x mm \<and> mm_y mm' = mm_y mm \<and>
    (\<forall>s. mm_focused mm' = Some s \<longrightarrow> s \<in> set ss \<and> s \<noteq> cursor)"
proof (cases "me_buttonL me")
  case True
  have "\<exists>mm1. (if \<not> mm_last_left_button_state mm then mm_focus vram st mm else Ok mm) = Ok mm1 \<and>
      mm_x mm1 = mm_x mm \<and> mm_y mm1 = mm_y mm \<and> (\<forall>s. mm_focused mm1 = Some s \<longrightarrow> s \<in> set ss \<and> s \<noteq> cursor)"
    using foc cur scr FindWindow_in[of st vram ss "mm_x mm" "mm_y mm"]
    by (auto simp: mm_focus_def mm_screen_def split: option.splits)
  then obtain mm1 where mm1: "(if \<not> mm_last_left_button_state mm then mm_focus vram st mm else Ok mm) = Ok mm1"
    "mm_x mm1 = mm_x mm" "mm_y mm1 = mm_y mm" "\<And>s. mm_focused mm1 = Some s \<Longrightarrow> s \<in> set ss \<and> s \<noteq> cursor" by blast
  show ?thesis
  proof (cases "mm_focused mm1")
    case None
    then show ?thesis using True mm1 scr by (auto simp: mm_drag_def same_frame_def)
  next
    case (Some s)
    then have s: "s \<in> set ss" "s \<noteq> cursor" "s \<noteq> vram" using mm1(4) v by blast+
    obtain st' where "Sheet_SetPosition s (mm_x mm1 - mm_focused_ofs_x mm1) (mm_y mm1 - mm_focused_ofs_y mm1) st = Ok st'"
      "mm_screen vram ss debug st'" "same_frame st st'" "\<forall>t. t \<noteq> s \<longrightarrow> sh_rect (st' t) = sh_rect (st t)"
      using SetPosition_screen[OF scr s(1), of "mm_x mm1 - mm_focused_ofs_x mm1" "mm_y mm1 - mm_focused_ofs_y mm1"] by auto
    then show ?thesis using True mm1 Some s by (auto simp: mm_drag_def)
  qed
next
  case False
  then show ?thesis using scr by (auto simp: mm_drag_def same_frame_def)
qed

lemma DrawCharacter_no_flush:
  "\<exists>b. SheetPainter_DrawCharacter font this c px py False st = Ok (set_buf this b st)"
  by (simp add: SheetPainter_DrawCharacter_def flush_if_def) blast

lemma mm_show_buttons_paints:
  "\<exists>b. mm_show_buttons font debug me st = Sheet_FlushAll debug (set_buf debug b st)"
proof -
  have "\<exists>b. mm_show_buttons font debug me st =
      Sheet_FlushAll debug (set_buf debug b st)"
    unfolding mm_show_buttons_def SheetPainter_DrawCharacter_def flush_if_def by (simp, blast)
  then show ?thesis .
qed

lemma FlushAll_screen:
  assumes "mm_screen vram ss debug st"
  shows "\<exists>st'. Sheet_FlushAll debug (set_buf debug b st) = Ok st' \<and> mm_screen vram ss debug st' \<and> same_frame st st' \<and>
    (\<forall>s. sh_rect (st' s) = sh_rect (st s))"
proof -
  have "same_frame st (set_buf debug b st)" by (simp add: same_frame_def)
  then show ?thesis
    using FlushAll_composited[of st vram ss debug b] assms unfolding mm_screen_def
    by (fastforce simp: same_frame_def redrawn_def)
qed

lemma MouseManager_step_inv:
  assumes "mm_inv vram ss cursor debug s"
  shows "\<exists>s'. MouseManager_step font vram cursor debug me s = Ok s' \<and> mm_inv vram ss cursor debug s' \<and>
    sh_rect (snd s' vram) = sh_rect (snd s vram)"
proof -
  obtain mm st where s: "s = (mm, st)" by fastforce
  obtain mx my where mv: "MoveMouseCursor (st vram) (mm_x mm, mm_y mm) (sint (me_dx me)) (sint (me_dy me)) = (mx, my)" by fastforce
  have scr: "mm_screen vram ss debug st" and cu: "cursor \<in> set ss" and top: "sh_is_topmost (st cursor)"
    and r: "sh_rect (st cursor) = mk_rect (mm_x mm) (mm_y mm) 8 8"
    and pos: "0 < rect_xsize (sh_rect (st vram))" "0 < rect_ysize (sh_rect (st vram))"
    and foc: "\<And>s. mm_focused mm = Some s \<Longrightarrow> s \<in> set ss \<and> s \<noteq> cursor" and v: "vram \<notin> set ss"
    using assms by (auto simp: s mm_inv_def mm_screen_def family_def)
  obtain st1 where 1: "Sheet_SetPosition cursor mx my st = Ok st1" "mm_screen vram ss debug st1" "same_frame st st1"
    and r1: "\<forall>t. sh_rect (st1 t) = (if t = cursor then (sh_rect (st cursor))\<lparr>rect_x := mx, rect_y := my\<rparr> else sh_rect (st t))"
    using SetPosition_screen[OF scr cu] by blast
  let ?mm1 = "mm\<lparr>mm_x := mx, mm_y := my\<rparr>"
  have "sh_is_topmost (st1 cursor)" using 1(3) top by (simp add: same_frame_def)
  then obtain mm2 st2 where 2: "mm_drag vram me ?mm1 st1 = Ok (mm2, st2)" "mm_screen vram ss debug st2" "same_frame st1 st2"
      "sh_rect (st2 cursor) = sh_rect (st1 cursor)" "sh_rect (st2 vram) = sh_rect (st1 vram)"
      "mm_x mm2 = mx" "mm_y mm2 = my" "\<And>s. mm_focused mm2 = Some s \<Longrightarrow> s \<in> set ss \<and> s \<noteq> cursor"
    using mm_drag_screen[OF 1(2) _ _ v, of cursor ?mm1 me] foc by auto
  obtain b where b: "mm_show_buttons font debug me st2 = Sheet_FlushAll debug (set_buf debug b st2)"
    using mm_show_buttons_paints by blast
  obtain st3 where 3: "mm_show_buttons font debug me st2 = Ok st3" "mm_screen vram ss debug st3" "same_frame st2 st3"
      "\<forall>s. sh_rect (st3 s) = sh_rect (st2 s)"
    using FlushAll_screen[OF 2(2), of b] b by auto
  have bnd: "0 \<le> mx \<and> mx < rect_xsize (sh_rect (st vram)) \<and> 0 \<le> my \<and> my < rect_ysize (sh_rect (st vram))"
    using FixPositionInVRAM_bounds[OF pos] mv by (simp add: MoveMouseCursor_def)
  have vr: "sh_rect (st3 vram) = sh_rect (st vram)" using 3(4) 2(5) r1 v cu by auto
  have cr: "sh_rect (st3 cursor) = mk_rect mx my 8 8" using 3(4) 2(4) r1 r by simp
  have tp: "sh_is_topmost (st3 cursor)" using same_frame_trans[OF same_frame_trans[OF 1(3) 2(3)] 3(3)] top by (simp add: same_frame_def)
  have run: "MouseManager_step font vram cursor debug me s = Ok (mm2\<lparr>mm_last_left_button_state := me_buttonL me\<rparr>, st3)"
    using 1(1) 2(1) 3(1) mv by (simp add: MouseManager_step_def s)
  have "mm_inv vram ss cursor debug (mm2\<lparr>mm_last_left_button_state := me_buttonL me\<rparr>, st3)"
    using 3(2) cu tp pos bnd vr cr 2(6-8) by (auto simp: mm_inv_def mm_screen_def)
  then show ?thesis using run vr s by auto
qed

lemma MouseManager_loop_inv:
  assumes "mm_inv vram ss cursor debug s"
  shows "\<exists>s'. MouseManager_loop font vram cursor debug es s = Ok s' \<and> mm_inv vram ss cursor debug s' \<and>
    sh_rect (snd s' vram) = sh_rect (snd s vram)"
  using assms
proof (induction es arbitrary: s)
  case (Cons e es)
  obtain s1 where "MouseManager_step font vram cursor debug e s = Ok s1" "mm_inv vram ss cursor debug s1"
      "sh_rect (snd s1 vram) = sh_rect (snd s vram)" using MouseManager_step_inv[OF Cons.prems] by blast
  then show ?case using Cons.IH[of s1] by auto
qed simp

section \<open>Creating the sheets\<close>

definition mm_base :: "sid \<Rightarrow> sid list \<Rightarrow> sheets \<Rightarrow> bool" where
  "mm_base vram ss st \<longleftrightarrow> family st vram ss \<and> composited st vram ss \<and> (\<forall>s\<in>set ss. rect_proper (sh_rect (st s)))"

text \<open>The facts about existing sheets which creating another one keeps.\<close>

definition kept :: "sid \<Rightarrow> sheets \<Rightarrow> sheets \<Rightarrow> bool" where
  "kept this st st' \<longleftrightarrow> (\<forall>s. s \<noteq> this \<longrightarrow> sh_rect (st' s) = sh_rect (st s) \<and>
     sh_is_topmost (st' s) = sh_is_topmost (st s) \<and> sh_is_alpha_enabled (st' s) = sh_is_alpha_enabled (st s))"

lemma kept_trans: "kept t a b \<Longrightarrow> kept t b c \<Longrightarrow> kept t a c"
  by (simp add: kept_def)

lemma mm_base_other:
  assumes "mm_base vram ss st" "this \<notin> set ss" "this \<noteq> vram"
  shows "mm_base vram ss (st(this := new))"
proof -
  let ?st = "st(this := new)"
  have u: "upper_list ?st (sh_bottom_child (st vram)) ss = upper_list st (sh_bottom_child (st vram)) ss"
    using assms(2) by (intro upper_list_cong) auto
  have o: "owner ?st ss x y = owner st ss x y" for x y using assms(2) by (intro owner_cong) auto
  have "composited ?st vram ss"
    unfolding composited_def Let_def
  proof (intro allI impI, goal_cases)
    case (1 x y)
    then show ?case using assms o owner_in[of st ss x y] by (auto simp: mm_base_def composited_def Let_def)
  qed
  then show ?thesis using assms u by (auto simp: mm_base_def family_def)
qed

lemma upd_flags: "sh_is_topmost ((st(a := (st a)\<lparr>sh_upper := u\<rparr>)) s) = sh_is_topmost (st s)"
  "sh_is_alpha_enabled ((st(a := (st a)\<lparr>sh_upper := u\<rparr>)) s) = sh_is_alpha_enabled (st s)"
  "sh_is_topmost ((st(a := (st a)\<lparr>sh_parent := u\<rparr>)) s) = sh_is_topmost (st s)"
  "sh_is_alpha_enabled ((st(a := (st a)\<lparr>sh_parent := u\<rparr>)) s) = sh_is_alpha_enabled (st s)"
  "sh_is_topmost ((st(a := (st a)\<lparr>sh_bottom_child := u\<rparr>)) s) = sh_is_topmost (st s)"
  "sh_is_alpha_enabled ((st(a := (st a)\<lparr>sh_bottom_child := u\<rparr>)) s) = sh_is_alpha_enabled (st s)"
  by simp_all

lemma linked_flags:
  "sh_is_topmost (linked this p lower upper st s) = sh_is_topmost (st s)"
  "sh_is_alpha_enabled (linked this p lower upper st s) = sh_is_alpha_enabled (st s)"
  unfolding linked_def Let_def by (cases "lower = []"; simp only: upd_flags if_True if_False simp_thms)+

lemma SetParent_base:
  assumes "mm_base vram ss st" "this \<notin> set ss" "this \<noteq> vram" "rect_proper (sh_rect (st this))"
  shows "\<exists>st' ss'. Sheet_SetParent this (Some vram) st = Ok st' \<and> mm_base vram ss' st' \<and> set ss' = insert this (set ss) \<and>
    kept this st st' \<and> sh_rect (st' this) = sh_rect (st this) \<and> sh_is_alpha_enabled (st' this) = sh_is_alpha_enabled (st this)"
proof -
  let ?lo = "takeWhile (\<lambda>s. \<not> sh_is_topmost (st s)) ss" and ?up = "dropWhile (\<lambda>s. \<not> sh_is_topmost (st s)) ss"
  let ?st = "linked this vram ?lo ?up st" and ?ss = "?lo @ this # ?up"
  have fam: "family st vram ss" and comp: "composited st vram ss" and v: "vram \<notin> set ss"
    using assms(1) by (auto simp: mm_base_def family_def)
  obtain f b where run: "Sheet_SetParent this (Some vram) st = Ok (redrawn vram f b ?st)" and c: "composited (redrawn vram f b ?st) vram ?ss"
    using SetParent_composited[OF fam assms(2,3) comp refl refl] by blast
  have "family ?st vram ?ss" by (rule linked_family) (use fam assms(2,3) in simp_all)
  then have f1: "family (redrawn vram f b ?st) vram ?ss" by simp
  have lo: "this \<notin> set ?lo" "vram \<notin> set ?lo" using assms(2) v by (auto dest: set_takeWhileD)
  have "set ss = set ?lo \<union> set ?up" by (metis set_append takeWhile_dropWhile_id)
  then have st: "set ?ss = insert this (set ss)" by auto
  note lf = linked_fields(3)[OF assms(3) lo, of ?up st]
  have "kept this st (redrawn vram f b ?st) \<and> sh_is_alpha_enabled (redrawn vram f b ?st this) = sh_is_alpha_enabled (st this)"
    using assms(3) lf by (simp add: kept_def redrawn_def linked_flags)
  moreover have "mm_base vram ?ss (redrawn vram f b ?st)"
    using f1 c st assms(1,4) lf unfolding mm_base_def by auto
  ultimately show ?thesis using run st lf assms(3)
    by (intro exI[of _ "redrawn vram f b ?st"] exI[of _ ?ss]) simp
qed

lemma mm_cursor_sheet_base:
  assumes "mm_base vram ss st" "cursor \<notin> set ss" "cursor \<noteq> vram"
  shows "\<exists>st' ss'. mm_cursor_sheet vram cursor mem st = Ok st' \<and> mm_base vram ss' st' \<and> set ss' = insert cursor (set ss) \<and>
    kept cursor st st' \<and> sh_rect (st' cursor) = mk_rect 50 50 8 8 \<and> sh_is_topmost (st' cursor)"
proof -
  let ?i = "Sheet_Init cursor (cursor_buf mem) 8 8 8 50 50 (st(cursor := zero_sheet))"
  have i: "?i = st(cursor := (?i cursor))" "kept cursor st ?i" "sh_rect (?i cursor) = mk_rect 50 50 8 8"
    by (simp_all add: Sheet_Init_def kept_def)
  have b: "mm_base vram ss ?i" using mm_base_other[OF assms] i(1) by metis
  obtain st1 ss' where 1: "Sheet_SetParent cursor (Some vram) ?i = Ok st1" "mm_base vram ss' st1"
      "set ss' = insert cursor (set ss)" "kept cursor ?i st1" "sh_rect (st1 cursor) = mk_rect 50 50 8 8"
    using SetParent_base[OF b assms(2,3)] i(3) by (auto simp: rect_proper_def)
  let ?st2 = "st1(cursor := (st1 cursor)\<lparr>sh_is_topmost := True, sh_is_alpha_enabled := True\<rparr>)"
  have f: "family st1 vram ss'" "composited st1 vram ss'" using 1(2) by (auto simp: mm_base_def)
  have cu: "cursor \<in> set ss'" using 1(3) by simp
  have f2: "family ?st2 vram ss'" by (rule family_update[OF f(1) cu]) simp_all
  let ?st3 = "?st2(cursor := (?st2 cursor)\<lparr>sh_rect := (sh_rect (?st2 cursor))\<lparr>rect_x := 50, rect_y := 50\<rparr>\<rparr>)"
  obtain g c where run: "Sheet_SetPosition cursor 50 50 ?st2 = Ok (redrawn vram g c ?st3)"
    and comp: "composited (redrawn vram g c ?st3) vram ss'"
    using SetPosition_composited[OF f2 cu f(2), of 50 50] 1(5) by (auto simp: rect_proper_def)
  have "family ?st3 vram ss'" by (rule family_update[OF f2 cu]) simp_all
  then have "mm_base vram ss' (redrawn vram g c ?st3)"
    using comp 1(2,5) by (auto simp: mm_base_def rect_proper_def)
  moreover have "mm_cursor_sheet vram cursor mem st = Ok (redrawn vram g c ?st3)"
    using run 1(1,5) by (simp add: mm_cursor_sheet_def Sheet_SetTopmost_def Sheet_SetAlphaEnabled_def Sheet_MoveRelative_def)
  moreover have "kept cursor st (redrawn vram g c ?st3)"
    using kept_trans[OF i(2) 1(4)] assms(3) by (simp add: kept_def redrawn_def)
  ultimately show ?thesis using 1(3,5) assms(3) by (intro exI[of _ "redrawn vram g c ?st3"] exI[of _ ss']) simp
qed

lemma draw_chars_no_flush: "\<exists>b. draw_chars font this cs px py st = Ok (set_buf this b st)"
proof (induction cs arbitrary: px st)
  case Nil
  have "st = set_buf this (sh_buf (st this)) st" by simp
  then show ?case by (metis draw_chars.simps(1))
next
  case (Cons c cs)
  obtain b where "SheetPainter_DrawCharacter font this c px py False st = Ok (set_buf this b st)"
    using DrawCharacter_no_flush by blast
  moreover obtain b' where "draw_chars font this cs (px + 8) py (set_buf this b st) = Ok (set_buf this b' (set_buf this b st))"
    using Cons by blast
  ultimately have "draw_chars font this (c # cs) px py st = Ok (set_buf this b' st)" by simp
  then show ?case by blast
qed

lemma mm_debug_sheet_base:
  assumes "mm_base vram ss st" "debug \<notin> set ss" "debug \<noteq> vram"
  shows "\<exists>st' ss'. mm_debug_sheet font vram debug label mem st = Ok st' \<and> mm_base vram ss' st' \<and>
    set ss' = insert debug (set ss) \<and> kept debug st st' \<and> \<not> sh_is_alpha_enabled (st' debug)"
proof -
  let ?i = "Sheet_Init debug (debug_buf mem) 128 128 128 0 0 (st(debug := zero_sheet))"
  have i: "?i = st(debug := (?i debug))" "kept debug st ?i" "sh_rect (?i debug) = mk_rect 0 0 128 128" "\<not> sh_is_alpha_enabled (?i debug)"
    by (simp_all add: Sheet_Init_def kept_def)
  have b: "mm_base vram ss ?i" using mm_base_other[OF assms] i(1) by metis
  obtain st1 ss' where 1: "Sheet_SetParent debug (Some vram) ?i = Ok st1" "mm_base vram ss' st1"
      "set ss' = insert debug (set ss)" "kept debug ?i st1" "\<not> sh_is_alpha_enabled (st1 debug)"
    using SetParent_base[OF b assms(2,3)] i(3,4) by (auto simp: rect_proper_def)
  obtain b where d: "SheetPainter_DrawString font debug label 8 16 False st1 = Ok (set_buf debug b st1)"
    using draw_chars_no_flush[of font debug label 8 16 st1] by (auto simp: SheetPainter_DrawString_def flush_if_def)
  have "mm_screen vram ss' debug st1" using 1 by (simp add: mm_base_def mm_screen_def)
  then obtain st2 where 2: "Sheet_FlushAll debug (set_buf debug b st1) = Ok st2" "mm_screen vram ss' debug st2" "same_frame st1 st2"
      "\<forall>s. sh_rect (st2 s) = sh_rect (st1 s)" using FlushAll_screen by blast
  have "kept debug st st2" using kept_trans[OF i(2) 1(4)] 2(3,4) by (simp add: kept_def same_frame_def)
  then show ?thesis using 1(1,3) 2(1,2) d
    by (intro exI[of _ st2] exI[of _ ss']) (simp add: mm_debug_sheet_def mm_base_def mm_screen_def)
qed

section \<open>Properties\<close>

text \<open>
  C38: the mouse manager keeps the screen consistent.  Whatever events arrive, creating the cursor
  and the debug sheets, moving the cursor, dragging windows and showing the buttons never fails;
  the screen shows the stack of sheets at every point, and the cursor is inside of the screen, at
  the position of the mouse.
\<close>

theorem MouseManager_keeps_screen:
  assumes "family st vram ss" "composited st vram ss" "\<forall>s\<in>set ss. rect_proper (sh_rect (st s))"
    and "distinct [vram, cursor, debug, debug2]" "cursor \<notin> set ss" "debug \<notin> set ss" "debug2 \<notin> set ss"
    and "50 < rect_xsize (sh_rect (st vram))" "50 < rect_ysize (sh_rect (st vram))"
  shows "\<exists>mm st' ss'. MouseManager font vram cursor debug debug2 mem events st = Ok (mm, st') \<and>
    set ss' = {cursor, debug, debug2} \<union> set ss \<and> family st' vram ss' \<and> composited st' vram ss' \<and>
    sh_rect (st' cursor) = mk_rect (mm_x mm) (mm_y mm) 8 8 \<and>
    0 \<le> mm_x mm \<and> mm_x mm < rect_xsize (sh_rect (st vram)) \<and> 0 \<le> mm_y mm \<and> mm_y mm < rect_ysize (sh_rect (st vram))"
proof -
  have "mm_base vram ss st" using assms(1-3) by (simp add: mm_base_def)
  then obtain st1 s1 where 1: "mm_cursor_sheet vram cursor (mem cursor) st = Ok st1" "mm_base vram s1 st1" "set s1 = insert cursor (set ss)"
      "kept cursor st st1" "sh_rect (st1 cursor) = mk_rect 50 50 8 8" "sh_is_topmost (st1 cursor)"
    using mm_cursor_sheet_base[of vram ss st cursor "mem cursor"] assms(4,5) by auto
  obtain st2 s2 where 2: "mm_debug_sheet font vram debug (map ascii8 ''mouse:'') (mem debug) st1 = Ok st2" "mm_base vram s2 st2"
      "set s2 = insert debug (set s1)" "kept debug st1 st2" "\<not> sh_is_alpha_enabled (st2 debug)"
    using mm_debug_sheet_base[OF 1(2), of debug font "map ascii8 ''mouse:''" "mem debug"] assms(4,6) 1(3) by auto
  obtain st3 s3 where 3: "mm_debug_sheet font vram debug2 (map ascii8 ''sheet2'') (mem debug2) st2 = Ok st3" "mm_base vram s3 st3"
      "set s3 = insert debug2 (set s2)" "kept debug2 st2 st3" "\<not> sh_is_alpha_enabled (st3 debug2)"
    using mm_debug_sheet_base[OF 2(2), of debug2 font "map ascii8 ''sheet2''" "mem debug2"] assms(4,7) 1(3) 2(3) by auto
  let ?mm = "\<lparr>mm_x = 50, mm_y = 50, mm_last_left_button_state = False, mm_focused = None, mm_focused_ofs_x = 0, mm_focused_ofs_y = 0\<rparr>"
  have v: "sh_rect (st3 vram) = sh_rect (st vram)" using 1(4) 2(4) 3(4) assms(4) by (simp add: kept_def)
  have c: "sh_rect (st3 cursor) = mk_rect 50 50 8 8" "sh_is_topmost (st3 cursor)" "\<not> sh_is_alpha_enabled (st3 debug)"
    using 1(5,6) 2(4,5) 3(4) assms(4) by (simp_all add: kept_def)
  have "mm_inv vram s3 cursor debug (?mm, st3)"
    using 3(2,3) 2(3) 1(3) c v assms(8,9) by (simp add: mm_inv_def mm_base_def)
  then obtain mm st' where "MouseManager_loop font vram cursor debug events (?mm, st3) = Ok (mm, st')" "mm_inv vram s3 cursor debug (mm, st')"
      "sh_rect (st' vram) = sh_rect (st3 vram)" using MouseManager_loop_inv by fastforce
  then show ?thesis using 1(1,3) 2(1,3) 3(1,3) v
    by (intro exI[of _ mm] exI[of _ st'] exI[of _ s3]) (auto simp: MouseManager_def mm_inv_def)
qed

text \<open>A screen of 64 by 64 points without windows.\<close>

definition example_screen :: sheets where
  "example_screen = (\<lambda>s. zero_sheet)(0 := zero_sheet\<lparr>sh_map := Some (\<lambda>_. None), sh_rect := mk_rect 0 0 64 64,
     sh_pixels_per_scan_line := 64\<rparr>)"

theorem MouseManager_keeps_screen_witness:
  "\<exists>mm st' ss'. MouseManager (\<lambda>_ _. 0) 0 1 2 3 (\<lambda>_ _. 0) [decode_packet 9 100 100, decode_packet 9 0xF0 3] example_screen = Ok (mm, st') \<and>
    composited st' 0 ss' \<and> mm_x mm < 64"
proof -
  have "family example_screen 0 []" "composited example_screen 0 []"
    by (simp_all add: example_screen_def family_def composited_def zero_sheet_def rect_proper_def)
  from MouseManager_keeps_screen[OF this, of 1 2 3 "\<lambda>_ _. 0" "\<lambda>_ _. 0" "[decode_packet 9 100 100, decode_packet 9 0xF0 3]"]
  show ?thesis by (auto simp: example_screen_def)
qed

end
