(* ===== verification/Lib_Strings.thy ===== *)
theory Lib_Strings
  imports C_Memory
begin

text \<open>
The string and memory functions of the application library (app/liumlib/liumlib.c), over a
  byte-addressed memory.  A loop which runs to the end of a string is a partial function: \<open>None\<close>
  stands for a loop which finds no zero byte.
\<close>

section \<open>Copying and filling\<close>

primrec copy_up :: "nat \<Rightarrow> nat \<Rightarrow> nat \<Rightarrow> nat \<Rightarrow> cmem \<Rightarrow> cmem" where
  "copy_up dest src i 0 m = m"
| "copy_up dest src i (Suc n) m = copy_up dest src (i + 1) n (m(dest + i := m (src + i)))"

definition memcpy :: "nat \<Rightarrow> nat \<Rightarrow> nat \<Rightarrow> cmem \<Rightarrow> cmem" where
  "memcpy dest src n m = copy_up dest src 0 n m"

primrec copy_down :: "nat \<Rightarrow> nat \<Rightarrow> nat \<Rightarrow> cmem \<Rightarrow> cmem" where
  "copy_down dest src 0 m = m"
| "copy_down dest src (Suc i) m = copy_down dest src i (m(dest + i := m (src + i)))"

definition memmove :: "nat \<Rightarrow> nat \<Rightarrow> nat \<Rightarrow> cmem \<Rightarrow> cmem" where
  "memmove dest src n m =
     (let m1 = (if \<bar>int dest - int src\<bar> < int n \<and> src \<le> dest then copy_down dest src n m else m)
      in memcpy dest src n m1)"

primrec memset :: "nat \<Rightarrow> u8 \<Rightarrow> nat \<Rightarrow> cmem \<Rightarrow> cmem" where
  "memset s c 0 m = m"
| "memset s c (Suc n) m = memset (s + 1) c n (m(s := c))"

primrec bzero_loop :: "nat \<Rightarrow> nat \<Rightarrow> nat \<Rightarrow> cmem \<Rightarrow> cmem" where
  "bzero_loop s i 0 m = m"
| "bzero_loop s i (Suc n) m = bzero_loop s (i + 1) n (m(s + i := 0))"

definition bzero :: "nat \<Rightarrow> nat \<Rightarrow> cmem \<Rightarrow> cmem" where
  "bzero s n m = bzero_loop s 0 n m"

lemma memset_at: "memset s c n m k = (if s \<le> k \<and> k < s + n then c else m k)"
  by (induction n arbitrary: s m) auto

lemma bzero_loop_at: "bzero_loop s i n m k = (if s + i \<le> k \<and> k < s + i + n then 0 else m k)"
  by (induction n arbitrary: i m) auto

lemma bzero_at: "bzero s n m k = (if s \<le> k \<and> k < s + n then 0 else m k)"
  by (simp add: bzero_def bzero_loop_at)

text \<open>Copying upwards is right if the destination does not lie inside of the source, behind its start.\<close>

lemma copy_up_at:
  assumes "dest \<le> src \<or> src + i + n \<le> dest + i"
  shows "copy_up dest src i n m k = (if dest + i \<le> k \<and> k < dest + i + n then m (k - dest + src) else m k)"
  using assms
proof (induction n arbitrary: i m)
  case (Suc n)
  have e: "k - dest + src \<noteq> dest + i" if "dest + i + 1 \<le> k" "k < dest + i + 1 + n"
    using that Suc.prems by auto
  have "copy_up dest src (i + 1) n (m(dest + i := m (src + i))) k =
      (if dest + (i + 1) \<le> k \<and> k < dest + (i + 1) + n then (m(dest + i := m (src + i))) (k - dest + src)
       else (m(dest + i := m (src + i))) k)" by (rule Suc.IH) (use Suc.prems in auto)
  then show ?case unfolding copy_up.simps using e by (cases "k = dest + i") (auto simp: add.commute simp del: copy_up.simps)
qed auto

lemma memcpy_at:
  "dest \<le> src \<or> src + n \<le> dest \<Longrightarrow> memcpy dest src n m k = (if dest \<le> k \<and> k < dest + n then m (k - dest + src) else m k)"
  using copy_up_at[of dest src 0 n m k] by (simp add: memcpy_def)

section \<open>Strings\<close>

partial_function (option) strlen :: "cmem \<Rightarrow> nat \<Rightarrow> nat option" where
  "strlen m s = (if m s = 0 then Some 0 else Option.bind (strlen m (s + 1)) (\<lambda>len. Some (len + 1)))"

partial_function (option) copy_string :: "nat \<Rightarrow> nat \<Rightarrow> cmem \<Rightarrow> (nat \<times> cmem) option" where
  "copy_string dest src m =
     (if m src = 0 then Some (dest, m) else copy_string (dest + 1) (src + 1) (m(dest := m src)))"

declare strlen.simps [code] copy_string.simps [code]

definition strcpy :: "nat \<Rightarrow> nat \<Rightarrow> cmem \<Rightarrow> cmem option" where
  "strcpy dest src m = Option.bind (copy_string dest src m) (\<lambda>(_, m'). Some m')"

definition strcat :: "nat \<Rightarrow> nat \<Rightarrow> cmem \<Rightarrow> cmem option" where
  "strcat dest src m =
     Option.bind (strlen m dest) (\<lambda>len.
     Option.bind (copy_string (dest + len) src m) (\<lambda>(ptr, m'). Some (m'(ptr := 0))))"

primrec copy_string_n :: "nat \<Rightarrow> nat \<Rightarrow> nat \<Rightarrow> cmem \<Rightarrow> nat \<times> cmem" where
  "copy_string_n 0 ptr src m = (ptr, m)"
| "copy_string_n (Suc n) ptr src m =
     (if m src = 0 then (ptr, m) else copy_string_n n (ptr + 1) (src + 1) (m(ptr := m src)))"

definition strncat :: "nat \<Rightarrow> nat \<Rightarrow> nat \<Rightarrow> cmem \<Rightarrow> cmem option" where
  "strncat dest src n m =
     Option.bind (strlen m dest) (\<lambda>len.
     case copy_string_n n (dest + len) src m of (ptr, m') \<Rightarrow> Some (m'(ptr := 0)))"

text \<open>The difference of two characters as \<open>unsigned char\<close>.\<close>

definition uchar_diff :: "u8 \<Rightarrow> u8 \<Rightarrow> int" where
  "uchar_diff a b = uint a - uint b"

partial_function (option) strcmp :: "cmem \<Rightarrow> nat \<Rightarrow> nat \<Rightarrow> int option" where
  "strcmp m s1 s2 =
     (if m s1 = 0 \<or> m s1 \<noteq> m s2 then Some (uchar_diff (m s1) (m s2)) else strcmp m (s1 + 1) (s2 + 1))"

declare strcmp.simps [code]

primrec strncmp_from :: "cmem \<Rightarrow> nat \<Rightarrow> nat \<Rightarrow> nat \<Rightarrow> nat \<Rightarrow> int" where
  "strncmp_from m s1 s2 i 0 = 0"
| "strncmp_from m s1 s2 i (Suc n) =
     (if m (s1 + i) = 0 \<or> m (s2 + i) = 0 then 0
      else if m (s1 + i) \<noteq> m (s2 + i) then 1
      else strncmp_from m s1 s2 (i + 1) n)"

definition strncmp :: "cmem \<Rightarrow> nat \<Rightarrow> nat \<Rightarrow> nat \<Rightarrow> int" where
  "strncmp m s1 s2 n = strncmp_from m s1 s2 0 n"

text \<open>The search loop; the result is the address of the match, if there is one.\<close>

partial_function (option) strstr_from :: "cmem \<Rightarrow> nat \<Rightarrow> nat \<Rightarrow> nat \<Rightarrow> nat option option" where
  "strstr_from m haystack needle needle_len =
     (if m haystack = 0 then Some None
      else if strncmp m haystack needle needle_len = 0 then Some (Some haystack)
      else strstr_from m (haystack + 1) needle needle_len)"

declare strstr_from.simps [code]

definition strstr :: "cmem \<Rightarrow> nat \<Rightarrow> nat \<Rightarrow> nat option option" where
  "strstr m haystack needle = Option.bind (strlen m needle) (strstr_from m haystack needle)"

text \<open>
  \<open>strtok\<close> with its static \<open>save_ptr\<close>: the result is the start of the token, the new \<open>save_ptr\<close> and
  the memory, in which the delimiter is overwritten.
\<close>

partial_function (option) strtok_from :: "nat \<Rightarrow> nat \<Rightarrow> cmem \<Rightarrow> (nat \<times> cmem) option" where
  "strtok_from str delim m =
     (if m str = 0 then Some (str, m)
      else Option.bind (strlen m delim) (\<lambda>len.
        if \<exists>i\<in>set [0..<len]. m str = m (delim + i) then Some (str + 1, m(str := 0))
        else strtok_from (str + 1) delim m))"

declare strtok_from.simps [code]

definition strtok :: "nat option \<Rightarrow> nat \<Rightarrow> nat \<Rightarrow> cmem \<Rightarrow> (nat \<times> nat \<times> cmem) option" where
  "strtok str delim save_ptr m =
     (let start = (case str of None \<Rightarrow> save_ptr | Some s \<Rightarrow> s) in
      Option.bind (strtok_from start delim m) (\<lambda>(save, m'). Some (start, save, m')))"

lemma strlen_cstr: "cstr_at m p s \<Longrightarrow> strlen m p = Some (length s)"
  by (induction s arbitrary: p) (simp_all add: strlen.simps[of m])

lemma put_bytes_append: "put_bytes p (s @ t) m = put_bytes (p + length s) t (put_bytes p s m)"
  by (induction s arbitrary: p m) (simp_all)

text \<open>The copying loop, if the destination misses the source.\<close>

lemma copy_string_cstr:
  assumes "cstr_at m src s" "dest + length s \<le> src \<or> src + length s < dest"
  shows "copy_string dest src m = Some (dest + length s, put_bytes dest s m)"
  using assms
proof (induction s arbitrary: dest src m)
  case Nil
  then show ?case by (simp add: copy_string.simps[of dest src m])
next
  case (Cons c s)
  have "cstr_at (m(dest := c)) (src + 1) s"
    using Cons.prems by (subst cstr_at_cong[of s _ _ m]) auto
  moreover have "dest + 1 + length s \<le> src + 1 \<or> src + 1 + length s < dest + 1" using Cons.prems(2) by auto
  ultimately show ?case using Cons.IH[of "m(dest := c)" "src + 1" "dest + 1"] Cons.prems(1)
    by (simp add: copy_string.simps[of dest src m] del: fun_upd_apply)
qed

lemma copy_string_n_cstr:
  assumes "cstr_at m src s" "dest + length s \<le> src \<or> src + length s < dest"
  shows "copy_string_n n dest src m = (dest + min n (length s), put_bytes dest (take n s) m)"
  using assms
proof (induction n arbitrary: dest src m s)
  case (Suc n)
  show ?case
  proof (cases s)
    case Nil
    then show ?thesis using Suc.prems by simp
  next
    case (Cons c t)
    have "cstr_at (m(dest := c)) (src + 1) t"
      using Suc.prems Cons by (subst cstr_at_cong[of t _ _ m]) auto
    moreover have "dest + 1 + length t \<le> src + 1 \<or> src + 1 + length t < dest + 1" using Suc.prems(2) Cons by auto
    ultimately show ?thesis using Suc.IH[of "m(dest := c)" "src + 1" t "dest + 1"] Suc.prems(1) Cons
      by (simp del: fun_upd_apply)
  qed
qed simp

lemma cstr_at_append:
  "cstr_at m p (s @ t) \<longleftrightarrow> 0 \<notin> set s \<and> get_bytes m p (length s) = s \<and> cstr_at m (p + length s) t"
  by (induction s arbitrary: p) (auto simp: get_bytes_Suc)

section \<open>What the string functions compute\<close>

lemma put_bytes_below: "k < p \<or> p + length s \<le> k \<Longrightarrow> put_bytes p s m k = m k"
  by (auto simp: put_bytes_at)

lemma cstr_put_bytes: "0 \<notin> set s \<Longrightarrow> cstr_at ((put_bytes p s m)(p + length s := 0)) p s"
  by (auto simp: cstr_at_iff put_bytes_at)

lemma appended_cstr:
  assumes "cstr_at m p s" "0 \<notin> set t"
  shows "cstr_at ((put_bytes (p + length s) t m)(p + length s + length t := 0)) p (s @ t)"
  using assms by (auto simp: cstr_at_iff put_bytes_at nth_append add.assoc)

lemma strcat_cstr:
  assumes "cstr_at m p s" "cstr_at m q t" "p + length s + length t \<le> q \<or> q + length t < p + length s"
  shows "\<exists>m'. strcat p q m = Some m' \<and> cstr_at m' p (s @ t) \<and>
    (\<forall>k. k < p + length s \<or> p + length s + length t < k \<longrightarrow> m' k = m k)"
proof -
  have t: "0 \<notin> set t" using assms(2) by (simp add: cstr_at_iff)
  have "strcat p q m = Some ((put_bytes (p + length s) t m)(p + length s + length t := 0))"
    using strlen_cstr[OF assms(1)] copy_string_cstr[OF assms(2), of "p + length s"] assms(3) by (simp add: strcat_def)
  then show ?thesis using appended_cstr[OF assms(1) t] by (auto simp: put_bytes_below)
qed

lemma strncat_cstr:
  assumes "cstr_at m p s" "cstr_at m q t" "p + length s + length t \<le> q \<or> q + length t < p + length s"
  shows "\<exists>m'. strncat p q n m = Some m' \<and> cstr_at m' p (s @ take n t)"
proof -
  have t: "0 \<notin> set (take n t)" using assms(2) by (auto simp: cstr_at_iff dest: in_set_takeD)
  have "strncat p q n m = Some ((put_bytes (p + length s) (take n t) m)(p + length s + length (take n t) := 0))"
    using strlen_cstr[OF assms(1)] copy_string_n_cstr[OF assms(2), of "p + length s" n] assms(3)
    by (simp add: strncat_def min.commute)
  then show ?thesis using appended_cstr[OF assms(1) t] by auto
qed

lemma strcmp_cstr:
  assumes "cstr_at m p s" "cstr_at m q t"
  shows "\<exists>r. strcmp m p q = Some r \<and> (r = 0 \<longleftrightarrow> s = t) \<and> (r < 0 \<longleftrightarrow> ord_class.lexordp s t)"
  using assms
proof (induction s arbitrary: p q t)
  case Nil
  then have r: "strcmp m p q = Some (- uint (m q))" by (subst strcmp.simps) (simp add: uchar_diff_def)
  show ?case using Nil by (cases t) (auto simp: r uint_0_iff word_neq_0_conv word_less_def)
next
  case (Cons c s)
  show ?case
  proof (cases t)
    case Nil
    then have "strcmp m p q = Some (uint c)" using Cons.prems by (subst strcmp.simps) (simp add: uchar_diff_def)
    then show ?thesis using Cons.prems Nil by (simp add: uint_0_iff)
  next
    case (Cons d u)
    show ?thesis
    proof (cases "c = d")
      case True
      then have "strcmp m p q = strcmp m (p + 1) (q + 1)" using Cons.prems Cons by (subst strcmp.simps) simp
      then show ?thesis using Cons.IH[of "p + 1" "q + 1" u] Cons.prems Cons True by simp
    next
      case False
      then have "strcmp m p q = Some (uchar_diff c d)" using Cons.prems Cons by (subst strcmp.simps) simp
      moreover have "uint c \<noteq> uint d" using False by (simp add: word_uint_eq_iff)
      ultimately show ?thesis using Cons False by (auto simp: uchar_diff_def word_less_def)
    qed
  qed
qed

text \<open>\<open>strncmp\<close> compares only up to the end of the shorter string.\<close>

lemma strncmp_from_cstr:
  assumes "cstr_at m (p + i) s" "cstr_at m (q + i) t"
  shows "strncmp_from m p q i n = 0 \<longleftrightarrow> (\<forall>j < min n (min (length s) (length t)). s ! j = t ! j)"
  using assms
proof (induction n arbitrary: i s t)
  case (Suc n)
  show ?case
  proof (cases s)
    case (Cons c s')
    show ?thesis
    proof (cases t)
      case (Cons d t')
      have "cstr_at m (p + (i + 1)) s'" "cstr_at m (q + (i + 1)) t'" using Suc.prems \<open>s = c # s'\<close> Cons by simp_all
      from Suc.IH[OF this] show ?thesis
        using Suc.prems \<open>s = c # s'\<close> Cons by (auto simp: All_less_Suc2)
    qed (use Suc.prems in simp)
  qed (use Suc.prems in simp)
qed simp

lemma strncmp_cstr:
  "cstr_at m p s \<Longrightarrow> cstr_at m q t \<Longrightarrow>
   strncmp m p q n = 0 \<longleftrightarrow> (\<forall>j < min n (min (length s) (length t)). s ! j = t ! j)"
  using strncmp_from_cstr[of m p 0 s q t n] by (simp add: strncmp_def)

text \<open>So \<open>strstr\<close> finds the first position where needle and rest agree as far as both go.\<close>

definition agrees :: "u8 list \<Rightarrow> u8 list \<Rightarrow> bool" where
  "agrees s t \<longleftrightarrow> (\<forall>j < min (length s) (length t). s ! j = t ! j)"

lemma strstr_cstr:
  assumes "cstr_at m p s" "cstr_at m q t"
  shows "strstr m p q = Some (map_option (\<lambda>i. p + i) (find (\<lambda>i. agrees (drop i s) t) [0..<length s]))"
proof -
  have "strstr_from m p q (length t) = Some (map_option (\<lambda>i. p + i) (find (\<lambda>i. agrees (drop i s) t) [0..<length s]))"
    using assms(1)
  proof (induction s arbitrary: p)
    case Nil
    then show ?case by (simp add: strstr_from.simps[of m p])
  next
    case (Cons c s)
    have a: "strncmp m p q (length t) = 0 \<longleftrightarrow> agrees (c # s) t"
      using strncmp_cstr[OF Cons.prems assms(2), of "length t"] by (simp add: agrees_def min.commute min.left_commute)
    have u: "[0..<Suc (length s)] = 0 # map Suc [0..<length s]" by (simp add: upt_conv_Cons map_Suc_upt del: upt_Suc)
    have f: "find P (map Suc xs) = map_option Suc (find (\<lambda>i. P (Suc i)) xs)" for P xs by (induction xs) auto
    show ?case using Cons.IH[of "p + 1"] Cons.prems a
      by (simp add: strstr_from.simps[of m p] u f option.map_comp comp_def del: upt_Suc)
  qed
  then show ?thesis using strlen_cstr[OF assms(2)] by (simp add: strstr_def)
qed

text \<open>\<open>strtok\<close> cuts the string at the first delimiter.\<close>

lemma strtok_from_cstr:
  assumes "cstr_at m p s" "cstr_at m d ds"
  shows "strtok_from p d m =
    (let n = length (takeWhile (\<lambda>c. c \<notin> set ds) s) in
     if n = length s then Some (p + n, m) else Some (p + n + 1, m(p + n := 0)))"
  using assms(1)
proof (induction s arbitrary: p)
  case Nil
  then show ?case by (simp add: strtok_from.simps[of p d m])
next
  case (Cons c s)
  have "m p = c" "\<forall>i < length ds. m (d + i) = ds ! i" using assms(2) Cons.prems by (simp_all add: cstr_at_iff[of m d])
  then have "(\<exists>i\<in>set [0..<length ds]. m p = m (d + i)) \<longleftrightarrow> c \<in> set ds" by (auto simp: in_set_conv_nth Bex_def)
  then show ?case using Cons.IH[of "p + 1"] Cons.prems strlen_cstr[OF assms(2)]
    by (simp add: strtok_from.simps[of p d m] Let_def)
qed

lemma strtok_cstr:
  assumes "cstr_at m p s" "cstr_at m d ds"
  shows "\<exists>save m'. strtok (Some p) d save_ptr m = Some (p, save, m') \<and>
    cstr_at m' p (takeWhile (\<lambda>c. c \<notin> set ds) s) \<and>
    cstr_at m' save (tl (dropWhile (\<lambda>c. c \<notin> set ds) s))"
proof -
  let ?t = "takeWhile (\<lambda>c. c \<notin> set ds) s" and ?r = "dropWhile (\<lambda>c. c \<notin> set ds) s"
  have s: "s = ?t @ ?r" by simp
  have nz: "0 \<notin> set ?t" "get_bytes m p (length ?t) = ?t" "cstr_at m (p + length ?t) ?r"
    using assms(1) by (metis s cstr_at_append)+
  show ?thesis
  proof (cases ?r)
    case Nil
    then have t: "?t = s" by (metis s append_Nil2)
    have "strtok_from p d m = Some (p + length s, m)" using strtok_from_cstr[OF assms] unfolding t by simp
    moreover have "cstr_at m (p + length s) []" using assms(1) by (simp add: cstr_at_iff)
    ultimately show ?thesis using assms(1) unfolding t Nil by (simp add: strtok_def)
  next
    case (Cons e r)
    then have l: "length ?t \<noteq> length s" by (metis s append_eq_conv_conj drop_all list.distinct(1) order_refl self_append_conv)
    let ?m = "m(p + length ?t := 0)"
    have "cstr_at ?m p ?t" using nz(1,2) by (auto simp: cstr_at_iff list_eq_iff_nth_eq)
    moreover have "cstr_at m (p + length ?t + 1) r" using nz(3) Cons by simp
    then have "cstr_at ?m (p + length ?t + 1) r" by (subst cstr_at_cong[of r _ _ m]) auto
    ultimately show ?thesis using strtok_from_cstr[OF assms] l Cons by (simp add: strtok_def Let_def)
  qed
qed

section \<open>Overlapping moves\<close>

lemma copy_up_outside: "k < dest + i \<or> dest + i + n \<le> k \<Longrightarrow> copy_up dest src i n m k = m k"
proof (induction n arbitrary: i m)
  case (Suc n)
  have "copy_up dest src (i + 1) n (m(dest + i := m (src + i))) k = (m(dest + i := m (src + i))) k"
    using Suc.prems by (intro Suc.IH) auto
  then show ?case using Suc.prems by auto
qed simp

lemma copy_up_shift:
  assumes "0 < d" "i \<le> j" "j < i + n"
  shows "copy_up (src + d) src i n m (src + d + j) = copy_up (src + d) src i n m (src + j)"
  using assms(2,3)
proof (induction n arbitrary: i m)
  case (Suc n)
  let ?m = "m(src + d + i := m (src + i))"
  show ?case
  proof (cases "j = i")
    case True
    then show ?thesis using assms(1) copy_up_outside[of "src + d + i" "src + d" "i + 1" n src ?m]
        copy_up_outside[of "src + i" "src + d" "i + 1" n src ?m] by simp
  next
    case False
    then have "i + 1 \<le> j" "j < i + 1 + n" using Suc.prems by simp_all
    from Suc.IH[OF this, of ?m] show ?thesis by (simp del: fun_upd_apply)
  qed
qed simp

lemma copy_down_low: "k < dest \<Longrightarrow> copy_down dest src n m k = m k"
  by (induction n arbitrary: m) auto

lemma memmove_overlap:
  assumes "0 < d" "d < n" "i < n"
  shows "memmove (src + d) src n m (src + d + i) = m (src + i mod d)"
proof -
  let ?m1 = "copy_down (src + d) src n m"
  let ?f = "copy_up (src + d) src 0 n ?m1"
  have m: "memmove (src + d) src n m = ?f" using assms by (simp add: memmove_def memcpy_def)
  have "?f (src + d + i) = m (src + i mod d)" using assms(3)
  proof (induction i rule: less_induct)
    case (less i)
    have s: "?f (src + d + i) = ?f (src + i)" by (rule copy_up_shift[OF assms(1)]) (use less.prems in simp_all)
    show ?case
    proof (cases "i < d")
      case True
      then have "?f (src + i) = ?m1 (src + i)" by (intro copy_up_outside) simp
      then show ?thesis using s True copy_down_low[of "src + i" "src + d" src n m] by simp
    next
      case False
      have "?f (src + d + (i - d)) = m (src + (i - d) mod d)" by (rule less.IH) (use False less.prems assms(1) in auto)
      then show ?thesis using s False by (simp add: le_mod_geq)
    qed
  qed
  then show ?thesis by (simp add: m)
qed

end
