(* ===== verification/Liumlib.thy ===== *)
theory Liumlib
  imports Lib_Strings Number_Text
begin

text \<open>
Allocation, byte order and numbers of the application library (app/liumlib/liumlib.c): \<open>malloc\<close>
  from a fixed array, printing and parsing of numbers and of IPv4 addresses.  A C string is given
  as the list of its characters where only its text matters.
\<close>

section \<open>Allocation\<close>

definition MALLOC_MAX_SIZE :: nat where "MALLOC_MAX_SIZE = 1000000"

text \<open>
  \<open>base\<close> is the address of \<open>malloc_array\<close>; the state is \<open>malloc_size\<close> and the memory.  The sum
  in the test is one of 64-bit unsigned integers.  \<open>None\<close> is \<open>exit(1)\<close>.
\<close>

definition malloc :: "nat \<Rightarrow> u64 \<Rightarrow> nat \<times> cmem \<Rightarrow> (nat \<times> nat \<times> cmem) option" where
  "malloc base n s = (case s of (malloc_size, m) \<Rightarrow>
     if of_nat MALLOC_MAX_SIZE < of_nat malloc_size + n then None
     else Some (base + malloc_size, unat (of_nat malloc_size + n), memset (base + malloc_size) 0 (unat n) m))"

definition realloc :: "nat \<Rightarrow> nat \<Rightarrow> u64 \<Rightarrow> nat \<times> cmem \<Rightarrow> (nat \<times> nat \<times> cmem) option" where
  "realloc base ptr new_size s = (case s of (malloc_size, m) \<Rightarrow>
     if ptr = 0 \<or> new_size = 0 then None
     else if ptr < base \<or> base + malloc_size \<le> base then Some (0, malloc_size, m)
     else
       let left = of_nat (base + malloc_size) - of_nat ptr :: u64;
           copy_size = (if new_size > left then left else new_size)
       in case malloc base new_size (malloc_size, m) of None \<Rightarrow> None
          | Some (new_ptr, malloc_size', m') \<Rightarrow> Some (new_ptr, malloc_size', memcpy new_ptr ptr (unat copy_size) m'))"

lemma malloc_region:
  assumes "malloc base n (sz, m) = Some (p, sz', m')" "sz + unat n < 2 ^ 64"
  shows "p = base + sz" "sz' = sz + unat n" "sz' \<le> MALLOC_MAX_SIZE"
    "\<forall>k. m' k = (if p \<le> k \<and> k < p + unat n then 0 else m k)"
proof -
  have u: "unat (of_nat sz + n) = sz + unat n"
  proof -
    have "unat (of_nat sz :: u64) = sz" using assms(2) by (simp add: unat_of_nat)
    then show ?thesis using assms(2) by (subst unat_plus_simple[THEN iffD1]) (auto simp: no_olen_add_nat)
  qed
  have l: "\<not> of_nat MALLOC_MAX_SIZE < of_nat sz + n"
    and e: "p = base + sz" "sz' = unat (of_nat sz + n)" "m' = memset (base + sz) 0 (unat n) m"
    using assms(1) by (auto simp: malloc_def split: if_splits)
  show "p = base + sz" "sz' = sz + unat n" using e u by simp_all
  show "sz' \<le> MALLOC_MAX_SIZE" using l e(2) by (simp add: word_less_nat_alt MALLOC_MAX_SIZE_def)
  show "\<forall>k. m' k = (if p \<le> k \<and> k < p + unat n then 0 else m k)" by (simp add: e memset_at)
qed

text \<open>A sequence of calls: the pointers, with the sizes asked for.\<close>

primrec malloc_all :: "nat \<Rightarrow> u64 list \<Rightarrow> nat \<times> cmem \<Rightarrow> ((nat \<times> nat) list \<times> nat \<times> cmem) option" where
  "malloc_all base [] s = Some ([], s)"
| "malloc_all base (n # ns) s =
     (case malloc base n s of None \<Rightarrow> None
      | Some (p, s') \<Rightarrow> case malloc_all base ns s' of None \<Rightarrow> None
         | Some (ps, s'') \<Rightarrow> Some ((p, unat n) # ps, s''))"

lemma malloc_all_regions:
  assumes "malloc_all base ns (sz, m) = Some (ps, sz', m')" "\<forall>n\<in>set ns. unat n < 2 ^ 63" "sz \<le> MALLOC_MAX_SIZE"
  shows "sz \<le> sz' \<and> sz' \<le> MALLOC_MAX_SIZE \<and> (\<forall>(p, n)\<in>set ps. base + sz \<le> p \<and> p + n \<le> base + sz') \<and>
    sorted_wrt (\<lambda>(p, n) (q, k). p + n \<le> q) ps \<and>
    (\<forall>a. base + sz \<le> a \<and> a < base + sz' \<longrightarrow> m' a = 0) \<and> (\<forall>a. a < base + sz \<or> base + sz' \<le> a \<longrightarrow> m' a = m a)"
  using assms
proof (induction ns arbitrary: sz m ps)
  case (Cons n ns)
  obtain p s1 m1 where 1: "malloc base n (sz, m) = Some (p, s1, m1)"
    using Cons.prems(1) by (auto split: option.splits prod.splits)
  obtain qs where 2: "malloc_all base ns (s1, m1) = Some (qs, sz', m')" "ps = (p, unat n) # qs"
    using Cons.prems(1) 1 by (auto split: option.splits prod.splits)
  have "sz + unat n < 2 ^ 64" using Cons.prems(2,3) by (simp add: MALLOC_MAX_SIZE_def)
  note R = malloc_region[OF 1 this]
  have r: "s1 \<le> sz'" "sz' \<le> MALLOC_MAX_SIZE" "\<forall>(q, k)\<in>set qs. base + s1 \<le> q \<and> q + k \<le> base + sz'"
    "sorted_wrt (\<lambda>(p, n) (q, k). p + n \<le> q) qs" "\<forall>a. base + s1 \<le> a \<and> a < base + sz' \<longrightarrow> m' a = 0"
    "\<forall>a. a < base + s1 \<or> base + sz' \<le> a \<longrightarrow> m' a = m1 a"
    using Cons.IH[OF 2(1)] Cons.prems(2) R(3) by auto
  have "m' a = 0" if "base + sz \<le> a" "a < base + sz'" for a
    using r(5,6) R that by (cases "a < base + s1") auto
  moreover have "m' a = m a" if "a < base + sz \<or> base + sz' \<le> a" for a
    using r(1,6) R that by auto
  moreover have "sorted_wrt (\<lambda>(p, n) (q, k). p + n \<le> q) ps" using r(3,4) R(1,2) by (auto simp: 2(2))
  ultimately show ?case using r R by (auto simp: 2(2))
qed auto

section \<open>Byte order\<close>

definition bswap_16 :: "u16 \<Rightarrow> u16" where
  "bswap_16 x = (drop_bit 8 x AND 0xff) OR push_bit 8 (x AND 0xff)"

definition bswap_32 :: "u32 \<Rightarrow> u32" where
  "bswap_32 x = drop_bit 24 (x AND 0xff000000) OR drop_bit 8 (x AND 0x00ff0000) OR
     push_bit 8 (x AND 0x0000ff00) OR push_bit 24 (x AND 0x000000ff)"

text \<open>The bytes of an integer in memory; the processor is little endian.\<close>

definition le_bytes32 :: "u32 \<Rightarrow> u8 list" where
  "le_bytes32 x = map (\<lambda>i. ucast (drop_bit (8 * i) x)) [0..<4]"

definition le_word32 :: "u8 list \<Rightarrow> u32" where
  "le_word32 bs = foldr (\<lambda>b w. ucast b OR push_bit 8 w) bs 0"

definition is_big_endian :: bool where
  "is_big_endian \<longleftrightarrow> le_bytes32 0x01020304 ! 0 = 1"

definition htons :: "u16 \<Rightarrow> u16" where
  "htons hostshort = (if is_big_endian then hostshort else bswap_16 hostshort)"

definition htonl :: "u32 \<Rightarrow> u32" where
  "htonl hostlong = (if is_big_endian then hostlong else bswap_32 hostlong)"

lemma not_big_endian: "\<not> is_big_endian"
  by (simp add: is_big_endian_def le_bytes32_def upt_rec)

lemma le_word32_bytes [simp]: "le_word32 (le_bytes32 x) = x"
proof (rule bit_word_eqI)
  have e: "le_word32 (le_bytes32 x) = ucast (ucast x :: u8) OR push_bit 8 (ucast (ucast (drop_bit 8 x) :: u8) OR
      push_bit 8 (ucast (ucast (drop_bit 16 x) :: u8) OR push_bit 8 (ucast (ucast (drop_bit 24 x) :: u8))))"
    by (simp add: le_word32_def le_bytes32_def upt_rec)
  fix n
  assume "n < LENGTH(32)"
  then have "n < 8 \<or> 8 \<le> n \<and> n < 16 \<or> 16 \<le> n \<and> n < 24 \<or> 24 \<le> n \<and> n < 32" by auto
  then show "bit (le_word32 (le_bytes32 x)) n = bit x n"
    unfolding e by (elim disjE) (auto simp: bit_simps)
qed

section \<open>Numbers\<close>

text \<open>The digits of a non-negative number, the last one first, in an array of 15 characters.\<close>

primrec num_loop :: "nat \<Rightarrow> int \<Rightarrow> u8 list res" where
  "num_loop 0 v = Fail Out_Of_Bounds"
| "num_loop (Suc k) v =
     (let c = of_int (v mod 10) + 48; v' = v div 10 in
      if v' = 0 then Ok [c] else bind_res (num_loop k v') (\<lambda>cs. Ok (c # cs)))"

text \<open>The characters written, for a number above \<open>INT_MIN\<close>.\<close>

definition PrintNum :: "int \<Rightarrow> u8 list res" where
  "PrintNum v =
     (if v < 0 then bind_res (num_loop 15 (- v)) (\<lambda>cs. Ok (bytes ''-'' @ rev cs))
      else bind_res (num_loop 15 v) (\<lambda>cs. Ok (rev cs)))"

text \<open>The argument is a signed character.\<close>

definition NumToHexChar :: "u8 \<Rightarrow> u8" where
  "NumToHexChar v = (if sint v < 10 then v + 48 else if sint v < 16 then v - 10 + 65 else 63)"

definition PrintHex8ZeroFilled :: "u8 \<Rightarrow> u8 list" where
  "PrintHex8ZeroFilled v = [NumToHexChar (drop_bit 4 v AND 0xF), NumToHexChar (v AND 0xF)]"

text \<open>A C string as the list of its characters: the number at its start and the rest.\<close>

fun parse_num :: "u32 \<Rightarrow> u8 list \<Rightarrow> u32 \<times> u8 list" where
  "parse_num v (c # cs) = (if 48 \<le> c \<and> c \<le> 57 then parse_num (v * 10 + ucast c - 48) cs else (v, c # cs))"
| "parse_num v [] = (v, [])"

definition StrToByte :: "u8 list \<Rightarrow> u8 \<times> u8 list" where
  "StrToByte s = (case parse_num 0 s of (v, rest) \<Rightarrow> (ucast v, rest))"

definition StrToNum16 :: "u8 list \<Rightarrow> u16 \<times> u8 list" where
  "StrToNum16 s = (case parse_num 0 s of (v, rest) \<Rightarrow> (ucast v, rest))"

definition MakeIPv4Addr :: "u8 \<Rightarrow> u8 \<Rightarrow> u8 \<Rightarrow> u8 \<Rightarrow> u32" where
  "MakeIPv4Addr a b c d = le_word32 [a, b, c, d]"

primrec ipv4_bytes :: "nat \<Rightarrow> u8 list \<Rightarrow> u8 list res" where
  "ipv4_bytes 0 s = Ok [fst (StrToByte s)]"
| "ipv4_bytes (Suc i) s =
     (case StrToByte s of (b, rest) \<Rightarrow>
        bind_res (check_that (rest \<noteq> [] \<and> hd rest = 46) Assert_Failed) (\<lambda>_.
        bind_res (ipv4_bytes i (tl rest)) (\<lambda>bs. Ok (b # bs))))"

definition MakeIPv4AddrFromString :: "u8 list \<Rightarrow> u32 res" where
  "MakeIPv4AddrFromString s = bind_res (ipv4_bytes 3 s) (\<lambda>buf. Ok (le_word32 buf))"

fun print_dotted :: "u8 list \<Rightarrow> u8 list res" where
  "print_dotted [] = Ok []"
| "print_dotted [b] = PrintNum (uint b)"
| "print_dotted (b # bs) =
     bind_res (PrintNum (uint b)) (\<lambda>t. bind_res (print_dotted bs) (\<lambda>ts. Ok (t @ bytes ''.'' @ ts)))"

definition PrintIPv4Addr :: "u32 \<Rightarrow> u8 list res" where
  "PrintIPv4Addr addr = print_dotted (le_bytes32 addr)"

text \<open>\<open>inet_addr\<close>: the numbers seen so far and the one under way; 0 for a malformed string.\<close>

fun inet_loop :: "u32 \<Rightarrow> u32 list \<Rightarrow> u8 list \<Rightarrow> u32 list option" where
  "inet_loop acc addrs [] = Some (addrs @ [acc])"
| "inet_loop acc addrs (c # cs) =
     (if 48 \<le> c \<and> c \<le> 57 then inet_loop (acc * 10 + (ucast c - 48)) addrs cs
      else if c = 46 then if length addrs + 1 > 3 then None else inet_loop 0 (addrs @ [acc]) cs
      else None)"

definition inet_addr :: "u8 list \<Rightarrow> u32" where
  "inet_addr cp =
     (case inet_loop 0 [] cp of
        None \<Rightarrow> 0
      | Some [a0, a1, a2, a3] \<Rightarrow> push_bit 24 a3 OR push_bit 16 a2 OR push_bit 8 a1 OR a0
      | Some [a0, a1, a2] \<Rightarrow> push_bit 24 a2 OR push_bit 8 a1 OR a0
      | Some [a0, a1] \<Rightarrow> push_bit 24 a1 OR a0
      | Some (a0 # _) \<Rightarrow> push_bit 24 a0)"

lemma num_loop_text:
  "n < 10 ^ k \<Longrightarrow> 0 < k \<Longrightarrow> \<exists>cs. num_loop k (int n) = Ok cs \<and> rev cs = dec_text n"
proof (induction k arbitrary: n)
  case (Suc k)
  have w: "(of_int (int n mod 10) :: u8) + 48 = 48 + of_nat (n mod 10)"
    using of_int_of_nat_eq[of "n mod 10", where ?'a = u8] by (simp add: zmod_int add.commute)
  show ?case
  proof (cases "n < 10")
    case True
    then show ?thesis using w by (subst dec_text.simps) simp
  next
    case False
    then have "n div 10 < 10 ^ k" "0 < k" using Suc.prems by (auto intro: Nat.gr0I)
    then obtain cs where "num_loop k (int (n div 10)) = Ok cs" "rev cs = dec_text (n div 10)" using Suc.IH by blast
    moreover have "int n div 10 = int (n div 10)" by (simp add: zdiv_int)
    ultimately show ?thesis using False w by (subst dec_text.simps) (simp add: Let_def)
  qed
qed simp

lemma PrintNum_byte: "PrintNum (uint (b :: u8)) = Ok (dec_text (unat b))"
proof -
  have "unat b < 10 ^ 15" using unsigned_less[of b, where ?'a = nat] by simp
  then obtain cs where "num_loop 15 (int (unat b)) = Ok cs" "rev cs = dec_text (unat b)" using num_loop_text[of "unat b" 15] by auto
  then show ?thesis by (simp add: PrintNum_def)
qed

section \<open>Reading what was printed\<close>

definition num_step :: "u32 \<Rightarrow> u8 \<Rightarrow> u32" where
  "num_step v c = v * 10 + ucast c - 48"

lemma is_digit_range: "is_digit c \<longleftrightarrow> 48 \<le> c \<and> c \<le> 57"
  by (auto simp: is_digit_def)

definition no_digit :: "u8 list \<Rightarrow> bool" where
  "no_digit rest \<longleftrightarrow> (case rest of [] \<Rightarrow> True | c # _ \<Rightarrow> \<not> is_digit c)"

lemma parse_num_digits:
  assumes "\<forall>c\<in>set s. is_digit c" "no_digit rest"
  shows "parse_num v (s @ rest) = (foldl num_step v s, rest)"
  using assms(1)
proof (induction s arbitrary: v)
  case Nil
  then show ?case using assms(2) by (cases rest) (auto simp: no_digit_def is_digit_range)
qed (simp add: is_digit_range num_step_def)

lemma inet_loop_digits:
  "\<forall>c\<in>set s. is_digit c \<Longrightarrow> inet_loop acc addrs (s @ rest) = inet_loop (foldl num_step acc s) addrs rest"
  by (induction s arbitrary: acc) (simp_all add: is_digit_range num_step_def add_diff_eq)

lemma num_step_text: "foldl num_step 0 (dec_text n) = of_nat n"
proof (induction n rule: dec_text.induct)
  case (1 n)
  have d: "num_step v (48 + of_nat d) = v * 10 + of_nat d" if "d < 10" for v d
  proof -
    have "d = 0 \<or> d = 1 \<or> d = 2 \<or> d = 3 \<or> d = 4 \<or> d = 5 \<or> d = 6 \<or> d = 7 \<or> d = 8 \<or> d = 9" using that by auto
    then show ?thesis by (elim disjE) (simp_all add: num_step_def)
  qed
  show ?case
  proof (cases "n < 10")
    case True
    then show ?thesis using d[of n 0] by (subst dec_text.simps) simp
  next
    case False
    have "of_nat (n div 10) * 10 + of_nat (n mod 10) = (of_nat n :: u32)"
      by (metis (no_types, lifting) div_mult_mod_eq of_nat_add of_nat_mult of_nat_numeral)
    then show ?thesis using 1[OF False] d[of "n mod 10"] False by (subst dec_text.simps) simp
  qed
qed

lemma parse_num_text:
  "no_digit rest \<Longrightarrow> parse_num 0 (dec_text n @ rest) = (of_nat n, rest)"
  using parse_num_digits[of "dec_text n" rest 0] dec_text_digits num_step_text by simp

lemma inet_loop_text: "inet_loop 0 addrs (dec_text n @ rest) = inet_loop (of_nat n) addrs rest"
  using inet_loop_digits[of "dec_text n" 0 addrs rest] dec_text_digits num_step_text by simp

lemma ucast_ucast_byte: "(ucast (ucast (b :: u8) :: u32) :: u8) = b"
  by (rule bit_word_eqI) (simp add: bit_simps)

lemma StrToByte_text: "no_digit rest \<Longrightarrow> StrToByte (dec_text (unat b) @ rest) = (b, rest)"
  by (simp add: StrToByte_def parse_num_text ucast_ucast_byte)

lemma byte_word: "(of_nat (unat (b :: u8)) :: u32) = ucast b"
  by simp

definition dotted :: "u8 \<Rightarrow> u8 \<Rightarrow> u8 \<Rightarrow> u8 \<Rightarrow> u8 list" where
  "dotted a b c d = dec_text (unat a) @ [46] @ dec_text (unat b) @ [46] @ dec_text (unat c) @ [46] @ dec_text (unat d)"

lemma print_dotted_4: "print_dotted [a, b, c, d] = Ok (dotted a b c d)"
  by (simp add: PrintNum_byte dotted_def bytes_def of_char_def)

lemma dot_no_digit: "no_digit (46 # s)" "no_digit []"
  by (simp_all add: no_digit_def is_digit_range)

lemma ipv4_bytes_dotted: "ipv4_bytes 3 (dotted a b c d) = Ok [a, b, c, d]"
proof -
  have "StrToByte (dec_text (unat d)) = (d, [])" using StrToByte_text[OF dot_no_digit(2), of d] by simp
  then show ?thesis
    by (simp add: dotted_def eval_nat_numeral StrToByte_text dot_no_digit check_that_def)
qed

lemma inet_addr_dotted: "inet_addr (dotted a b c d) = le_word32 [a, b, c, d]"
proof -
  have "inet_loop 0 [ucast a, ucast b, ucast c] (dec_text (unat d)) = Some [ucast a, ucast b, ucast c, ucast d]"
    using inet_loop_text[of "[ucast a, ucast b, ucast c]" "unat d" "[]"] by simp
  then have "inet_loop 0 [] (dotted a b c d) = Some [ucast a, ucast b, ucast c, ucast d]"
    by (simp add: dotted_def inet_loop_text)
  then show ?thesis
    by (simp add: inet_addr_def le_word32_def push_bit_or push_bit_push_bit or.assoc or.commute or.left_commute)
qed

lemma le_bytes32_list: "\<exists>a b c d. le_bytes32 x = [a, b, c, d]"
  by (simp add: le_bytes32_def upt_rec)

section \<open>Properties\<close>

text \<open>
  C33: the string functions of the application library compute what C promises, for strings that
  do not overlap: \<open>strlen\<close> the length, \<open>strcat\<close> the concatenation with nothing else changed, and
  \<open>strcmp\<close> the lexicographic order of the characters as unsigned bytes.
\<close>

theorem liumlib_strings:
  assumes "cstr_at m p s" "cstr_at m q t" "p + length s + length t \<le> q \<or> q + length t < p + length s"
  shows "strlen m p = Some (length s) \<and>
    (\<exists>m'. strcat p q m = Some m' \<and> cstr_at m' p (s @ t) \<and>
      (\<forall>k. k < p + length s \<or> p + length s + length t < k \<longrightarrow> m' k = m k)) \<and>
    (\<exists>r. strcmp m p q = Some r \<and> (r = 0 \<longleftrightarrow> s = t) \<and> (r < 0 \<longleftrightarrow> ord_class.lexordp s t))"
  using strlen_cstr[OF assms(1)] strcat_cstr[OF assms] strcmp_cstr[OF assms(1,2)] by blast

theorem liumlib_strings_witness:
  "\<exists>m'. strcat 0 10 (put_bytes 10 [99, 0] (put_bytes 0 [97, 98, 0] (\<lambda>_. 7))) = Some m' \<and> cstr_at m' 0 [97, 98, 99]"
  using liumlib_strings[of "put_bytes 10 [99, 0] (put_bytes 0 [97, 98, 0] (\<lambda>_. 7))" 0 "[97, 98]" 10 "[99]"] by auto

text \<open>
  C34: the regions which \<open>malloc\<close> returns are disjoint.  For requests below \<open>2 ^ 63\<close>, however many
  succeed, the regions lie one behind the other inside of the array, they are zeroed, and no other
  memory is changed.
\<close>

theorem malloc_disjoint:
  assumes "malloc_all base ns (0, m) = Some (ps, sz, m')" "\<forall>n\<in>set ns. unat n < 2 ^ 63"
  shows "sorted_wrt (\<lambda>(p, n) (q, k). p + n \<le> q) ps \<and>
    (\<forall>(p, n)\<in>set ps. base \<le> p \<and> p + n \<le> base + MALLOC_MAX_SIZE \<and> (\<forall>a. p \<le> a \<and> a < p + n \<longrightarrow> m' a = 0)) \<and>
    (\<forall>a. a < base \<or> base + MALLOC_MAX_SIZE \<le> a \<longrightarrow> m' a = m a)"
  using malloc_all_regions[OF assms] by (fastforce simp: MALLOC_MAX_SIZE_def)

theorem malloc_disjoint_witness:
  "\<exists>ps sz m'. malloc_all 4096 [3, 5] (0, \<lambda>_. 7) = Some (ps, sz, m') \<and> m' 4100 = 0"
proof -
  have r: "malloc_all 4096 [3, 5] (0, \<lambda>_. 7) = Some ([(4096, 3), (4099, 5)], 8, memset 4099 0 5 (memset 4096 0 3 (\<lambda>_. 7)))"
    by (simp add: malloc_def MALLOC_MAX_SIZE_def)
  from malloc_disjoint[OF r] show ?thesis using r by auto
qed

text \<open>
  C40: IPv4 addresses survive printing.  The text which \<open>PrintIPv4Addr\<close> writes for an address is
  read back as that address both by \<open>MakeIPv4AddrFromString\<close> and by \<open>inet_addr\<close>.
\<close>

theorem ipv4_text_roundtrip:
  "\<exists>t. PrintIPv4Addr addr = Ok t \<and> MakeIPv4AddrFromString t = Ok addr \<and> inet_addr t = addr"
proof -
  obtain a b c d where l: "le_bytes32 addr = [a, b, c, d]" using le_bytes32_list by blast
  then have "le_word32 [a, b, c, d] = addr" using le_word32_bytes[of addr] by simp
  then show ?thesis using l
    by (simp add: PrintIPv4Addr_def print_dotted_4 MakeIPv4AddrFromString_def ipv4_bytes_dotted inet_addr_dotted
        del: print_dotted.simps)
qed

text \<open>
  \<open>memmove\<close> does not move overlapping regions upwards.  After the backward copy it copies
  forward again, so that the destination holds the first bytes of the source repeated with the
  distance of the two regions as period.
\<close>

theorem memmove_repeats:
  assumes "0 < d" "d < n" "i < n"
  shows "memmove (src + d) src n m (src + d + i) = m (src + i mod d)"
  by (rule memmove_overlap[OF assms])

theorem memmove_repeats_witness:
  "memmove (100 + 2) 100 4 (put_bytes 100 [1, 2, 3, 4] (\<lambda>_. 0)) (100 + 2 + 2) = 1"
  using memmove_repeats[of 2 4 2 100 "put_bytes 100 [1, 2, 3, 4] (\<lambda>_. 0)"] by simp

end
