(* ===== verification/Html_Tokens.thy ===== *)
theory Html_Tokens
  imports C_Memory
begin

text \<open>
The tokenizer of the browser (app/browser/tokenize.c): a state machine over the characters of a
  page which produces character, start tag and end tag tokens.  Reading the tokens of a printed
  document gives the document back.
\<close>

section \<open>Tokens\<close>

datatype State = DATA | TAG_OPEN | END_TAG_OPEN | TAG_NAME | SELF_CLOSING_START_TAG

datatype TokenType = DOCTYPE | START_TAG | END_TAG | CHAR_TOKEN | EOF

text \<open>
  The next pointers of the tokens are the order of a list: \<open>first_token\<close> is its head and
  \<open>current_token\<close> its last element.
\<close>

record token =
  token_type :: TokenType
  tag_name :: "u8 list option"
  self_closing :: bool
  token_data :: u8

definition CreateToken :: "TokenType \<Rightarrow> token" where
  "CreateToken ty = \<lparr>token_type = ty, tag_name = (if ty = START_TAG \<or> ty = END_TAG then Some [] else None),
     self_closing = False, token_data = 0\<rparr>"

definition CreateCharToken :: "u8 \<Rightarrow> token" where
  "CreateCharToken c = \<lparr>token_type = CHAR_TOKEN, tag_name = None, self_closing = False, token_data = c\<rparr>"

definition AppendToken :: "token \<Rightarrow> token list \<Rightarrow> token list" where
  "AppendToken t ts = ts @ [t]"

text \<open>A change of the current token.\<close>

definition on_current :: "(token \<Rightarrow> token res) \<Rightarrow> token list \<Rightarrow> token list res" where
  "on_current f ts = (if ts = [] then Fail Null_Deref else bind_res (f (last ts)) (\<lambda>t. Ok (butlast ts @ [t])))"

text \<open>One character is appended to the name, in a buffer of 20 bytes which includes the zero byte.\<close>

definition add_name :: "u8 \<Rightarrow> token \<Rightarrow> token res" where
  "add_name c t = (case tag_name t of None \<Rightarrow> Fail Null_Deref
     | Some n \<Rightarrow> if length n + 1 < 20 then Ok (t\<lparr>tag_name := Some (n @ [c])\<rparr>) else Fail Out_Of_Bounds)"

definition set_self_closing :: "token \<Rightarrow> token res" where
  "set_self_closing t = Ok (t\<lparr>self_closing := True\<rparr>)"

definition is_upper :: "u8 \<Rightarrow> bool" where
  "is_upper c \<longleftrightarrow> 65 \<le> c \<and> c \<le> 90"

definition is_lower :: "u8 \<Rightarrow> bool" where
  "is_lower c \<longleftrightarrow> 97 \<le> c \<and> c \<le> 122"

definition newline :: "u8 \<Rightarrow> u8" where
  "newline c = (if c = 0x0D then 0x0A else c)"

section \<open>The tokenizer\<close>

text \<open>
  The loop, over the characters left, the first of which is rewritten in place.  The fourth state is
  entered by the label \<open>END_TAG\<close> of the switch, whose value as a token type is that of the state
  \<open>END_TAG_OPEN\<close>.
\<close>

function (sequential) tokenize :: "State \<Rightarrow> u8 list \<Rightarrow> token list \<Rightarrow> token list res" where
  "tokenize st [] ts = Ok ts"
| "tokenize DATA (c # cs) ts =
     (if newline c = 60 then tokenize TAG_OPEN cs ts
      else tokenize DATA cs (AppendToken (CreateCharToken (newline c)) ts))"
| "tokenize TAG_OPEN (c # cs) ts =
     (if newline c = 47 then tokenize END_TAG_OPEN cs ts
      else if is_lower (newline c) \<or> is_upper (newline c)
      then tokenize TAG_NAME (newline c # cs) (AppendToken (CreateToken START_TAG) ts)
      else tokenize DATA (newline c # cs) (AppendToken (CreateCharToken 60) ts))"
| "tokenize END_TAG_OPEN (c # cs) ts =
     (if is_lower (newline c) \<or> is_upper (newline c)
      then tokenize TAG_NAME (newline c # cs) (AppendToken (CreateToken END_TAG) ts)
      else tokenize END_TAG_OPEN cs ts)"
| "tokenize TAG_NAME (c # cs) ts =
     (if newline c = 47 then tokenize SELF_CLOSING_START_TAG cs ts
      else if newline c = 62 then tokenize DATA cs ts
      else if is_upper (newline c) then bind_res (on_current (add_name (newline c + 0x20)) ts) (\<lambda>ts. tokenize TAG_NAME cs ts)
      else bind_res (on_current (add_name (newline c)) ts) (\<lambda>ts. tokenize TAG_NAME cs ts))"
| "tokenize SELF_CLOSING_START_TAG (c # cs) ts =
     (if newline c = 62 then bind_res (on_current set_self_closing ts) (\<lambda>ts. tokenize DATA cs ts)
      else tokenize SELF_CLOSING_START_TAG cs ts)"
  by pat_completeness auto

termination
  by (relation "measure (\<lambda>(st, cs, _). 2 * length cs + (if st = TAG_OPEN \<or> st = END_TAG_OPEN then 1 else 0))") auto

definition Tokenize :: "u8 list \<Rightarrow> token list res" where
  "Tokenize html = tokenize DATA html []"

section \<open>Printing tokens\<close>

definition token_html :: "token \<Rightarrow> u8 list" where
  "token_html t = (case token_type t of
     START_TAG \<Rightarrow> 60 # the (tag_name t) @ (if self_closing t then [47] else []) @ [62]
   | END_TAG \<Rightarrow> 60 # 47 # the (tag_name t) @ (if self_closing t then [47] else []) @ [62]
   | _ \<Rightarrow> [token_data t])"

definition tag_char :: "u8 \<Rightarrow> bool" where
  "tag_char c \<longleftrightarrow> \<not> is_upper c \<and> c \<noteq> 47 \<and> c \<noteq> 62 \<and> c \<noteq> 0x0D \<and> c \<noteq> 0"

text \<open>The tokens which have a text: characters, and tags with a name in lower case which fits.\<close>

definition plain_token :: "token \<Rightarrow> bool" where
  "plain_token t = (case token_type t of
     CHAR_TOKEN \<Rightarrow> t = CreateCharToken (token_data t) \<and> token_data t \<notin> {0, 60, 0x0D}
   | START_TAG \<Rightarrow> token_data t = 0 \<and>
       (case tag_name t of Some (c # cs) \<Rightarrow> is_lower c \<and> length cs < 19 \<and> list_all tag_char cs | _ \<Rightarrow> False)
   | END_TAG \<Rightarrow> token_data t = 0 \<and>
       (case tag_name t of Some (c # cs) \<Rightarrow> is_lower c \<and> length cs < 19 \<and> list_all tag_char cs | _ \<Rightarrow> False)
   | _ \<Rightarrow> False)"

lemma on_current_snoc [simp]: "on_current f (ts @ [t]) = bind_res (f t) (\<lambda>t. Ok (ts @ [t]))"
  by (simp add: on_current_def)

lemma lower_tag_char: "is_lower c \<Longrightarrow> tag_char c"
proof -
  assume "is_lower c"
  then have "97 \<le> unat c" "unat c \<le> 122" by (simp_all add: is_lower_def word_le_nat_alt)
  then show ?thesis unfolding tag_char_def is_upper_def by (auto simp: word_le_nat_alt)
qed

lemma lower_newline: "is_lower c \<Longrightarrow> newline c = c" "is_lower c \<Longrightarrow> c \<noteq> 47"
  using lower_tag_char[of c] by (auto simp: tag_char_def newline_def)

lemma tokenize_name:
  "list_all tag_char n \<Longrightarrow> length p + length n < 20 \<Longrightarrow>
   tokenize TAG_NAME (n @ rest) (ts @ [\<lparr>token_type = ty, tag_name = Some p, self_closing = b, token_data = d\<rparr>]) =
   tokenize TAG_NAME rest (ts @ [\<lparr>token_type = ty, tag_name = Some (p @ n), self_closing = b, token_data = d\<rparr>])"
proof (induction n arbitrary: p)
  case (Cons c cs)
  then show ?case by (auto simp: tag_char_def newline_def add_name_def)
qed simp

lemma tokenize_tag_end:
  "tokenize TAG_NAME ((if b then [47] else []) @ 62 # rest) (ts @ [\<lparr>token_type = ty, tag_name = p, self_closing = False, token_data = d\<rparr>]) =
   tokenize DATA rest (ts @ [\<lparr>token_type = ty, tag_name = p, self_closing = b, token_data = d\<rparr>])"
  by (simp add: newline_def set_self_closing_def)

lemma tokenize_tag:
  assumes "is_lower c" "length cs < 19" "list_all tag_char cs"
  shows "tokenize TAG_OPEN (c # cs @ (if b then [47] else []) @ 62 # rest) ts =
      tokenize DATA rest (ts @ [\<lparr>token_type = START_TAG, tag_name = Some (c # cs), self_closing = b, token_data = 0\<rparr>])"
    and "tokenize END_TAG_OPEN (c # cs @ (if b then [47] else []) @ 62 # rest) ts =
      tokenize DATA rest (ts @ [\<lparr>token_type = END_TAG, tag_name = Some (c # cs), self_closing = b, token_data = 0\<rparr>])"
  using assms lower_newline[OF assms(1)] lower_tag_char[OF assms(1)]
    tokenize_name[of "c # cs" "[]" "(if b then [47] else []) @ 62 # rest" ts _ False 0] tokenize_tag_end
  by (simp_all add: AppendToken_def CreateToken_def del: tokenize.simps(5)) 

lemma tokenize_token:
  assumes "plain_token t"
  shows "tokenize DATA (token_html t @ rest) ts = tokenize DATA rest (ts @ [t])"
proof (cases "token_type t")
  case CHAR_TOKEN
  then have "t = CreateCharToken (token_data t)" "token_data t \<notin> {0, 60, 0x0D}" using assms by (simp_all add: plain_token_def)
  then show ?thesis using CHAR_TOKEN by (simp add: token_html_def newline_def AppendToken_def)
next
  case START_TAG
  then obtain c cs where n: "tag_name t = Some (c # cs)" "is_lower c" "length cs < 19" "list_all tag_char cs"
    and d: "token_data t = 0" using assms by (auto simp: plain_token_def split: option.splits list.splits)
  have "t = \<lparr>token_type = START_TAG, tag_name = Some (c # cs), self_closing = self_closing t, token_data = 0\<rparr>"
    using START_TAG n d by simp
  then show ?thesis using tokenize_tag(1)[OF n(2-4), of "self_closing t" rest ts] START_TAG n(1)
    by (simp add: token_html_def newline_def)
next
  case END_TAG
  then obtain c cs where n: "tag_name t = Some (c # cs)" "is_lower c" "length cs < 19" "list_all tag_char cs"
    and d: "token_data t = 0" using assms by (auto simp: plain_token_def split: option.splits list.splits)
  have "t = \<lparr>token_type = END_TAG, tag_name = Some (c # cs), self_closing = self_closing t, token_data = 0\<rparr>"
    using END_TAG n d by simp
  then show ?thesis using tokenize_tag(2)[OF n(2-4), of "self_closing t" rest ts] END_TAG n(1)
    by (simp add: token_html_def newline_def is_lower_def is_upper_def)
qed (use assms in \<open>simp_all add: plain_token_def\<close>)

lemma tokenize_tokens:
  "\<forall>t\<in>set us. plain_token t \<Longrightarrow> tokenize DATA (concat (map token_html us)) ts = Ok (ts @ us)"
  by (induction us arbitrary: ts) (simp_all add: tokenize_token)

lemma tokenize_text:
  "60 \<notin> set cs \<Longrightarrow> tokenize DATA cs ts = Ok (ts @ map (\<lambda>c. CreateCharToken (newline c)) cs)"
  by (induction cs arbitrary: ts) (auto simp: newline_def AppendToken_def)

text \<open>
  C30: the tokenizer reads back the tokens of a document.  For every sequence of characters, start
  tags and end tags, self-closing ones included, with names in lower case of at most 19 characters,
  the tokens of its text are that sequence.
\<close>

theorem Tokenize_roundtrip:
  assumes "\<forall>t\<in>set ts. plain_token t"
  shows "Tokenize (concat (map token_html ts)) = Ok ts"
  using tokenize_tokens[OF assms, of "[]"] by (simp add: Tokenize_def)

theorem Tokenize_roundtrip_witness:
  "Tokenize [60, 112, 62, 65, 60, 47, 112, 62] =
     Ok [(CreateToken START_TAG)\<lparr>tag_name := Some [112]\<rparr>, CreateCharToken 65, (CreateToken END_TAG)\<lparr>tag_name := Some [112]\<rparr>]"
  using Tokenize_roundtrip[of "[(CreateToken START_TAG)\<lparr>tag_name := Some [112]\<rparr>, CreateCharToken 65,
      (CreateToken END_TAG)\<lparr>tag_name := Some [112]\<rparr>]"]
  by (simp add: plain_token_def token_html_def CreateToken_def CreateCharToken_def is_lower_def)

end
