(* ===== verification/Html_Tree.thy ===== *)
theory Html_Tree
  imports Html_Tokens
begin

text \<open>
The construction of the document tree (app/browser/parse.c), one definition per insertion mode,
  and the traversal which renders it (app/browser/rendering.c).  The loop of the construction may
  run forever, so it is a partial function; the rounds are also a reachability relation, by which
  the cases where it does not end are characterised.  The fixed limit of the allocator is left out:
  allocation succeeds.
\<close>

section \<open>Nodes\<close>

datatype Mode = INITIAL | BEFORE_HTML | BEFORE_HEAD | IN_HEAD | AFTER_HEAD | IN_BODY | AFTER_BODY | AFTER_AFTER_BODY

datatype NodeType = DOCUMENT | ELEMENT | TEXT

datatype ElementType = HTML | HEAD | BODY | HEADING | DIV | PARAGRAPH | UL | LI | NONE

record node =
  node_type :: NodeType
  element_type :: ElementType
  node_tag :: "u8 list option"
  node_data :: "u8 list option"
  parent :: "nat option"
  first_child :: "nat option"
  last_child :: "nat option"
  previous_sibling :: "nat option"
  next_sibling :: "nat option"

text \<open>
  Nodes are allocated one behind the other; a pointer to a node is its number, with \<open>None\<close> for
  \<open>NULL\<close>.  The document is node 0.  \<open>open_elements\<close> is the array \<open>stack_of_open_elements\<close> below
  \<open>stack_index\<close>, the top first.
\<close>

record dom =
  nodes :: "nat \<Rightarrow> node"
  node_count :: nat
  open_elements :: "nat list"

definition set_node :: "nat \<Rightarrow> (node \<Rightarrow> node) \<Rightarrow> dom \<Rightarrow> dom" where
  "set_node p f d = d\<lparr>nodes := (nodes d)(p := f (nodes d p))\<rparr>"

definition new_node :: "node \<Rightarrow> dom \<Rightarrow> nat \<times> dom" where
  "new_node nd d = (node_count d, d\<lparr>nodes := (nodes d)(node_count d := nd), node_count := node_count d + 1\<rparr>)"

definition PushStack :: "nat \<Rightarrow> dom \<Rightarrow> dom res" where
  "PushStack n d = (if length (open_elements d) < 100 then Ok (d\<lparr>open_elements := n # open_elements d\<rparr>) else Fail Out_Of_Bounds)"

definition PopStack :: "dom \<Rightarrow> dom" where
  "PopStack d = d\<lparr>open_elements := tl (open_elements d)\<rparr>"

definition PopStackUntil :: "ElementType \<Rightarrow> dom \<Rightarrow> dom" where
  "PopStackUntil ty d = d\<lparr>open_elements := tl (dropWhile (\<lambda>p. element_type (nodes d p) \<noteq> ty) (open_elements d))\<rparr>"

definition CurrentNode :: "dom \<Rightarrow> nat res" where
  "CurrentNode d = (case open_elements d of [] \<Rightarrow> Fail Out_Of_Bounds | p # _ \<Rightarrow> Ok p)"

definition InsertElement :: "nat \<Rightarrow> dom \<Rightarrow> dom res" where
  "InsertElement e d = bind_res (CurrentNode d) (\<lambda>target.
     let d = set_node e (parent_update (\<lambda>_. Some target)) d in
     let d = (case last_child (nodes d target) of
         None \<Rightarrow> set_node target (\<lambda>n. n\<lparr>first_child := Some e, last_child := Some e\<rparr>) d
       | Some ex \<Rightarrow> set_node e (previous_sibling_update (\<lambda>_. Some ex))
           (set_node ex (next_sibling_update (\<lambda>_. Some e)) (set_node target (last_child_update (\<lambda>_. Some e)) d)))
     in PushStack e d)"

text \<open>Memory from \<open>malloc\<close> is zeroed, hence the fields which are not written are \<open>NULL\<close>.\<close>

definition CreateDocument :: node where
  "CreateDocument = \<lparr>node_type = DOCUMENT, element_type = NONE, node_tag = None, node_data = None, parent = None,
     first_child = None, last_child = None, previous_sibling = None, next_sibling = None\<rparr>"

definition CreateElement :: "ElementType \<Rightarrow> u8 list option \<Rightarrow> node" where
  "CreateElement ty tag = \<lparr>node_type = ELEMENT, element_type = ty, node_tag = tag, node_data = None, parent = None,
     first_child = None, last_child = None, previous_sibling = None, next_sibling = None\<rparr>"

definition CreateElementFromToken :: "ElementType \<Rightarrow> token \<Rightarrow> node" where
  "CreateElementFromToken ty t = \<lparr>node_type = ELEMENT, element_type = ty, node_tag = tag_name t, node_data = None, parent = None,
     first_child = None, last_child = None, previous_sibling = None, next_sibling = None\<rparr>"

text \<open>The string at \<open>&token->data\<close>: the byte behind it is padding, hence zero.\<close>

definition char_text :: "token \<Rightarrow> u8 list" where
  "char_text t = (if token_data t = 0 then [] else [token_data t])"

definition CreateText :: "token \<Rightarrow> node" where
  "CreateText t = \<lparr>node_type = TEXT, element_type = NONE, node_tag = None, node_data = Some (char_text t), parent = None,
     first_child = None, last_child = None, previous_sibling = None, next_sibling = None\<rparr>"

definition insert_new :: "node \<Rightarrow> dom \<Rightarrow> dom res" where
  "insert_new nd d = (case new_node nd d of (e, d') \<Rightarrow> InsertElement e d')"

text \<open>The text of a node is in a buffer of 100 bytes.\<close>

definition InsertCharFromToken :: "token \<Rightarrow> dom \<Rightarrow> dom res" where
  "InsertCharFromToken t d = bind_res (CurrentNode d) (\<lambda>target.
     if node_type (nodes d target) = DOCUMENT then Ok d
     else if node_type (nodes d target) = TEXT then
       case node_data (nodes d target) of None \<Rightarrow> Fail Null_Deref
       | Some s \<Rightarrow> if length s + length (char_text t) < 100
           then Ok (set_node target (node_data_update (\<lambda>_. Some (s @ char_text t))) d) else Fail Out_Of_Bounds
     else insert_new (CreateText t) d)"

section \<open>Tree construction\<close>

definition start_tag :: "token \<Rightarrow> string \<Rightarrow> bool" where
  "start_tag t s \<longleftrightarrow> token_type t = START_TAG \<and> tag_name t = Some (bytes s)"

definition end_tag :: "token \<Rightarrow> string \<Rightarrow> bool" where
  "end_tag t s \<longleftrightarrow> token_type t = END_TAG \<and> tag_name t = Some (bytes s)"

definition is_space_char :: "u8 \<Rightarrow> bool" where
  "is_space_char c \<longleftrightarrow> c = 0x09 \<or> c = 0x0a \<or> c = 0x0c \<or> c = 0x0d \<or> c = 0x20"

definition space_token :: "token \<Rightarrow> bool" where
  "space_token t \<longleftrightarrow> token_type t = CHAR_TOKEN \<and> is_space_char (token_data t)"

definition heading_names :: "string list" where
  "heading_names = [''h1'', ''h2'', ''h3'', ''h4'', ''h5'', ''h6'']"

text \<open>
  One round of the loop, by insertion mode, for the token \<open>t\<close> with the tokens \<open>rest\<close> behind it.
  The result is the mode and the tokens of the next round, or \<open>None\<close> when the construction returns.
\<close>

type_synonym round = "((Mode \<times> token list) option \<times> dom) res"

definition go_on :: "Mode \<Rightarrow> token list \<Rightarrow> dom \<Rightarrow> round" where
  "go_on m ts d = Ok (Some (m, ts), d)"

definition stop :: "dom \<Rightarrow> round" where
  "stop d = Ok (None, d)"

definition insert_and :: "node \<Rightarrow> Mode \<Rightarrow> token list \<Rightarrow> dom \<Rightarrow> round" where
  "insert_and nd m ts d = bind_res (insert_new nd d) (go_on m ts)"

definition before_html :: "token \<Rightarrow> token list \<Rightarrow> dom \<Rightarrow> round" where
  "before_html t rest d =
     (if token_type t = DOCTYPE then go_on BEFORE_HTML rest d
      else if space_token t then go_on BEFORE_HTML rest d
      else if start_tag t ''html'' then insert_and (CreateElementFromToken HTML t) BEFORE_HEAD rest d
      else if token_type t = END_TAG \<and>
        (\<not> end_tag t ''head'' \<or> \<not> end_tag t ''body'' \<or> \<not> end_tag t ''html'' \<or> \<not> end_tag t ''br'')
      then go_on BEFORE_HTML rest d
      else insert_and (CreateElement HTML (Some (bytes ''html''))) BEFORE_HEAD (t # rest) d)"

definition before_head :: "token \<Rightarrow> token list \<Rightarrow> dom \<Rightarrow> round" where
  "before_head t rest d =
     (if space_token t then go_on BEFORE_HEAD rest d
      else if token_type t = DOCTYPE then go_on BEFORE_HEAD rest d
      else if start_tag t ''head'' then insert_and (CreateElementFromToken HEAD t) IN_HEAD rest d
      else if token_type t = END_TAG \<and>
        (\<not> end_tag t ''head'' \<or> \<not> end_tag t ''body'' \<or> \<not> end_tag t ''html'' \<or> \<not> end_tag t ''br'')
      then go_on BEFORE_HEAD rest d
      else insert_and (CreateElement HEAD (Some (bytes ''head''))) IN_HEAD (t # rest) d)"

definition in_head :: "token \<Rightarrow> token list \<Rightarrow> dom \<Rightarrow> round" where
  "in_head t rest d =
     (if token_type t = DOCTYPE then go_on IN_HEAD rest d
      else if start_tag t ''html'' then go_on IN_BODY rest d
      else if start_tag t ''head'' then go_on IN_HEAD rest d
      else if end_tag t ''head'' then go_on AFTER_HEAD rest (PopStackUntil HEAD d)
      else if token_type t = END_TAG \<and> (\<not> end_tag t ''body'' \<or> \<not> end_tag t ''html'' \<or> \<not> end_tag t ''br'')
      then go_on IN_HEAD rest d
      else go_on AFTER_HEAD (t # rest) (PopStackUntil HEAD d))"

definition after_head :: "token \<Rightarrow> token list \<Rightarrow> dom \<Rightarrow> round" where
  "after_head t rest d =
     (if token_type t = DOCTYPE then go_on AFTER_HEAD rest d
      else if start_tag t ''html'' then go_on IN_BODY rest d
      else if start_tag t ''body'' then insert_and (CreateElementFromToken BODY t) IN_BODY rest d
      else if start_tag t ''head'' then go_on AFTER_HEAD rest d
      else if token_type t = END_TAG \<and> (\<not> end_tag t ''body'' \<or> \<not> end_tag t ''html'' \<or> \<not> end_tag t ''br'')
      then go_on AFTER_HEAD rest d
      else insert_and (CreateElement BODY (Some (bytes ''body''))) IN_BODY (t # rest) d)"

text \<open>The end tags in a body; the rule for \<open>li\<close> falls through to them with the next token.\<close>

definition in_body_end :: "token \<Rightarrow> token list \<Rightarrow> dom \<Rightarrow> round" where
  "in_body_end t rest d =
     (if end_tag t ''div'' then go_on IN_BODY rest (PopStackUntil DIV d)
      else if end_tag t ''ul'' then go_on IN_BODY rest (PopStackUntil UL d)
      else if end_tag t ''p'' then go_on IN_BODY rest (PopStackUntil PARAGRAPH d)
      else if end_tag t ''li'' then go_on IN_BODY rest (PopStackUntil LI d)
      else if list_ex (end_tag t) heading_names then go_on IN_BODY rest (PopStackUntil HEADING d)
      else if token_type t = END_TAG then go_on IN_BODY rest (PopStack d)
      else go_on IN_BODY (t # rest) d)"

definition in_body :: "token \<Rightarrow> token list \<Rightarrow> dom \<Rightarrow> round" where
  "in_body t rest d =
     (if token_type t = CHAR_TOKEN then bind_res (InsertCharFromToken t d) (go_on IN_BODY rest)
      else if token_type t = DOCTYPE then go_on IN_BODY rest d
      else if start_tag t ''body'' \<or> start_tag t ''html'' then go_on IN_BODY rest d
      else if token_type t = EOF then stop d
      else if end_tag t ''body'' then go_on AFTER_BODY rest (PopStackUntil BODY d)
      else if end_tag t ''html'' then go_on AFTER_BODY (t # rest) (PopStackUntil HTML d)
      else if start_tag t ''ul'' then insert_and (CreateElementFromToken UL t) IN_BODY rest d
      else if start_tag t ''p'' then insert_and (CreateElementFromToken PARAGRAPH t) IN_BODY rest d
      else if start_tag t ''div'' then insert_and (CreateElementFromToken DIV t) IN_BODY rest d
      else if list_ex (start_tag t) heading_names then insert_and (CreateElementFromToken HEADING t) IN_BODY rest d
      else if start_tag t ''li'' then
        bind_res (insert_new (CreateElementFromToken LI t) d) (\<lambda>d.
          case rest of [] \<Rightarrow> Fail Null_Deref | t' # rest' \<Rightarrow> in_body_end t' rest' d)
      else in_body_end t rest d)"

definition after_body :: "token \<Rightarrow> token list \<Rightarrow> dom \<Rightarrow> round" where
  "after_body t rest d =
     (if token_type t = DOCTYPE then go_on AFTER_BODY rest d
      else if end_tag t ''html'' then go_on AFTER_AFTER_BODY rest d
      else if token_type t = EOF then stop d
      else go_on IN_BODY (t # rest) d)"

definition after_after_body :: "token \<Rightarrow> token list \<Rightarrow> dom \<Rightarrow> round" where
  "after_after_body t rest d = (if token_type t = EOF then stop d else go_on IN_BODY (t # rest) d)"

fun tree_round :: "Mode \<Rightarrow> token \<Rightarrow> token list \<Rightarrow> dom \<Rightarrow> round" where
  "tree_round INITIAL t rest d = go_on BEFORE_HTML (t # rest) d"
| "tree_round BEFORE_HTML t rest d = before_html t rest d"
| "tree_round BEFORE_HEAD t rest d = before_head t rest d"
| "tree_round IN_HEAD t rest d = in_head t rest d"
| "tree_round AFTER_HEAD t rest d = after_head t rest d"
| "tree_round IN_BODY t rest d = in_body t rest d"
| "tree_round AFTER_BODY t rest d = after_body t rest d"
| "tree_round AFTER_AFTER_BODY t rest d = after_after_body t rest d"

text \<open>The loop; \<open>None\<close> when it never ends.\<close>

partial_function (option) construct :: "Mode \<Rightarrow> token list \<Rightarrow> dom \<Rightarrow> dom res option" where
  "construct m ts d = (case ts of [] \<Rightarrow> Some (Ok d)
     | t # rest \<Rightarrow> (case tree_round m t rest d of
         Inl e \<Rightarrow> Some (Fail e)
       | Inr (nx, d') \<Rightarrow> (case nx of None \<Rightarrow> Some (Ok d') | Some (m', ts') \<Rightarrow> construct m' ts' d')))"

declare construct.simps [code]

definition empty_dom :: dom where
  "empty_dom = \<lparr>nodes = (\<lambda>_. CreateDocument), node_count = 1, open_elements = [0]\<rparr>"

definition ConstructTree :: "token list \<Rightarrow> dom res option" where
  "ConstructTree ts = construct INITIAL ts empty_dom"

section \<open>Rendering\<close>

definition Printable :: "u8 list \<Rightarrow> bool" where
  "Printable s = list_ex (\<lambda>c. \<not> is_space_char c) s"

text \<open>The state of the printer: \<open>first_line\<close> and the characters written.\<close>

definition heading_prefix :: "u8 list option \<Rightarrow> u8 list" where
  "heading_prefix tag =
     (if tag = Some (bytes ''h1'') then bytes ''# ''
      else if tag = Some (bytes ''h2'') then bytes ''## ''
      else if tag = Some (bytes ''h3'') then bytes ''### ''
      else if tag = Some (bytes ''h4'') then bytes ''#### ''
      else if tag = Some (bytes ''h5'') then bytes ''##### ''
      else if tag = Some (bytes ''h6'') then bytes ''###### '' else [])"

definition Markdown :: "node \<Rightarrow> bool \<times> u8 list \<Rightarrow> bool \<times> u8 list" where
  "Markdown n = (\<lambda>(first_line, out).
     if node_type n = TEXT then
       case node_data n of None \<Rightarrow> (first_line, out)
       | Some s \<Rightarrow> if Printable s then (False, out @ s) else (first_line, out)
     else case element_type n of
       HEADING \<Rightarrow> (False, out @ heading_prefix (node_tag n))
     | UL \<Rightarrow> (first_line, if first_line then out else out @ [10])
     | LI \<Rightarrow> (False, (if first_line then out else out @ [10]) @ bytes ''- '')
     | DIV \<Rightarrow> (first_line, if first_line then out else out @ [10])
     | PARAGRAPH \<Rightarrow> (first_line, if first_line then out else out @ [10])
     | _ \<Rightarrow> (first_line, out))"

text \<open>\<open>Dfs\<close> of a node and of the siblings which follow it.\<close>

partial_function (option) dfs_chain :: "dom \<Rightarrow> nat option \<Rightarrow> bool \<times> u8 list \<Rightarrow> (bool \<times> u8 list) option" where
  "dfs_chain d cur s = (case cur of None \<Rightarrow> Some s
     | Some p \<Rightarrow> Option.bind (dfs_chain d (first_child (nodes d p)) (Markdown (nodes d p) s))
         (dfs_chain d (next_sibling (nodes d p))))"

declare dfs_chain.simps [code]

definition Dfs :: "dom \<Rightarrow> nat \<Rightarrow> bool \<times> u8 list \<Rightarrow> (bool \<times> u8 list) option" where
  "Dfs d p s = dfs_chain d (first_child (nodes d p)) (Markdown (nodes d p) s)"

definition Generate :: "dom \<Rightarrow> u8 list option" where
  "Generate d = map_option (\<lambda>(first_line, out). out @ [10]) (Dfs d 0 (True, []))"

definition Render :: "u8 list \<Rightarrow> u8 list res option" where
  "Render html = (case Tokenize html of Inl e \<Rightarrow> Some (Fail e)
     | Inr ts \<Rightarrow> (case ConstructTree ts of None \<Rightarrow> None
         | Some (Inl e) \<Rightarrow> Some (Fail e)
         | Some (Inr d) \<Rightarrow> map_option Ok (Generate d)))"

section \<open>Termination\<close>

lemmas round_defs = before_html_def before_head_def in_head_def after_head_def in_body_def in_body_end_def
  after_body_def after_after_body_def insert_and_def go_on_def stop_def

text \<open>The rounds of a construction.\<close>

inductive tree_reach :: "token list \<Rightarrow> Mode \<Rightarrow> token list \<Rightarrow> dom \<Rightarrow> bool" for ts where
  tr_start: "tree_reach ts INITIAL ts empty_dom"
| tr_round: "tree_reach ts m (t # rest) d \<Longrightarrow> tree_round m t rest d = Inr (Some (m', ts'), d') \<Longrightarrow> tree_reach ts m' ts' d'"

text \<open>The start tags which the rules for a body know, and the rounds which change nothing.\<close>

definition body_tags :: "string list" where
  "body_tags = [''body'', ''html'', ''ul'', ''p'', ''div'', ''li''] @ heading_names"

definition stuck :: "Mode \<Rightarrow> token list \<Rightarrow> bool" where
  "stuck m ts = (case ts of [] \<Rightarrow> False
     | t # _ \<Rightarrow> m = IN_BODY \<and> token_type t = START_TAG \<and> \<not> list_ex (start_tag t) body_tags)"

lemma stuck_round: "stuck m (t # rest) \<Longrightarrow> tree_round m t rest d = Inr (Some (m, t # rest), d)"
  by (auto simp: stuck_def body_tags_def round_defs end_tag_def list_ex_iff)

lemma stuck_hangs: "stuck m ts \<Longrightarrow> construct m ts d = None"
proof -
  have "\<not> stuck m ts" if "construct m ts d = Some r" for r
  proof (rule construct.raw_induct[where P = "\<lambda>m ts d y. \<not> stuck m ts", OF _ that])
    fix f m ts d y
    assume 1: "\<And>m ts d y. f m ts d = Some y \<Longrightarrow> \<not> stuck m ts"
      "(case ts of [] \<Rightarrow> Some (Ok d) | t # rest \<Rightarrow> (case tree_round m t rest d of Inl e \<Rightarrow> Some (Fail e)
         | Inr (nx, d') \<Rightarrow> (case nx of None \<Rightarrow> Some (Ok d') | Some (m', ts') \<Rightarrow> f m' ts' d'))) = Some y"
    show "\<not> stuck m ts"
    proof (cases ts)
      case (Cons t rest)
      show ?thesis
      proof
        assume st: "stuck m ts"
        then have "tree_round m t rest d = Inr (Some (m, ts), d)" using stuck_round Cons by blast
        then have "f m ts d = Some y" using 1(2) Cons by simp
        then show False using 1(1) st by blast
      qed
    qed (simp add: stuck_def)
  qed
  then show "stuck m ts \<Longrightarrow> construct m ts d = None" by (cases "construct m ts d") auto
qed

definition mode_rank :: "Mode \<Rightarrow> token list \<Rightarrow> nat" where
  "mode_rank m ts = (case m of INITIAL \<Rightarrow> 7 | BEFORE_HTML \<Rightarrow> 6 | BEFORE_HEAD \<Rightarrow> 5 | IN_HEAD \<Rightarrow> 4 | AFTER_HEAD \<Rightarrow> 3
     | IN_BODY \<Rightarrow> 1 | AFTER_BODY \<Rightarrow> (if ts \<noteq> [] \<and> end_tag (hd ts) ''html'' then 0 else 2) | AFTER_AFTER_BODY \<Rightarrow> 2)"

lemma in_body_end_progress:
  "in_body_end t rest d = Inr (Some (m', ts'), d') \<Longrightarrow> length ts' \<le> length rest \<or> m' = IN_BODY \<and> ts' = t # rest \<and> token_type t \<noteq> END_TAG"
  by (auto simp: in_body_end_def go_on_def split: if_splits)

lemma in_body_end_le: "in_body_end t rest d = Inr (Some (m', ts'), d') \<Longrightarrow> length ts' \<le> Suc (length rest)"
  using in_body_end_progress by fastforce

lemma round_progress:
  assumes "tree_round m t rest d = Inr (Some (m', ts'), d')" "\<not> stuck m (t # rest)"
  shows "length ts' \<le> length rest \<or> ts' = t # rest \<and> mode_rank m' ts' < mode_rank m (t # rest)"
proof (cases m)
  case IN_BODY
  show ?thesis
  proof (cases "start_tag t ''li'' \<and> token_type t \<noteq> CHAR_TOKEN")
    case True
    then have "length ts' \<le> length rest" using assms(1) IN_BODY
      by (cases rest) (auto simp: in_body_def insert_and_def go_on_def stop_def res_simps start_tag_def end_tag_def
          dest!: in_body_end_le split: if_splits)
    then show ?thesis ..
  next
    case False
    have "token_type t \<noteq> START_TAG" if "in_body_end t rest d = Inr (Some (m', ts'), d')" "\<not> list_ex (start_tag t) body_tags"
      using assms(2) IN_BODY that(2) by (auto simp: stuck_def)
    then show ?thesis using assms IN_BODY False in_body_end_progress[of t rest d m' ts' d']
      by (cases "token_type t")
        (auto simp: in_body_def insert_and_def go_on_def stop_def res_simps mode_rank_def body_tags_def start_tag_def end_tag_def
          heading_names_def in_body_end_def split: if_splits list.splits)
  qed
qed (use assms in \<open>auto simp: before_html_def before_head_def in_head_def after_head_def after_body_def
  after_after_body_def insert_and_def go_on_def stop_def res_simps mode_rank_def split: if_splits\<close>)

lemma construct_returns:
  assumes "tree_reach ts0 m ts d" "\<And>m ts d. tree_reach ts0 m ts d \<Longrightarrow> \<not> stuck m ts"
  shows "\<exists>r. construct m ts d = Some r"
  using assms(1)
proof (induction "8 * length ts + mode_rank m ts" arbitrary: m ts d rule: less_induct)
  case less
  show ?case
  proof (cases ts)
    case (Cons t rest)
    show ?thesis
    proof (cases "tree_round m t rest d")
      case (Inr a)
      obtain nx d' where a: "a = (nx, d')" by (cases a)
      show ?thesis
      proof (cases nx)
        case (Some b)
        obtain m' ts' where b: "b = (m', ts')" by (cases b)
        have r: "tree_round m t rest d = Inr (Some (m', ts'), d')" using Inr a b Some by simp
        have re: "tree_reach ts0 m' ts' d'" using less.prems r Cons tr_round by blast
        have "mode_rank m' ts' < 8" by (auto simp: mode_rank_def split: Mode.split)
        then have "8 * length ts' + mode_rank m' ts' < 8 * length ts + mode_rank m ts"
          using round_progress[OF r] assms(2)[OF less.prems] Cons by fastforce
        then have "\<exists>r. construct m' ts' d' = Some r" using less.hyps re by blast
        then show ?thesis using r Cons by (subst construct.simps) simp
      qed (use Inr a Cons in \<open>subst construct.simps, simp\<close>)
    qed (use Cons in \<open>subst construct.simps, simp\<close>)
  qed (subst construct.simps, simp)
qed

lemma construct_reach:
  "tree_reach ts0 m ts d \<Longrightarrow> construct INITIAL ts0 empty_dom = construct m ts d"
proof (induction rule: tree_reach.induct)
  case (tr_round m t rest d m' ts' d')
  then show ?case by (subst (asm) (2) construct.simps) simp
qed simp

end
