(* ===== verification/Html_Document.thy ===== *)
theory Html_Document
  imports Html_Tree
begin

text \<open>
The invariant of documents: a tree with doubly linked children whose nodes are numbered in document
  order, and open elements which are the path to its last node.  Every round of the construction
  keeps it, and the traversal of such a document is a fold over its nodes.
\<close>

section \<open>Well-formed documents\<close>

definition kids :: "dom \<Rightarrow> nat \<Rightarrow> nat list" where
  "kids d p = filter (\<lambda>c. parent (nodes d c) = Some p) [Suc p..<node_count d]"

text \<open>The children of a node form a doubly linked list, and the open elements the path to the last node.\<close>

definition chained :: "dom \<Rightarrow> nat list \<Rightarrow> bool" where
  "chained d cs \<longleftrightarrow> (\<forall>i<length cs. next_sibling (nodes d (cs ! i)) = (if Suc i < length cs then Some (cs ! Suc i) else None) \<and>
     previous_sibling (nodes d (cs ! i)) = (if i = 0 then None else Some (cs ! (i - 1))))"

definition wf_dom :: "dom \<Rightarrow> bool" where
  "wf_dom d \<longleftrightarrow> 0 < node_count d \<and> parent (nodes d 0) = None \<and> node_type (nodes d 0) = DOCUMENT \<and>
     (\<forall>c. 0 < c \<and> c < node_count d \<longrightarrow> (\<exists>p<c. parent (nodes d c) = Some p)) \<and>
     (\<forall>p<node_count d. first_child (nodes d p) = (if kids d p = [] then None else Some (hd (kids d p))) \<and>
        last_child (nodes d p) = (if kids d p = [] then None else Some (last (kids d p))) \<and>
        chained d (kids d p) \<and> (node_type (nodes d p) = TEXT \<longrightarrow> node_data (nodes d p) \<noteq> None))"

definition open_path :: "dom \<Rightarrow> bool" where
  "open_path d \<longleftrightarrow> length (open_elements d) \<le> 100 \<and> set (open_elements d) \<subseteq> {..<node_count d} \<and>
     (open_elements d \<noteq> [] \<longrightarrow> last (open_elements d) = 0) \<and>
     (\<forall>i. Suc i < length (open_elements d) \<longrightarrow>
        kids d (open_elements d ! Suc i) \<noteq> [] \<and> last (kids d (open_elements d ! Suc i)) = open_elements d ! i)"

lemma kids_mem: "c \<in> set (kids d p) \<longleftrightarrow> p < c \<and> c < node_count d \<and> parent (nodes d c) = Some p"
  by (auto simp: kids_def)

lemma kids_distinct [simp]: "distinct (kids d p)"
  by (simp add: kids_def)

lemma wf_empty: "wf_dom empty_dom" "open_path empty_dom"
  by (auto simp: wf_dom_def open_path_def empty_dom_def CreateDocument_def kids_def chained_def)

text \<open>The open elements have growing numbers, towards the top.\<close>

lemma open_path_decreasing:
  assumes "open_path d" "j < length (open_elements d)" "i < j"
  shows "open_elements d ! j < open_elements d ! i"
  using assms(2,3)
proof (induction j)
  case (Suc j)
  have "kids d (open_elements d ! Suc j) \<noteq> []" "last (kids d (open_elements d ! Suc j)) = open_elements d ! j"
    using assms(1) Suc.prems by (simp_all add: open_path_def)
  then have "open_elements d ! j \<in> set (kids d (open_elements d ! Suc j))" using last_in_set by metis
  then have "open_elements d ! Suc j < open_elements d ! j" by (simp add: kids_mem)
  then show ?case using Suc by (cases "i = j") auto
qed simp

text \<open>Fresh nodes: not linked to anything.\<close>

definition fresh :: "node \<Rightarrow> bool" where
  "fresh nd \<longleftrightarrow> parent nd = None \<and> first_child nd = None \<and> last_child nd = None \<and>
     previous_sibling nd = None \<and> next_sibling nd = None \<and> (node_type nd = TEXT \<longrightarrow> node_data nd \<noteq> None)"

lemma fresh_nodes [simp]:
  "fresh (CreateElement ty tag)" "fresh (CreateElementFromToken ty t)" "fresh (CreateText t)"
  by (simp_all add: fresh_def CreateElement_def CreateElementFromToken_def CreateText_def)

text \<open>The fields after an insertion.\<close>

lemma insert_new_fields:
  assumes "insert_new nd d = Ok d'" "fresh nd" "wf_dom d" "open_path d"
  obtains target st where "open_elements d = target # st" "open_elements d' = node_count d # target # st"
    "node_count d' = node_count d + 1" "length st < 99"
    "\<forall>c. parent (nodes d' c) = (if c = node_count d then Some target else parent (nodes d c))"
    "\<forall>c. node_type (nodes d' c) = (if c = node_count d then node_type nd else node_type (nodes d c))"
    "\<forall>c. node_data (nodes d' c) = (if c = node_count d then node_data nd else node_data (nodes d c))"
    "\<forall>c. last_child (nodes d' c) = (if c = node_count d then None else if c = target then Some (node_count d) else last_child (nodes d c))"
    "\<forall>c. first_child (nodes d' c) = (if c = node_count d then None
        else if c = target \<and> last_child (nodes d target) = None then Some (node_count d) else first_child (nodes d c))"
    "\<forall>c. next_sibling (nodes d' c) = (if c = node_count d then None
        else if last_child (nodes d target) = Some c then Some (node_count d) else next_sibling (nodes d c))"
    "\<forall>c. previous_sibling (nodes d' c) = (if c = node_count d then last_child (nodes d target) else previous_sibling (nodes d c))"
proof -
  obtain target st where st: "open_elements d = target # st"
    using assms(1) by (auto simp: insert_new_def new_node_def InsertElement_def CurrentNode_def split: list.splits)
  have t: "target < node_count d" using assms(4) st by (auto simp: open_path_def)
  have l: "ex < node_count d" if "last_child (nodes d target) = Some ex" for ex
  proof -
    have "kids d target \<noteq> [] \<and> ex = last (kids d target)" using assms(3) t that by (auto simp: wf_dom_def split: if_splits)
    then have "ex \<in> set (kids d target)" by auto
    then show ?thesis by (simp add: kids_mem)
  qed
  note * = assms(1)[unfolded insert_new_def new_node_def InsertElement_def CurrentNode_def] st t l assms(2)[unfolded fresh_def]
  show ?thesis
  proof (cases "last_child (nodes d target)")
    case None
    show ?thesis
      by (rule that[OF st]) (use * None in \<open>auto simp: PushStack_def set_node_def Let_def split: if_splits\<close>)
  next
    case (Some ex)
    then have "ex < node_count d" using l by blast
    show ?thesis
      by (rule that[OF st]) (use * Some \<open>ex < node_count d\<close> in \<open>auto simp: PushStack_def set_node_def Let_def split: if_splits\<close>)
  qed
qed

lemma kids_insert:
  assumes "node_count d' = node_count d + 1" "target < node_count d"
    "\<And>c. parent (nodes d' c) = (if c = node_count d then Some target else parent (nodes d c))"
  shows "p < node_count d \<Longrightarrow> kids d' p = (if p = target then kids d p @ [node_count d] else kids d p)"
    and "kids d' (node_count d) = []"
proof -
  assume "p < node_count d"
  then have e: "[Suc p..<node_count d'] = [Suc p..<node_count d] @ [node_count d]" by (simp add: assms(1))
  have f: "filter (\<lambda>c. parent (nodes d' c) = Some p) [Suc p..<node_count d] = kids d p"
    unfolding kids_def by (rule filter_cong) (auto simp: assms(3))
  show "kids d' p = (if p = target then kids d p @ [node_count d] else kids d p)"
    using f by (simp add: kids_def e assms(3))
qed (simp add: kids_def assms)

lemma chained_cong:
  "(\<And>c. c \<in> set cs \<Longrightarrow> next_sibling (nodes d' c) = next_sibling (nodes d c) \<and> previous_sibling (nodes d' c) = previous_sibling (nodes d c))
   \<Longrightarrow> chained d' cs = chained d cs"
  by (simp add: chained_def)

lemma insert_new_wf:
  assumes "insert_new nd d = Ok d'" "fresh nd" "wf_dom d" "open_path d"
  shows "wf_dom d'" "open_path d'"
proof -
  obtain target st where F: "open_elements d = target # st" "open_elements d' = node_count d # target # st"
    "node_count d' = node_count d + 1" "length st < 99"
    and par: "\<forall>c. parent (nodes d' c) = (if c = node_count d then Some target else parent (nodes d c))"
    and ty: "\<forall>c. node_type (nodes d' c) = (if c = node_count d then node_type nd else node_type (nodes d c))"
      "\<forall>c. node_data (nodes d' c) = (if c = node_count d then node_data nd else node_data (nodes d c))"
    and lc: "\<forall>c. last_child (nodes d' c) = (if c = node_count d then None else if c = target then Some (node_count d) else last_child (nodes d c))"
    and fc: "\<forall>c. first_child (nodes d' c) = (if c = node_count d then None
        else if c = target \<and> last_child (nodes d target) = None then Some (node_count d) else first_child (nodes d c))"
    and ns: "\<forall>c. next_sibling (nodes d' c) = (if c = node_count d then None
        else if last_child (nodes d target) = Some c then Some (node_count d) else next_sibling (nodes d c))"
    and ps: "\<forall>c. previous_sibling (nodes d' c) = (if c = node_count d then last_child (nodes d target) else previous_sibling (nodes d c))"
    by (rule insert_new_fields[OF assms])
  have t: "target < node_count d" using assms(4) F(1) by (auto simp: open_path_def)
  note K = kids_insert[OF F(3) t par[rule_format]]
  let ?e = "node_count d" and ?ks = "kids d target"
  have lt: "last_child (nodes d target) = (if ?ks = [] then None else Some (last ?ks))"
    "first_child (nodes d target) = (if ?ks = [] then None else Some (hd ?ks))" "chained d ?ks"
    using assms(3) t by (simp_all add: wf_dom_def)
  have lk: "last_child (nodes d target) = Some c \<Longrightarrow> c \<in> set ?ks" for c using lt(1) by (auto split: if_splits)
  have ch: "chained d' (kids d p)" if "p < ?e" "p \<noteq> target" for p
  proof -
    have "chained d (kids d p)" using assms(3) that by (simp add: wf_dom_def)
    moreover have "c \<notin> set ?ks \<and> c \<noteq> ?e" if "c \<in> set (kids d p)" for c
      using that \<open>p \<noteq> target\<close> by (auto simp: kids_mem)
    ultimately show ?thesis using lk by (subst chained_cong[of _ d' d]) (auto simp: ns ps)
  qed
  have ct: "chained d' (?ks @ [?e])"
  proof -
    have ne: "?ks ! i \<noteq> ?e" if "i < length ?ks" for i using that nth_mem[OF that] by (auto simp: kids_mem)
    have la: "last_child (nodes d target) = Some (?ks ! i) \<longleftrightarrow> Suc i = length ?ks" if "i < length ?ks" for i
      using that lt(1) nth_eq_iff_index_eq[OF kids_distinct, of i d target "length ?ks - 1"] by (auto simp: last_conv_nth)
    show ?thesis unfolding chained_def
    proof (intro allI impI)
      fix i assume "i < length (?ks @ [?e])"
      then consider "i < length ?ks" "Suc i < length ?ks" | "i < length ?ks" "Suc i = length ?ks" | "i = length ?ks" by fastforce
      then show "next_sibling (nodes d' ((?ks @ [?e]) ! i)) = (if Suc i < length (?ks @ [?e]) then Some ((?ks @ [?e]) ! Suc i) else None) \<and>
          previous_sibling (nodes d' ((?ks @ [?e]) ! i)) = (if i = 0 then None else Some ((?ks @ [?e]) ! (i - 1)))"
      proof cases
        case 1
        then show ?thesis using lt(3) ne[OF 1(1)] la[OF 1(1)] by (simp add: ns ps chained_def nth_append) auto
      next
        case 2
        then show ?thesis using lt(3) ne[OF 2(1)] la[OF 2(1)] by (simp add: ns ps chained_def nth_append) auto
      next
        case 3
        then show ?thesis using lt(1) by (auto simp: ns ps nth_append last_conv_nth)
      qed
    qed
  qed
  show "wf_dom d'" unfolding wf_dom_def
  proof (intro conjI allI impI)
    fix c assume c: "0 < c \<and> c < node_count d'"
    show "\<exists>p<c. parent (nodes d' c) = Some p"
    proof (cases "c = ?e")
      case False
      then have "0 < c \<and> c < ?e" using c F(3) by simp
      then show ?thesis using False assms(3) by (auto simp: par wf_dom_def)
    qed (use t par in auto)
  next
    fix p assume p: "p < node_count d'"
    have w: "p < ?e \<Longrightarrow> first_child (nodes d p) = (if kids d p = [] then None else Some (hd (kids d p))) \<and>
        last_child (nodes d p) = (if kids d p = [] then None else Some (last (kids d p))) \<and>
        (node_type (nodes d p) = TEXT \<longrightarrow> node_data (nodes d p) \<noteq> None)" using assms(3) by (simp add: wf_dom_def)
    have c: "p = ?e \<or> p = target \<and> p < ?e \<or> p \<noteq> target \<and> p < ?e" using p t F(3) by auto
    show "first_child (nodes d' p) = (if kids d' p = [] then None else Some (hd (kids d' p)))"
      using c w K lt by (auto simp: fc)
    show "last_child (nodes d' p) = (if kids d' p = [] then None else Some (last (kids d' p)))"
      using c w K lt by (auto simp: lc)
    show "chained d' (kids d' p)" using c K ch ct by (auto simp: chained_def[of _ "[]"])
    show "node_data (nodes d' p) \<noteq> None" if "node_type (nodes d' p) = TEXT"
      using c w that assms(2) by (auto simp: ty fresh_def)
  qed (use assms(3) F(3) in \<open>auto simp: wf_dom_def par ty\<close>)
  show "open_path d'" unfolding open_path_def
  proof (intro conjI allI impI)
    fix i assume i: "Suc i < length (open_elements d')"
    have "kids d' (open_elements d' ! Suc i) \<noteq> [] \<and> last (kids d' (open_elements d' ! Suc i)) = open_elements d' ! i"
    proof (cases i)
      case 0
      then show ?thesis using F(2) K(1)[OF t] by simp
    next
      case (Suc j)
      let ?p = "open_elements d ! Suc j"
      have j: "Suc j < length (open_elements d)" "open_elements d' ! Suc i = ?p" "open_elements d' ! i = open_elements d ! j"
        using i F Suc by simp_all
      have "?p < ?e" using nth_mem[OF j(1)] assms(4) unfolding open_path_def by blast
      moreover have "kids d ?p \<noteq> []" "last (kids d ?p) = open_elements d ! j" using assms(4) j(1) by (simp_all add: open_path_def)
      ultimately have k: "?p < ?e" "kids d ?p \<noteq> []" "last (kids d ?p) = open_elements d ! j" by simp_all
      have "?p \<noteq> target" using open_path_decreasing[OF assms(4) j(1), of 0] F(1) by simp
      then show ?thesis using K(1)[OF k(1)] k j by simp
    qed
    then show "kids d' (open_elements d' ! Suc i) \<noteq> []" "last (kids d' (open_elements d' ! Suc i)) = open_elements d' ! i"
      by simp_all
  qed (use assms(4) F in \<open>auto simp: open_path_def\<close>)
qed

section \<open>Document order\<close>

function preorder :: "dom \<Rightarrow> nat \<Rightarrow> nat list" where
  "preorder d p = p # concat (map (preorder d) (kids d p))"
  by pat_completeness auto

termination
  by (relation "measure (\<lambda>(d, p). node_count d - p)") (auto simp: kids_mem)

declare preorder.simps [simp del]

definition doc_inv :: "dom \<Rightarrow> bool" where
  "doc_inv d \<longleftrightarrow> wf_dom d \<and> open_path d \<and> preorder d 0 = [0..<node_count d]"

lemma kids_open:
  assumes "open_path d" "c \<in> set (kids d x)" "k < length (open_elements d)" "c = open_elements d ! k"
  shows "Suc k < length (open_elements d)" "open_elements d ! Suc k = x" "last (kids d x) = c"
proof -
  let ?st = "open_elements d"
  show s: "Suc k < length ?st"
  proof (rule ccontr)
    assume "\<not> Suc k < length ?st"
    then have "k = length ?st - 1" "?st \<noteq> []" using assms(3) by auto
    then have "c = 0" using assms(1,4) by (simp add: open_path_def last_conv_nth)
    then show False using assms(2) by (simp add: kids_mem)
  qed
  have l: "kids d (?st ! Suc k) \<noteq> []" "last (kids d (?st ! Suc k)) = c"
    using assms(1,4) s by (simp_all add: open_path_def)
  then have "c \<in> set (kids d (?st ! Suc k))" using last_in_set by metis
  then show "?st ! Suc k = x" using assms(2) by (simp add: kids_mem)
  then show "last (kids d x) = c" using l(2) by simp
qed

lemma preorder_cong:
  assumes "node_count d' = node_count d" "\<And>c. parent (nodes d' c) = parent (nodes d c)"
  shows "preorder d' p = preorder d p"
proof -
  have "kids d' p = kids d p" for p by (simp add: kids_def assms)
  then show ?thesis
  proof (induction d p rule: preorder.induct)
    case (1 d p)
    then have "map (preorder d') (kids d' p) = map (preorder d) (kids d p)" by simp
    then show ?case by (simp add: preorder.simps[of d' p] preorder.simps[of d p])
  qed
qed

lemma preorder_insert:
  assumes "insert_new nd d = Ok d'" "fresh nd" "wf_dom d" "open_path d"
  shows "i < length (open_elements d) \<Longrightarrow> preorder d' (open_elements d ! i) = preorder d (open_elements d ! i) @ [node_count d]"
proof -
  let ?st = "open_elements d" and ?e = "node_count d"
  obtain target st where F: "?st = target # st" "open_elements d' = ?e # target # st" "node_count d' = ?e + 1"
    and par: "\<forall>c. parent (nodes d' c) = (if c = ?e then Some target else parent (nodes d c))"
    by (rule insert_new_fields[OF assms])
  have t: "target < ?e" using assms(4) F(1) by (auto simp: open_path_def)
  note K = kids_insert[OF F(3) t par[rule_format]]
  have off: "preorder d' x = preorder d x" if "x \<notin> set ?st" "x < ?e" for x
    using that
  proof (induction "?e - x" arbitrary: x rule: less_induct)
    case less
    have "preorder d' c = preorder d c" if "c \<in> set (kids d x)" for c
    proof (rule less.hyps)
      show "c \<notin> set ?st" using kids_open(1,2)[OF assms(4) that] less.prems(1) nth_mem by (metis in_set_conv_nth)
    qed (use that less.prems in \<open>auto simp: kids_mem\<close>)
    then have "concat (map (preorder d') (kids d' x)) = concat (map (preorder d) (kids d x))"
      using K(1)[of x] less.prems F(1) by (auto cong: map_cong)
    then show ?case by (simp add: preorder.simps[of d' x] preorder.simps[of d x])
  qed
  have e: "preorder d' ?e = [?e]" by (subst preorder.simps) (simp add: K(2))
  have lt: "?st ! i < ?e" if "i < length ?st" for i using nth_mem[OF that] assms(4) unfolding open_path_def by blast
  have inj: "k = j" if "?st ! k = ?st ! j" "k < length ?st" "j < length ?st" for k j
    using open_path_decreasing[OF assms(4)] that by (metis less_irrefl nat_neq_iff)
  show "preorder d' (?st ! i) = preorder d (?st ! i) @ [?e]" if "i < length ?st" for i
    using that
  proof (induction i)
    case 0
    have "preorder d' c = preorder d c" if "c \<in> set (kids d target)" for c
    proof (rule off)
      show "c \<notin> set ?st"
      proof
        assume "c \<in> set ?st"
        then obtain k where "k < length ?st" "c = ?st ! k" by (metis in_set_conv_nth)
        from kids_open(1,2)[OF assms(4) that this] inj[of "Suc k" 0] F(1) show False by simp
      qed
    qed (use that in \<open>simp add: kids_mem\<close>)
    then have "concat (map (preorder d') (kids d target)) = concat (map (preorder d) (kids d target))" by (simp cong: map_cong)
    then show ?case using K(1)[OF t] e F(1) by (simp add: preorder.simps[of d' target] preorder.simps[of d target])
  next
    case (Suc j)
    let ?x = "?st ! Suc j"
    have l: "kids d ?x \<noteq> []" "last (kids d ?x) = ?st ! j" using assms(4) Suc.prems by (simp_all add: open_path_def)
    have sp: "kids d ?x = butlast (kids d ?x) @ [?st ! j]" using l append_butlast_last_id by metis
    have "?x \<noteq> target" using inj[of "Suc j" 0] Suc.prems F(1) by auto
    then have k: "kids d' ?x = kids d ?x" using K(1)[OF lt[OF Suc.prems]] by simp
    have "preorder d' c = preorder d c" if "c \<in> set (butlast (kids d ?x))" for c
    proof (rule off)
      have c: "c \<in> set (kids d ?x)" using that in_set_butlastD by fast
      show "c \<notin> set ?st"
      proof
        assume "c \<in> set ?st"
        then obtain k where "k < length ?st" "c = ?st ! k" by (metis in_set_conv_nth)
        from kids_open(3)[OF assms(4) c this] have "c = ?st ! j" using l by simp
        then show False using that sp kids_distinct[of d ?x] by (metis disjoint_insert(1) distinct_append inf_commute list.simps(15))
      qed
      show "c < ?e" using c by (simp add: kids_mem)
    qed
    then have m: "concat (map (preorder d') (butlast (kids d ?x))) = concat (map (preorder d) (butlast (kids d ?x)))" by (simp cong: map_cong)
    have "concat (map (preorder d') (kids d' ?x)) = concat (map (preorder d) (kids d ?x)) @ [?e]"
      unfolding k by (subst (1 2) sp) (use m Suc in simp)
    then show ?case by (simp add: preorder.simps[of d' ?x] preorder.simps[of d ?x])
  qed
qed

lemma insert_new_inv:
  assumes "insert_new nd d = Ok d'" "fresh nd" "doc_inv d"
  shows "doc_inv d'"
proof -
  have d: "wf_dom d" "open_path d" "preorder d 0 = [0..<node_count d]" using assms(3) by (simp_all add: doc_inv_def)
  obtain target st where F: "open_elements d = target # st" "node_count d' = node_count d + 1"
    by (rule insert_new_fields[OF assms(1,2) d(1,2)])
  let ?k = "length (open_elements d) - 1"
  have "open_elements d ! ?k = last (open_elements d)" using F(1) by (simp add: last_conv_nth)
  then have "open_elements d ! ?k = 0" using d(2) F(1) unfolding open_path_def by simp
  then have "preorder d' 0 = [0..<node_count d] @ [node_count d]"
    using preorder_insert[OF assms(1,2) d(1,2), of ?k] d(3) F(1) by simp
  then show ?thesis using insert_new_wf[OF assms(1,2) d(1,2)] F(2) by (simp add: doc_inv_def)
qed

text \<open>Closing elements and adding text keep the document.\<close>

lemma doc_inv_pop:
  assumes "doc_inv d" "open_elements d = xs @ ys"
  shows "doc_inv (d\<lparr>open_elements := ys\<rparr>)"
proof -
  let ?d = "d\<lparr>open_elements := ys\<rparr>"
  have k: "kids ?d p = kids d p" for p by (simp add: kids_def)
  have "wf_dom ?d" using assms(1) by (simp add: doc_inv_def wf_dom_def k chained_def)
  moreover have "open_path ?d"
  proof -
    have o: "open_path d" using assms(1) by (simp add: doc_inv_def)
    have "kids d (ys ! Suc i) \<noteq> [] \<and> last (kids d (ys ! Suc i)) = ys ! i" if "Suc i < length ys" for i
      using o that assms(2) unfolding open_path_def
      by (auto simp: nth_append dest!: spec[where x = "length xs + i"])
    then show ?thesis using o assms(2) by (auto simp: open_path_def k)
  qed
  moreover have "preorder ?d 0 = preorder d 0" by (rule preorder_cong) simp_all
  ultimately show ?thesis using assms(1) by (simp add: doc_inv_def)
qed

lemma doc_inv_drop: "doc_inv d \<Longrightarrow> doc_inv (d\<lparr>open_elements := drop k (open_elements d)\<rparr>)"
  by (rule doc_inv_pop[of d "take k (open_elements d)"]) simp_all

lemma PopStack_inv: "doc_inv d \<Longrightarrow> doc_inv (PopStack d)"
  using doc_inv_drop[of d 1] by (simp add: PopStack_def drop_Suc)

lemma PopStackUntil_inv: "doc_inv d \<Longrightarrow> doc_inv (PopStackUntil ty d)"
  unfolding PopStackUntil_def dropWhile_eq_drop tl_drop drop_Suc[symmetric] by (rule doc_inv_drop)

lemma set_data_inv:
  assumes "doc_inv d" 
  shows "doc_inv (set_node p (node_data_update (\<lambda>_. Some s)) d)"
proof -
  let ?d = "set_node p (node_data_update (\<lambda>_. Some s)) d"
  have f: "parent (nodes ?d c) = parent (nodes d c)" "first_child (nodes ?d c) = first_child (nodes d c)"
    "last_child (nodes ?d c) = last_child (nodes d c)" "next_sibling (nodes ?d c) = next_sibling (nodes d c)"
    "previous_sibling (nodes ?d c) = previous_sibling (nodes d c)" "node_type (nodes ?d c) = node_type (nodes d c)"
    "node_data (nodes d c) \<noteq> None \<Longrightarrow> node_data (nodes ?d c) \<noteq> None" for c
    by (simp_all add: set_node_def)
  have n: "node_count ?d = node_count d" "open_elements ?d = open_elements d" by (simp_all add: set_node_def)
  have k: "kids ?d q = kids d q" for q by (simp add: kids_def f n)
  have "wf_dom ?d" using assms f(7) by (simp add: doc_inv_def wf_dom_def k chained_def f(1-6) n)
  moreover have "open_path ?d" using assms by (simp add: doc_inv_def open_path_def k n)
  moreover have "preorder ?d 0 = preorder d 0" by (rule preorder_cong) (simp_all only: f n)
  ultimately show ?thesis using assms by (simp add: doc_inv_def n)
qed

lemma InsertCharFromToken_inv: "InsertCharFromToken t d = Ok d' \<Longrightarrow> doc_inv d \<Longrightarrow> doc_inv d'"
  using insert_new_inv[OF _ fresh_nodes(3)] set_data_inv
  by (auto simp: InsertCharFromToken_def res_simps split: if_splits option.splits)

lemma insert_and_inv: "insert_and nd m ts d = Inr (nx, d') \<Longrightarrow> fresh nd \<Longrightarrow> doc_inv d \<Longrightarrow> doc_inv d'"
  using insert_new_inv by (auto simp: insert_and_def go_on_def res_simps)

lemma in_body_end_inv: "in_body_end t rest d = Inr (nx, d') \<Longrightarrow> doc_inv d \<Longrightarrow> doc_inv d'"
  by (auto simp: in_body_end_def go_on_def PopStack_inv PopStackUntil_inv split: if_splits)

lemma in_body_inv: "in_body t rest d = Inr (nx, d') \<Longrightarrow> doc_inv d \<Longrightarrow> doc_inv d'"
  using insert_new_inv[of "CreateElementFromToken LI t" d]
  by (cases rest) (auto simp: in_body_def go_on_def stop_def PopStack_inv PopStackUntil_inv res_simps
      split: if_splits dest: InsertCharFromToken_inv insert_and_inv in_body_end_inv)

lemma tree_round_inv: "tree_round m t rest d = Inr (nx, d') \<Longrightarrow> doc_inv d \<Longrightarrow> doc_inv d'"
  by (cases m) (auto simp: before_html_def before_head_def in_head_def after_head_def after_body_def after_after_body_def
      go_on_def stop_def PopStackUntil_inv split: if_splits dest: insert_and_inv in_body_inv)

lemma doc_inv_empty: "doc_inv empty_dom"
  using wf_empty by (simp add: doc_inv_def empty_dom_def preorder.simps kids_def)

lemma construct_inv:
  assumes "construct m ts d = Some (Inr d')" "doc_inv d"
  shows "doc_inv d'"
proof -
  have "\<forall>d'. y = Inr d' \<longrightarrow> doc_inv d \<longrightarrow> doc_inv d'" if "construct m ts d = Some y" for y
  proof (rule construct.raw_induct[where P = "\<lambda>m ts d y. \<forall>d'. y = Inr d' \<longrightarrow> doc_inv d \<longrightarrow> doc_inv d'", OF _ that])
    fix f m ts d y
    assume IH: "\<And>m ts d y. f m ts d = Some y \<Longrightarrow> \<forall>d'. y = Inr d' \<longrightarrow> doc_inv d \<longrightarrow> doc_inv d'"
      and *: "(case ts of [] \<Rightarrow> Some (Ok d) | t # rest \<Rightarrow> (case tree_round m t rest d of Inl e \<Rightarrow> Some (Fail e)
         | Inr (nx, d') \<Rightarrow> (case nx of None \<Rightarrow> Some (Ok d') | Some (m', ts') \<Rightarrow> f m' ts' d'))) = Some y"
    show "\<forall>d'. y = Inr d' \<longrightarrow> doc_inv d \<longrightarrow> doc_inv d'"
    proof (cases ts)
      case (Cons t rest)
      then show ?thesis using * IH tree_round_inv[of m t rest d]
        by (cases "tree_round m t rest d") (auto split: option.splits prod.splits)
    qed (use * in auto)
  qed
  then show ?thesis using assms by blast
qed

section \<open>Traversal\<close>

abbreviation markdown_at :: "dom \<Rightarrow> bool \<times> u8 list \<Rightarrow> nat \<Rightarrow> bool \<times> u8 list" where
  "markdown_at d s p \<equiv> Markdown (nodes d p) s"

lemma dfs_chain_None [simp]: "dfs_chain d None s = Some s"
  by (subst dfs_chain.simps) simp

lemma dfs_children:
  assumes "wf_dom d" "p < node_count d"
  shows "dfs_chain d (first_child (nodes d p)) s = Some (foldl (markdown_at d) s (concat (map (preorder d) (kids d p))))"
  using assms(2)
proof (induction "node_count d - p" arbitrary: p s rule: less_induct)
  case less
  let ?cs = "kids d p"
  have IH: "dfs_chain d (first_child (nodes d c)) s = Some (foldl (markdown_at d) s (concat (map (preorder d) (kids d c))))"
    if "c \<in> set ?cs" for c s by (rule less.hyps) (use that in \<open>auto simp: kids_mem\<close>)
  have w: "first_child (nodes d p) = (if ?cs = [] then None else Some (hd ?cs))" "chained d ?cs"
    using assms(1) less.prems by (simp_all add: wf_dom_def)
  have "dfs_chain d (if i < length ?cs then Some (?cs ! i) else None) s =
      Some (foldl (markdown_at d) s (concat (map (preorder d) (drop i ?cs))))" if "i \<le> length ?cs" for i s
    using that
  proof (induction i arbitrary: s rule: inc_induct)
    case (step i)
    then have m: "?cs ! i \<in> set ?cs" by simp
    have "next_sibling (nodes d (?cs ! i)) = (if Suc i < length ?cs then Some (?cs ! Suc i) else None)"
      using w(2) step by (simp add: chained_def)
    then show ?case using step.hyps IH[OF m] step.IH
      by (subst dfs_chain.simps) (simp add: Cons_nth_drop_Suc[symmetric] preorder.simps[of d "?cs ! i"] del: if_split)
  qed simp
  from this[of 0 s] show ?case using w(1) by (cases ?cs) auto
qed

lemma Generate_order:
  assumes "doc_inv d"
  shows "Generate d = Some (snd (foldl (markdown_at d) (True, []) [0..<node_count d]) @ [10])"
proof -
  have d: "wf_dom d" "preorder d 0 = [0..<node_count d]" "0 < node_count d" using assms by (auto simp: doc_inv_def wf_dom_def)
  have "Dfs d 0 (True, []) = Some (foldl (markdown_at d) (True, []) (preorder d 0))"
    using dfs_children[OF d(1,3)] by (simp add: Dfs_def preorder.simps[of d 0])
  then show ?thesis by (simp add: Generate_def d(2) split_def)
qed

end
