(* ===== verification/Html_Page.thy ===== *)
theory Html_Page
  imports Html_Document
begin

text \<open>
Properties of the browser as a whole: when the construction of a tree ends, the type of the trees
  it returns, and how a page of text is shown.
\<close>

section \<open>A page of text\<close>

definition kind :: "node \<Rightarrow> NodeType \<times> ElementType \<times> u8 list option \<times> u8 list option" where
  "kind n = (node_type n, element_type n, node_tag n, node_data n)"

lemma insert_new_kind:
  "insert_new nd d = Ok d' \<Longrightarrow> kind (nodes d' c) = (if c = node_count d then kind nd else kind (nodes d c))"
  by (auto simp: insert_new_def new_node_def InsertElement_def CurrentNode_def PushStack_def set_node_def Let_def kind_def
      split: list.splits if_splits option.splits)

lemma insert_new_ok:
  assumes "doc_inv d" "open_elements d \<noteq> []" "length (open_elements d) < 100" "fresh nd"
  shows "\<exists>d'. insert_new nd d = Ok d' \<and> doc_inv d' \<and> open_elements d' = node_count d # open_elements d \<and>
    node_count d' = Suc (node_count d) \<and> (\<forall>c. kind (nodes d' c) = (if c = node_count d then kind nd else kind (nodes d c)))"
proof -
  have "\<exists>d'. insert_new nd d = Ok d'" using assms(2,3)
    by (auto simp: insert_new_def new_node_def InsertElement_def CurrentNode_def PushStack_def set_node_def Let_def
        split: list.splits option.splits)
  then obtain d' where d': "insert_new nd d = Ok d'" by blast
  moreover have "doc_inv d'" by (rule insert_new_inv[OF d' assms(4,1)])
  moreover have "open_elements d' = node_count d # open_elements d" "node_count d' = Suc (node_count d)"
    using insert_new_fields[OF d' assms(4)] assms(1) unfolding doc_inv_def by (metis Suc_eq_plus1)+
  ultimately show ?thesis using insert_new_kind[OF d'] by blast
qed

lemma Markdown_kind: "kind n = kind n' \<Longrightarrow> Markdown n = Markdown n'"
  by (simp add: Markdown_def kind_def cong: if_cong ElementType.case_cong)

text \<open>A document whose only text is that of its last node, which is open.\<close>

definition text_page :: "u8 list \<Rightarrow> dom \<Rightarrow> bool" where
  "text_page s d \<longleftrightarrow> doc_inv d \<and> node_count d = 5 \<and> (\<exists>st. open_elements d = 4 # st) \<and>
     kind (nodes d 0) = kind CreateDocument \<and> kind (nodes d 1) = kind (CreateElement HTML (Some (bytes ''html''))) \<and>
     kind (nodes d 2) = kind (CreateElement HEAD (Some (bytes ''head''))) \<and>
     kind (nodes d 3) = kind (CreateElement BODY (Some (bytes ''body''))) \<and>
     kind (nodes d 4) = (TEXT, NONE, None, Some s)"

lemma char_token [simp]:
  "token_type (CreateCharToken c) = CHAR_TOKEN" "token_data (CreateCharToken c) = c" "\<not> start_tag (CreateCharToken c) s"
  "\<not> end_tag (CreateCharToken c) s" "space_token (CreateCharToken c) = is_space_char c"
  by (simp_all add: CreateCharToken_def start_tag_def end_tag_def space_token_def)

lemma construct_spaces:
  "list_all is_space_char ws \<Longrightarrow>
   construct BEFORE_HTML (map CreateCharToken ws @ ts) d = construct BEFORE_HTML ts d"
  by (induction ws) (simp, subst construct.simps, simp add: before_html_def go_on_def)

lemma construct_first_char:
  assumes "\<not> is_space_char c" "c \<noteq> 0"
  shows "\<exists>d. construct BEFORE_HTML (CreateCharToken c # ts) empty_dom = construct IN_BODY ts d \<and> text_page [c] d"
proof -
  let ?t = "CreateCharToken c" and ?html = "CreateElement HTML (Some (bytes ''html''))"
    and ?head = "CreateElement HEAD (Some (bytes ''head''))" and ?body = "CreateElement BODY (Some (bytes ''body''))"
  have e: "open_elements empty_dom = [0]" "node_count empty_dom = 1" "kind (nodes empty_dom 0) = kind CreateDocument"
    by (simp_all add: empty_dom_def)
  obtain d1 where 1: "insert_new ?html empty_dom = Ok d1" "doc_inv d1" "open_elements d1 = [1, 0]" "node_count d1 = 2"
    "\<forall>k. kind (nodes d1 k) = (if k = 1 then kind ?html else kind (nodes empty_dom k))"
    using insert_new_ok[OF doc_inv_empty, of ?html] e by auto
  obtain d2 where 2: "insert_new ?head d1 = Ok d2" "doc_inv d2" "open_elements d2 = [2, 1, 0]" "node_count d2 = 3"
    "\<forall>k. kind (nodes d2 k) = (if k = 2 then kind ?head else kind (nodes d1 k))"
    using insert_new_ok[OF 1(2), of ?head] 1 by auto
  define d2' where "d2' = PopStackUntil HEAD d2"
  have "element_type (nodes d2 2) = HEAD" using 2(5)[rule_format, of 2] by (simp add: kind_def CreateElement_def)
  then have P2: "doc_inv d2'" "open_elements d2' = [1, 0]" "node_count d2' = 3" "nodes d2' = nodes d2"
    unfolding d2'_def using PopStackUntil_inv[OF 2(2), of HEAD] 2(3,4) by (simp_all add: PopStackUntil_def)
  obtain d3 where 3: "insert_new ?body d2' = Ok d3" "doc_inv d3" "open_elements d3 = [3, 1, 0]" "node_count d3 = 4"
    "\<forall>k. kind (nodes d3 k) = (if k = 3 then kind ?body else kind (nodes d2 k))"
    using insert_new_ok[OF P2(1), of ?body] P2 by auto
  obtain d4 where 4: "insert_new (CreateText ?t) d3 = Ok d4" "doc_inv d4" "open_elements d4 = [4, 3, 1, 0]" "node_count d4 = 5"
    "\<forall>k. kind (nodes d4 k) = (if k = 4 then kind (CreateText ?t) else kind (nodes d3 k))"
    using insert_new_ok[OF 3(2), of "CreateText ?t"] 3 by auto
  have n3: "node_type (nodes d3 3) = ELEMENT" using 3(5)[rule_format, of 3] by (simp add: kind_def CreateElement_def)
  have "construct BEFORE_HTML (?t # ts) empty_dom = construct BEFORE_HEAD (?t # ts) d1"
    by (subst construct.simps) (simp add: before_html_def insert_and_def go_on_def assms 1(1))
  also have "\<dots> = construct IN_HEAD (?t # ts) d2"
    by (subst construct.simps) (simp add: before_head_def insert_and_def go_on_def assms 2(1))
  also have "\<dots> = construct AFTER_HEAD (?t # ts) d2'"
    by (subst construct.simps) (simp add: in_head_def go_on_def d2'_def)
  also have "\<dots> = construct IN_BODY (?t # ts) d3"
    by (subst construct.simps) (simp add: after_head_def insert_and_def go_on_def 3(1))
  also have "\<dots> = construct IN_BODY ts d4"
    by (subst construct.simps) (simp add: in_body_def InsertCharFromToken_def CurrentNode_def go_on_def 3(3) n3 4(1))
  finally have "construct BEFORE_HTML (?t # ts) empty_dom = construct IN_BODY ts d4" .
  moreover have "text_page [c] d4" using 1 2 3 4 e assms(2) unfolding text_page_def
    by (simp add: char_text_def) (simp add: kind_def CreateText_def char_text_def)
  ultimately show ?thesis by blast
qed

lemma text_page_add:
  assumes "text_page s d" "c \<noteq> 0" "length s + 1 < 100"
  shows "\<exists>d'. InsertCharFromToken (CreateCharToken c) d = Ok d' \<and> text_page (s @ [c]) d'"
proof -
  let ?d = "set_node 4 (node_data_update (\<lambda>_. Some (s @ [c]))) d"
  obtain st where st: "open_elements d = 4 # st" using assms(1) by (auto simp: text_page_def)
  have 4: "node_type (nodes d 4) = TEXT" "node_data (nodes d 4) = Some s" using assms(1) by (auto simp: text_page_def kind_def)
  have "InsertCharFromToken (CreateCharToken c) d = Ok ?d"
    using st 4 assms(2,3) by (simp add: InsertCharFromToken_def CurrentNode_def char_text_def)
  moreover have "text_page (s @ [c]) ?d"
    using assms(1) set_data_inv[of d 4 "s @ [c]"] by (auto simp: text_page_def set_node_def kind_def)
  ultimately show ?thesis by blast
qed

lemma construct_text:
  "text_page s d \<Longrightarrow> 0 \<notin> set cs \<Longrightarrow> length s + length cs < 100 \<Longrightarrow>
   \<exists>d'. construct IN_BODY (map CreateCharToken cs) d = Some (Ok d') \<and> text_page (s @ cs) d'"
proof (induction cs arbitrary: s d)
  case Nil
  then show ?case by (subst construct.simps) simp
next
  case (Cons c cs)
  obtain d' where d': "InsertCharFromToken (CreateCharToken c) d = Ok d'" "text_page (s @ [c]) d'"
    using text_page_add[OF Cons.prems(1)] Cons.prems by auto
  have "construct IN_BODY (map CreateCharToken (c # cs)) d = construct IN_BODY (map CreateCharToken cs) d'"
    by (subst construct.simps) (simp add: in_body_def go_on_def d')
  then show ?case using Cons.IH[OF d'(2)] Cons.prems by simp
qed

lemma text_page_markdown:
  assumes "text_page s d" "Printable s"
  shows "Generate d = Some (s @ [10])"
proof -
  have k: "Markdown (nodes d 0) = Markdown CreateDocument" "Markdown (nodes d 1) = Markdown (CreateElement HTML (Some (bytes ''html'')))"
    "Markdown (nodes d 2) = Markdown (CreateElement HEAD (Some (bytes ''head'')))"
    "Markdown (nodes d 3) = Markdown (CreateElement BODY (Some (bytes ''body'')))"
    by (rule Markdown_kind, use assms(1) in \<open>simp add: text_page_def\<close>)+
  have 4: "node_type (nodes d 4) = TEXT" "node_data (nodes d 4) = Some s" using assms(1) by (auto simp: text_page_def kind_def)
  have "[0..<5] = [0, 1, 2, 3, 4 :: nat]" by (simp add: upt_rec)
  moreover have "doc_inv d" "node_count d = 5" using assms(1) by (simp_all add: text_page_def)
  ultimately show ?thesis using Generate_order[of d] assms(2)
    by (simp add: k k(2)[unfolded One_nat_def]) (simp add: Markdown_def CreateDocument_def CreateElement_def 4)
qed

lemma in_body_end_tokens: "in_body_end t rest d = Inr (Some (m', ts'), d') \<Longrightarrow> set ts' \<subseteq> set (t # rest)"
  by (auto simp: in_body_end_def go_on_def split: if_splits)

lemma tree_round_tokens:
  assumes "tree_round m t rest d = Inr (Some (m', ts'), d')"
  shows "set ts' \<subseteq> set (t # rest)"
proof (cases "m = IN_BODY")
  case True
  then show ?thesis using assms in_body_end_tokens
    by (cases rest) (fastforce simp: in_body_def insert_and_def go_on_def stop_def res_simps split: if_splits)+
next
  case False
  then show ?thesis using assms
    by (cases m) (auto simp: before_html_def before_head_def in_head_def after_head_def after_body_def
      after_after_body_def insert_and_def go_on_def stop_def res_simps split: if_splits)
qed

lemma tree_reach_tokens: "tree_reach ts m us d \<Longrightarrow> set us \<subseteq> set ts"
  by (induction rule: tree_reach.induct) (use tree_round_tokens in blast)+

section \<open>Properties\<close>

text \<open>
  C26: the construction of a document tree ends, with a tree or an error, unless it reaches a start
  tag which the rules for the body of a page do not know.  At such a tag every round of the loop
  leaves the mode and the tokens as they are, and it never ends.  In particular it ends for all
  token sequences whose start tags are known in the body of a page.
\<close>

theorem ConstructTree_ends:
  "((\<exists>r. ConstructTree ts = Some r) \<longleftrightarrow> \<not> (\<exists>m us d. tree_reach ts m us d \<and> stuck m us)) \<and>
   ((\<forall>t\<in>set ts. token_type t = START_TAG \<longrightarrow> list_ex (start_tag t) body_tags) \<longrightarrow> (\<exists>r. ConstructTree ts = Some r))"
  (is "?A \<and> (?B \<longrightarrow> _)")
proof -
  have A: ?A
  proof
    assume "\<exists>r. ConstructTree ts = Some r"
    then show "\<not> (\<exists>m us d. tree_reach ts m us d \<and> stuck m us)"
      using construct_reach[of ts] stuck_hangs by (force simp: ConstructTree_def)
  next
    assume "\<not> (\<exists>m us d. tree_reach ts m us d \<and> stuck m us)"
    then show "\<exists>r. ConstructTree ts = Some r"
      using construct_returns[OF tr_start, of ts] by (auto simp: ConstructTree_def)
  qed
  have "\<not> stuck m us" if "tree_reach ts m us d" ?B for m us d
    using tree_reach_tokens[OF that(1)] that(2) by (auto simp: stuck_def split: list.splits)
  then show ?thesis using A by blast
qed

theorem ConstructTree_ends_witness:
  "\<exists>r. ConstructTree [(CreateToken START_TAG)\<lparr>tag_name := Some (bytes ''p'')\<rparr>, CreateCharToken 65] = Some r"
  by (rule ConstructTree_ends[THEN conjunct2, rule_format]) (auto simp: body_tags_def start_tag_def CreateToken_def)

text \<open>
  C25: the type of documents.  A document which the construction returns is a tree: every node but the
  document itself has a parent which was created before it, the children of a node are a doubly
  linked list between its first and its last child, and text nodes have text.  The traversal of such
  a document ends, and it visits every node once, in the order in which the nodes were created.
\<close>

theorem ConstructTree_type:
  assumes "ConstructTree ts = Some (Ok d)"
  shows "wf_dom d \<and> Generate d = Some (snd (foldl (\<lambda>s p. Markdown (nodes d p) s) (True, []) [0..<node_count d]) @ [10])"
  using construct_inv[OF assms[unfolded ConstructTree_def] doc_inv_empty] Generate_order doc_inv_def by simp

theorem ConstructTree_type_witness:
  "\<exists>d. ConstructTree [(CreateToken START_TAG)\<lparr>tag_name := Some (bytes ''ul'')\<rparr>, CreateCharToken 65] = Some (Ok d) \<and>
     node_count d = 6 \<and> wf_dom d"
proof -
  let ?ts = "[(CreateToken START_TAG)\<lparr>tag_name := Some (bytes ''ul'')\<rparr>, CreateCharToken 65]"
  have "case ConstructTree ?ts of Some (Inr d) \<Rightarrow> node_count d = 6 | _ \<Rightarrow> False" by code_simp
  then obtain d where "ConstructTree ?ts = Some (Ok d)" "node_count d = 6" by (auto split: option.splits sum.splits)
  then show ?thesis using ConstructTree_type by blast
qed

text \<open>
  C32: a page of plain text is shown as that text.  Leading blanks are dropped, carriage returns
  become line feeds, and the rest, of at most 99 characters, is printed unchanged with a line feed
  behind it.
\<close>

theorem Render_text:
  assumes "60 \<notin> set s" "0 \<notin> set s" "t = dropWhile is_space_char (map newline s)" "t \<noteq> []" "length t < 100"
  shows "Render s = Some (Ok (t @ [10]))"
proof -
  let ?w = "takeWhile is_space_char (map newline s)"
  obtain c cs where t: "t = c # cs" using assms(4) by (cases t) auto
  have c: "\<not> is_space_char c" using assms(3) t by (metis dropWhile_eq_Cons_conv)
  have n: "newline x \<noteq> 0" if "x \<in> set s" for x using that assms(2) by (auto simp: newline_def)
  have "set t \<subseteq> set (map newline s)" using assms(3) set_dropWhileD by fast
  then have z: "0 \<notin> set t" using n by auto
  have sp: "map newline s = ?w @ t" using assms(3) by simp
  have "Tokenize s = Ok (map CreateCharToken (map newline s))"
    using tokenize_text[OF assms(1), of "[]"] by (simp add: Tokenize_def comp_def)
  moreover have "map CreateCharToken (map newline s) = map CreateCharToken ?w @ CreateCharToken c # map CreateCharToken cs"
    by (subst sp) (simp only: map_append t list.map)
  ultimately have T: "Tokenize s = Ok (map CreateCharToken ?w @ CreateCharToken c # map CreateCharToken cs)" by simp
  have "construct INITIAL (x # us) d = construct BEFORE_HTML (x # us) d" for x us d
    by (subst construct.simps) (simp add: go_on_def)
  then have "ConstructTree (map CreateCharToken ?w @ CreateCharToken c # map CreateCharToken cs) =
      construct BEFORE_HTML (map CreateCharToken ?w @ CreateCharToken c # map CreateCharToken cs) empty_dom"
    unfolding ConstructTree_def by (cases ?w) simp_all
  also have "\<dots> = construct BEFORE_HTML (CreateCharToken c # map CreateCharToken cs) empty_dom"
    by (rule construct_spaces) (auto simp: list_all_iff dest: set_takeWhileD)
  finally have C: "ConstructTree (map CreateCharToken ?w @ CreateCharToken c # map CreateCharToken cs) =
      construct BEFORE_HTML (CreateCharToken c # map CreateCharToken cs) empty_dom" .
  obtain d1 where 1: "construct BEFORE_HTML (CreateCharToken c # map CreateCharToken cs) empty_dom =
      construct IN_BODY (map CreateCharToken cs) d1" "text_page [c] d1"
    using construct_first_char[OF c] z t by fastforce
  obtain d where "construct IN_BODY (map CreateCharToken cs) d1 = Some (Ok d)" "text_page t d"
    using construct_text[OF 1(2), of cs] z t assms(5) by auto
  moreover have "Printable t" using c t by (simp add: Printable_def)
  ultimately show ?thesis using T C 1 text_page_markdown by (simp add: Render_def)
qed

theorem Render_text_witness: "Render [32, 13, 72, 105, 13] = Some (Ok [72, 105, 10, 10])"
  using Render_text[of "[32, 13, 72, 105, 13]" "[72, 105, 10]"] by (simp add: newline_def is_space_char_def)

end
