(* ===== verification/Net_Checksum.thy ===== *)
theory Net_Checksum
  imports C_Memory
begin

text \<open>
The Internet checksum of src/src/network.h: the sum with end-around carry over 16-bit words in
  network byte order, its meaning on numbers, and the bytes stored in a packet.
\<close>

section \<open>Checksums\<close>

text \<open>A packet is a memory which starts at its first byte.\<close>

definition word16_at :: "cmem \<Rightarrow> nat \<Rightarrow> u32" where
  "word16_at p i = push_bit 8 (ucast (p i)) OR ucast (p (i + 1))"

function csum_loop :: "cmem \<Rightarrow> nat \<Rightarrow> nat \<Rightarrow> u32 \<Rightarrow> u32" where
  "csum_loop p i e acc = (if i < e then csum_loop p (i + 2) e (acc + word16_at p i) else acc)"
  by auto
termination
  by (relation "measure (\<lambda>(_, i, e, _). e - i)") auto

declare csum_loop.simps [simp del]

lemma unat_split16:
  "unat (take_bit 16 (x :: u32)) = unat x mod 65536" "unat (drop_bit 16 x) = unat x div 65536"
  using unsigned_less[of x, where ?'a = nat]
  by (simp_all only: unsigned_take_bit_eq unsigned_drop_bit_eq drop_bit_take_bit take_bit_length_eq)
    (simp_all add: take_bit_eq_mod drop_bit_eq_div less_mult_imp_div_less)

lemma and_ffff: "(x :: u32) AND 0xffff = take_bit 16 x"
  by (simp add: take_bit_eq_mask mask_eq_exp_minus_1)

lemma fold_carry_less:
  assumes "drop_bit 16 (acc :: u32) \<noteq> 0"
  shows "unat ((acc AND 0xffff) + drop_bit 16 acc) < unat acc"
proof -
  note m = and_ffff[of acc] and t = unat_split16[of acc]
  have "0 < unat acc div 65536" using assms t(2) by (metis gr0I unat_eq_zero)
  moreover have "unat ((acc AND 0xffff) + drop_bit 16 acc) \<le> unat acc mod 65536 + unat acc div 65536"
    unfolding m t[symmetric] by (simp only: unat_word_ariths mod_less_eq_dividend)
  moreover have "unat acc = 65536 * (unat acc div 65536) + unat acc mod 65536" by simp
  ultimately show ?thesis by linarith
qed

function fold_carry :: "u32 \<Rightarrow> u32" where
  "fold_carry acc = (if drop_bit 16 acc \<noteq> 0 then fold_carry ((acc AND 0xffff) + drop_bit 16 acc) else acc)"
  by auto
termination
  by (relation "measure unat") (auto simp: fold_carry_less)

declare fold_carry.simps [simp del]

definition csum_bytes :: "u32 \<Rightarrow> u8 list" where
  "csum_bytes acc = (let s = NOT (fold_carry acc) in [ucast (drop_bit 8 s AND 0xFF), ucast (s AND 0xFF)])"

definition InternetChecksum_Calc :: "cmem \<Rightarrow> nat \<Rightarrow> nat \<Rightarrow> u8 list" where
  "InternetChecksum_Calc buf start e = csum_bytes (csum_loop buf start e 0)"

definition word16 :: "u8 list \<Rightarrow> nat \<Rightarrow> u32" where
  "word16 bs i = push_bit 8 (ucast (bs ! i)) OR ucast (bs ! (i + 1))"

definition CalcUDPChecksum :: "cmem \<Rightarrow> nat \<Rightarrow> nat \<Rightarrow> u8 list \<Rightarrow> u8 list \<Rightarrow> u8 list \<Rightarrow> u8 list" where
  "CalcUDPChecksum buf start e src_addr dst_addr udp_length =
     csum_bytes (csum_loop buf start e
       (word16 src_addr 0 + word16 src_addr 2 + word16 dst_addr 0 + word16 dst_addr 2 + word16 udp_length 0 + 17))"

section \<open>Sums as numbers\<close>

definition num16 :: "u8 \<Rightarrow> u8 \<Rightarrow> nat" where
  "num16 a b = unat a * 256 + unat b"

lemma num16_less: "num16 a b \<le> 65535"
  using unsigned_less[of a, where ?'a = nat] unsigned_less[of b, where ?'a = nat] by (simp add: num16_def)

lemma unat_word16: "unat (push_bit 8 (ucast a) OR ucast b :: u32) = num16 a b"
proof -
  have d: "push_bit 8 (ucast a) AND ucast b = (0 :: u32)"
    by (rule bit_word_eqI) (auto simp: bit_simps dest: bit_imp_le_length)
  have "(push_bit 8 (ucast a) OR ucast b :: u32) = push_bit 8 (ucast a) + ucast b"
    using disjunctive_add_eq_or[OF d] by simp
  also have "\<dots> = of_nat (num16 a b)"
    by (simp add: num16_def push_bit_eq_mult mult.commute)
  finally have "(push_bit 8 (ucast a) OR ucast b :: u32) = of_nat (num16 a b)" .
  moreover have "num16 a b < 2 ^ 32" using num16_less[of a b] by simp
  ultimately show ?thesis by (simp add: unat_of_nat)
qed

function sum16 :: "cmem \<Rightarrow> nat \<Rightarrow> nat \<Rightarrow> nat" where
  "sum16 p i e = (if i < e then num16 (p i) (p (i + 1)) + sum16 p (i + 2) e else 0)"
  by auto
termination
  by (relation "measure (\<lambda>(_, i, e). e - i)") auto

declare sum16.simps [simp del]

lemma sum16_le: "sum16 p i e \<le> (e - i + 1) div 2 * 65535"
proof (induction p i e rule: sum16.induct)
  case (1 p i e)
  show ?case
  proof (cases "i < e")
    case True
    have "(e - i + 1) div 2 = Suc ((e - (i + 2) + 1) div 2)" using True by presburger
    then have "(e - i + 1) div 2 * 65535 = 65535 + (e - (i + 2) + 1) div 2 * 65535" by simp
    moreover have "sum16 p i e = num16 (p i) (p (i + 1)) + sum16 p (i + 2) e" using True by (subst sum16.simps) simp
    ultimately show ?thesis using 1[OF True] num16_less[of "p i" "p (i + 1)"] by linarith
  qed (subst sum16.simps, simp)
qed

lemma csum_loop_sum:
  "unat s + sum16 p i e < 2 ^ 32 \<Longrightarrow> unat (csum_loop p i e s) = unat s + sum16 p i e"
proof (induction p i e s rule: csum_loop.induct)
  case (1 p i e s)
  show ?case
  proof (cases "i < e")
    case True
    have u: "unat (word16_at p i) = num16 (p i) (p (i + 1))" by (simp add: word16_at_def unat_word16)
    have s: "sum16 p i e = num16 (p i) (p (i + 1)) + sum16 p (i + 2) e" using True by (subst sum16.simps) simp
    have "unat (s + word16_at p i) = unat s + num16 (p i) (p (i + 1))"
      using 1(2) u s by (subst unat_plus_simple[THEN iffD1]) (simp_all add: no_olen_add_nat)
    then show ?thesis using 1(1)[OF True] 1(2) s True by (subst csum_loop.simps) simp
  next
    case False
    then show ?thesis by (subst csum_loop.simps, subst sum16.simps) simp
  qed
qed

text \<open>End-around carry: the residue modulo \<open>2 ^ 16 - 1\<close>, with \<open>2 ^ 16 - 1\<close> for the positive multiples.\<close>

definition carry16 :: "nat \<Rightarrow> nat" where
  "carry16 n = (if n = 0 then 0 else (n - 1) mod 65535 + 1)"

lemma fold_carry_eq: "unat (fold_carry s) = carry16 (unat s)"
proof (induction s rule: fold_carry.induct)
  case (1 s)
  note m = and_ffff[of s] and t = unat_split16[of s]
  show ?case
  proof (cases "drop_bit 16 s = 0")
    case True
    then have "unat s div 65536 = 0" using t(2) by simp
    then have "unat s < 65536" by simp
    then show ?thesis using True by (subst fold_carry.simps) (auto simp: carry16_def)
  next
    case False
    let ?x = "unat s mod 65536" and ?y = "unat s div 65536"
    have y: "0 < ?y" using False t(2) by (metis gr0I unat_eq_zero)
    have lt: "?x + ?y < 2 ^ 32"
      using unsigned_less[of s, where ?'a = nat] by (simp add: less_mult_imp_div_less)
    have a: "unat ((s AND 0xffff) + drop_bit 16 s) = ?x + ?y"
      unfolding m using t lt by (subst unat_plus_simple[THEN iffD1]) (simp_all add: no_olen_add_nat)
    have "carry16 (?x + ?y) = carry16 (unat s)"
    proof -
      have e: "unat s = (?x + ?y) + 65535 * ?y" by simp
      have "(unat s - 1) = (?x + ?y - 1) + 65535 * ?y" using y e by linarith
      then have "(unat s - 1) mod 65535 = (?x + ?y - 1) mod 65535" by (metis mod_mult_self2)
      moreover have "unat s \<noteq> 0" "?x + ?y \<noteq> 0" using y by (auto simp: div_eq_0_iff intro: gr0I)
      ultimately show ?thesis by (simp add: carry16_def)
    qed
    then show ?thesis using 1[OF False] a False by (subst fold_carry.simps) simp
  qed
qed

lemma carry16_le: "carry16 n \<le> 65535"
  using mod_less_divisor[of 65535 "n - 1"] by (simp add: carry16_def del: mod_less_divisor)

lemma csum_bytes_num:
  obtains a b where "csum_bytes s = [a, b]" "num16 a b = 65535 - carry16 (unat s)"
proof -
  let ?c = "fold_carry s"
  have c: "unat ?c = carry16 (unat s)" by (rule fold_carry_eq)
  let ?a = "ucast (drop_bit 8 (NOT ?c) AND 0xFF) :: u8" and ?b = "ucast (NOT ?c AND 0xFF) :: u8"
  have h: "take_bit 16 ?c = ?c"
    using c carry16_le[of "unat s"] unat_split16(1)[of ?c] by (intro word_unat_eq_iff[THEN iffD2]) simp
  have "(push_bit 8 (ucast ?a) OR ucast ?b :: u32) = 65535 - ?c"
  proof -
    have m: "(0xFF :: u32) = mask 8" by (simp add: mask_eq_exp_minus_1)
    have "(push_bit 8 (ucast ?a) OR ucast ?b :: u32) = take_bit 16 (NOT ?c)"
      unfolding m by (rule bit_word_eqI) (auto simp: bit_simps)
    also have "\<dots> = mask 16 - ?c" by (simp add: take_bit_not_eq_mask_diff h)
    finally show ?thesis by (simp add: mask_eq_exp_minus_1)
  qed
  then have "num16 ?a ?b = unat (65535 - ?c)" by (metis unat_word16)
  also have "\<dots> = 65535 - carry16 (unat s)"
    using c carry16_le[of "unat s"] by (subst unat_sub) (simp_all add: word_le_nat_alt)
  finally show ?thesis by (rule that[rotated]) (simp add: csum_bytes_def Let_def)
qed

end
