(* ===== verification/Net_Packets.thy ===== *)
theory Net_Packets
  imports Net_Checksum
begin

text \<open>
Packets of src/src/network.h as memories with fields at the offsets of the packed structures:
  Ethernet, IPv4, ARP, UDP and DHCP, with their setup functions, and the lemma that stored
  checksums verify.
\<close>

section \<open>Stored checksums verify\<close>

lemma sum16_cong: "(\<And>k. i \<le> k \<Longrightarrow> p k = q k) \<Longrightarrow> sum16 p i e = sum16 q i e"
proof (induction p i e rule: sum16.induct)
  case (1 p i e)
  show ?case using 1 by (subst (1 2) sum16.simps) simp
qed

lemma sum16_put:
  assumes "c < e" "b c = 0" "b (c + 1) = 0"
  shows "i \<le> c \<Longrightarrow> even (c - i) \<Longrightarrow> sum16 (b(c := x, c + 1 := y)) i e = sum16 b i e + num16 x y"
proof (induction "e - i" arbitrary: i rule: less_induct)
  case less
  define b' where "b' = b(c := x, c + 1 := y)"
  have s: "sum16 p i e = num16 (p i) (p (i + 1)) + sum16 p (i + 2) e" for p
    using less.prems assms(1) by (subst sum16.simps) simp
  have "sum16 b' i e = sum16 b i e + num16 x y"
  proof (cases "i = c")
    case True
    have "sum16 b' (i + 2) e = sum16 b (i + 2) e" by (rule sum16_cong) (auto simp: True b'_def)
    moreover have "num16 (b' i) (b' (i + 1)) = num16 x y" "num16 (b i) (b (i + 1)) = 0"
      using True assms(2,3) by (simp_all add: num16_def b'_def)
    ultimately show ?thesis using s[of b'] s[of b] by linarith
  next
    case False
    then have i: "i + 2 \<le> c" "even (c - (i + 2))" using less.prems by presburger+
    then have "sum16 b' (i + 2) e = sum16 b (i + 2) e + num16 x y" using less.hyps[of "i + 2"] assms(1) by (simp add: b'_def)
    moreover have "num16 (b' i) (b' (i + 1)) = num16 (b i) (b (i + 1))" using i by (simp add: b'_def)
    ultimately show ?thesis using s[of b'] s[of b] by linarith
  qed
  then show ?case by (simp only: b'_def)
qed

lemma carry16_complement: "carry16 (n + (65535 - carry16 n)) = 65535"
proof (cases "n = 0")
  case False
  obtain q r where n: "n = q * 65535 + r + 1" "r < 65535"
    using False by (metis Suc_eq_plus1 add.assoc div_mult_mod_eq mod_less_divisor not0_implies_Suc zero_less_numeral)
  then have c: "carry16 n = r + 1" by (simp add: carry16_def)
  then have "n + (65535 - carry16 n) = (q + 1) * 65535" using n by simp
  then show ?thesis by (simp add: carry16_def)
qed (simp add: carry16_def)

lemma num16_0: "num16 a b = 0 \<Longrightarrow> a = 0 \<and> b = 0"
  by (simp add: num16_def unat_eq_zero)

lemma csum_verifies:
  assumes "start \<le> c" "even (c - start)" "c < e" "b c = 0" "b (c + 1) = 0" "unat init + sum16 b start e + 65535 < 2 ^ 32"
  shows "csum_bytes (csum_loop (put_bytes c (csum_bytes (csum_loop b start e init)) b) start e init) = [0, 0]"
proof -
  let ?s = "csum_loop b start e init" and ?S = "unat init + sum16 b start e"
  have s: "unat ?s = ?S" using assms(6) by (intro csum_loop_sum) simp
  obtain x y where xy: "csum_bytes ?s = [x, y]" "num16 x y = 65535 - carry16 ?S" by (metis csum_bytes_num s)
  let ?b = "b(c := x, c + 1 := y)"
  have p: "put_bytes c (csum_bytes ?s) b = ?b" by (simp add: xy)
  have S: "sum16 ?b start e = sum16 b start e + num16 x y" by (rule sum16_put[OF assms(3-5,1,2)])
  have u: "unat (csum_loop ?b start e init) = ?S + (65535 - carry16 ?S)"
    using csum_loop_sum[of init ?b start e] assms(6) S xy(2) by simp
  obtain x' y' where xy': "csum_bytes (csum_loop ?b start e init) = [x', y']" "num16 x' y' = 65535 - carry16 (?S + (65535 - carry16 ?S))"
    by (metis csum_bytes_num u)
  then have "num16 x' y' = 0" by (simp add: carry16_complement)
  then show ?thesis using xy'(1) num16_0 p by simp
qed

section \<open>Packets\<close>

text \<open>Fields of a packet by their offsets; an IPv4 address is four bytes, an Ethernet address six.\<close>

definition kTypeARP :: "u8 list" where "kTypeARP = [0x08, 0x06]"
definition kTypeIPv4 :: "u8 list" where "kTypeIPv4 = [0x08, 0x00]"
definition kBroadcastEtherAddr :: "u8 list" where "kBroadcastEtherAddr = [0xFF, 0xFF, 0xFF, 0xFF, 0xFF, 0xFF]"
definition kBroadcastIPv4Addr :: "u8 list" where "kBroadcastIPv4Addr = [0xFF, 0xFF, 0xFF, 0xFF]"
definition kWildcardIPv4Addr :: "u8 list" where "kWildcardIPv4Addr = [0, 0, 0, 0]"

definition SetEthType :: "u8 list \<Rightarrow> cmem \<Rightarrow> cmem" where
  "SetEthType etype p = put_bytes 12 etype p"

definition HasEthType :: "cmem \<Rightarrow> u8 list \<Rightarrow> bool" where
  "HasEthType p etype \<longleftrightarrow> p 12 = etype ! 0 \<and> p 13 = etype ! 1"

definition be_bytes16 :: "u16 \<Rightarrow> u8 list" where
  "be_bytes16 v = [ucast (drop_bit 8 v), ucast (v AND 0xFF)]"

definition IPv4Packet_SetDataLength :: "u16 \<Rightarrow> cmem \<Rightarrow> cmem" where
  "IPv4Packet_SetDataLength data_len p = put_bytes 16 (be_bytes16 ((data_len + 20 + 1) AND NOT 1)) p"

definition IPv4Packet_CalcAndSetChecksum :: "cmem \<Rightarrow> cmem" where
  "IPv4Packet_CalcAndSetChecksum p = (let p = put_bytes 24 [0, 0] p in put_bytes 24 (InternetChecksum_Calc p 14 34) p)"

datatype arp_operation = kUnknown | kRequest | kReply

definition ARPPacket_GetOperation :: "cmem \<Rightarrow> arp_operation" where
  "ARPPacket_GetOperation p =
     (if p 20 \<noteq> 0 then kUnknown else if p 21 = 0x01 then kRequest else if p 21 = 0x02 then kReply else kUnknown)"

definition ARPPacket_SetupRequest :: "u8 list \<Rightarrow> u8 list \<Rightarrow> u8 list \<Rightarrow> cmem \<Rightarrow> cmem" where
  "ARPPacket_SetupRequest target_ip src_ip src_mac p =
     (let p = put_bytes 32 (replicate 6 0x00) (put_bytes 0 (replicate 6 0xff) p);
          p = put_bytes 22 src_mac (put_bytes 6 src_mac p);
          p = put_bytes 38 target_ip (put_bytes 28 src_ip p);
          p = SetEthType kTypeARP p
      in put_bytes 14 [0x00, 0x01, 0x08, 0x00, 6, 4, 0x00, 0x01] p)"

definition ARPPacket_SetupReply :: "u8 list \<Rightarrow> u8 list \<Rightarrow> u8 list \<Rightarrow> u8 list \<Rightarrow> cmem \<Rightarrow> cmem" where
  "ARPPacket_SetupReply target_ip src_ip target_mac src_mac p =
     (let p = put_bytes 6 src_mac (put_bytes 0 target_mac p);
          p = put_bytes 22 src_mac (put_bytes 32 target_mac p);
          p = put_bytes 38 target_ip (put_bytes 28 src_ip p);
          p = SetEthType kTypeARP p
      in put_bytes 14 [0x00, 0x01, 0x08, 0x00, 6, 4, 0x00, 0x02] p)"

definition SetSourcePort :: "u16 \<Rightarrow> cmem \<Rightarrow> cmem" where
  "SetSourcePort port p = put_bytes 34 (be_bytes16 port) p"

definition SetDestinationPort :: "u16 \<Rightarrow> cmem \<Rightarrow> cmem" where
  "SetDestinationPort port p = put_bytes 36 (be_bytes16 port) p"

definition GetSourcePort :: "cmem \<Rightarrow> u16" where
  "GetSourcePort p = push_bit 8 (ucast (p 34)) OR ucast (p 35)"

definition GetDestinationPort :: "cmem \<Rightarrow> u16" where
  "GetDestinationPort p = push_bit 8 (ucast (p 36)) OR ucast (p 37)"

definition UDP_SetDataSize :: "u16 \<Rightarrow> cmem \<Rightarrow> cmem" where
  "UDP_SetDataSize data_len p = put_bytes 38 (be_bytes16 ((data_len + 8 + 1) AND NOT 1)) p"

text \<open>The DHCP request: 34 bytes of IPv4, 8 of UDP and 240 of DHCP.\<close>

definition dhcp_ip_header :: "u8 list \<Rightarrow> cmem \<Rightarrow> cmem" where
  "dhcp_ip_header src_eth_addr p =
     (let p = put_bytes 6 src_eth_addr (put_bytes 0 kBroadcastEtherAddr p);
          p = SetEthType kTypeIPv4 p;
          p = IPv4Packet_SetDataLength (282 - 34) (put_bytes 14 [0x45, 0] p);
          p = put_bytes 18 [0x6b, 0x42, 0, 0, 0xFF, 17] p;
          p = put_bytes 30 kBroadcastIPv4Addr (put_bytes 26 kWildcardIPv4Addr p)
      in IPv4Packet_CalcAndSetChecksum p)"

definition dhcp_body :: "u8 list \<Rightarrow> cmem \<Rightarrow> cmem" where
  "dhcp_body src_eth_addr p =
     (let p = SetDestinationPort 67 (SetSourcePort 68 p);
          p = put_bytes 40 [0, 0] (UDP_SetDataSize (282 - 42) p);
          p = put_bytes 42 [1, 1, 6, 0, 0x34, 0x12, 0, 0, 0, 0, 0, 0] p;
          p = put_bytes 66 kWildcardIPv4Addr (put_bytes 62 kWildcardIPv4Addr
            (put_bytes 58 kWildcardIPv4Addr (put_bytes 54 kWildcardIPv4Addr p)));
          p = put_bytes 70 src_eth_addr p;
          p = put_bytes 76 (replicate 10 0) p;
          p = put_bytes 86 (replicate 64 0) p;
          p = put_bytes 150 (replicate 128 0) p
      in put_bytes 278 [99, 130, 83, 99] p)"

definition DHCPPacket_SetupRequest :: "u8 list \<Rightarrow> cmem \<Rightarrow> cmem" where
  "DHCPPacket_SetupRequest src_eth_addr p =
     (let p = dhcp_body src_eth_addr (dhcp_ip_header src_eth_addr p)
      in put_bytes 40 (CalcUDPChecksum p 34 282 kWildcardIPv4Addr kBroadcastIPv4Addr [p 38, p 39]) p)"

lemma put_bytes_outside: "k < c \<or> c + length bs \<le> k \<Longrightarrow> put_bytes c bs p k = p k"
  by (auto simp: put_bytes_at)

lemma IPv4_checksum_verifies:
  "InternetChecksum_Calc (IPv4Packet_CalcAndSetChecksum p) 14 34 = [0, 0]"
proof -
  let ?p = "put_bytes 24 [0, 0] p"
  have "sum16 ?p 14 34 \<le> (34 - 14 + 1) div 2 * 65535" by (rule sum16_le)
  then have "unat (0 :: u32) + sum16 ?p 14 34 + 65535 < 2 ^ 32" by simp
  from csum_verifies[OF _ _ _ _ _ this, of 24] show ?thesis
    by (simp add: InternetChecksum_Calc_def IPv4Packet_CalcAndSetChecksum_def Let_def)
qed

lemma csum_loop_cong:
  "even (e - i) \<Longrightarrow> (\<And>k. i \<le> k \<Longrightarrow> k < e \<Longrightarrow> p k = q k) \<Longrightarrow> csum_loop p i e s = csum_loop q i e s"
proof (induction p i e s rule: csum_loop.induct)
  case (1 p i e s)
  show ?case
  proof (cases "i < e")
    case True
    then have "i + 1 < e" using 1(2) by presburger
    then have "word16_at p i = word16_at q i" using 1(3) by (simp add: word16_at_def)
    moreover have "even (e - (i + 2))" using 1(2) by presburger
    ultimately show ?thesis using 1 True by (subst (1 2) csum_loop.simps) simp
  qed (subst (1 2) csum_loop.simps, simp)
qed

lemma word16_le: "unat (word16 bs i) \<le> 65535"
  using num16_less by (simp add: word16_def unat_word16)

lemma csum_bytes_length [simp]: "length (csum_bytes s) = 2"
  by (simp add: csum_bytes_def Let_def)

lemma dhcp_body_at:
  "k < 34 \<Longrightarrow> dhcp_body mac p k = p k" "length mac = 6 \<Longrightarrow> k = 40 \<or> k = 41 \<Longrightarrow> dhcp_body mac p k = 0"
  by (auto simp: dhcp_body_def Let_def SetSourcePort_def SetDestinationPort_def UDP_SetDataSize_def put_bytes_at
      kWildcardIPv4Addr_def nth_Cons')

lemma DHCP_IPv4_checksum: "InternetChecksum_Calc (DHCPPacket_SetupRequest mac p) 14 34 = [0, 0]"
proof -
  obtain q where q: "dhcp_ip_header mac p = IPv4Packet_CalcAndSetChecksum q" by (simp add: dhcp_ip_header_def Let_def)
  have "csum_loop (DHCPPacket_SetupRequest mac p) 14 34 0 = csum_loop (IPv4Packet_CalcAndSetChecksum q) 14 34 0"
    by (rule csum_loop_cong) (simp_all add: DHCPPacket_SetupRequest_def Let_def put_bytes_at dhcp_body_at q)
  then show ?thesis using IPv4_checksum_verifies[of q] by (simp add: InternetChecksum_Calc_def)
qed

lemma unat_add_le: "unat (a + b :: u32) \<le> unat a + unat b"
  by (simp add: unat_word_ariths)

lemma DHCP_UDP_checksum:
  assumes "length mac = 6"
  shows "CalcUDPChecksum (DHCPPacket_SetupRequest mac p) 34 282 kWildcardIPv4Addr kBroadcastIPv4Addr
    [DHCPPacket_SetupRequest mac p 38, DHCPPacket_SetupRequest mac p 39] = [0, 0]"
proof -
  define q where "q = dhcp_body mac (dhcp_ip_header mac p)"
  let ?src = kWildcardIPv4Addr and ?dst = kBroadcastIPv4Addr and ?l = "[q 38, q 39]"
  let ?i = "word16 ?src 0 + word16 ?src 2 + word16 ?dst 0 + word16 ?dst 2 + word16 ?l 0 + 17"
  have r: "DHCPPacket_SetupRequest mac p = put_bytes 40 (csum_bytes (csum_loop q 34 282 ?i)) q"
    by (simp add: DHCPPacket_SetupRequest_def Let_def q_def CalcUDPChecksum_def)
  have z: "q 40 = 0" "q (40 + 1) = 0" using dhcp_body_at(2)[OF assms] by (simp_all add: q_def)
  have "unat ?i \<le> unat (word16 ?src 0) + unat (word16 ?src 2) + unat (word16 ?dst 0) + unat (word16 ?dst 2) + unat (word16 ?l 0) + 17"
    by (intro order_trans[OF unat_add_le] add_mono) simp_all
  then have "unat ?i \<le> 5 * 65535 + 17" using word16_le[of ?src 0] word16_le[of ?src 2] word16_le[of ?dst 0] word16_le[of ?dst 2]
      word16_le[of ?l 0] by linarith
  moreover have "sum16 q 34 282 \<le> (282 - 34 + 1) div 2 * 65535" by (rule sum16_le)
  ultimately have "unat ?i + sum16 q 34 282 + 65535 < 2 ^ 32" by simp
  from csum_verifies[OF _ _ _ z this] have "csum_bytes (csum_loop (DHCPPacket_SetupRequest mac p) 34 282 ?i) = [0, 0]" by (simp add: r)
  moreover have "DHCPPacket_SetupRequest mac p 38 = q 38" "DHCPPacket_SetupRequest mac p 39 = q 39" by (simp_all add: r put_bytes_at)
  ultimately show ?thesis by (simp add: CalcUDPChecksum_def)
qed

end
