(* ===== verification/Net_Host.thy ===== *)
theory Net_Host
  imports Net_Packets Generic Liumlib Ring_Buffer
begin

text \<open>
The network objects of a machine: the ARP table, the receive buffer and the sockets of
  src/src/network.h, the virtqueues and the packet handlers of src/src/virtio_net.cc, and the
  senders of src/src/network.cc.  Messages to the console are left out.
\<close>

section \<open>Addresses\<close>

definition EtherAddr_IsEqualTo :: "u8 list \<Rightarrow> u8 list \<Rightarrow> bool" where
  "EtherAddr_IsEqualTo a b \<longleftrightarrow> le_word32 (take 4 a) = le_word32 (take 4 b) \<and> le_word32 (take 2 (drop 4 a)) = le_word32 (take 2 (drop 4 b))"

definition IPv4Addr_IsEqualTo :: "u8 list \<Rightarrow> u8 list \<Rightarrow> bool" where
  "IPv4Addr_IsEqualTo a b \<longleftrightarrow> le_word32 a = le_word32 b"

definition k_StrToByte :: "u8 list \<Rightarrow> u8 \<times> u8 list" where
  "k_StrToByte s = (case parse_num 0 s of (v, rest) \<Rightarrow> (ucast v, rest))"

primrec addr_bytes :: "nat \<Rightarrow> u8 list \<Rightarrow> u8 list option" where
  "addr_bytes 0 s = (case k_StrToByte s of (b, rest) \<Rightarrow> if rest \<noteq> [] then None else Some [b])"
| "addr_bytes (Suc i) s =
     (case k_StrToByte s of (b, rest) \<Rightarrow>
        if rest = [] \<or> hd rest \<noteq> 46 then None else map_option ((#) b) (addr_bytes i (tl rest)))"

definition IPv4Addr_CreateFromString :: "u8 list \<Rightarrow> u8 list option" where
  "IPv4Addr_CreateFromString s = addr_bytes 3 s"

definition IsInSameSubnet :: "u8 list \<Rightarrow> u8 list \<Rightarrow> u8 list \<Rightarrow> bool" where
  "IsInSameSubnet addr another m \<longleftrightarrow> (le_word32 addr XOR le_word32 another) AND le_word32 m = 0"

lemma le_bytes32_word:
  assumes "length a = 4"
  shows "le_bytes32 (le_word32 a) = a"
proof -
  obtain w x y z where a: "a = [w, x, y, z]"
    using assms by (auto simp: length_Suc_conv eval_nat_numeral)
  have e: "le_word32 a = ucast w OR push_bit 8 (ucast x OR push_bit 8 (ucast y OR push_bit 8 (ucast z)))"
    by (simp add: le_word32_def a)
  have "ucast (le_word32 a) = w" "ucast (drop_bit 8 (le_word32 a)) = x" "ucast (drop_bit 16 (le_word32 a)) = y"
    "ucast (drop_bit 24 (le_word32 a)) = z"
    unfolding e by (rule bit_word_eqI, auto simp: bit_simps dest: bit_imp_le_length)+
  then show ?thesis by (simp add: le_bytes32_def upt_rec a)
qed

lemma le_word32_inj: "length a = 4 \<Longrightarrow> length b = 4 \<Longrightarrow> le_word32 a = le_word32 b \<longleftrightarrow> a = b"
  using le_bytes32_word by metis

lemma IPv4Addr_eq: "length a = 4 \<Longrightarrow> length b = 4 \<Longrightarrow> IPv4Addr_IsEqualTo a b \<longleftrightarrow> a = b"
  by (simp add: IPv4Addr_IsEqualTo_def le_word32_inj)

section \<open>Sockets and received packets\<close>

datatype socket_type = kICMPRaw | kICMPDatagram | kUDP

record socket =
  sock_pid :: u64
  sock_fd :: int
  listen_port :: u16
  sock_type :: socket_type

type_synonym packet = "u8 list"

definition kRXBufferSize :: nat where "kRXBufferSize = 32"
definition kPacketContainerSize :: u64 where "kPacketContainerSize = 2048"

text \<open>A virtqueue: the rings in the memory shared with the device, and the buffers of the descriptors.\<close>

record descriptor =
  desc_len :: u32
  desc_flags :: u16
  desc_next :: u16

record virtqueue =
  vq_size :: nat
  vq_buf :: "nat \<Rightarrow> cmem"
  vq_desc :: "nat \<Rightarrow> descriptor"
  vq_avail :: "nat \<Rightarrow> u16"
  vq_avail_idx :: u16
  vq_used_idx :: u16
  vq_used_len :: "nat \<Rightarrow> u32"

text \<open>
  The network objects of a machine: \<open>Network\<close> and \<open>Virtio::Net\<close>.  \<open>wire\<close> lists the frames which
  were made available to the device, and \<open>notified\<close> the queues it was notified of.
\<close>

record host =
  arp_table :: "u8 list \<rightharpoonup> u8 list"
  rx_buffer :: "packet ring_buffer"
  sockets :: "socket list"
  gateway :: "u8 list"
  netmask :: "u8 list"
  net_initialized :: bool
  mac_addr :: "u8 list"
  self_ip :: "u8 list"
  rxq :: virtqueue
  txq :: virtqueue
  rx_cursor :: u16
  tx_cursor :: u16
  wire :: "packet list"
  notified :: "nat list"

definition RegisterARPResolution :: "u8 list \<Rightarrow> u8 list \<Rightarrow> host \<Rightarrow> host" where
  "RegisterARPResolution ip_addr eth_addr h = h\<lparr>arp_table := (arp_table h)(ip_addr \<mapsto> eth_addr)\<rparr>"

definition ResolveIPv4 :: "u8 list \<Rightarrow> host \<Rightarrow> u8 list option" where
  "ResolveIPv4 ip_addr h = arp_table h ip_addr"

definition PushToRXBuffer :: "cmem \<Rightarrow> u64 \<Rightarrow> u64 \<Rightarrow> host \<Rightarrow> host res" where
  "PushToRXBuffer data first e h =
     bind_res (check_that (first < e) Assert_Failed) (\<lambda>_.
     bind_res (check_that (e - first \<le> kPacketContainerSize) Assert_Failed) (\<lambda>_.
     Ok (h\<lparr>rx_buffer := RingBuffer_Push kRXBufferSize (get_bytes data (unat first) (unat (e - first))) (rx_buffer h)\<rparr>)))"

definition PopFromRXBuffer :: "host \<Rightarrow> packet \<times> host" where
  "PopFromRXBuffer h = (case RingBuffer_Pop kRXBufferSize [] (rx_buffer h) of (p, b) \<Rightarrow> (p, h\<lparr>rx_buffer := b\<rparr>))"

definition HasPacketInRXBuffer :: "host \<Rightarrow> bool" where
  "HasPacketInRXBuffer h \<longleftrightarrow> \<not> RingBuffer_IsEmpty (rx_buffer h)"

definition FindSocket :: "u64 \<Rightarrow> int \<Rightarrow> host \<Rightarrow> socket option" where
  "FindSocket pid fd h = find (\<lambda>s. sock_pid s = pid \<and> sock_fd s = fd) (sockets h)"

definition RegisterSocket :: "u64 \<Rightarrow> int \<Rightarrow> socket_type \<Rightarrow> host \<Rightarrow> bool \<times> host" where
  "RegisterSocket pid fd ty h =
     (if FindSocket pid fd h \<noteq> None then (True, h)
      else (False, h\<lparr>sockets := sockets h @ [\<lparr>sock_pid = pid, sock_fd = fd, listen_port = 12345, sock_type = ty\<rparr>]\<rparr>))"

primrec bind_first :: "u64 \<Rightarrow> int \<Rightarrow> u16 \<Rightarrow> socket list \<Rightarrow> bool \<times> socket list" where
  "bind_first pid fd port [] = (True, [])"
| "bind_first pid fd port (s # ss) =
     (if sock_pid s = pid \<and> sock_fd s = fd then (False, s\<lparr>listen_port := port\<rparr> # ss)
      else case bind_first pid fd port ss of (r, ss') \<Rightarrow> (r, s # ss'))"

definition BindToPort :: "u64 \<Rightarrow> int \<Rightarrow> u16 \<Rightarrow> host \<Rightarrow> bool \<times> host" where
  "BindToPort pid fd port h = (case bind_first pid fd port (sockets h) of (r, ss) \<Rightarrow> (r, h\<lparr>sockets := ss\<rparr>))"

section \<open>Virtqueues\<close>

definition CalcSizeOfVirtqueue :: "u64 \<Rightarrow> u64" where
  "CalcSizeOfVirtqueue queue_size =
     CeilToPageAlignment (16 * queue_size + 2 * (2 + queue_size)) + CeilToPageAlignment (2 * 2 + 4 * 2 * queue_size)"

text \<open>The offsets of the available ring and of the used ring in the memory of a queue.\<close>

definition avail_ring_offset :: "u64 \<Rightarrow> u64 \<Rightarrow> u64" where
  "avail_ring_offset queue_size i = 16 * queue_size + 2 * 2 + 2 * i"

definition used_index_offset :: "u64 \<Rightarrow> u64" where
  "used_index_offset queue_size = CeilToPageAlignment (16 * queue_size + 2 * (2 * queue_size)) + 2"

definition used_ring_offset :: "u64 \<Rightarrow> u64 \<Rightarrow> u64" where
  "used_ring_offset queue_size i = CeilToPageAlignment (16 * queue_size + 2 * (2 * queue_size)) + 2 * 2 + 8 * i"

definition SetDescriptor :: "nat \<Rightarrow> cmem \<Rightarrow> u32 \<Rightarrow> u16 \<Rightarrow> u16 \<Rightarrow> virtqueue \<Rightarrow> virtqueue res" where
  "SetDescriptor i buf len flags nxt q =
     bind_res (check_that (i < vq_size q) Assert_Failed) (\<lambda>_.
     Ok (q\<lparr>vq_buf := (vq_buf q)(i := buf),
           vq_desc := (vq_desc q)(i := \<lparr>desc_len = len, desc_flags = flags, desc_next = nxt\<rparr>)\<rparr>))"

definition GetDescriptorBuf :: "nat \<Rightarrow> virtqueue \<Rightarrow> cmem res" where
  "GetDescriptorBuf i q = bind_res (check_that (i < vq_size q) Assert_Failed) (\<lambda>_. Ok (vq_buf q i))"

definition GetDescriptorSize :: "nat \<Rightarrow> virtqueue \<Rightarrow> u32 res" where
  "GetDescriptorSize i q = bind_res (check_that (i < vq_size q) Assert_Failed) (\<lambda>_. Ok (desc_len (vq_desc q i)))"

definition SetAvailableRingEntry :: "nat \<Rightarrow> u16 \<Rightarrow> virtqueue \<Rightarrow> virtqueue res" where
  "SetAvailableRingEntry i desc_idx q =
     bind_res (check_that (i < vq_size q) Assert_Failed) (\<lambda>_. Ok (q\<lparr>vq_avail := (vq_avail q)(i := desc_idx)\<rparr>))"

definition SetAvailableRingIndex :: "u16 \<Rightarrow> virtqueue \<Rightarrow> virtqueue" where
  "SetAvailableRingIndex i q = q\<lparr>vq_avail_idx := i\<rparr>"

definition GetUsedRingLen :: "nat \<Rightarrow> virtqueue \<Rightarrow> u32 res" where
  "GetUsedRingLen i q = bind_res (check_that (i < vq_size q) Assert_Failed) (\<lambda>_. Ok (vq_used_len q i))"

section \<open>Sending\<close>

definition kIndexOfRXVirtqueue :: nat where "kIndexOfRXVirtqueue = 0"
definition kIndexOfTXVirtqueue :: nat where "kIndexOfTXVirtqueue = 1"

text \<open>The index of the next descriptor; the division faults for a queue without entries.\<close>

definition tx_index :: "host \<Rightarrow> nat res" where
  "tx_index h = bind_res (check_that (vq_size (txq h) \<noteq> 0) Out_Of_Bounds) (\<lambda>_. Ok (unat (tx_cursor h) mod vq_size (txq h)))"

text \<open>
  \<open>GetNextTXPacketBuf\<close> returns a pointer to the packet, 10 bytes into the buffer of the next
  descriptor; writing through it is \<open>on_packet\<close>.
\<close>

definition GetNextTXPacketBuf :: "u64 \<Rightarrow> host \<Rightarrow> (nat \<times> host) res" where
  "GetNextTXPacketBuf n h =
     bind_res (check_that (net_initialized h) (Panic ''Virtio::Net not initialized yet'')) (\<lambda>_.
     let buf_size = ucast (10 + n) :: u32 in
     bind_res (check_that (ucast buf_size < kPageSize) Assert_Failed) (\<lambda>_.
     bind_res (tx_index h) (\<lambda>i.
     bind_res (GetDescriptorBuf i (txq h)) (\<lambda>buf.
     bind_res (SetDescriptor i buf buf_size 0 0 (txq h)) (\<lambda>q. Ok (i, h\<lparr>txq := q\<rparr>))))))"

definition on_packet :: "nat \<Rightarrow> (cmem \<Rightarrow> cmem) \<Rightarrow> host \<Rightarrow> host" where
  "on_packet i f h = (let b = vq_buf (txq h) i in
     h\<lparr>txq := (txq h)\<lparr>vq_buf := (vq_buf (txq h))(i := (\<lambda>k. if k < 10 then b k else f (\<lambda>j. b (j + 10)) (k - 10)))\<rparr>\<rparr>)"

definition SendPacket :: "host \<Rightarrow> host res" where
  "SendPacket h =
     bind_res (tx_index h) (\<lambda>i.
     bind_res (GetDescriptorBuf i (txq h)) (\<lambda>data.
     bind_res (GetDescriptorSize i (txq h)) (\<lambda>data_size.
     let data = put_bytes 0 (replicate 10 0) data in
     bind_res (SetAvailableRingEntry i (of_nat i) ((txq h)\<lparr>vq_buf := (vq_buf (txq h))(i := data)\<rparr>)) (\<lambda>q.
     Ok (h\<lparr>txq := SetAvailableRingIndex (of_nat (i + 1)) q, tx_cursor := tx_cursor h + 1,
           wire := wire h @ [get_bytes data 10 (unat data_size - 10)], notified := notified h @ [kIndexOfTXVirtqueue]\<rparr>)))))"

definition send_with :: "u64 \<Rightarrow> (cmem \<Rightarrow> cmem) \<Rightarrow> host \<Rightarrow> host res" where
  "send_with n f h = bind_res (GetNextTXPacketBuf n h) (\<lambda>(i, h). SendPacket (on_packet i f h))"

definition SetSelfIPv4Addr :: "u8 list \<Rightarrow> host \<Rightarrow> host" where
  "SetSelfIPv4Addr addr h =
     (let h = h\<lparr>self_ip := addr\<rparr> in
      if IPv4Addr_IsEqualTo addr kWildcardIPv4Addr then h else RegisterARPResolution addr (mac_addr h) h)"

definition SendARPRequest :: "u8 list \<Rightarrow> host \<Rightarrow> host res" where
  "SendARPRequest ip_addr h = send_with 42 (ARPPacket_SetupRequest ip_addr (self_ip h) (mac_addr h)) h"

text \<open>For a malformed address a message is printed and nothing is sent.\<close>

definition SendARPRequest_str :: "u8 list \<Rightarrow> host \<Rightarrow> host res" where
  "SendARPRequest_str ip_addr_str h =
     (case IPv4Addr_CreateFromString ip_addr_str of None \<Rightarrow> Ok h | Some ip \<Rightarrow> SendARPRequest ip h)"

definition SendDHCPRequest :: "host \<Rightarrow> host res" where
  "SendDHCPRequest h = send_with 282 (DHCPPacket_SetupRequest (mac_addr h)) h"

section \<open>Receiving\<close>

text \<open>
  The handlers take the frame, the memory from its first byte on, and its size.  Fields behind the
  end of a short frame are what the buffer held before.
\<close>

definition ARPPacketHandler :: "cmem \<Rightarrow> u64 \<Rightarrow> host \<Rightarrow> (bool \<times> host) res" where
  "ARPPacketHandler f frame_size h =
     (if frame_size < 42 then Ok (False, h)
      else if \<not> HasEthType f kTypeARP then Ok (False, h)
      else if ARPPacket_GetOperation f = kReply then Ok (True, RegisterARPResolution (get_bytes f 28 4) (get_bytes f 22 6) h)
      else if ARPPacket_GetOperation f \<noteq> kRequest then Ok (False, h)
      else if \<not> IPv4Addr_IsEqualTo (get_bytes f 38 4) (self_ip h) then Ok (True, h)
      else bind_res (send_with 42 (ARPPacket_SetupReply (get_bytes f 28 4) (self_ip h) (get_bytes f 22 6) (mac_addr h)) h)
        (\<lambda>h. Ok (True, h)))"

definition echo_reply :: "cmem \<Rightarrow> u64 \<Rightarrow> u8 list \<Rightarrow> cmem \<Rightarrow> cmem" where
  "echo_reply req n self_mac p =
     (let p = put_bytes 0 (get_bytes req 0 (unat n)) p;
          p = put_bytes 36 [0, 0] (p(34 := 0));
          p = put_bytes 36 (InternetChecksum_Calc p 34 (unat n)) p;
          p = put_bytes 26 (get_bytes req 30 4) (put_bytes 30 (get_bytes req 26 4) p);
          p = put_bytes 24 [0, 0] p;
          p = put_bytes 24 (InternetChecksum_Calc p 14 (unat n)) p
      in put_bytes 6 self_mac (put_bytes 0 (get_bytes req 6 6) p))"

definition hello :: "u8 list" where
  "hello = bytes ''Hello! This is liumOS. Are you there?'' @ [10]"

text \<open>The greeting has 38 bytes, hence \<open>packet_size\<close> is 80.\<close>

definition echo_hello :: "cmem \<Rightarrow> u8 list \<Rightarrow> cmem \<Rightarrow> cmem" where
  "echo_hello req self_mac p =
     (let p = put_bytes 42 hello (put_bytes 0 (get_bytes req 0 80) p);
          p = UDP_SetDataSize 38 (SetSourcePort 12345 (SetDestinationPort 11111 p));
          p = put_bytes 40 [0, 0] p;
          p = put_bytes 40 (CalcUDPChecksum p 34 80 (get_bytes req 30 4) (get_bytes req 26 4) [p 38, p 39]) p;
          p = IPv4Packet_SetDataLength (80 - 34) (p(23 := 17));
          p = put_bytes 26 (get_bytes req 30 4) (put_bytes 30 (get_bytes req 26 4) p);
          p = put_bytes 24 [0, 0] p;
          p = put_bytes 24 (InternetChecksum_Calc p 14 34) p
      in put_bytes 6 self_mac (put_bytes 0 (get_bytes req 6 6) p))"

definition SendICMPEchoReply :: "cmem \<Rightarrow> u64 \<Rightarrow> host \<Rightarrow> host res" where
  "SendICMPEchoReply req req_frame_size h =
     (if req_frame_size < 42 then Ok h
      else bind_res (send_with req_frame_size (echo_reply req req_frame_size (mac_addr h)) h) (\<lambda>h.
        send_with 80 (echo_hello req (mac_addr h)) h))"

definition ICMPPacketHandler :: "cmem \<Rightarrow> u64 \<Rightarrow> host \<Rightarrow> (bool \<times> host) res" where
  "ICMPPacketHandler p frame_size h =
     (if p 23 \<noteq> 1 then Ok (False, h)
      else if frame_size < 42 then Ok (False, h)
      else if p 34 = 8 then bind_res (SendICMPEchoReply p frame_size h) (\<lambda>h. Ok (True, h))
      else Ok (True, h))"

function dhcp_options :: "cmem \<Rightarrow> u64 \<Rightarrow> nat \<Rightarrow> host \<Rightarrow> host res" where
  "dhcp_options buf frame_size i h =
     (if i < unat frame_size then
        let option = buf i; option_data_len = buf (i + 1) in
        if option_data_len = 0 then Ok h
        else bind_res (check_that (option \<noteq> 3 \<or> option_data_len = 4) Assert_Failed) (\<lambda>_.
          let h = (if option = 3 then h\<lparr>gateway := get_bytes buf (i + 2) 4\<rparr> else h) in
          bind_res (check_that (option \<noteq> 1 \<or> option_data_len = 4) Assert_Failed) (\<lambda>_.
          let h = (if option = 1 then h\<lparr>netmask := get_bytes buf (i + 2) 4\<rparr> else h) in
          dhcp_options buf frame_size (i + 2 + unat option_data_len) h))
      else Ok h)"
  by auto
termination
  by (relation "measure (\<lambda>(_, n, i, _). unat n - i)") auto

declare dhcp_options.simps [simp del]

definition UDPPacketHandler :: "cmem \<Rightarrow> u64 \<Rightarrow> host \<Rightarrow> (bool \<times> host) res" where
  "UDPPacketHandler p frame_size h =
     (if p 23 \<noteq> 17 then Ok (False, h)
      else if frame_size < 42 then Ok (False, h)
      else if GetDestinationPort p \<noteq> 68 then Ok (False, h)
      else if p 42 \<noteq> 2 \<or> \<not> EtherAddr_IsEqualTo (get_bytes p 70 6) (mac_addr h) then Ok (False, h)
      else
        let h = SetSelfIPv4Addr (get_bytes p 58 4) h in
        if get_bytes p 278 4 \<noteq> [99, 130, 83, 99] then Ok (True, h)
        else bind_res (dhcp_options p frame_size 282 h) (\<lambda>h. Ok (True, h)))"

definition IPv4PacketHandler :: "cmem \<Rightarrow> u64 \<Rightarrow> host \<Rightarrow> (bool \<times> host) res" where
  "IPv4PacketHandler f frame_size h =
     (if frame_size < 34 then Ok (False, h)
      else if \<not> HasEthType f kTypeIPv4 then Ok (False, h)
      else bind_res (ICMPPacketHandler f frame_size h) (\<lambda>(r, h).
        if r then Ok (True, h)
        else bind_res (UDPPacketHandler f frame_size h) (\<lambda>(_, h). Ok (True, h))))"

definition ProcessPacket :: "cmem \<Rightarrow> u64 \<Rightarrow> host \<Rightarrow> host res" where
  "ProcessPacket buf buf_size h =
     (let frame_size = buf_size - 10; frame_data = (\<lambda>k. buf (k + 10)) in
      bind_res (ARPPacketHandler frame_data frame_size h) (\<lambda>(r, h).
      bind_res (if r then Ok (True, h) else IPv4PacketHandler frame_data frame_size h) (\<lambda>(_, h).
      PushToRXBuffer frame_data 0 frame_size h)))"

text \<open>The device does not use further buffers while the queue is polled.\<close>

function poll_loop :: "u16 \<Rightarrow> u16 \<Rightarrow> host \<Rightarrow> host res" where
  "poll_loop used cursor h =
     (if used \<noteq> cursor then
        bind_res (check_that (vq_size (rxq h) \<noteq> 0) Out_Of_Bounds) (\<lambda>_.
        let i = unat cursor mod vq_size (rxq h) in
        bind_res (GetDescriptorBuf i (rxq h)) (\<lambda>buf.
        bind_res (GetUsedRingLen i (rxq h)) (\<lambda>len.
        bind_res (ProcessPacket buf (ucast len) h) (\<lambda>h.
        poll_loop used (cursor + 1)
          (h\<lparr>rxq := (rxq h)\<lparr>vq_used_len := (vq_used_len (rxq h))(i := 0)\<rparr>, rx_cursor := cursor + 1\<rparr>)))))
      else Ok h)"
  by auto
termination
proof (relation "measure (\<lambda>(used, cursor, _). unat (used - cursor))", goal_cases)
  case (2 used cursor h)
  then have n: "used - cursor \<noteq> 0" by simp
  then have "0 < unat (used - cursor)" by (simp add: unat_gt_0)
  then have "unat (used - cursor - 1) < unat (used - cursor)" using unat_minus_one[OF n] by linarith
  then show ?case by (simp add: diff_diff_eq)
qed simp

declare poll_loop.simps [simp del]

definition PollRXQueue :: "host \<Rightarrow> host res" where
  "PollRXQueue h =
     (if vq_used_idx (rxq h) = rx_cursor h then Ok h
      else bind_res (poll_loop (vq_used_idx (rxq h)) (rx_cursor h) h) (\<lambda>h.
        Ok (h\<lparr>rxq := SetAvailableRingIndex (rx_cursor h - 1) (rxq h), notified := notified h @ [kIndexOfRXVirtqueue]\<rparr>)))"

end
