(* ===== verification/Net_Frames.thy ===== *)
theory Net_Frames
  imports Net_Host
begin

text \<open>
What machines send to each other: the bytes on the wire of ARP requests and replies, and the
  layout of the virtqueues in memory.
\<close>

section \<open>Frames on the wire\<close>

definition net_ready :: "host \<Rightarrow> bool" where
  "net_ready h \<longleftrightarrow> net_initialized h \<and> vq_size (txq h) \<noteq> 0 \<and> length (mac_addr h) = 6 \<and> length (self_ip h) = 4"

text \<open>The bytes which \<open>SendPacket\<close> makes available are those which were written to the packet.\<close>

lemma send_with_wire:
  assumes "net_ready h" "unat n < 4086"
  obtains h' b where "send_with n f h = Ok h'" "wire h' = wire h @ [get_bytes (f b) 0 (unat n)]"
    "arp_table h' = arp_table h" "rx_buffer h' = rx_buffer h" "self_ip h' = self_ip h" "mac_addr h' = mac_addr h"
    "net_ready h'"
proof -
  let ?i = "unat (tx_cursor h) mod vq_size (txq h)"
  let ?b = "\<lambda>j. vq_buf (txq h) ?i (j + 10)"
  let ?d = "\<lambda>k. if k < 10 then vq_buf (txq h) ?i k else f ?b (k - 10)"
  have i: "?i < vq_size (txq h)" using assms(1) by (simp add: net_ready_def)
  have u: "unat (10 + n) = 10 + unat n" using assms(2) by (subst unat_plus_simple[THEN iffD1]) (simp_all add: no_olen_add_nat)
  have l: "unat (ucast (10 + n) :: u32) = 10 + unat n" using assms(2) by (simp only: unsigned_ucast_eq u) (simp add: take_bit_nat_eq_self)
  have s: "(ucast (ucast (10 + n) :: u32) :: u64) < kPageSize"
  proof -
    have "unat (ucast (ucast (10 + n) :: u32) :: u64) = 10 + unat n"
      by (subst unsigned_ucast_eq, subst l) (use assms(2) in \<open>simp add: take_bit_nat_eq_self\<close>)
    then show ?thesis using assms(2) by (simp add: word_less_nat_alt kPageSize_def kPageSizeExponent_def)
  qed
  have g: "get_bytes (put_bytes 0 (replicate 10 0) ?d) 10 (unat n) = get_bytes (f ?b) 0 (unat n)"
    by (rule nth_equalityI) (simp_all add: put_bytes_at)
  have "\<exists>h'. send_with n f h = Ok h' \<and> wire h' = wire h @ [get_bytes (f ?b) 0 (unat n)] \<and>
      arp_table h' = arp_table h \<and> rx_buffer h' = rx_buffer h \<and> self_ip h' = self_ip h \<and> mac_addr h' = mac_addr h \<and> net_ready h'"
    using assms(1) i s g l
    by (simp add: send_with_def GetNextTXPacketBuf_def SendPacket_def on_packet_def tx_index_def GetDescriptorBuf_def
        GetDescriptorSize_def SetDescriptor_def SetAvailableRingEntry_def SetAvailableRingIndex_def check_that_def Let_def net_ready_def
        del: put_bytes.simps cong: if_cong)
  then show ?thesis using that by blast
qed

definition arp_bytes :: "u8 list \<Rightarrow> u8 \<Rightarrow> u8 list \<Rightarrow> u8 list \<Rightarrow> u8 list \<Rightarrow> u8 list \<Rightarrow> u8 list" where
  "arp_bytes dst op src_mac src_ip target_mac target_ip =
     dst @ src_mac @ [0x08, 0x06, 0x00, 0x01, 0x08, 0x00, 6, 4, 0x00, op] @ src_mac @ src_ip @ target_mac @ target_ip"

lemma list4: "length (a :: 'a list) = 4 \<Longrightarrow> \<exists>w x y z. a = [w, x, y, z]"
  by (auto simp: length_Suc_conv eval_nat_numeral)

lemma list6: "length (a :: 'a list) = 6 \<Longrightarrow> \<exists>u v w x y z. a = [u, v, w, x, y, z]"
  by (auto simp: length_Suc_conv eval_nat_numeral)

lemma SetupRequest_bytes:
  assumes "length src_mac = 6" "length src_ip = 4" "length target_ip = 4"
  shows "get_bytes (ARPPacket_SetupRequest target_ip src_ip src_mac p) 0 42 =
    arp_bytes (replicate 6 0xff) 1 src_mac src_ip (replicate 6 0) target_ip"
  using list6[OF assms(1)] list4[OF assms(2)] list4[OF assms(3)]
  by (elim exE) (simp add: ARPPacket_SetupRequest_def SetEthType_def kTypeARP_def Let_def arp_bytes_def get_bytes_def upt_rec
      eval_nat_numeral)

lemma SetupReply_bytes:
  assumes "length src_mac = 6" "length src_ip = 4" "length target_mac = 6" "length target_ip = 4"
  shows "get_bytes (ARPPacket_SetupReply target_ip src_ip target_mac src_mac p) 0 42 =
    arp_bytes target_mac 2 src_mac src_ip target_mac target_ip"
  using list6[OF assms(1)] list4[OF assms(2)] list6[OF assms(3)] list4[OF assms(4)]
  by (elim exE) (simp add: ARPPacket_SetupReply_def SetEthType_def kTypeARP_def Let_def arp_bytes_def get_bytes_def upt_rec
      eval_nat_numeral)

text \<open>A frame which arrives in a buffer: the device writes it behind the header of 10 bytes.\<close>

definition received :: "packet \<Rightarrow> cmem \<Rightarrow> cmem" where
  "received fr old = put_bytes 10 fr old"

lemma received_at: "k < length fr \<Longrightarrow> received fr old (k + 10) = fr ! k"
  by (simp add: received_def put_bytes_at)

lemma received_bytes: "i + n \<le> length fr \<Longrightarrow> get_bytes (\<lambda>k. received fr old (k + 10)) i n = take n (drop i fr)"
  by (rule nth_equalityI) (simp_all add: received_def put_bytes_at)

text \<open>The fields of an ARP frame.\<close>

lemma arp_fields:
  assumes "length dst = 6" "length src_mac = 6" "length src_ip = 4" "length target_mac = 6" "length target_ip = 4"
    and fr: "fr = arp_bytes dst op src_mac src_ip target_mac target_ip"
  shows "length fr = 42" "fr ! 12 = 8" "fr ! 13 = 6" "fr ! 20 = 0" "fr ! 21 = op" "take 4 (drop 28 fr) = src_ip"
    "take 6 (drop 22 fr) = src_mac" "take 4 (drop 38 fr) = target_ip"
  using list6[OF assms(1)] list6[OF assms(2)] list4[OF assms(3)] list6[OF assms(4)] list4[OF assms(5)]
  by (elim exE; simp add: fr arp_bytes_def; fail)+

lemma ARP_frame:
  assumes "length dst = 6" "length src_mac = 6" "length src_ip = 4" "length target_mac = 6" "length target_ip = 4"
    and fr: "fr = arp_bytes dst op src_mac src_ip target_mac target_ip"
    and f_def: "f = (\<lambda>k. received fr old (k + 10))"
  shows "HasEthType f kTypeARP"
    "ARPPacket_GetOperation f = (if op = 1 then kRequest else if op = 2 then kReply else kUnknown)"
    "get_bytes f 28 4 = src_ip" "get_bytes f 22 6 = src_mac" "get_bytes f 38 4 = target_ip"
proof -
  note F = arp_fields[OF assms(1-6)]
  have at: "f k = fr ! k" if "k < 42" for k using received_at[of k fr old] that F(1) by (simp add: f_def)
  show "HasEthType f kTypeARP" using at[of 12] at[of 13] F by (simp add: HasEthType_def kTypeARP_def)
  show "ARPPacket_GetOperation f = (if op = 1 then kRequest else if op = 2 then kReply else kUnknown)"
    using at[of 20] at[of 21] F by (simp add: ARPPacket_GetOperation_def)
  show "get_bytes f 28 4 = src_ip" "get_bytes f 22 6 = src_mac" "get_bytes f 38 4 = target_ip"
    unfolding f_def using F assms(5) by (simp_all add: received_bytes)
qed

lemma push_42: "\<exists>b. PushToRXBuffer f 0 42 h = Ok (h\<lparr>rx_buffer := b\<rparr>)"
  by (intro exI[of _ "RingBuffer_Push kRXBufferSize (get_bytes f 0 42) (rx_buffer h)"])
    (simp add: PushToRXBuffer_def check_that_def kPacketContainerSize_def)

lemma ProcessPacket_request:
  assumes "net_ready h" "length dst = 6" "length src_mac = 6" "length src_ip = 4" "length target_mac = 6"
    and fr: "fr = arp_bytes dst 1 src_mac src_ip target_mac (self_ip h)"
  shows "\<exists>h'. ProcessPacket (received fr old) 52 h = Ok h' \<and> arp_table h' = arp_table h \<and>
    wire h' = wire h @ [arp_bytes src_mac 2 (mac_addr h) (self_ip h) src_mac src_ip]"
proof -
  let ?f = "\<lambda>k. received fr old (k + 10)"
  have l: "length (mac_addr h) = 6" "length (self_ip h) = 4" using assms(1) by (simp_all add: net_ready_def)
  note F = ARP_frame[OF assms(2-5) l(2) fr refl]
  obtain h' b where h': "send_with 42 (ARPPacket_SetupReply src_ip (self_ip h) src_mac (mac_addr h)) h = Ok h'"
    "wire h' = wire h @ [get_bytes (ARPPacket_SetupReply src_ip (self_ip h) src_mac (mac_addr h) b) 0 (unat (42 :: u64))]"
    "arp_table h' = arp_table h"
    by (rule send_with_wire[OF assms(1), of 42]) simp_all
  have "ARPPacketHandler ?f 42 h = Ok (True, h')"
    using F h'(1) l by (simp add: ARPPacketHandler_def IPv4Addr_eq)
  moreover obtain q where "PushToRXBuffer ?f 0 42 h' = Ok (h'\<lparr>rx_buffer := q\<rparr>)" using push_42 by blast
  moreover have "wire h' = wire h @ [arp_bytes src_mac 2 (mac_addr h) (self_ip h) src_mac src_ip]"
    using h'(2) SetupReply_bytes[OF l assms(3,4)] by simp
  ultimately show ?thesis using h'(3) by (simp add: ProcessPacket_def Let_def)
qed

lemma ProcessPacket_reply:
  assumes "length dst = 6" "length src_mac = 6" "length src_ip = 4" "length target_mac = 6" "length target_ip = 4"
    and fr: "fr = arp_bytes dst 2 src_mac src_ip target_mac target_ip"
  shows "\<exists>h'. ProcessPacket (received fr old) 52 h = Ok h' \<and> arp_table h' = (arp_table h)(src_ip \<mapsto> src_mac) \<and> wire h' = wire h"
proof -
  let ?f = "\<lambda>k. received fr old (k + 10)" and ?h = "RegisterARPResolution src_ip src_mac h"
  have "ARPPacketHandler ?f 42 h = Ok (True, ?h)"
    using ARP_frame[OF assms refl] by (simp add: ARPPacketHandler_def)
  moreover obtain q where "PushToRXBuffer ?f 0 42 ?h = Ok (?h\<lparr>rx_buffer := q\<rparr>)" using push_42 by blast
  ultimately show ?thesis by (simp add: ProcessPacket_def Let_def RegisterARPResolution_def)
qed

lemma SendARPRequest_wire:
  assumes "net_ready h" "length ip = 4"
  shows "\<exists>h'. SendARPRequest ip h = Ok h' \<and> arp_table h' = arp_table h \<and>
    wire h' = wire h @ [arp_bytes (replicate 6 0xff) 1 (mac_addr h) (self_ip h) (replicate 6 0) ip]"
proof -
  have l: "length (mac_addr h) = 6" "length (self_ip h) = 4" using assms(1) by (simp_all add: net_ready_def)
  obtain h' b where "send_with 42 (ARPPacket_SetupRequest ip (self_ip h) (mac_addr h)) h = Ok h'"
    "wire h' = wire h @ [get_bytes (ARPPacket_SetupRequest ip (self_ip h) (mac_addr h) b) 0 (unat (42 :: u64))]"
    "arp_table h' = arp_table h"
    by (rule send_with_wire[OF assms(1), of 42]) simp_all
  then show ?thesis using SetupRequest_bytes[OF l assms(2)] by (simp add: SendARPRequest_def)
qed

section \<open>Layout of the queues\<close>

lemma unat_affine: "unat (x :: u64) < 2 ^ 32 \<Longrightarrow> a < 2 ^ 32 \<Longrightarrow> b < 2 ^ 16 \<Longrightarrow> unat (of_nat a + of_nat b * x) = a + b * unat x"
proof -
  assume *: "unat x < 2 ^ 32" "a < 2 ^ 32" "b < 2 ^ 16"
  have "b * unat x < 2 ^ 16 * 2 ^ 32" using * by (intro mult_strict_mono) simp_all
  then have "a + b * unat x < 2 ^ 64" using *(2) by simp
  then have "unat (of_nat (a + b * unat x) :: u64) = a + b * unat x" unfolding unat_of_nat by (intro mod_less) simp
  then show ?thesis by simp
qed

definition used_base :: "u64 \<Rightarrow> nat" where
  "used_base q = unat (CeilToPageAlignment (16 * q + 2 * (2 * q)))"

lemma queue_layout:
  assumes "q \<in> {1, 2, 4, 8, 16, 32, 64, 128, 256}" "i < q"
  shows "16 * unat i + 16 \<le> unat (avail_ring_offset q 0) - 4" 
    "unat (avail_ring_offset q i) + 2 \<le> unat (used_index_offset q) - 2"
    "unat (used_index_offset q) + 2 \<le> unat (used_ring_offset q i)"
    "unat (used_ring_offset q i) + 8 \<le> unat (CalcSizeOfVirtqueue q)"
proof -
  have i: "unat i < unat q" using assms(2) by (simp add: word_less_nat_alt)
  have b: "unat q \<le> 256" using assms(1) by auto
  have c: "of_nat c + 2 * 2 + 8 * i = of_nat (c + 4) + of_nat 8 * i" "16 * q + 2 * 2 + 2 * i = of_nat (16 * unat q + 4) + of_nat 2 * i" for c
    by simp_all
  have u: "unat i < 2 ^ 32" using i b by simp
  have U: "unat (of_nat c + 2 * 2 + 8 * i :: u64) = c + 4 + 8 * unat i" if "c < 2 ^ 20" for c
    unfolding c by (rule unat_affine[OF u]) (use that in simp_all)
  have A: "unat (16 * q + 2 * 2 + 2 * i) = 16 * unat q + 4 + 2 * unat i"
    unfolding c by (rule unat_affine[OF u]) (use b in simp_all)
  have K: "CeilToPageAlignment (16 * q + 2 * (2 * q)) = of_nat (if q = 256 then 8192 else 4096) \<and>
      CeilToPageAlignment (16 * q + 2 * (2 + q)) = of_nat (if q = 256 then 8192 else 4096) \<and>
      CeilToPageAlignment (2 * 2 + 4 * 2 * q) = 4096"
    using assms(1) by (elim insertE) (simp_all add: CeilToPageAlignment_def kPageAddrMask_def kPageSize_def kPageSizeExponent_def)
  have Q: "16 * unat i + 16 \<le> 16 * unat q" using i by simp
  have A0: "unat (avail_ring_offset q 0) = 16 * unat q + 4"
    using unat_affine[of 0 "16 * unat q + 4" 0] b by (simp add: avail_ring_offset_def)
  show "16 * unat i + 16 \<le> unat (avail_ring_offset q 0) - 4" using Q A0 by simp
  show "unat (avail_ring_offset q i) + 2 \<le> unat (used_index_offset q) - 2"
    using i assms(1) K A by (auto simp: avail_ring_offset_def used_index_offset_def)
  show "unat (used_index_offset q) + 2 \<le> unat (used_ring_offset q i)"
    "unat (used_ring_offset q i) + 8 \<le> unat (CalcSizeOfVirtqueue q)"
    using i assms(1) K U[of 4096] U[of 8192] by (auto simp: used_index_offset_def used_ring_offset_def CalcSizeOfVirtqueue_def)
qed

section \<open>Properties\<close>




definition example_queue :: virtqueue where
  "example_queue = \<lparr>vq_size = 4, vq_buf = (\<lambda>_ _. 0), vq_desc = (\<lambda>_. \<lparr>desc_len = 4096, desc_flags = 0, desc_next = 0\<rparr>),
     vq_avail = (\<lambda>_. 0), vq_avail_idx = 0, vq_used_idx = 0, vq_used_len = (\<lambda>_. 0)\<rparr>"

definition example_host :: "u8 \<Rightarrow> host" where
  "example_host n = \<lparr>arp_table = Map.empty, rx_buffer = RingBuffer_new (replicate 32 []), sockets = [], gateway = [0, 0, 0, 0],
     netmask = [0, 0, 0, 0], net_initialized = True, mac_addr = [2, 0, 0, 0, 0, n], self_ip = [10, 0, 0, n],
     rxq = example_queue, txq = example_queue, rx_cursor = 0, tx_cursor = 0, wire = [], notified = []\<rparr>"


text \<open>
  The parts of a virtqueue do not overlap.  For the queue sizes a device offers, powers of two up
  to 256, the descriptors, the available ring and the used ring with their indices lie one behind the
  other in the memory which is allocated for the queue.
\<close>

theorem virtqueue_layout:
  assumes "q \<in> {1, 2, 4, 8, 16, 32, 64, 128, 256}" "i < q"
  shows "16 * unat i + 16 \<le> unat (avail_ring_offset q 0) - 4 \<and>
    unat (avail_ring_offset q i) + 2 \<le> unat (used_index_offset q) - 2 \<and>
    unat (used_index_offset q) + 2 \<le> unat (used_ring_offset q i) \<and>
    unat (used_ring_offset q i) + 8 \<le> unat (CalcSizeOfVirtqueue q)"
  using queue_layout[OF assms] by blast

theorem virtqueue_layout_witness: "unat (used_ring_offset 256 255) + 8 \<le> unat (CalcSizeOfVirtqueue 256)"
  using virtqueue_layout[of 256 255] by simp

text \<open>
  For other sizes the two calculations of the position of the used ring disagree: with 226 entries
  the index of the used ring is looked for behind the second page, where the queue allocated for it has
  only two pages in total.
\<close>

lemma odd_queue_size:
  "unat (CalcSizeOfVirtqueue 226) = 8192" "unat (used_index_offset 226) = 8194"
  by (simp_all add: CalcSizeOfVirtqueue_def used_index_offset_def CeilToPageAlignment_def kPageAddrMask_def kPageSize_def kPageSizeExponent_def)

end
