(* ===== verification/Syscalls.thy ===== *)
theory Syscalls
  imports Net_Frames
begin

text \<open>
The system calls (syscall.cc).  The state of a call is the process with its memory, its standard
  input and its data for system calls, and the network; blocking calls are partial functions of what
  other tasks do while the process sleeps.
\<close>

section \<open>State\<close>

text \<open>
  \<open>per_process_syscall_data\<close> starts as zeros for every process.  Of a process the model has its
  number, its memory and its standard input; \<open>root_files\<close> are the files in the loader information,
  by name and contents, and \<open>written\<close> the characters put on the console.  A window is its sizes and
  the bytes of its buffer.  \<open>window_maps\<close> are the frame buffers mapped for processes, by size, and
  \<open>flushes\<close> the windows which were given to the screen; the page mapping and the compositing of the
  screen have their own theories.
\<close>

record window =
  window_xsize :: int
  window_ysize :: int
  window_buf :: "u8 list"

record pp_data =
  num_getdents64_called :: nat
  idx_in_root_files :: nat
  read_offset :: nat
  window_sheet :: "window option"

record sys =
  sys_host :: host
  sys_pid :: u64
  sys_data :: "u64 \<Rightarrow> pp_data"
  sys_mem :: cmem
  sys_stdin :: "u8 ring_buffer"
  root_files :: "(u8 list \<times> u8 list) list"
  written :: "u8 list"
  window_maps :: "(u64 \<times> u64) list"
  flushes :: "(u64 \<times> window) list"

definition set_pp :: "(pp_data \<Rightarrow> pp_data) \<Rightarrow> sys \<Rightarrow> sys" where
  "set_pp f s = s\<lparr>sys_data := (sys_data s)(sys_pid s := f (sys_data s (sys_pid s)))\<rparr>"

abbreviation pp :: "sys \<Rightarrow> pp_data" where
  "pp s \<equiv> sys_data s (sys_pid s)"

definition store :: "nat \<Rightarrow> u8 list \<Rightarrow> sys \<Rightarrow> sys" where
  "store p bs s = s\<lparr>sys_mem := put_bytes p bs (sys_mem s)\<rparr>"

definition kBadFileDescriptor :: int where "kBadFileDescriptor = - 9"
definition kInvalid :: int where "kInvalid = - 22"

section \<open>Receiving\<close>

text \<open>A received packet with its bytes as a memory.\<close>

definition packet_mem :: "packet \<Rightarrow> cmem" where
  "packet_mem p = put_bytes 0 p (\<lambda>_. 0)"

definition IsICMPPacket :: "packet \<Rightarrow> bool" where
  "IsICMPPacket p \<longleftrightarrow> \<not> length p < 34 \<and> HasEthType (packet_mem p) kTypeIPv4 \<and> packet_mem p 23 = 1"

definition IsUDPPacketToPort :: "u16 \<Rightarrow> packet \<Rightarrow> bool" where
  "IsUDPPacketToPort port p \<longleftrightarrow> \<not> length p < 42 \<and> HasEthType (packet_mem p) kTypeIPv4 \<and> packet_mem p 23 = 17 \<and>
     GetDestinationPort (packet_mem p) = port"

text \<open>
  The receive loop: packets which are not wanted are dropped, and with no packet left the process
  sleeps, while other tasks change the state of the network by \<open>sleep\<close>.
\<close>

partial_function (option) recv_loop :: "(host \<Rightarrow> host) \<Rightarrow> (packet \<Rightarrow> bool) \<Rightarrow> host \<Rightarrow> (packet \<times> host) option" where
  "recv_loop sleep wanted h =
     (if HasPacketInRXBuffer h then
        (case PopFromRXBuffer h of (p, h') \<Rightarrow> if wanted p then Some (p, h') else recv_loop sleep wanted h')
      else recv_loop sleep wanted (sleep h))"

declare recv_loop.simps [code]

definition sys_recvfrom :: "(host \<Rightarrow> host) \<Rightarrow> int \<Rightarrow> nat \<Rightarrow> nat \<Rightarrow> nat \<Rightarrow> sys \<Rightarrow> (int \<times> sys) option" where
  "sys_recvfrom sleep sockfd buf buf_size recv_addr s =
     (case FindSocket (sys_pid s) sockfd (sys_host s) of None \<Rightarrow> Some (- 1, s)
      | Some sock \<Rightarrow> (case sock_type sock of
          kICMPDatagram \<Rightarrow> map_option (\<lambda>(p, h).
            let n = length p - 34 in
            (int n, store (recv_addr + 4) (take 4 (drop 26 p)) (store buf (take (min n buf_size) (drop 34 p)) (s\<lparr>sys_host := h\<rparr>))))
            (recv_loop sleep IsICMPPacket (sys_host s))
        | kICMPRaw \<Rightarrow> map_option (\<lambda>(p, h).
            let n = length p - 14 in
            (int n, store buf (take (min n buf_size) (drop 14 p)) (s\<lparr>sys_host := h\<rparr>)))
            (recv_loop sleep IsICMPPacket (sys_host s))
        | kUDP \<Rightarrow> map_option (\<lambda>(p, h).
            let n = length p - 42 in
            (int n, store (recv_addr + 2) (take 2 (drop 34 p)) (store (recv_addr + 4) (take 4 (drop 26 p))
               (store buf (take (min n buf_size) (drop 42 p)) (s\<lparr>sys_host := h\<rparr>)))))
            (recv_loop sleep (IsUDPPacketToPort (listen_port sock)) (sys_host s))))"

section \<open>Sockets\<close>

text \<open>The number of a socket is always 3.\<close>

definition sys_socket :: "int \<Rightarrow> int \<Rightarrow> int \<Rightarrow> sys \<Rightarrow> int \<times> sys" where
  "sys_socket domain ty protocol s =
     (let register = (\<lambda>t. case RegisterSocket (sys_pid s) 3 t (sys_host s) of
            (failed, h) \<Rightarrow> (if failed then - 1 else 3, s\<lparr>sys_host := h\<rparr>)) in
      if domain = 2 \<and> ty = 2 \<and> protocol = 1 then register kICMPDatagram
      else if domain = 2 \<and> ty = 3 \<and> protocol = 1 then register kICMPRaw
      else if domain = 2 \<and> ty = 2 \<and> (protocol = 0 \<or> protocol = 17) then register kUDP
      else (- 1, s))"

text \<open>A port in a socket address is in network byte order.\<close>

definition sin_port :: "cmem \<Rightarrow> nat \<Rightarrow> u16" where
  "sin_port m a = ucast (m (a + 2)) OR push_bit 8 (ucast (m (a + 3)))"

definition sys_bind :: "int \<Rightarrow> nat \<Rightarrow> sys \<Rightarrow> int \<times> sys" where
  "sys_bind sockfd addr s =
     (case FindSocket (sys_pid s) sockfd (sys_host s) of None \<Rightarrow> (- 1, s)
      | Some _ \<Rightarrow>
        let p = sin_port (sys_mem s) addr in
        (case BindToPort (sys_pid s) sockfd ((drop_bit 8 p AND 0xFF) OR push_bit 8 p) (sys_host s) of
           (failed, h) \<Rightarrow> (if failed then - 1 else 0, s\<lparr>sys_host := h\<rparr>)))"

section \<open>Sending\<close>

text \<open>The next hop, and the loop which asks for its Ethernet address every 200 milliseconds.\<close>

definition next_hop :: "u8 list \<Rightarrow> host \<Rightarrow> u8 list" where
  "next_hop dst_ip_addr h = (if IsInSameSubnet dst_ip_addr (gateway h) (netmask h) then dst_ip_addr else gateway h)"

function resolve_loop :: "(host \<Rightarrow> host) \<Rightarrow> u8 list \<Rightarrow> nat \<Rightarrow> nat \<Rightarrow> host \<Rightarrow> (u8 list option \<times> host) res" where
  "resolve_loop sleep nexthop_ip_addr time_passed_ms timeout_ms h =
     (if time_passed_ms < timeout_ms then
        (case ResolveIPv4 nexthop_ip_addr h of Some e \<Rightarrow> Ok (Some e, h)
         | None \<Rightarrow> bind_res (SendARPRequest nexthop_ip_addr h) (\<lambda>h.
             resolve_loop sleep nexthop_ip_addr (time_passed_ms + 200) timeout_ms (sleep h)))
      else Ok (None, h))"
  by auto
termination
  by (relation "measure (\<lambda>(_, _, t, n, _). n - t)") auto

declare resolve_loop.simps [simp del]

definition ResolveIPv4WithTimeout :: "(host \<Rightarrow> host) \<Rightarrow> u8 list \<Rightarrow> nat \<Rightarrow> host \<Rightarrow> (u8 list option \<times> host) res" where
  "ResolveIPv4WithTimeout sleep dst_ip_addr timeout_ms h = resolve_loop sleep (next_hop dst_ip_addr h) 0 timeout_ms h"

text \<open>The Ethernet and IPv4 headers of an outgoing packet.\<close>

definition ip_header :: "u8 list \<Rightarrow> u8 list \<Rightarrow> u16 \<Rightarrow> u8 \<Rightarrow> u8 list \<Rightarrow> u8 list \<Rightarrow> cmem \<Rightarrow> cmem" where
  "ip_header dst_mac src_mac data_len protocol src_ip dst_ip p =
     (let p = SetEthType kTypeIPv4 (put_bytes 6 src_mac (put_bytes 0 dst_mac p));
          p = IPv4Packet_SetDataLength data_len (put_bytes 14 [0x45, 0] p);
          p = put_bytes 18 [0, 0, 0, 0, 0xFF, protocol] p;
          p = put_bytes 30 dst_ip (put_bytes 26 src_ip p)
      in IPv4Packet_CalcAndSetChecksum p)"

definition icmp_packet :: "u8 list \<Rightarrow> u8 list \<Rightarrow> u8 list \<Rightarrow> u8 list \<Rightarrow> u8 list \<Rightarrow> cmem \<Rightarrow> cmem" where
  "icmp_packet dst_mac src_mac src_ip dst_ip data p =
     put_bytes 34 data (ip_header dst_mac src_mac (42 - 34) 1 src_ip dst_ip p)"

text \<open>The checksum field is not cleared before the checksum is calculated.\<close>

definition udp_packet :: "u8 list \<Rightarrow> u8 list \<Rightarrow> u8 list \<Rightarrow> u8 list \<Rightarrow> u16 \<Rightarrow> u8 list \<Rightarrow> u8 list \<Rightarrow> cmem \<Rightarrow> cmem" where
  "udp_packet dst_mac src_mac src_ip dst_ip src_port dst_port data p =
     (let p = ip_header dst_mac src_mac (of_nat (42 + length data - 34)) 17 src_ip dst_ip p;
          p = put_bytes 42 data p;
          p = put_bytes 36 dst_port (SetSourcePort src_port p);
          p = UDP_SetDataSize (of_nat (length data)) p
      in put_bytes 40 (CalcUDPChecksum p 34 (42 + length data) (get_bytes p 26 4) (get_bytes p 30 4) [p 38, p 39]) p)"

definition sys_sendto :: "(host \<Rightarrow> host) \<Rightarrow> int \<Rightarrow> nat \<Rightarrow> u64 \<Rightarrow> nat \<Rightarrow> sys \<Rightarrow> (int \<times> sys) res" where
  "sys_sendto sleep sockfd buf len dest_addr s =
     (case FindSocket (sys_pid s) sockfd (sys_host s) of None \<Rightarrow> Ok (- 1, s)
      | Some sock \<Rightarrow>
        let target_ip_addr = get_bytes (sys_mem s) (dest_addr + 4) 4 in
        bind_res (ResolveIPv4WithTimeout sleep target_ip_addr 1000 (sys_host s)) (\<lambda>(e, h).
        case e of None \<Rightarrow> Ok (- 1, s\<lparr>sys_host := h\<rparr>)
        | Some eth \<Rightarrow>
          if sock_type sock = kICMPRaw \<or> sock_type sock = kICMPDatagram then
            bind_res (send_with (34 + len) (icmp_packet eth (mac_addr h) (self_ip h) target_ip_addr
               (get_bytes (sys_mem s) buf (unat len))) h) (\<lambda>h. Ok (sint len, s\<lparr>sys_host := h\<rparr>))
          else
            let len = (len + 1) AND NOT 1 in
            bind_res (send_with (42 + len) (udp_packet eth (mac_addr h) (self_ip h) target_ip_addr (listen_port sock)
               (get_bytes (sys_mem s) (dest_addr + 2) 2) (get_bytes (sys_mem s) buf (unat len))) h)
               (\<lambda>h. Ok (sint len, s\<lparr>sys_host := h\<rparr>))))"

section \<open>Files\<close>

text \<open>Waiting for standard input: an interrupt, here \<open>halt\<close>, may add a character.\<close>

partial_function (option) wait_stdin :: "(sys \<Rightarrow> sys) \<Rightarrow> sys \<Rightarrow> sys option" where
  "wait_stdin halt s = (if RingBuffer_IsEmpty (sys_stdin s) then wait_stdin halt (halt s) else Some s)"

declare wait_stdin.simps [code]

definition sys_read :: "(sys \<Rightarrow> sys) \<Rightarrow> int \<Rightarrow> nat \<Rightarrow> nat \<Rightarrow> sys \<Rightarrow> (int \<times> sys) res option" where
  "sys_read halt fd buf count s =
     (if fd = 0 then
        if count < 1 then Some (Ok (kInvalid, s))
        else map_option (\<lambda>s. case RingBuffer_Pop 16 0 (sys_stdin s) of
            (c, b) \<Rightarrow> Ok (1, store buf [c] (s\<lparr>sys_stdin := b\<rparr>))) (wait_stdin halt s)
      else if fd = 6 then
        if length (root_files s) \<le> idx_in_root_files (pp s) then Some (Fail Out_Of_Bounds)
        else
          let contents = snd (root_files s ! idx_in_root_files (pp s)); ofs = read_offset (pp s) in
          if \<not> ofs \<le> length contents then Some (Fail Assert_Failed)
          else
            let copy_size = min (length contents - ofs) count in
            if copy_size \<noteq> 0
            then Some (Ok (int copy_size, set_pp (read_offset_update (\<lambda>o'. o' + copy_size))
                   (store buf (take copy_size (drop ofs contents)) s)))
            else Some (Ok (int copy_size, s))
      else Some (Ok (kInvalid, s)))"

text \<open>Two C strings, as the lists of their characters.\<close>

fun IsEqualString :: "u8 list \<Rightarrow> u8 list \<Rightarrow> bool" where
  "IsEqualString [] [] = True"
| "IsEqualString (a # as) (b # bs) = (if a = b then IsEqualString as bs else False)"
| "IsEqualString _ _ = False"

lemma IsEqualString_eq [simp]: "IsEqualString a b \<longleftrightarrow> a = b"
  by (induction a b rule: IsEqualString.induct) auto

fun find_file :: "u8 list \<Rightarrow> nat \<Rightarrow> (u8 list \<times> u8 list) list \<Rightarrow> nat option" where
  "find_file name i [] = None"
| "find_file name i (f # fs) = (if IsEqualString (fst f) name then Some i else find_file name (i + 1) fs)"

definition sys_open :: "u8 list \<Rightarrow> sys \<Rightarrow> int \<times> sys" where
  "sys_open file_name s =
     (if IsEqualString (bytes ''.'') file_name then (5, set_pp (num_getdents64_called_update (\<lambda>_. 0)) s)
      else if IsEqualString (bytes ''window.bmp'') file_name then (7, s)
      else case find_file file_name 0 (root_files s) of None \<Rightarrow> (- 1, s)
        | Some i \<Rightarrow> (6, set_pp (\<lambda>d. d\<lparr>idx_in_root_files := i, read_offset := 0\<rparr>) s))"

definition le_bytes :: "nat \<Rightarrow> nat \<Rightarrow> u8 list" where
  "le_bytes k n = map (\<lambda>i. of_nat (n div 256 ^ i)) [0..<k]"

text \<open>The only directory entry: inode, next offset, size, an unwritten type byte, and the name.\<close>

definition sys_getdents64 :: "nat \<Rightarrow> sys \<Rightarrow> int \<times> sys" where
  "sys_getdents64 buf s =
     (if num_getdents64_called (pp s) \<noteq> 0 then (0, s)
      else
        let s = set_pp (num_getdents64_called_update Suc) s;
            file_name = bytes ''TEST_FILE.bin'';
            this_size = 19 + length file_name + 1
        in (int this_size, store (buf + 19) (file_name @ [0]) (store (buf + 16) (le_bytes 2 this_size)
             (store (buf + 8) (le_bytes 8 0) (store buf (le_bytes 8 123) s)))))"

definition sys_write :: "u64 \<Rightarrow> nat \<Rightarrow> u64 \<Rightarrow> sys \<Rightarrow> int option \<times> sys" where
  "sys_write fildes buf nbyte s =
     (if fildes \<noteq> 1 then (Some kBadFileDescriptor, s)
      else if drop_bit 63 nbyte \<noteq> 0 then (Some kInvalid, s)
      else (None, s\<lparr>written := written s @ get_bytes (sys_mem s) buf (unat nbyte)\<rparr>))"

definition sys_ftruncate :: "u64 \<Rightarrow> int" where
  "sys_ftruncate fd = (if fd \<noteq> 5 then - 1 else 0)"

section \<open>Windows\<close>

text \<open>
  A process maps the frame buffer of its window at a fixed address, where it writes a bitmap file;
  \<open>msync\<close> reads the header of this file and shows the image.  The buffer of the window has the size
  of the first image, but the copied size is that of the current one: a copy past the buffer, and one
  of a negative width, is an access out of bounds.
\<close>

definition window_addr :: nat where "window_addr = 0x100000000"

definition sys_mmap :: "u64 \<Rightarrow> u64 \<Rightarrow> sys \<Rightarrow> int \<times> sys" where
  "sys_mmap size' fd s =
     (if fd \<noteq> 7 then (- 1, s)
      else (int window_addr, s\<lparr>window_maps := window_maps s @ [(sys_pid s, size')]\<rparr>))"

definition load32 :: "cmem \<Rightarrow> nat \<Rightarrow> 32 word" where
  "load32 m p = le_word32 (get_bytes m p 4)"

definition sys_msync :: "u64 \<Rightarrow> sys \<Rightarrow> (int \<times> sys) res" where
  "sys_msync addr s =
     (if unat addr \<noteq> window_addr then Ok (- 1, s)
      else
        let offset_to_data = load32 (sys_mem s) (window_addr + 10);
            xsize = sint (load32 (sys_mem s) (window_addr + 18));
            ysize = sint (load32 (sys_mem s) (window_addr + 22))
        in
        if 0 \<le> ysize then Ok (- 1, s)
        else
          let ysize = - ysize in
          if 2048 < ysize \<or> 2048 < xsize then Ok (- 1, s)
          else if xsize < 0 then Fail Out_Of_Bounds
          else
            let n = nat (xsize * ysize * 4);
                w = (case window_sheet (pp s) of
                       Some w \<Rightarrow> w
                     | None \<Rightarrow> \<lparr>window_xsize = xsize, window_ysize = ysize, window_buf = replicate n 0\<rparr>)
            in
            if length (window_buf w) < n then Fail Out_Of_Bounds
            else
              let w = w\<lparr>window_buf := get_bytes (sys_mem s) (window_addr + unat offset_to_data) n @ drop n (window_buf w)\<rparr>;
                  s = set_pp (window_sheet_update (\<lambda>_. Some w)) s
              in Ok (0, s\<lparr>flushes := flushes s @ [(sys_pid s, w)]\<rparr>))"

section \<open>The handler\<close>

text \<open>
  A call returns to the process with changed arguments, or the process is killed.  \<open>None\<close> is a call
  which blocks forever.
\<close>

datatype outcome = Returned "u64 list" sys | Killed sys

definition ret :: "u64 list \<Rightarrow> int \<times> sys \<Rightarrow> outcome" where
  "ret args r = Returned (args[0 := of_int (fst r)]) (snd r)"

definition to_int :: "u64 \<Rightarrow> int" where
  "to_int x = sint (ucast x :: 32 word)"

definition user_string :: "cmem \<Rightarrow> nat \<Rightarrow> u8 list option" where
  "user_string m p = map_option (get_bytes m p) (strlen m p)"

definition SyscallHandler :: "(host \<Rightarrow> host) \<Rightarrow> (sys \<Rightarrow> sys) \<Rightarrow> u64 list \<Rightarrow> sys \<Rightarrow> outcome res option" where
  "SyscallHandler sleep halt args s =
     (let idx = args ! 0; a = (\<lambda>i. args ! i); p = (\<lambda>i. unat (args ! i)) in
      if idx = 0 then map_option (map_sum id (ret args)) (sys_read halt (to_int (a 1)) (p 2) (p 3) s)
      else if idx = 1 then
        (case sys_write (a 1) (p 2) (a 3) s of (r, s) \<Rightarrow>
           Some (Ok (case r of None \<Rightarrow> Returned args s | Some e \<Rightarrow> ret args (e, s))))
      else if idx = 2 then map_option (\<lambda>name. Ok (ret args (sys_open name s))) (user_string (sys_mem s) (p 1))
      else if idx = 3 then Some (Ok (ret args (0, s)))
      else if idx = 9 then Some (Ok (ret args (sys_mmap (a 2) (a 5) s)))
      else if idx = 26 then Some (map_sum id (ret args) (sys_msync (a 1) s))
      else if idx = 60 then Some (Ok (Killed s))
      else if idx = 77 then Some (Ok (ret args (sys_ftruncate (a 1), s)))
      else if idx = 158 then Some (Fail (Panic ''arch_prctl!''))
      else if idx = 41 then Some (Ok (ret args (sys_socket (to_int (a 1)) (to_int (a 2)) (to_int (a 3)) s)))
      else if idx = 44 then Some (map_sum id (ret args) (sys_sendto sleep (to_int (a 1)) (p 2) (a 3) (p 5) s))
      else if idx = 45 then map_option (\<lambda>r. Ok (ret args r)) (sys_recvfrom sleep (to_int (a 1)) (p 2) (p 3) (p 5) s)
      else if idx = 49 then Some (Ok (ret args (sys_bind (to_int (a 1)) (p 2) s)))
      else if idx = 217 then Some (Ok (ret args (sys_getdents64 (p 2) s)))
      else Some (Ok (Killed s)))"

end
