(* ===== verification/Syscall_Runs.thy ===== *)
theory Syscall_Runs
  imports Syscalls
begin

text \<open>
Runs of system calls: reading a file through any sequence of reads, and the way of a datagram from a
  process of one machine to a process of another one.
\<close>

section \<open>Reading a file\<close>

text \<open>A sequence of reads from the open file, by buffer and count: the data each one delivers.\<close>

primrec file_reads :: "(sys \<Rightarrow> sys) \<Rightarrow> (nat \<times> nat) list \<Rightarrow> sys \<Rightarrow> (u8 list list \<times> sys) option" where
  "file_reads halt [] s = Some ([], s)"
| "file_reads halt (r # rs) s =
     (case sys_read halt 6 (fst r) (snd r) s of
        Some (Inr (n, s')) \<Rightarrow> map_option (\<lambda>(ds, s''). (get_bytes (sys_mem s') (fst r) (nat n) # ds, s'')) (file_reads halt rs s')
      | _ \<Rightarrow> None)"

lemma get_put_at: "length bs = n \<Longrightarrow> get_bytes (put_bytes p bs m) p n = bs"
  by auto

lemma get_put_apart: "p + length bs \<le> q \<or> q + n \<le> p \<Longrightarrow> get_bytes (put_bytes p bs m) q n = get_bytes m q n"
  by (rule nth_equalityI) (auto simp: put_bytes_at)

lemma sys_read_file:
  assumes "idx_in_root_files (pp s) = i" "i < length (root_files s)" "c = snd (root_files s ! i)"
    "read_offset (pp s) = k" "k \<le> length c"
  obtains s' where "sys_read halt 6 b n s = Some (Ok (int (min (length c - k) n), s'))"
    "get_bytes (sys_mem s') b (min (length c - k) n) = take n (drop k c)"
    "root_files s' = root_files s" "idx_in_root_files (pp s') = i" "read_offset (pp s') = k + min (length c - k) n"
proof -
  let ?m = "min (length c - k) n"
  have t: "take ?m (drop k c) = take n (drop k c)" by (simp add: min_def)
  show ?thesis
  proof (cases "?m = 0")
    case True
    then show ?thesis using assms by (intro that[of s]) (auto simp: sys_read_def min_def split: if_splits)
  next
    case False
    let ?s = "set_pp (read_offset_update (\<lambda>o'. o' + ?m)) (store b (take ?m (drop k c)) s)"
    show ?thesis
    proof (rule that[of ?s])
      show "sys_read halt 6 b n s = Some (Ok (int ?m, ?s))"
        using assms False by (simp add: sys_read_def Let_def)
      show "get_bytes (sys_mem ?s) b ?m = take n (drop k c)"
        unfolding t[symmetric] by (simp add: set_pp_def store_def get_put_at)
    qed (use assms in \<open>simp_all add: set_pp_def store_def\<close>)
  qed
qed

lemma file_reads_from:
  assumes "idx_in_root_files (pp s) = i" "i < length (root_files s)" "c = snd (root_files s ! i)"
    "read_offset (pp s) = k" "k \<le> length c"
  shows "\<exists>ds s'. file_reads halt rs s = Some (ds, s') \<and> concat ds = take (sum_list (map snd rs)) (drop k c)"
  using assms
proof (induction rs arbitrary: s k)
  case (Cons r rs)
  obtain s' where s': "sys_read halt 6 (fst r) (snd r) s = Some (Ok (int (min (length c - k) (snd r)), s'))"
    "get_bytes (sys_mem s') (fst r) (min (length c - k) (snd r)) = take (snd r) (drop k c)"
    "root_files s' = root_files s" "idx_in_root_files (pp s') = i" "read_offset (pp s') = k + min (length c - k) (snd r)"
    using sys_read_file[OF Cons.prems] by metis
  let ?k = "k + min (length c - k) (snd r)"
  have "i < length (root_files s')" "c = snd (root_files s' ! i)" "?k \<le> length c" using s'(3) Cons.prems(2,3,5) by simp_all
  then obtain ds s'' where "file_reads halt rs s' = Some (ds, s'')" "concat ds = take (sum_list (map snd rs)) (drop ?k c)"
    using Cons.IH[OF s'(4) _ _ s'(5)] by blast
  moreover have "drop ?k c = drop (snd r) (drop k c)" using Cons.prems(5) by (cases "snd r \<le> length c - k") (auto simp: min_def add.commute)
  ultimately show ?case using s'(1,2) by (simp add: take_add)
qed simp

section \<open>Words\<close>

lemma sint_small:
  assumes "unat (x :: u64) < 2 ^ 63"
  shows "sint x = int (unat x)"
proof -
  have e: "int (unat x) = uint x" by simp
  have "uint x < 2 ^ 63" unfolding e[symmetric] using assms by (simp only: of_nat_less_numeral_power_cancel_iff)
  then have "signed_take_bit 63 (uint x) = uint x" by (intro signed_take_bit_int_eq_self) (auto simp: order_trans[OF _ uint_ge_0])
  then show ?thesis by (simp add: sint_uint)
qed

lemma even_round: "even (unat (x :: u64)) \<Longrightarrow> (x + 1) AND NOT 1 = x"
proof -
  assume "even (unat x)"
  then have "\<not> bit (unat x) 0" by (simp add: bit_0)
  then have b: "\<not> bit x 0" by (simp add: bit_unsigned_iff)
  have "x AND 1 = 0" using b by (intro bit_word_eqI) (auto simp: bit_simps bit_1_iff intro: Nat.gr0I)
  then have "x + 1 = x OR 1" by (rule disjunctive_add_eq_or)
  then show ?thesis using b by (intro bit_word_eqI) (auto simp: bit_simps bit_1_iff intro: Nat.gr0I)
qed

lemma swap_port:
  "(drop_bit 8 (ucast x OR push_bit 8 (ucast y) :: u16) AND 0xFF) OR push_bit 8 (ucast (x :: u8) OR push_bit 8 (ucast (y :: u8))) =
    push_bit 8 (ucast x) OR ucast y"
proof -
  have m: "(0xFF :: u16) = mask 8" by (simp add: mask_eq_exp_minus_1)
  show ?thesis unfolding m by (rule bit_word_eqI) (auto simp: bit_simps dest: bit_imp_le_length)
qed

section \<open>Datagrams\<close>

lemma CalcAndSetChecksum_at: "k \<noteq> 24 \<Longrightarrow> k \<noteq> 25 \<Longrightarrow> IPv4Packet_CalcAndSetChecksum p k = p k"
  by (auto simp: IPv4Packet_CalcAndSetChecksum_def Let_def put_bytes_at InternetChecksum_Calc_def)

lemma ip_header_fields:
  assumes "length dst_mac = 6" "length src_mac = 6" "length src_ip = 4" "length dst_ip = 4"
    and P: "P = ip_header dst_mac src_mac n protocol src_ip dst_ip p"
  shows "P 12 = 8" "P 13 = 0" "P 23 = protocol" "i < 4 \<Longrightarrow> P (26 + i) = src_ip ! i"
  using assms(1-4)
  by (simp_all add: P ip_header_def Let_def CalcAndSetChecksum_at put_bytes_at SetEthType_def kTypeIPv4_def
      IPv4Packet_SetDataLength_def be_bytes16_def)

lemma CalcUDPChecksum_length [simp]: "length (CalcUDPChecksum p a b c d e) = 2"
  by (simp add: CalcUDPChecksum_def)

lemma udp_packet_fields:
  assumes "length dst_mac = 6" "length src_mac = 6" "length src_ip = 4" "length dst_ip = 4" "length dst_port = 2"
    and P: "P = udp_packet dst_mac src_mac src_ip dst_ip src_port dst_port data p"
  shows "P 12 = 8" "P 13 = 0" "P 23 = 17" "get_bytes P 26 4 = src_ip" "get_bytes P 34 2 = be_bytes16 src_port"
    "P 36 = dst_port ! 0" "P 37 = dst_port ! 1" "get_bytes P 42 (length data) = data"
proof -
  have h: "P k = ip_header dst_mac src_mac (of_nat (42 + length data - 34)) 17 src_ip dst_ip p k" if "k < 34" for k
    using that by (simp add: P udp_packet_def Let_def put_bytes_at SetSourcePort_def UDP_SetDataSize_def be_bytes16_def)
  show "P 12 = 8" "P 13 = 0" "P 23 = 17" using ip_header_fields[OF assms(1-4) refl] by (simp_all add: h)
  show "get_bytes P 26 4 = src_ip"
    by (rule nth_equalityI) (use ip_header_fields(4)[OF assms(1-4) refl] assms(3) in \<open>simp_all add: h\<close>)
  show "get_bytes P 34 2 = be_bytes16 src_port"
    by (simp add: get_bytes_def upt_rec P udp_packet_def Let_def put_bytes_at SetSourcePort_def UDP_SetDataSize_def be_bytes16_def assms(5))
  show "P 36 = dst_port ! 0" "P 37 = dst_port ! 1"
    using assms(5) by (simp_all add: P udp_packet_def Let_def put_bytes_at UDP_SetDataSize_def be_bytes16_def)
  show "get_bytes P 42 (length data) = data"
    by (rule nth_equalityI) (simp_all add: P udp_packet_def Let_def put_bytes_at SetSourcePort_def UDP_SetDataSize_def be_bytes16_def assms(5))
qed

text \<open>Sending a datagram when the address of the next hop is known.\<close>

lemma sys_sendto_udp:
  assumes ready: "net_ready (sys_host a)" and sk: "FindSocket (sys_pid a) fd (sys_host a) = Some sk" "sock_type sk = kUDP"
    and ip: "ip = get_bytes (sys_mem a) (dst + 4) 4"
    and eth: "ResolveIPv4 (next_hop ip (sys_host a)) (sys_host a) = Some eth"
    and len: "even (unat len)" "unat len \<le> 2006"
  obtains a' P b where "sys_sendto sleep fd buf len dst a = Ok (int (unat len), a')"
    "P = udp_packet eth (mac_addr (sys_host a)) (self_ip (sys_host a)) ip (listen_port sk)
       (get_bytes (sys_mem a) (dst + 2) 2) (get_bytes (sys_mem a) buf (unat len)) b"
    "wire (sys_host a') = wire (sys_host a) @ [get_bytes P 0 (42 + unat len)]"
proof -
  let ?f = "udp_packet eth (mac_addr (sys_host a)) (self_ip (sys_host a)) ip (listen_port sk)
       (get_bytes (sys_mem a) (dst + 2) 2) (get_bytes (sys_mem a) buf (unat len))"
  have u: "unat (42 + len) = 42 + unat len" using len(2) by (subst unat_plus_simple[THEN iffD1]) (simp_all add: no_olen_add_nat)
  then have "unat (42 + len) < 4086" using len(2) by simp
  from send_with_wire[OF ready this] obtain h b where h: "send_with (42 + len) ?f (sys_host a) = Ok h"
    "wire h = wire (sys_host a) @ [get_bytes (?f b) 0 (unat (42 + len))]" by metis
  have r: "ResolveIPv4WithTimeout sleep ip 1000 (sys_host a) = Ok (Some eth, sys_host a)"
    by (simp add: ResolveIPv4WithTimeout_def resolve_loop.simps[of _ _ 0] eth)
  have s: "sint len = int (unat len)" by (rule sint_small) (use len in simp)
  have "sys_sendto sleep fd buf len dst a = Ok (int (unat len), a\<lparr>sys_host := h\<rparr>)"
    using sk r h(1) by (simp add: sys_sendto_def Let_def ip[symmetric] even_round[OF len(1), simplified] s)
  from that[OF this refl, of b] show ?thesis using h(2) u by simp
qed

lemma port_bytes:
  "(push_bit 8 (ucast a) OR ucast b :: u16) = push_bit 8 (ucast c) OR ucast d \<longleftrightarrow> a = c \<and> b = d" for a b c d :: u8
proof
  let ?w = "\<lambda>x y. push_bit 8 (ucast (x :: u8)) OR ucast (y :: u8) :: u16"
  have "ucast (?w x y) = y" "ucast (drop_bit 8 (?w x y)) = x" for x y
    by (rule bit_word_eqI, auto simp: bit_simps dest: bit_imp_le_length)+
  then show "?w a b = ?w c d \<Longrightarrow> a = c \<and> b = d" by metis
qed simp

text \<open>A datagram which is not from a DHCP server is only put in the receive buffer.\<close>

lemma ProcessPacket_udp:
  assumes "length fr = 42 + n" "n \<le> 2006" "fr ! 12 = 8" "fr ! 13 = 0" "fr ! 23 = 17" "(fr ! 36, fr ! 37) \<noteq> (0, 68)"
  shows "ProcessPacket (received fr old) (of_nat (52 + n)) h =
    Ok (h\<lparr>rx_buffer := RingBuffer_Push kRXBufferSize fr (rx_buffer h)\<rparr>)"
proof -
  let ?f = "\<lambda>k. received fr old (k + 10)"
  have at: "?f k = fr ! k" if "k < 42" for k using that assms(1) by (intro received_at) simp
  have fs: "(of_nat (52 + n) :: u64) - 10 = of_nat (42 + n)" by simp
  have un: "unat (of_nat (42 + n) :: u64) = 42 + n"
    using assms(2) unfolding unat_of_nat by (intro mod_less) simp
  have ge: "\<not> (of_nat (42 + n) :: u64) < 42" "\<not> (of_nat (42 + n) :: u64) < 34" "(0 :: u64) < of_nat (42 + n)"
    "(of_nat (42 + n) :: u64) \<le> 2048"
    using un assms(2) by (simp_all only: word_less_nat_alt word_le_nat_alt) simp_all
  have p: "GetDestinationPort ?f \<noteq> 68"
    using port_bytes[of "fr ! 36" "fr ! 37" 0 68] assms(6) at[of 36] at[of 37] by (simp add: GetDestinationPort_def)
  have "ARPPacketHandler ?f (of_nat (42 + n)) h = Ok (False, h)"
    using ge(1) at[of 12] at[of 13] assms(3,4) by (simp add: ARPPacketHandler_def HasEthType_def kTypeARP_def)
  moreover have "IPv4PacketHandler ?f (of_nat (42 + n)) h = Ok (True, h)"
    using ge(1,2) at[of 12] at[of 13] at[of 23] assms(3-5) p
    by (simp add: IPv4PacketHandler_def ICMPPacketHandler_def UDPPacketHandler_def HasEthType_def kTypeIPv4_def)
  moreover have "PushToRXBuffer ?f 0 (of_nat (42 + n)) h = Ok (h\<lparr>rx_buffer := RingBuffer_Push kRXBufferSize fr (rx_buffer h)\<rparr>)"
    using ge un received_bytes[of 0 "42 + n" fr old] assms(1)
    by (simp add: PushToRXBuffer_def check_that_def kPacketContainerSize_def del: of_nat_add)
  ultimately show ?thesis unfolding ProcessPacket_def Let_def fs by simp
qed

text \<open>A packet pushed to an empty receive buffer is the next one to be popped.\<close>

lemma push_pop_empty:
  assumes "rb_wf n q" "RingBuffer_IsEmpty q"
  shows "\<not> RingBuffer_IsEmpty (RingBuffer_Push n v q)" "fst (RingBuffer_Pop n d (RingBuffer_Push n v q)) = v"
proof -
  have "(rb_writep q + 1) mod n \<noteq> rb_writep q"
    using assms(1) by (cases "rb_writep q + 1 = n") (auto simp: rb_wf_def)
  then show "\<not> RingBuffer_IsEmpty (RingBuffer_Push n v q)" "fst (RingBuffer_Pop n d (RingBuffer_Push n v q)) = v"
    using assms by (auto simp: RingBuffer_IsEmpty_def RingBuffer_Push_def RingBuffer_Pop_def Let_def rb_wf_def)
qed

lemma recv_loop_first:
  assumes "rb_wf kRXBufferSize (rx_buffer h)" "RingBuffer_IsEmpty (rx_buffer h)" "wanted fr"
  shows "\<exists>h'. recv_loop sleep wanted (h\<lparr>rx_buffer := RingBuffer_Push kRXBufferSize fr (rx_buffer h)\<rparr>) = Some (fr, h')"
  using push_pop_empty(1)[OF assms(1,2), of fr] push_pop_empty(2)[OF assms(1,2), where v = fr and d = "[]"] assms(3)
  by (subst recv_loop.simps) (auto simp: HasPacketInRXBuffer_def PopFromRXBuffer_def split: prod.splits)

lemma udp_to_port:
  assumes "length fr = 42 + n" "fr ! 12 = 8" "fr ! 13 = 0" "fr ! 23 = 17"
  shows "IsUDPPacketToPort (push_bit 8 (ucast (fr ! 36)) OR ucast (fr ! 37)) fr"
proof -
  have "packet_mem fr k = fr ! k" if "k < 42" for k using that assms(1) by (simp add: packet_mem_def put_bytes_at)
  then show ?thesis using assms by (simp add: IsUDPPacketToPort_def HasEthType_def kTypeIPv4_def GetDestinationPort_def)
qed

text \<open>A new socket, bound to the port in an address.\<close>

lemma socket_bind:
  assumes "FindSocket (sys_pid s) 3 (sys_host s) = None"
  obtains s1 s2 where "sys_socket 2 2 0 s = (3, s1)" "sys_bind 3 addr s1 = (0, s2)" "sys_mem s2 = sys_mem s"
    "sys_pid s2 = sys_pid s" "rx_buffer (sys_host s2) = rx_buffer (sys_host s)"
    "FindSocket (sys_pid s) 3 (sys_host s2) =
      Some \<lparr>sock_pid = sys_pid s, sock_fd = 3,
        listen_port = push_bit 8 (ucast (sys_mem s (addr + 2))) OR ucast (sys_mem s (addr + 3)), sock_type = kUDP\<rparr>"
proof -
  let ?sk = "\<lambda>p. \<lparr>sock_pid = sys_pid s, sock_fd = 3, listen_port = p, sock_type = kUDP\<rparr>"
  have n: "\<forall>x\<in>set (sockets (sys_host s)). \<not> (sock_pid x = sys_pid s \<and> sock_fd x = 3)"
    using assms by (auto simp: FindSocket_def find_None_iff)
  have f: "find (\<lambda>x. sock_pid x = sys_pid s \<and> sock_fd x = 3) (ss @ [?sk p]) = Some (?sk p)"
    if "\<forall>x\<in>set ss. \<not> (sock_pid x = sys_pid s \<and> sock_fd x = 3)" for ss p using that by (induction ss) auto
  have b: "bind_first (sys_pid s) 3 q (ss @ [?sk p]) = (False, ss @ [?sk q])"
    if "\<forall>x\<in>set ss. \<not> (sock_pid x = sys_pid s \<and> sock_fd x = 3)" for ss p q using that by (induction ss) auto
  show ?thesis
    by (rule that[of "s\<lparr>sys_host := (sys_host s)\<lparr>sockets := sockets (sys_host s) @ [?sk 12345]\<rparr>\<rparr>"
        "s\<lparr>sys_host := (sys_host s)\<lparr>sockets := sockets (sys_host s) @
           [?sk (push_bit 8 (ucast (sys_mem s (addr + 2))) OR ucast (sys_mem s (addr + 3)))]\<rparr>\<rparr>"])
      (use assms f[OF n] b[OF n] swap_port in \<open>simp_all add: sys_socket_def RegisterSocket_def sys_bind_def BindToPort_def FindSocket_def sin_port_def Let_def\<close>)
qed

section \<open>Properties\<close>

lemma find_file_map_of:
  "map_of fs name = Some c \<Longrightarrow> \<exists>j. find_file name i fs = Some (i + j) \<and> j < length fs \<and> snd (fs ! j) = c"
proof (induction fs arbitrary: i)
  case (Cons f fs)
  show ?case
  proof (cases "fst f = name")
    case True
    then show ?thesis using Cons.prems by (intro exI[of _ 0]) (auto split: if_splits)
  next
    case False
    then obtain j where "find_file name (i + 1) fs = Some (i + 1 + j)" "j < length fs" "snd (fs ! j) = c"
      using Cons.prems Cons.IH[of "i + 1"] by (auto split: if_splits)
    then show ?thesis using False by (intro exI[of _ "Suc j"]) simp
  qed
qed simp

text \<open>The memory of a receiver after the data and the address were stored.\<close>

lemma received_memory:
  assumes "length d = n" "length ip = 4" "length pt = 2" "raddr + 8 \<le> rbuf \<or> rbuf + n \<le> raddr"
    and m: "m = put_bytes (raddr + 2) pt (put_bytes (raddr + 4) ip (put_bytes rbuf d m0))"
  shows "get_bytes m rbuf n = d" "get_bytes m (raddr + 4) 4 = ip" "get_bytes m (raddr + 2) 2 = pt"
proof -
  have "get_bytes m rbuf n = get_bytes (put_bytes rbuf d m0) rbuf n"
  proof -
    have "raddr + 2 + length pt \<le> rbuf \<or> rbuf + n \<le> raddr + 2" "raddr + 4 + length ip \<le> rbuf \<or> rbuf + n \<le> raddr + 4"
      using assms(2-4) by auto
    then show ?thesis unfolding m by (simp only: get_put_apart)
  qed
  then show "get_bytes m rbuf n = d" by (simp only: get_put_at[OF assms(1)])
  show "get_bytes m (raddr + 4) 4 = ip" "get_bytes m (raddr + 2) 2 = pt"
    unfolding m using assms(2,3) by (simp_all add: get_put_apart get_put_at del: get_put_bytes put_bytes.simps)
qed

text \<open>
  An image is shown as it was written, but a window never grows: an image which is larger than the
  first one is copied past the end of the buffer.
\<close>

lemma sys_msync_first:
  assumes "window_sheet (pp s) = None" "sint (load32 (sys_mem s) (window_addr + 22)) = - h"
    "sint (load32 (sys_mem s) (window_addr + 18)) = w" "0 < h" "h \<le> 2048" "0 \<le> w" "w \<le> 2048"
  shows "\<exists>s' win. sys_msync (of_nat window_addr) s = Ok (0, s') \<and> flushes s' = flushes s @ [(sys_pid s, win)] \<and>
    window_xsize win = w \<and> window_ysize win = h \<and>
    window_buf win = get_bytes (sys_mem s) (window_addr + unat (load32 (sys_mem s) (window_addr + 10))) (nat (w * h * 4))"
proof -
  have "unat (of_nat window_addr :: u64) = window_addr" by (simp add: window_addr_def)
  then show ?thesis using assms by (simp add: sys_msync_def Let_def set_pp_def)
qed

lemma sys_msync_grown:
  assumes "window_sheet (pp s) = Some win" "sint (load32 (sys_mem s) (window_addr + 22)) = - h"
    "sint (load32 (sys_mem s) (window_addr + 18)) = w" "0 < h" "h \<le> 2048" "0 \<le> w" "w \<le> 2048"
    "length (window_buf win) < nat (w * h * 4)"
  shows "sys_msync (of_nat window_addr) s = Fail Out_Of_Bounds"
proof -
  have "unat (of_nat window_addr :: u64) = window_addr" by (simp add: window_addr_def)
  then show ?thesis using assms by (simp add: sys_msync_def Let_def)
qed


definition example_sys :: "u8 \<Rightarrow> sys" where
  "example_sys n = \<lparr>sys_host = (example_host n)\<lparr>arp_table := [[10, 0, 0, 2] \<mapsto> [2, 0, 0, 0, 0, 2]],
       sockets := [\<lparr>sock_pid = 5, sock_fd = 3, listen_port = 12345, sock_type = kUDP\<rparr>]\<rparr>,
     sys_pid = of_nat (4 + unat n), sys_data = (\<lambda>_. \<lparr>num_getdents64_called = 0, idx_in_root_files = 0, read_offset = 0,
       window_sheet = None\<rparr>),
     sys_mem = put_bytes 200 (bytes ''hi'') (put_bytes 100 [2, 0, 0x1F, 0x90, 10, 0, 0, 2] (\<lambda>_. 0)), sys_stdin = RingBuffer_new (replicate 16 0),
     root_files = [(bytes ''a'', bytes ''xyz''), (bytes ''b'', bytes ''hello, world'')], written = [],
     window_maps = [], flushes = []\<rparr>"


text \<open>
  C24: reading a file to its end.  When a process opens a name which the loader information has, and
  then reads with any counts to any buffers, then the data the reads deliver are together the contents
  of the first file of that name, up to the sum of the counts.
\<close>

theorem open_then_read:
  assumes "map_of (root_files s) name = Some c" "name \<noteq> bytes ''.''" "name \<noteq> bytes ''window.bmp''"
  shows "\<exists>s1 ds s2. sys_open name s = (6, s1) \<and> file_reads halt rs s1 = Some (ds, s2) \<and>
    concat ds = take (sum_list (map snd rs)) c"
proof -
  obtain j where j: "find_file name 0 (root_files s) = Some j" "j < length (root_files s)" "snd (root_files s ! j) = c"
    using find_file_map_of[OF assms(1), of 0] by auto
  let ?s = "set_pp (\<lambda>d. d\<lparr>idx_in_root_files := j, read_offset := 0\<rparr>) s"
  have o: "sys_open name s = (6, ?s)" using j(1) assms(2,3) by (auto simp: sys_open_def)
  obtain ds s2 where "file_reads halt rs ?s = Some (ds, s2)" "concat ds = take (sum_list (map snd rs)) (drop 0 c)"
    using file_reads_from[of ?s j c 0 halt rs] j(2,3) by (auto simp: set_pp_def)
  with o show ?thesis by auto
qed

theorem open_then_read_witness:
  "\<exists>s1 ds s2. sys_open (bytes ''b'') (example_sys 1) = (6, s1) \<and>
    file_reads id [(300, 5), (300, 100), (300, 7)] s1 = Some (ds, s2) \<and> concat ds = bytes ''hello, world''"
  using open_then_read[of "example_sys 1" "bytes ''b''" "bytes ''hello, world''" id "[(300, 5), (300, 100), (300, 7)]"]
  by (simp add: example_sys_def bytes_def)

end
