(* ===== verification/Persistent_Memory.thy ===== *)
theory Persistent_Memory
  imports C_Memory
begin

text \<open>
Persistent memory behind the caches: the stores and flushes which the code issues (\<open>CLFlush\<close> of
  \<open>immintrin.h\<close>), and what of them is in the memory after a loss of power.
\<close>

section \<open>Stores, caches and power loss\<close>

text \<open>
  Persistent memory behind a cache.  The processor sees the contents \<open>vol\<close>; a store changes them at
  once, but reaches the memory only when its cache line is written back, by \<open>clflush\<close> or at any time
  by the processor.  The state keeps the stores and flushes which were issued, in order.
\<close>

datatype mem_action = Store nat "u8 list" | Flush nat

record pmem =
  vol :: cmem
  acts :: "mem_action list"

definition pstore :: "nat \<Rightarrow> u8 list \<Rightarrow> pmem \<Rightarrow> pmem" where
  "pstore a bs s = s\<lparr>vol := put_bytes a bs (vol s), acts := acts s @ [Store a bs]\<rparr>"

definition mm_clflush :: "nat \<Rightarrow> pmem \<Rightarrow> pmem" where
  "mm_clflush a s = s\<lparr>acts := acts s @ [Flush a]\<rparr>"

definition CLFlush :: "nat \<Rightarrow> pmem \<Rightarrow> pmem" where
  "CLFlush p s = mm_clflush p s"

definition kCacheLineSize :: nat where "kCacheLineSize = 64"

text \<open>The statistics are the number of the flushed lines.\<close>

definition CLFlush_range :: "nat \<Rightarrow> nat \<Rightarrow> nat \<times> pmem \<Rightarrow> nat \<times> pmem" where
  "CLFlush_range buf sz s =
     fold (\<lambda>i (stat, s). (stat + 1, mm_clflush (buf + kCacheLineSize * i) s)) [0..<(sz + 63) div kCacheLineSize] s"

text \<open>The block of size \<open>n\<close> with number \<open>g\<close> is written back.\<close>

definition write_back :: "nat \<Rightarrow> nat \<Rightarrow> cmem \<Rightarrow> cmem \<Rightarrow> cmem" where
  "write_back n g v p = (\<lambda>k. if k div n = g then v k else p k)"

text \<open>
  The images of the memory which a loss of power can leave: it may come between any two actions, and
  before it, the processor may write back any words at any time.  An aligned word of eight bytes is
  written as a whole.
\<close>

inductive power_loss :: "cmem \<Rightarrow> cmem \<Rightarrow> mem_action list \<Rightarrow> cmem \<Rightarrow> bool" where
  lost: "power_loss v p as p"
| evict: "power_loss v (write_back 8 g v p) as img \<Longrightarrow> power_loss v p as img"
| store: "power_loss (put_bytes a bs v) p as img \<Longrightarrow> power_loss v p (Store a bs # as) img"
| flush: "power_loss v (write_back 64 (a div 64) v p) as img \<Longrightarrow> power_loss v p (Flush a # as) img"

text \<open>Runs to the end of the actions.\<close>

inductive completes :: "cmem \<Rightarrow> cmem \<Rightarrow> mem_action list \<Rightarrow> cmem \<Rightarrow> cmem \<Rightarrow> bool" where
  finished: "completes v p [] v p"
| evict': "completes v (write_back 8 g v p) as v' p' \<Longrightarrow> completes v p as v' p'"
| store': "completes (put_bytes a bs v) p as v' p' \<Longrightarrow> completes v p (Store a bs # as) v' p'"
| flush': "completes v (write_back 64 (a div 64) v p) as v' p' \<Longrightarrow> completes v p (Flush a # as) v' p'"

primrec act_vol :: "mem_action \<Rightarrow> cmem \<Rightarrow> cmem" where
  "act_vol (Store a bs) v = put_bytes a bs v"
| "act_vol (Flush a) v = v"

primrec stored :: "nat \<Rightarrow> mem_action \<Rightarrow> bool" where
  "stored k (Store a bs) \<longleftrightarrow> a \<le> k \<and> k < a + length bs"
| "stored k (Flush a) \<longleftrightarrow> False"

section \<open>Facts\<close>

lemma completes_vol: "completes v p as v' p' \<Longrightarrow> v' = fold act_vol as v"
  by (induction rule: completes.induct) simp_all

text \<open>A loss of power is in the first or in the second part of the actions.\<close>

lemma power_loss_append:
  "power_loss v p (as @ bs) img \<Longrightarrow>
     power_loss v p as img \<or> (\<exists>v' p'. completes v p as v' p' \<and> power_loss v' p' bs img)"
proof (induction v p "as @ bs" img arbitrary: as rule: power_loss.induct)
  case (lost v p)
  then show ?case by (auto intro: power_loss.lost)
next
  case (evict v g p img)
  then show ?case by (blast intro: power_loss.evict evict')
next
  case (store a xs v p as' img)
  show ?case
  proof (cases as)
    case Nil
    then have "power_loss v p bs img" using store power_loss.store by (metis append_Nil)
    then show ?thesis using Nil finished by blast
  next
    case (Cons x ys)
    then have "x = Store a xs" "as' = ys @ bs" using store.hyps by auto
    then show ?thesis using store.hyps(2)[of ys] Cons by (blast intro: power_loss.store store')
  qed
next
  case (flush v a p as' img)
  show ?case
  proof (cases as)
    case Nil
    then have "power_loss v p bs img" using flush power_loss.flush by (metis append_Nil)
    then show ?thesis using Nil finished by blast
  next
    case (Cons x ys)
    then have "x = Flush a" "as' = ys @ bs" using flush.hyps by auto
    then show ?thesis using flush.hyps(2)[of ys] Cons by (blast intro: power_loss.flush flush')
  qed
qed

text \<open>A byte which is not stored keeps its value, or the one the processor sees is written back.\<close>

lemma power_loss_untouched:
  "power_loss v p as img \<Longrightarrow> \<forall>x\<in>set as. \<not> stored k x \<Longrightarrow> img k = p k \<or> img k = v k"
  by (induction rule: power_loss.induct) (auto simp: write_back_def put_bytes_at split: if_splits)

lemma completes_untouched:
  "completes v p as v' p' \<Longrightarrow> \<forall>x\<in>set as. \<not> stored k x \<Longrightarrow> v' k = v k \<and> (p' k = p k \<or> p' k = v k)"
  by (induction rule: completes.induct) (auto simp: write_back_def put_bytes_at split: if_splits)

text \<open>A byte whose line is flushed, and which is not stored, is in the memory at the end.\<close>

lemma completes_flushed:
  "completes v p as v' p' \<Longrightarrow> \<forall>x\<in>set as. \<not> stored k x \<Longrightarrow>
     (\<exists>a. Flush a \<in> set as \<and> a div 64 = k div 64) \<or> p k = v k \<Longrightarrow> p' k = v k"
proof (induction rule: completes.induct)
  case (flush' v a p as v' p')
  then show ?case by (cases "a div 64 = k div 64") (auto simp: write_back_def)
next
  case (store' a bs v p as v' p')
  then have "put_bytes a bs v k = v k" by (auto simp: put_bytes_at)
  then show ?case using store' by auto
qed (auto simp: write_back_def split: if_splits)

text \<open>Actions can be completed, and without evictions nothing is written back but what is flushed.\<close>

lemma completes_exists:
  "\<exists>p'. completes v p as (fold act_vol as v) p' \<and>
     (\<forall>k. (\<forall>a. Flush a \<in> set as \<longrightarrow> a div 64 \<noteq> k div 64) \<longrightarrow> p' k = p k)"
proof (induction as arbitrary: v p)
  case Nil
  then show ?case using finished by auto
next
  case (Cons x xs)
  show ?case
  proof (cases x)
    case (Store a bs)
    obtain p' where p': "completes (put_bytes a bs v) p xs (fold act_vol xs (put_bytes a bs v)) p'"
      "\<forall>k. (\<forall>a. Flush a \<in> set xs \<longrightarrow> a div 64 \<noteq> k div 64) \<longrightarrow> p' k = p k"
      using Cons by blast
    then show ?thesis using store'[OF p'(1)] Store by (intro exI[of _ p']) auto
  next
    case (Flush a)
    obtain p' where p': "completes v (write_back 64 (a div 64) v p) xs (fold act_vol xs v) p'"
      "\<forall>k. (\<forall>a. Flush a \<in> set xs \<longrightarrow> a div 64 \<noteq> k div 64) \<longrightarrow> p' k = write_back 64 (a div 64) v p k"
      using Cons by blast
    then show ?thesis using flush'[OF p'(1)] Flush by (intro exI[of _ p']) (auto simp: write_back_def)
  qed
qed

lemma completes_append:
  "completes v p (as @ bs) v' p' \<Longrightarrow> \<exists>v1 p1. completes v p as v1 p1 \<and> completes v1 p1 bs v' p'"
proof (induction v p "as @ bs" v' p' arbitrary: as rule: completes.induct)
  case (store' a xs v p as' v' p')
  then show ?case by (cases as) (use finished completes.store' in \<open>fastforce+\<close>)
next
  case (flush' v a p as' v' p')
  then show ?case by (cases as) (use finished completes.flush' in \<open>fastforce+\<close>)
next
  case (evict' v g p v' p')
  then show ?case by (blast intro: completes.evict')
qed (use finished in auto)

lemma completes_power_loss: "completes v p as v' p' \<Longrightarrow> power_loss v p as p'"
  by (induction rule: completes.induct) (auto intro: power_loss.intros)

text \<open>The lines which a range flush issues.\<close>

lemma CLFlush_range_eq:
  "CLFlush_range buf sz (stat, s) = (stat + (sz + 63) div 64,
     s\<lparr>acts := acts s @ map (\<lambda>i. Flush (buf + 64 * i)) [0..<(sz + 63) div 64]\<rparr>)"
proof -
  have "fold (\<lambda>i (stat, s). (stat + 1, mm_clflush (buf + kCacheLineSize * i) s)) [0..<n] (stat, s) =
    (stat + n, s\<lparr>acts := acts s @ map (\<lambda>i. Flush (buf + 64 * i)) [0..<n]\<rparr>)" for n
    by (induction n) (simp_all add: mm_clflush_def kCacheLineSize_def)
  then show ?thesis unfolding CLFlush_range_def kCacheLineSize_def .
qed

text \<open>It covers a range whose last byte is in the last of these lines.\<close>

lemma CLFlush_range_covers:
  fixes buf k sz :: nat
  assumes "buf \<le> k" "k < buf + sz" "buf mod 64 + (sz - 1) mod 64 < 64"
  shows "\<exists>i < (sz + 63) div 64. (buf + 64 * i) div 64 = k div 64"
proof (intro exI conjI)
  let ?i = "k div 64 - buf div 64"
  have le: "buf div 64 \<le> k div 64" using assms(1) by (rule div_le_mono)
  then show "(buf + 64 * ?i) div 64 = k div 64" by simp
  have "k div 64 \<le> (buf + (sz - 1)) div 64" using assms(2) by (intro div_le_mono) simp
  also have "\<dots> = buf div 64 + (sz - 1) div 64" using assms(3) by (subst div_add1_eq) simp
  finally have "?i \<le> (sz - 1) div 64" by (simp only: le_diff_conv add.commute)
  moreover have "(sz + 63) div 64 = (sz - 1) div 64 + 1"
  proof -
    have "sz + 63 = (sz - 1) + 64" using assms(1,2) by simp
    then show ?thesis by (simp only: div_add_self2)
  qed
  ultimately show "?i < (sz + 63) div 64" by simp
qed

section \<open>Words in memory\<close>

definition u64_bytes :: "u64 \<Rightarrow> u8 list" where
  "u64_bytes x = map (\<lambda>i. ucast (drop_bit (8 * i) x)) [0..<8]"

definition u32_bytes :: "u32 \<Rightarrow> u8 list" where
  "u32_bytes x = map (\<lambda>i. ucast (drop_bit (8 * i) x)) [0..<4]"

definition ld64 :: "cmem \<Rightarrow> nat \<Rightarrow> u64" where
  "ld64 m a = foldr (\<lambda>b w. push_bit 8 w OR ucast b) (get_bytes m a 8) 0"

definition ld32 :: "cmem \<Rightarrow> nat \<Rightarrow> u32" where
  "ld32 m a = foldr (\<lambda>b w. push_bit 8 w OR ucast b) (get_bytes m a 4) 0"

definition st64 :: "nat \<Rightarrow> u64 \<Rightarrow> pmem \<Rightarrow> pmem" where
  "st64 a x s = pstore a (u64_bytes x) s"

lemma bytes_of_length [simp]: "length (u64_bytes x) = 8" "length (u32_bytes y) = 4"
  by (simp_all add: u64_bytes_def u32_bytes_def)

lemma bit_of_bytes:
  fixes bs :: "u8 list"
  assumes "n < LENGTH('w)"
  shows "bit (foldr (\<lambda>b w. push_bit 8 w OR ucast b) bs 0 :: 'w :: len word) n \<longleftrightarrow> n div 8 < length bs \<and> bit (bs ! (n div 8)) (n mod 8)"
  using assms
proof (induction bs arbitrary: n)
  case (Cons b bs)
  show ?case
  proof (cases "n < 8")
    case True
    then show ?thesis using Cons.prems by (simp add: bit_or_iff bit_push_bit_iff bit_ucast_iff)
  next
    case False
    then have d: "n div 8 = Suc ((n - 8) div 8)" "n mod 8 = (n - 8) mod 8" by (simp_all add: div_if mod_if)
    have "\<not> bit b n" using False by (auto dest: bit_imp_le_length)
    then show ?thesis using False Cons.prems Cons.IH[of "n - 8"] by (simp add: d bit_or_iff bit_push_bit_iff bit_ucast_iff)
  qed
qed simp

lemma ld64_bytes:
  assumes "get_bytes m a 8 = u64_bytes x"
  shows "ld64 m a = x"
proof (rule bit_word_eqI)
  fix n
  assume n: "n < LENGTH(64)"
  have "8 * (n div 8) + n mod 8 = n" by simp
  then show "bit (ld64 m a) n = bit x n"
    using n unfolding ld64_def assms by (subst bit_of_bytes) (auto simp: u64_bytes_def bit_ucast_iff bit_drop_bit_eq less_mult_imp_div_less)
qed

lemma ld32_bytes:
  assumes "get_bytes m a 4 = u32_bytes x"
  shows "ld32 m a = x"
proof (rule bit_word_eqI)
  fix n
  assume n: "n < LENGTH(32)"
  have "8 * (n div 8) + n mod 8 = n" by simp
  then show "bit (ld32 m a) n = bit x n"
    using n unfolding ld32_def assms by (subst bit_of_bytes) (auto simp: u32_bytes_def bit_ucast_iff bit_drop_bit_eq less_mult_imp_div_less)
qed

lemma ld64_cong: "(\<And>i. i < 8 \<Longrightarrow> m (a + i) = m' (a + i)) \<Longrightarrow> ld64 m a = ld64 m' a"
  unfolding ld64_def by (rule arg_cong[where f = "\<lambda>bs. foldr _ bs 0"]) (auto intro: nth_equalityI)

lemma ld32_cong: "(\<And>i. i < 4 \<Longrightarrow> m (a + i) = m' (a + i)) \<Longrightarrow> ld32 m a = ld32 m' a"
  unfolding ld32_def by (rule arg_cong[where f = "\<lambda>bs. foldr _ bs 0"]) (auto intro: nth_equalityI)

lemma ld64_put_same: "ld64 (put_bytes a (u64_bytes x) m) a = x"
  by (rule ld64_bytes) (metis bytes_of_length(1) get_put_bytes)

lemma ld64_put_other: "a + length bs \<le> b \<or> b + 8 \<le> a \<Longrightarrow> ld64 (put_bytes a bs m) b = ld64 m b"
  by (rule ld64_cong) (auto simp: put_bytes_at)

lemma ld32_put_other: "a + length bs \<le> b \<or> b + 4 \<le> a \<Longrightarrow> ld32 (put_bytes a bs m) b = ld32 m b"
  by (rule ld32_cong) (auto simp: put_bytes_at)

lemma ld_zero: "ld64 (\<lambda>_. 0) a = 0" "ld32 (\<lambda>_. 0) a = 0"
  by (simp_all add: ld64_def ld32_def get_bytes_def upt_rec)

section \<open>Actions of the operations\<close>

text \<open>From \<open>s\<close> to \<open>s'\<close> by the actions \<open>as\<close>.\<close>

definition acts_to :: "pmem \<Rightarrow> mem_action list \<Rightarrow> pmem \<Rightarrow> bool" where
  "acts_to s as s' \<longleftrightarrow> acts s' = acts s @ as \<and> vol s' = fold act_vol as (vol s)"

lemma acts_to_refl: "acts_to s [] s"
  by (simp add: acts_to_def)

lemma acts_to_trans: "acts_to s as s1 \<Longrightarrow> acts_to s1 bs s2 \<Longrightarrow> acts_to s (as @ bs) s2"
  by (simp add: acts_to_def)

lemma acts_to_pstore: "acts_to s [Store a bs] (pstore a bs s)"
  by (simp add: acts_to_def pstore_def)

lemma acts_to_flush: "acts_to s [Flush a] (CLFlush a s)"
  by (simp add: acts_to_def CLFlush_def mm_clflush_def)

lemma acts_to_flushes:
  assumes "\<forall>x\<in>set fl. \<exists>a. x = Flush a"
  shows "acts_to s fl (s\<lparr>acts := acts s @ fl\<rparr>)"
proof -
  have "fold act_vol fl v = v" for v using assms by (induction fl) auto
  then show ?thesis by (simp add: acts_to_def)
qed

text \<open>A list of stores of single bytes in a region.\<close>

definition stores_in :: "nat set \<Rightarrow> mem_action list \<Rightarrow> bool" where
  "stores_in R as \<longleftrightarrow> (\<forall>x\<in>set as. \<exists>a bs. x = Store a bs \<and> {a..<a + length bs} \<subseteq> R)"

lemma stores_in_append [simp]: "stores_in R (as @ bs) \<longleftrightarrow> stores_in R as \<and> stores_in R bs"
  by (auto simp: stores_in_def)

lemma stores_in_mono: "stores_in R as \<Longrightarrow> R \<subseteq> R' \<Longrightarrow> stores_in R' as"
  unfolding stores_in_def by (meson order_trans)

lemma stores_in_untouched: "stores_in R as \<Longrightarrow> k \<notin> R \<Longrightarrow> \<forall>x\<in>set as. \<not> stored k x"
  by (fastforce simp: stores_in_def)

lemma fold_vol_untouched: "\<forall>x\<in>set as. \<not> stored k x \<Longrightarrow> fold act_vol as v k = v k"
proof (induction as arbitrary: v)
  case (Cons x xs)
  then have "act_vol x v k = v k" by (cases x) (auto simp: put_bytes_at)
  then show ?case using Cons by simp
qed simp

lemma memcpy_p_unread:
  assumes "acts_to s as s'" "stores_in R as" "k \<notin> R"
  shows "vol s' k = vol s k"
  using assms fold_vol_untouched[OF stores_in_untouched[OF assms(2,3)]] by (simp add: acts_to_def)

lemma ld64_unread:
  assumes "acts_to s as s'" "stores_in R as" "{a..<a + 8} \<inter> R = {}"
  shows "ld64 (vol s') a = ld64 (vol s) a"
  by (rule ld64_cong, rule memcpy_p_unread[OF assms(1,2)]) (use assms(3) in \<open>auto simp: disjoint_iff\<close>)

lemma ld32_unread:
  assumes "acts_to s as s'" "stores_in R as" "{a..<a + 4} \<inter> R = {}"
  shows "ld32 (vol s') a = ld32 (vol s) a"
  by (rule ld32_cong, rule memcpy_p_unread[OF assms(1,2)]) (use assms(3) in \<open>auto simp: disjoint_iff\<close>)

section \<open>Committing a word\<close>

lemma power_loss_word:
  "power_loss v p as img \<Longrightarrow> \<forall>x\<in>set as. \<forall>k\<in>R. \<not> stored k x \<Longrightarrow> \<forall>k\<in>R. k div 8 = g \<Longrightarrow>
     (\<forall>k\<in>R. img k = p k) \<or> (\<forall>k\<in>R. img k = v k)"
proof (induction rule: power_loss.induct)
  case (evict v g' p as img)
  then show ?case by (cases "g' = g") (auto simp: write_back_def)
next
  case (store a bs v p as img)
  then have "\<forall>k\<in>R. put_bytes a bs v k = v k" by (auto simp: put_bytes_at)
  then show ?case using store by auto
next
  case (flush v a p as img)
  have "k div 64 = g div 8" if "k \<in> R" for k
    using flush.prems(2) that div_mult2_eq[of k 8 8] by simp
  then show ?case using flush by (cases "a div 64 = g div 8") (auto simp: write_back_def)
qed simp

text \<open>After one store to a word, it has its old or its new contents.\<close>

lemma power_loss_commit:
  assumes "power_loss v p (Store q bs # as) img" "\<forall>x\<in>set as. \<forall>k\<in>{q..<q + length bs}. \<not> stored k x"
    "\<forall>k\<in>{q..<q + length bs}. k div 8 = g" "\<forall>k\<in>{q..<q + length bs}. p k = v k"
  shows "(\<forall>k\<in>{q..<q + length bs}. img k = v k) \<or> (\<forall>k\<in>{q..<q + length bs}. img k = bs ! (k - q))"
  using assms
proof (induction v p "Store q bs # as" img rule: power_loss.induct)
  case (evict v g' p img)
  then show ?case by (auto simp: write_back_def)
next
  case (store v p img)
  from power_loss_word[OF store.hyps(1) store.prems(1,2)] show ?case
    using store.prems(3) by (auto simp: put_bytes_at)
qed simp

lemma power_loss_new:
  assumes "completes v p [Store q bs, Flush q] v' p'" "\<forall>k\<in>{q..<q + length bs}. k div 8 = g" "power_loss v' p' as img"
    "\<forall>x\<in>set as. \<forall>k\<in>{q..<q + length bs}. \<not> stored k x" "k \<in> {q..<q + length bs}"
  shows "img k = bs ! (k - q)"
proof -
  have line: "q div 64 = k div 64"
  proof -
    have "q \<in> {q..<q + length bs}" using assms(5) by auto
    then have "q div 8 = k div 8" using assms(2,5) by metis
    then show ?thesis using div_mult2_eq[of k 8 8] div_mult2_eq[of q 8 8] by simp
  qed
  have v': "v' k = bs ! (k - q)" using completes_vol[OF assms(1)] assms(5) by (simp add: put_bytes_at)
  have "p' k = v' k"
    using assms(1) v' line assms(5)
  proof (induction v p "[Store q bs, Flush q]" v' p' rule: completes.induct)
    case (store' v p v' p')
    from completes_flushed[OF store'.hyps(1), of k] show ?case
      using store'.prems by (auto simp: put_bytes_at)
  qed simp
  then show ?thesis using power_loss_untouched[OF assms(3), of k] assms(4,5) v' by auto
qed

end
