(* ===== verification/Dirty_Pages.thy ===== *)
theory Dirty_Pages
  imports Persistent_Memory Page_Mapping
begin

text \<open>
\<open>FlushDirtyPages\<close> of \<open>paging.cc\<close>: its nested loops over the four levels of tables, a walk page by page
  which they are equal to, and what a flush of a range does to the tables and to the memory.
\<close>

section \<open>Flushing the dirty pages of a range\<close>

text \<open>The page tables, the number of flushed lines so far, and the memory.\<close>

type_synonym flush_state = "ptmem \<times> nat \<times> pmem"

definition flush_pte :: "u64 \<Rightarrow> u64 \<Rightarrow> u64 \<Rightarrow> flush_state \<Rightarrow> flush_state" where
  "flush_pte pam pt vaddr st = (case st of (m, s) \<Rightarrow>
     let i = addr2index PT vaddr; pte = m pt i in
     if IsDirty pte then
       (put_entry pt i (ClearDirtyBit pte) m, CLFlush_range (unat (GetPageBaseAddr pam PT pte)) (unat (kChunkSize PT)) s)
     else st)"

function flush_pt_loop :: "u64 \<Rightarrow> u64 \<Rightarrow> nat \<Rightarrow> u64 \<Rightarrow> u64 \<Rightarrow> flush_state \<Rightarrow> u64 \<times> u64 \<times> flush_state" where
  "flush_pt_loop pam pt pt_idx vaddr num st =
     (if num \<noteq> 0 \<and> pt_idx < kNumOfEntries then
        flush_pt_loop pam pt (pt_idx + 1) (vaddr + 0x1000) (num - 1) (flush_pte pam pt vaddr st)
      else (vaddr, num, st))"
  by auto
termination
  by (relation "measure (\<lambda>(pam, pt, pt_idx, _). kNumOfEntries - pt_idx)") auto

function flush_pdt_loop :: "u64 \<Rightarrow> u64 \<Rightarrow> nat \<Rightarrow> u64 \<Rightarrow> u64 \<Rightarrow> flush_state \<Rightarrow> (u64 \<times> u64 \<times> flush_state) res" where
  "flush_pdt_loop pam pdt pdt_idx vaddr num st =
     (if num \<noteq> 0 \<and> pdt_idx < kNumOfEntries then
        let pdte = GetEntryForAddr (fst st) PDT pdt vaddr in
        if \<not> IsPresent pdte then Fail (Panic ''Not mapped'')
        else if IsPage PDT pdte then Fail (Panic ''Page overwrapping at pdte'')
        else
          (case flush_pt_loop pam (GetTableAddr pam PDT pdte) (addr2index PT vaddr) vaddr num st of
             (vaddr, num, st) \<Rightarrow> flush_pdt_loop pam pdt (pdt_idx + 1) vaddr num st)
      else Ok (vaddr, num, st))"
  by auto
termination
  by (relation "measure (\<lambda>(pam, pdt, pdt_idx, _). kNumOfEntries - pdt_idx)") auto

function flush_pdpt_loop :: "u64 \<Rightarrow> u64 \<Rightarrow> nat \<Rightarrow> u64 \<Rightarrow> u64 \<Rightarrow> flush_state \<Rightarrow> (u64 \<times> u64 \<times> flush_state) res" where
  "flush_pdpt_loop pam pdpt pdpt_idx vaddr num st =
     (if num \<noteq> 0 \<and> pdpt_idx < kNumOfEntries then
        let pdpte = GetEntryForAddr (fst st) PDPT pdpt vaddr in
        if \<not> IsPresent pdpte then Fail (Panic ''Not mapped'')
        else if IsPage PDPT pdpte then Fail (Panic ''Page overwrapping at pdpte'')
        else
          bind_res (flush_pdt_loop pam (GetTableAddr pam PDPT pdpte) (addr2index PDT vaddr) vaddr num st)
            (\<lambda>(vaddr, num, st). flush_pdpt_loop pam pdpt (pdpt_idx + 1) vaddr num st)
      else Ok (vaddr, num, st))"
  by auto
termination
  by (relation "measure (\<lambda>(pam, pdpt, pdpt_idx, _). kNumOfEntries - pdpt_idx)") auto

text \<open>The outermost loop does not look at the number of pages left.\<close>

function flush_pml4_loop :: "u64 \<Rightarrow> u64 \<Rightarrow> nat \<Rightarrow> u64 \<Rightarrow> u64 \<Rightarrow> flush_state \<Rightarrow> (u64 \<times> u64 \<times> flush_state) res" where
  "flush_pml4_loop pam pml4 pml4_idx vaddr num st =
     (if pml4_idx < kNumOfEntries then
        let pml4e = GetEntryForAddr (fst st) PML4 pml4 vaddr in
        if \<not> IsPresent pml4e then Fail (Panic ''Not mapped'')
        else
          bind_res (flush_pdpt_loop pam (GetTableAddr pam PML4 pml4e) (addr2index PDPT vaddr) vaddr num st)
            (\<lambda>(vaddr, num, st). flush_pml4_loop pam pml4 (pml4_idx + 1) vaddr num st)
      else Ok (vaddr, num, st))"
  by auto
termination
  by (relation "measure (\<lambda>(pam, pml4, pml4_idx, _). kNumOfEntries - pml4_idx)") auto

declare flush_pt_loop.simps [simp del] flush_pdt_loop.simps [simp del]
  flush_pdpt_loop.simps [simp del] flush_pml4_loop.simps [simp del]

definition FlushDirtyPages :: "u64 \<Rightarrow> u64 \<Rightarrow> u64 \<Rightarrow> u64 \<Rightarrow> flush_state \<Rightarrow> flush_state res" where
  "FlushDirtyPages pam pml4 vaddr byte_size st =
     (if vaddr AND kPageAddrMask \<noteq> 0 then Fail Assert_Failed
      else map_sum id (\<lambda>(_, _, st). st)
        (flush_pml4_loop pam pml4 (addr2index PML4 vaddr) vaddr (ByteSizeToPageSize byte_size) st))"

section \<open>Page by page\<close>

text \<open>The reference: for every page the tables are walked from the top.\<close>

fun overwrapping :: "pt_level \<Rightarrow> string" where
  "overwrapping PDT = ''Page overwrapping at pdte''"
| "overwrapping PDPT = ''Page overwrapping at pdpte''"
| "overwrapping _ = ''''"

function walk_pt :: "u64 \<Rightarrow> ptmem \<Rightarrow> pt_level \<Rightarrow> u64 \<Rightarrow> u64 \<Rightarrow> u64 res" where
  "walk_pt pam m l t vaddr =
     (if l = PT then Ok t
      else
        let e = GetEntryForAddr m l t vaddr in
        if \<not> IsPresent e then Fail (Panic ''Not mapped'')
        else if IsPage l e then Fail (Panic (overwrapping l))
        else walk_pt pam m (NextTableType l) (GetTableAddr pam l e) vaddr)"
  by auto
termination
proof (relation "measure (\<lambda>(pam, m, l, t, vaddr). level_rank l)", goal_cases)
  case (2 pam m l t vaddr e)
  then show ?case by (cases l) auto
qed simp

declare walk_pt.simps [simp del]

primrec flush_pages :: "u64 \<Rightarrow> pt_level \<Rightarrow> u64 \<Rightarrow> nat \<Rightarrow> u64 \<Rightarrow> flush_state \<Rightarrow> flush_state res" where
  "flush_pages pam l t 0 vaddr st = Ok st"
| "flush_pages pam l t (Suc n) vaddr st =
     bind_res (walk_pt pam (fst st) l t vaddr) (\<lambda>pt. flush_pages pam l t n (vaddr + 0x1000) (flush_pte pam pt vaddr st))"

section \<open>The loops and the reference agree\<close>

lemma flush_pages_add:
  "flush_pages pam l t (a + b) vaddr st =
     bind_res (flush_pages pam l t a vaddr st) (flush_pages pam l t b (shift_addr vaddr (4096 * a)))"
proof (induction a arbitrary: vaddr st)
  case (Suc a)
  have "shift_addr (vaddr + 0x1000) (4096 * a) = shift_addr vaddr (4096 * Suc a)"
    by (simp add: shift_addr_def algebra_simps)
  then show ?case using Suc by (auto simp: bind_res_assoc intro!: arg_cong2[where f = bind_res])
qed simp

text \<open>Clearing dirty bits changes no walk.\<close>

definition same_tables :: "ptmem \<Rightarrow> ptmem \<Rightarrow> bool" where
  "same_tables m m' \<longleftrightarrow> (\<forall>t i. m t i AND NOT (push_bit 6 1) = m' t i AND NOT (push_bit 6 1))"

lemma same_tables_bits: "same_tables m m' \<Longrightarrow> n \<noteq> 6 \<Longrightarrow> bit (m t i) n = bit (m' t i) n"
proof -
  assume a: "same_tables m m'" "n \<noteq> 6"
  have "bit (x AND NOT (push_bit 6 1)) n = bit x n" for x :: u64
    using a(2) unfolding bit_and_iff bit_not_iff bit_push_bit_iff bit_1_iff by (auto dest: bit_imp_le_length)
  then show ?thesis using a(1) unfolding same_tables_def by metis
qed

lemma same_entry:
  assumes "same_tables m m'"
  shows "IsPresent (m t i) = IsPresent (m' t i)" "IsPage l (m t i) = IsPage l (m' t i)"
    "GetTableAddr pam l (m t i) = GetTableAddr pam l (m' t i)"
proof -
  note b = same_tables_bits[OF assms]
  show "IsPresent (m t i) = IsPresent (m' t i)" by (simp add: IsPresent_bit b)
  show p: "IsPage l (m t i) = IsPage l (m' t i)" by (simp add: IsPage_bit b)
  have "m t i AND pam AND NOT kPageAddrMask = m' t i AND pam AND NOT kPageAddrMask"
  proof (rule bit_word_eqI)
    fix n
    assume "n < LENGTH(64)"
    then show "bit (m t i AND pam AND NOT kPageAddrMask) n = bit (m' t i AND pam AND NOT kPageAddrMask) n"
      using b[of n t i] by (cases "n = 6") (auto simp: kPageAddrMask_eq bit_simps)
  qed
  then show "GetTableAddr pam l (m t i) = GetTableAddr pam l (m' t i)" by (simp add: GetTableAddr_def p)
qed

lemma walk_pt_same:
  assumes "same_tables m m'"
  shows "walk_pt pam m l t va = walk_pt pam m' l t va"
  by (induction l arbitrary: t rule: level_induct)
    (simp_all add: walk_pt.simps[of pam m] walk_pt.simps[of pam m'] same_entry[OF assms] GetEntryForAddr_def Let_def)

lemma flush_pte_same: "same_tables (fst st) (fst (flush_pte pam pt va st))"
  by (cases st) (auto simp: flush_pte_def same_tables_def put_entry_def ClearDirtyBit_def and.assoc Let_def)

lemma same_tables_trans: "same_tables a b \<Longrightarrow> same_tables b c \<Longrightarrow> same_tables a c"
  by (simp add: same_tables_def)

text \<open>Within what one entry covers, the walk passes through it.\<close>

lemma walk_through:
  assumes "l \<noteq> PT" "e = GetEntryForAddr m l t va" "IsPresent e" "\<not> IsPage l e" "addr2index l va' = addr2index l va"
    "same_tables m m'"
  shows "walk_pt pam m' l t va' = walk_pt pam m' (NextTableType l) (GetTableAddr pam l e) va'"
  using assms(1,3-5) unfolding assms(2)
  by (subst walk_pt.simps) (simp add: GetEntryForAddr_def Let_def same_entry[OF assms(6)])

lemma flush_pages_descend:
  assumes "l \<noteq> PT" "e = GetEntryForAddr (fst st0) l t va0" "IsPresent e" "\<not> IsPage l e" "4096 dvd unat va0"
    and "a + k \<le> chunk_room l va0" "va = shift_addr va0 (4096 * a)" "same_tables (fst st0) (fst st)"
  shows "flush_pages pam l t k va st = flush_pages pam (NextTableType l) (GetTableAddr pam l e) k va st"
  using assms(6-8)
proof (induction k arbitrary: a va st)
  case (Suc k)
  have "addr2index l va = addr2index l va0"
  proof -
    have r: "reg l va0 mod 2 ^ kIndexShift l + 4096 * a < 2 ^ kIndexShift l"
    proof -
      have "4096 * (a + 1) \<le> 4096 * chunk_room l va0" using Suc.prems(1) by simp
      also have "\<dots> = 2 ^ kIndexShift l - reg l va0 mod 2 ^ kIndexShift l"
        using room_mult[OF assms(5), of "NextTableType l"]
        by (simp only: chunk_room_next[OF assms(1)] span_next[OF assms(1)] reg_next[OF assms(1)])
      finally show ?thesis by simp
    qed
    have u: "4096 * a < 2 ^ 64"
    proof -
      have "(2 :: nat) ^ kIndexShift l \<le> 2 ^ 63" by (cases l) simp_all
      then show ?thesis using r by simp
    qed
    obtain q where q: "reg l va0 = addr2index l va0 * 2 ^ kIndexShift l + q" "q = reg l va0 mod 2 ^ kIndexShift l"
      using div_mult_mod_eq[of "reg l va0" "2 ^ kIndexShift l"] by (metis addr2index_reg)
    have "addr2index l va0 * 2 ^ kIndexShift l + q + 4096 * a < span l"
    proof -
      have "addr2index l va0 + 1 \<le> 512" using addr2index_less[of l va0] by linarith
      from mult_le_mono1[OF this, of "2 ^ kIndexShift l"]
      have "addr2index l va0 * 2 ^ kIndexShift l + 2 ^ kIndexShift l \<le> 512 * 2 ^ kIndexShift l" by simp
      then show ?thesis unfolding span_shift using r[folded q(2)] by linarith
    qed
    then have "reg l va = addr2index l va0 * 2 ^ kIndexShift l + (q + 4096 * a)"
      using reg_shift[OF u, of l va0] q(1) Suc.prems(2) by simp
    then show ?thesis using r q(2) by (simp add: addr2index_reg[of l va])
  qed
  then have w: "walk_pt pam (fst st) l t va = walk_pt pam (fst st) (NextTableType l) (GetTableAddr pam l e) va"
    using walk_through[OF assms(1-4)] Suc.prems(3) by simp
  have "va + 0x1000 = shift_addr va0 (4096 * (a + 1))" using Suc.prems(2) by (simp add: shift_addr_def)
  moreover have "same_tables (fst st0) (fst (flush_pte pam pt va st))" for pt
    using same_tables_trans[OF Suc.prems(3) flush_pte_same] .
  ultimately have "flush_pages pam l t k (va + 0x1000) (flush_pte pam pt va st) =
      flush_pages pam (NextTableType l) (GetTableAddr pam l e) k (va + 0x1000) (flush_pte pam pt va st)" for pt
    using Suc.IH[of "a + 1" "va + 0x1000"] Suc.prems(1) by simp
  then show ?case by (simp add: w)
qed simp

definition after_pages :: "nat \<Rightarrow> u64 \<Rightarrow> u64 \<Rightarrow> flush_state \<Rightarrow> (u64 \<times> u64 \<times> flush_state) res" where
  "after_pages k va n st = Ok (shift_addr va (4096 * k), n - of_nat k, st)"

definition by_pages :: "u64 \<Rightarrow> pt_level \<Rightarrow> u64 \<Rightarrow> nat \<Rightarrow> u64 \<Rightarrow> u64 \<Rightarrow> flush_state \<Rightarrow> (u64 \<times> u64 \<times> flush_state) res" where
  "by_pages pam l t idx va n st =
     bind_res (flush_pages pam l t (pages l idx va n) va st) (after_pages (pages l idx va n) va n)"

lemma by_pages_end: "n = 0 \<or> \<not> idx < 512 \<Longrightarrow> by_pages pam l t idx va n st = Ok (va, n, st)"
  by (auto simp: by_pages_def pages_def after_pages_def)

text \<open>One iteration of a loop, for the pages below one entry, followed by the remaining iterations.\<close>

lemma by_pages_step:
  assumes al: "4096 dvd unat va" and i: "addr2index l va = idx" and n: "n \<noteq> 0"
    and k: "k = min (unat n) (chunk_room l va)"
    and child: "child = bind_res (flush_pages pam l t k va st) (after_pages k va n)"
    and rest: "\<And>va1 n1 st1. \<lbrakk>4096 dvd unat va1; idx + 1 < 512 \<longrightarrow> n1 \<noteq> 0 \<longrightarrow> addr2index l va1 = idx + 1\<rbrakk> \<Longrightarrow>
      loop va1 n1 st1 = by_pages pam l t (idx + 1) va1 n1 st1"
  shows "bind_res child (\<lambda>(va, n, st). loop va n st) = by_pages pam l t idx va n st"
proof -
  let ?va = "shift_addr va (4096 * k)" and ?n = "n - of_nat k"
  have k64: "k \<le> unat n" using k by simp
  have "unat (of_nat k :: u64) = k"
    unfolding unat_of_nat by (rule mod_less) (use k64 unsigned_less[of n, where ?'a = nat] in simp)
  then have n1: "unat ?n = unat n - k" using k64 by (simp add: unat_sub_if')
  note s = pages_step[OF al i n k n1]
  have al1: "4096 dvd unat ?va" using al by (simp add: shift_addr_def unat_word_ariths unat_of_nat dvd_mod dvd_add)
  have p: "pages l idx va n = k + pages l (idx + 1) ?va ?n"
    using s(1) i addr2index_less[of l va] by (simp add: pages_def)
  have "loop ?va ?n st1 = by_pages pam l t (idx + 1) ?va ?n st1" for st1
    by (rule rest[OF al1]) (use s(2) in simp)
  then show ?thesis
    unfolding child by_pages_def p flush_pages_add bind_res_assoc after_pages_def
    by (simp add: algebra_simps)
qed

lemma flush_pt_loop_pages:
  "\<lbrakk>4096 dvd unat va; idx < 512 \<longrightarrow> n \<noteq> 0 \<longrightarrow> addr2index PT va = idx\<rbrakk> \<Longrightarrow>
     Ok (flush_pt_loop pam pt idx va n st) = by_pages pam PT pt idx va n st"
proof (induction "512 - idx" arbitrary: idx va n st rule: less_induct)
  case less
  show ?case
  proof (cases "n \<noteq> 0 \<and> idx < 512")
    case True
    let ?child = "after_pages 1 va n (flush_pte pam pt va st)"
    have rest: "\<lbrakk>4096 dvd unat va1; idx + 1 < 512 \<longrightarrow> n1 \<noteq> 0 \<longrightarrow> addr2index PT va1 = idx + 1\<rbrakk> \<Longrightarrow>
        Ok (flush_pt_loop pam pt (idx + 1) va1 n1 st1) = by_pages pam PT pt (idx + 1) va1 n1 st1" for va1 n1 st1
      by (rule less.hyps) (use True in auto)
    have "bind_res ?child (\<lambda>(va, n, st). Ok (flush_pt_loop pam pt (idx + 1) va n st)) = by_pages pam PT pt idx va n st"
    proof (rule by_pages_step[where k = 1, OF less.prems(1) _ _ _ _ rest])
      show "1 = min (unat n) (chunk_room PT va)"
        using chunk_room_PT[OF less.prems(1)] True unat_gt_0[of n] by simp
      show "?child = bind_res (flush_pages pam PT pt 1 va st) (after_pages 1 va n)"
        by (simp add: walk_pt.simps)
    qed (use True less.prems in simp_all)
    then show ?thesis using True by (subst flush_pt_loop.simps) (simp add: after_pages_def shift_addr_def kNumOfEntries_def)
  qed (subst flush_pt_loop.simps, auto simp: by_pages_end kNumOfEntries_def)
qed

text \<open>The loops over the upper tables: a missing table or a large page stops the flush as the walk does.\<close>

lemma flush_entry_pages:
  assumes "l \<noteq> PT" "4096 dvd unat va" "addr2index l va = idx" "n \<noteq> 0"
    and e: "e = GetEntryForAddr (fst st) l t va"
    and child: "IsPresent e \<Longrightarrow> \<not> IsPage l e \<Longrightarrow> child =
      by_pages pam (NextTableType l) (GetTableAddr pam l e) (addr2index (NextTableType l) va) va n st"
    and rest: "\<And>va1 n1 st1. \<lbrakk>4096 dvd unat va1; idx + 1 < 512 \<longrightarrow> n1 \<noteq> 0 \<longrightarrow> addr2index l va1 = idx + 1\<rbrakk> \<Longrightarrow>
      loop va1 n1 st1 = by_pages pam l t (idx + 1) va1 n1 st1"
  shows "(if \<not> IsPresent e then Fail (Panic ''Not mapped'')
      else if IsPage l e then Fail (Panic (overwrapping l))
      else bind_res child (\<lambda>(va, n, st). loop va n st)) = by_pages pam l t idx va n st"
proof (cases "IsPresent e \<and> \<not> IsPage l e")
  case True
  let ?k = "min (unat n) (chunk_room l va)"
  have p: "pages (NextTableType l) (addr2index (NextTableType l) va) va n = ?k"
    by (simp add: pages_def chunk_room_next[OF assms(1)])
  have "child = bind_res (flush_pages pam l t ?k va st) (after_pages ?k va n)"
    using child True flush_pages_descend[OF assms(1) e _ _ assms(2), of 0 ?k va st]
    by (simp add: by_pages_def p same_tables_def)
  then show ?thesis using by_pages_step[OF assms(2,3,4) refl _ rest, of child] True by simp
next
  case False
  have "0 < pages l idx va n"
    using room_pos[OF assms(2), of l] assms(3,4) addr2index_less[of l va] unat_gt_0[of n] by (auto simp: pages_def)
  then obtain k where "pages l idx va n = Suc k" by (cases "pages l idx va n") auto
  then show ?thesis
    using False assms(1) unfolding by_pages_def by (simp add: walk_pt.simps[of _ _ l] e[symmetric])
qed

lemma flush_pdt_loop_pages:
  "\<lbrakk>4096 dvd unat va; idx < 512 \<longrightarrow> n \<noteq> 0 \<longrightarrow> addr2index PDT va = idx\<rbrakk> \<Longrightarrow>
     flush_pdt_loop pam pdt idx va n st = by_pages pam PDT pdt idx va n st"
proof (induction "512 - idx" arbitrary: idx va n st rule: less_induct)
  case less
  show ?case
  proof (cases "n \<noteq> 0 \<and> idx < 512")
    case True
    have rest: "\<lbrakk>4096 dvd unat va1; idx + 1 < 512 \<longrightarrow> n1 \<noteq> 0 \<longrightarrow> addr2index PDT va1 = idx + 1\<rbrakk> \<Longrightarrow>
        flush_pdt_loop pam pdt (idx + 1) va1 n1 st1 = by_pages pam PDT pdt (idx + 1) va1 n1 st1" for va1 n1 st1
      by (rule less.hyps) (use True in auto)
    let ?e = "GetEntryForAddr (fst st) PDT pdt va"
    let ?child = "Ok (flush_pt_loop pam (GetTableAddr pam PDT ?e) (addr2index PT va) va n st)"
    have "(if \<not> IsPresent ?e then Fail (Panic ''Not mapped'')
        else if IsPage PDT ?e then Fail (Panic (overwrapping PDT))
        else bind_res ?child (\<lambda>(va, n, st). flush_pdt_loop pam pdt (idx + 1) va n st)) = by_pages pam PDT pdt idx va n st"
      by (rule flush_entry_pages[OF _ less.prems(1) _ _ refl _ rest]) (use True less.prems flush_pt_loop_pages in simp_all)
    then show ?thesis using True
      by (subst flush_pdt_loop.simps) (simp add: kNumOfEntries_def Let_def cong: if_cong split: prod.splits)
  qed (subst flush_pdt_loop.simps, auto simp: by_pages_end kNumOfEntries_def)
qed

lemma flush_pdpt_loop_pages:
  "\<lbrakk>4096 dvd unat va; idx < 512 \<longrightarrow> n \<noteq> 0 \<longrightarrow> addr2index PDPT va = idx\<rbrakk> \<Longrightarrow>
     flush_pdpt_loop pam pdpt idx va n st = by_pages pam PDPT pdpt idx va n st"
proof (induction "512 - idx" arbitrary: idx va n st rule: less_induct)
  case less
  show ?case
  proof (cases "n \<noteq> 0 \<and> idx < 512")
    case True
    have rest: "\<lbrakk>4096 dvd unat va1; idx + 1 < 512 \<longrightarrow> n1 \<noteq> 0 \<longrightarrow> addr2index PDPT va1 = idx + 1\<rbrakk> \<Longrightarrow>
        flush_pdpt_loop pam pdpt (idx + 1) va1 n1 st1 = by_pages pam PDPT pdpt (idx + 1) va1 n1 st1" for va1 n1 st1
      by (rule less.hyps) (use True in auto)
    let ?e = "GetEntryForAddr (fst st) PDPT pdpt va"
    let ?child = "flush_pdt_loop pam (GetTableAddr pam PDPT ?e) (addr2index PDT va) va n st"
    have "(if \<not> IsPresent ?e then Fail (Panic ''Not mapped'')
        else if IsPage PDPT ?e then Fail (Panic (overwrapping PDPT))
        else bind_res ?child (\<lambda>(va, n, st). flush_pdpt_loop pam pdpt (idx + 1) va n st)) = by_pages pam PDPT pdpt idx va n st"
      by (rule flush_entry_pages[OF _ less.prems(1) _ _ refl _ rest]) (use True less.prems flush_pdt_loop_pages in simp_all)
    then show ?thesis using True
      by (subst flush_pdpt_loop.simps) (simp add: kNumOfEntries_def Let_def cong: if_cong)
  qed (subst flush_pdpt_loop.simps, auto simp: by_pages_end kNumOfEntries_def)
qed

text \<open>
  With no pages left, the outermost loop still asks for the top-level entry of the address behind the
  range.
\<close>

lemma flush_pml4_rest:
  "IsPresent (GetEntryForAddr (fst st) PML4 pml4 va) \<or> \<not> idx < 512 \<Longrightarrow> flush_pml4_loop pam pml4 idx va 0 st = Ok (va, 0, st)"
proof (induction "512 - idx" arbitrary: idx rule: less_induct)
  case less
  then show ?case
    by (subst flush_pml4_loop.simps) (auto simp: flush_pdpt_loop.simps[of _ _ _ _ 0] kNumOfEntries_def Let_def)
qed

lemma flush_pml4_loop_pages:
  assumes "4096 dvd unat va" "n \<noteq> 0" "unat n \<le> chunk_room PML4 va"
    and "IsPresent (GetEntryForAddr (fst st) PML4 pml4 (shift_addr va (4096 * unat n)))"
  shows "flush_pml4_loop pam pml4 (addr2index PML4 va) va n st =
    bind_res (flush_pages pam PML4 pml4 (unat n) va st) (after_pages (unat n) va n)"
proof -
  let ?e = "GetEntryForAddr (fst st) PML4 pml4 va" and ?i = "addr2index PML4 va"
  show ?thesis
  proof (cases "IsPresent ?e")
    case True
    have np: "\<not> IsPage PML4 ?e" by (simp add: IsPage_bit)
    have k: "min (unat n) (chunk_room PML4 va) = unat n" using assms(3) by simp
    have p: "pages PDPT (addr2index PDPT va) va n = unat n"
      using assms(3) by (simp add: pages_def chunk_room_next[of PML4, simplified])
    have c: "flush_pdpt_loop pam (GetTableAddr pam PML4 ?e) (addr2index PDPT va) va n st =
      bind_res (flush_pages pam PML4 pml4 (unat n) va st) (after_pages (unat n) va n)"
      using flush_pages_descend[OF _ refl True np assms(1), of 0 "unat n" va st] assms(3)
      by (simp add: flush_pdpt_loop_pages[OF assms(1)] by_pages_def p same_tables_def)
    have same: "same_tables (fst st) (fst st')" if "flush_pages pam l t k va st = Ok st'" for l t k va st st'
      using that
    proof (induction k arbitrary: va st)
      case (Suc k)
      then obtain pt where "flush_pages pam l t k (va + 0x1000) (flush_pte pam pt va st) = Ok st'" by (auto simp: res_simps)
      then show ?case using Suc.IH same_tables_trans[OF flush_pte_same] by blast
    qed (simp add: same_tables_def)
    have r: "flush_pml4_loop pam pml4 (?i + 1) (shift_addr va (4096 * unat n)) 0 st' = Ok (shift_addr va (4096 * unat n), 0, st')"
      if "flush_pages pam PML4 pml4 (unat n) va st = Ok st'" for st'
      by (rule flush_pml4_rest) (use same_entry(1)[OF same[OF that]] assms(4) in \<open>auto simp: GetEntryForAddr_def\<close>)
    show ?thesis
      using True r by (subst flush_pml4_loop.simps)
        (cases "flush_pages pam PML4 pml4 (unat n) va st", simp_all add: c kNumOfEntries_def after_pages_def Let_def)
  next
    case False
    obtain k where "unat n = Suc k" using assms(2) by (metis not0_implies_Suc unat_eq_zero)
    then show ?thesis using False
      by (subst flush_pml4_loop.simps) (simp add: kNumOfEntries_def Let_def walk_pt.simps[of _ _ PML4])
  qed
qed

section \<open>What a flush of a range does\<close>

text \<open>The entry of a page, and the physical address of the page.\<close>

definition pte_of :: "u64 \<Rightarrow> ptmem \<Rightarrow> pt_level \<Rightarrow> u64 \<Rightarrow> u64 \<Rightarrow> u64 option" where
  "pte_of pam m l t va = (case walk_pt pam m l t va of Inl _ \<Rightarrow> None | Inr pt \<Rightarrow> Some (m pt (addr2index PT va)))"

definition base_of :: "u64 \<Rightarrow> u64 \<Rightarrow> nat" where
  "base_of pam pte = unat (GetPageBaseAddr pam PT pte)"

text \<open>The byte \<open>k\<close> is in a dirty page of the range of \<open>n\<close> pages from \<open>va\<close>.\<close>

definition in_dirty_page :: "u64 \<Rightarrow> ptmem \<Rightarrow> pt_level \<Rightarrow> u64 \<Rightarrow> nat \<Rightarrow> u64 \<Rightarrow> nat \<Rightarrow> bool" where
  "in_dirty_page pam m l t n va k \<longleftrightarrow> (\<exists>j<n. \<exists>pte. pte_of pam m l t (shift_addr va (4096 * j)) = Some pte \<and>
     IsDirty pte \<and> base_of pam pte \<le> k \<and> k < base_of pam pte + 4096)"

definition flush_lines :: "nat \<Rightarrow> mem_action list" where
  "flush_lines b = map (\<lambda>i. Flush (b + 64 * i)) [0..<64]"

lemma flush_lines_iff: "Flush a \<in> set (flush_lines b) \<longleftrightarrow> (\<exists>i<64. a = b + 64 * i)"
  by (auto simp: flush_lines_def)

lemma flush_pte_eq:
  "flush_pte pam pt va (m, stat, s) = (let pte = m pt (addr2index PT va) in
     if IsDirty pte then (put_entry pt (addr2index PT va) (ClearDirtyBit pte) m, stat + 64, s\<lparr>acts := acts s @ flush_lines (base_of pam pte)\<rparr>)
     else (m, stat, s))"
  by (simp add: flush_pte_def CLFlush_range_eq kChunkSize_def flush_lines_def base_of_def Let_def)

lemma base_of_aligned: "64 dvd base_of pam pte"
proof -
  have "GetPageBaseAddr pam PT pte AND mask 6 = 0"
    unfolding GetPageBaseAddr_def kOffsetMask_eq by (rule bit_word_eqI) (auto simp: bit_simps)
  then have "unat (GetPageBaseAddr pam PT pte AND mask 6) = 0" by simp
  then show ?thesis unfolding base_of_def unat_and_mask by (simp add: dvd_eq_mod_eq_0)
qed

lemma flush_lines_cover:
  assumes "64 dvd b" "b \<le> k" "k < b + 4096"
  shows "\<exists>a. Flush a \<in> set (flush_lines b) \<and> a div 64 = k div 64"
proof -
  obtain q where q: "b = 64 * q" using assms(1) by auto
  have "k div 64 - q < 64" "q \<le> k div 64" using assms(2,3) q by auto
  then show ?thesis by (intro exI[of _ "b + 64 * (k div 64 - q)"]) (auto simp: flush_lines_iff q)
qed

lemma base_of_same:
  assumes "same_tables m m'"
  shows "base_of pam (m' t i) = base_of pam (m t i)"
proof -
  have "GetPageBaseAddr pam PT (m' t i) = GetPageBaseAddr pam PT (m t i)"
  proof (rule bit_word_eqI)
    fix n
    assume "n < LENGTH(64)"
    then show "bit (GetPageBaseAddr pam PT (m' t i)) n = bit (GetPageBaseAddr pam PT (m t i)) n"
      using same_tables_bits[OF assms, of n t i] by (cases "n = 6") (auto simp: GetPageBaseAddr_def kOffsetMask_eq bit_simps)
  qed
  then show ?thesis by (simp add: base_of_def)
qed

text \<open>An entry which a flush of another page changes was that of the same page.\<close>

lemma pte_of_after:
  assumes "walk_pt pam m l t va = Ok pt" "pte_of pam m l t va' = Some pte"
    and m': "m' = fst (flush_pte pam pt va (m, s))"
  shows "\<exists>pte'. pte_of pam m' l t va' = Some pte' \<and> base_of pam pte' = base_of pam pte \<and>
    (IsDirty pte' \<longrightarrow> IsDirty pte) \<and>
    (IsDirty pte \<longrightarrow> IsDirty pte' \<or> pte = m pt (addr2index PT va))"
proof -
  obtain pt' where pt': "walk_pt pam m l t va' = Ok pt'" "pte = m pt' (addr2index PT va')"
    using assms(2) by (auto simp: pte_of_def split: sum.splits)
  have st: "same_tables m m'" using flush_pte_same[of "(m, s)" pam pt va] m' by simp
  have w: "walk_pt pam m' l t va' = Ok pt'" using walk_pt_same[OF st] pt'(1) by simp
  note b = base_of_same[OF st]
  have c: "\<not> IsDirty (ClearDirtyBit e)" for e by (simp add: IsDirty_def ClearDirtyBit_def and.assoc)
  have "m' pt' i = m pt' i \<or> m' pt' i = ClearDirtyBit (m pt' i) \<and> m pt' i = m pt (addr2index PT va)" for i
    by (cases s) (auto simp: m' flush_pte_eq Let_def put_entry_def)
  then have "(IsDirty (m' pt' i) \<longrightarrow> IsDirty (m pt' i)) \<and> (IsDirty (m pt' i) \<longrightarrow> IsDirty (m' pt' i) \<or> m pt' i = m pt (addr2index PT va))" for i
    using c by metis
  then show ?thesis using w b pt' by (simp add: pte_of_def)
qed

lemma in_dirty_page_Suc:
  "in_dirty_page pam m l t (Suc n) va k \<longleftrightarrow>
     (\<exists>pte. pte_of pam m l t va = Some pte \<and> IsDirty pte \<and> base_of pam pte \<le> k \<and> k < base_of pam pte + 4096) \<or>
     in_dirty_page pam m l t n (va + 0x1000) k"
proof -
  have s: "shift_addr va (4096 * Suc j) = shift_addr (va + 0x1000) (4096 * j)" for j
    by (simp add: shift_addr_def algebra_simps)
  have "(\<exists>j<Suc n. P j) \<longleftrightarrow> P 0 \<or> (\<exists>j<n. P (Suc j))" for P
    by (metis less_Suc_eq_0_disj zero_less_Suc)
  from this[of "\<lambda>j. \<exists>pte. pte_of pam m l t (shift_addr va (4096 * j)) = Some pte \<and>
     IsDirty pte \<and> base_of pam pte \<le> k \<and> k < base_of pam pte + 4096"]
  show ?thesis unfolding in_dirty_page_def s by (simp add: shift_addr_def)
qed

lemma pte_of_same:
  "same_tables m m' \<Longrightarrow> (\<exists>pte. pte_of pam m l t va = Some pte) = (\<exists>pte. pte_of pam m' l t va = Some pte)"
  by (auto simp: pte_of_def walk_pt_same[of m m'] split: sum.splits)

text \<open>
  What a flush of pages does to the tables \<open>m\<close>, with the actions \<open>fl\<close>: it flushes lines of dirty pages
  only, and every page which is not dirty any more was flushed.
\<close>

definition flushed_only :: "u64 \<Rightarrow> pt_level \<Rightarrow> u64 \<Rightarrow> ptmem \<Rightarrow> mem_action list \<Rightarrow> ptmem \<Rightarrow> bool" where
  "flushed_only pam l t m fl m' \<longleftrightarrow> same_tables m m' \<and>
     (\<forall>t i. IsDirty (m' t i) \<longrightarrow> IsDirty (m t i)) \<and>
     (\<forall>n va k. in_dirty_page pam m l t n va k \<longrightarrow>
        in_dirty_page pam m' l t n va k \<or> (\<exists>a. Flush a \<in> set fl \<and> a div 64 = k div 64))"

lemma flushed_only_refl: "flushed_only pam l t m [] m"
  by (simp add: flushed_only_def same_tables_def)

lemma flushed_only_less:
  assumes "flushed_only pam l t m fl m'" "in_dirty_page pam m' l' t' n va k"
  shows "in_dirty_page pam m l' t' n va k"
proof -
  have st: "same_tables m m'" and d: "\<And>t i. IsDirty (m' t i) \<Longrightarrow> IsDirty (m t i)" using assms(1) by (auto simp: flushed_only_def)
  obtain j pte where j: "j < n" "pte_of pam m' l' t' (shift_addr va (4096 * j)) = Some pte" "IsDirty pte"
    "base_of pam pte \<le> k" "k < base_of pam pte + 4096" using assms(2) by (auto simp: in_dirty_page_def)
  obtain pt where "walk_pt pam m l' t' (shift_addr va (4096 * j)) = Ok pt" "pte = m' pt (addr2index PT (shift_addr va (4096 * j)))"
    using j(2) walk_pt_same[OF st] by (auto simp: pte_of_def split: sum.splits)
  then show ?thesis using j d base_of_same[OF st] by (auto simp: in_dirty_page_def pte_of_def intro!: exI[of _ j])
qed

lemma flushed_only_trans:
  "flushed_only pam l t m fl m1 \<Longrightarrow> flushed_only pam l t m1 fl' m' \<Longrightarrow> flushed_only pam l t m (fl @ fl') m'"
  unfolding flushed_only_def using same_tables_trans by (auto; blast)

lemma flush_pte_flushed:
  assumes pt: "walk_pt pam m l t va = Ok pt" and f: "flush_pte pam pt va (m, stat, s) = (m1, stat1, s\<lparr>acts := acts s @ f1\<rparr>)"
    and f1: "f1 = (if IsDirty (m pt (addr2index PT va)) then flush_lines (base_of pam (m pt (addr2index PT va))) else [])"
  shows "flushed_only pam l t m f1 m1"
proof -
  let ?e = "m pt (addr2index PT va)"
  have m1: "m1 = fst (flush_pte pam pt va (m, stat, s))" by (simp add: f)
  have st: "same_tables m m1" using flush_pte_same[of "(m, stat, s)" pam pt va] f by simp
  note after = pte_of_after[OF pt _ m1]
  have less: "IsDirty (m1 t i) \<longrightarrow> IsDirty (m t i)" for t i
    using f by (auto simp: flush_pte_eq Let_def put_entry_def IsDirty_def ClearDirtyBit_def and.assoc split: if_splits)
  have "in_dirty_page pam m1 l t n w k \<or> (\<exists>a. Flush a \<in> set f1 \<and> a div 64 = k div 64)"
    if d: "in_dirty_page pam m l t n w k" for n w k
  proof -
    obtain j pte where j: "j < n" "pte_of pam m l t (shift_addr w (4096 * j)) = Some pte" "IsDirty pte"
      "base_of pam pte \<le> k" "k < base_of pam pte + 4096" using d by (auto simp: in_dirty_page_def)
    show ?thesis
    proof (cases "pte = ?e")
      case True
      then show ?thesis using flush_lines_cover[OF base_of_aligned j(4,5)] f1 j(3) by simp
    next
      case False
      then show ?thesis using after[OF j(2)] j unfolding in_dirty_page_def by metis
    qed
  qed
  then show ?thesis using less st by (simp add: flushed_only_def)
qed

lemma flush_pages_effect:
  assumes "\<forall>j<n. \<exists>pte. pte_of pam m l t (shift_addr va (4096 * j)) = Some pte"
  shows "\<exists>m' stat' fl. flush_pages pam l t n va (m, stat, s) = Ok (m', stat', s\<lparr>acts := acts s @ fl\<rparr>) \<and>
    flushed_only pam l t m fl m' \<and>
    (\<forall>x\<in>set fl. \<exists>a. x = Flush a \<and> in_dirty_page pam m l t n va a) \<and>
    (\<forall>k. in_dirty_page pam m l t n va k \<longrightarrow> (\<exists>a. Flush a \<in> set fl \<and> a div 64 = k div 64))"
  using assms
proof (induction n arbitrary: va m stat s)
  case 0
  then show ?case
    by (intro exI[of _ m] exI[of _ stat] exI[of _ "[]"]) (simp add: flushed_only_refl in_dirty_page_def)
next
  case (Suc n)
  obtain pt where pt: "walk_pt pam m l t va = Ok pt"
    using Suc.prems[rule_format, of 0] by (auto simp: pte_of_def split: sum.splits)
  let ?e = "m pt (addr2index PT va)"
  obtain m1 stat1 f1 where f: "flush_pte pam pt va (m, stat, s) = (m1, stat1, s\<lparr>acts := acts s @ f1\<rparr>)"
    and f1: "f1 = (if IsDirty ?e then flush_lines (base_of pam ?e) else [])"
    by (cases "IsDirty ?e") (auto simp: flush_pte_eq Let_def)
  have e: "pte_of pam m l t va = Some ?e" by (simp add: pte_of_def pt)
  note o = flush_pte_flushed[OF pt f f1]
  have "\<exists>pte. pte_of pam m1 l t (shift_addr (va + 0x1000) (4096 * j)) = Some pte" if "j < n" for j
  proof -
    have "shift_addr (va + 0x1000) (4096 * j) = shift_addr va (4096 * Suc j)" by (simp add: shift_addr_def algebra_simps)
    then show ?thesis using Suc.prems[rule_format, of "Suc j"] that pte_of_same[of m m1] o by (simp add: flushed_only_def)
  qed
  then obtain m' stat' fl where IH: "flush_pages pam l t n (va + 0x1000) (m1, stat1, s\<lparr>acts := acts s @ f1\<rparr>) =
      Ok (m', stat', s\<lparr>acts := (acts s @ f1) @ fl\<rparr>)" "flushed_only pam l t m1 fl m'"
    "\<forall>x\<in>set fl. \<exists>a. x = Flush a \<and> in_dirty_page pam m1 l t n (va + 0x1000) a"
    "\<forall>k. in_dirty_page pam m1 l t n (va + 0x1000) k \<longrightarrow> (\<exists>a. Flush a \<in> set fl \<and> a div 64 = k div 64)"
    using Suc.IH[of m1 "va + 0x1000" stat1 "s\<lparr>acts := acts s @ f1\<rparr>"] by auto
  have run: "flush_pages pam l t (Suc n) va (m, stat, s) = Ok (m', stat', s\<lparr>acts := acts s @ f1 @ fl\<rparr>)"
    using IH(1) by (simp add: pt f)
  have "\<exists>a. Flush a \<in> set (f1 @ fl) \<and> a div 64 = k div 64" if d: "in_dirty_page pam m l t (Suc n) va k" for k
  proof (cases "IsDirty ?e \<and> base_of pam ?e \<le> k \<and> k < base_of pam ?e + 4096")
    case True
    then show ?thesis using flush_lines_cover[OF base_of_aligned] f1 by fastforce
  next
    case False
    then have "in_dirty_page pam m l t n (va + 0x1000) k" using d e unfolding in_dirty_page_Suc by auto
    then show ?thesis using o IH(4) unfolding flushed_only_def by fastforce
  qed
  moreover have "\<exists>a. x = Flush a \<and> in_dirty_page pam m l t (Suc n) va a" if "x \<in> set (f1 @ fl)" for x
  proof (cases "x \<in> set f1")
    case True
    then obtain i where "IsDirty ?e" "i < 64" "x = Flush (base_of pam ?e + 64 * i)"
      using f1 by (auto simp: flush_lines_def split: if_splits)
    then show ?thesis unfolding in_dirty_page_Suc using e by auto
  next
    case False
    then show ?thesis using that IH(3) flushed_only_less[OF o] unfolding in_dirty_page_Suc by auto
  qed
  ultimately show ?case using run flushed_only_trans[OF o IH(2)] by blast
qed

definition flushable :: "u64 \<Rightarrow> ptmem \<Rightarrow> u64 \<Rightarrow> u64 \<Rightarrow> u64 \<Rightarrow> bool" where
  "flushable pam m pml4 va sz \<longleftrightarrow> (let n = unat (ByteSizeToPageSize sz) in
     4096 dvd unat va \<and> n \<le> chunk_room PML4 va \<and>
     (\<forall>j<n. \<exists>pte. pte_of pam m PML4 pml4 (shift_addr va (4096 * j)) = Some pte) \<and>
     IsPresent (GetEntryForAddr m PML4 pml4 (shift_addr va (4096 * n))))"

definition dirty_byte :: "u64 \<Rightarrow> ptmem \<Rightarrow> u64 \<Rightarrow> u64 \<Rightarrow> u64 \<Rightarrow> nat \<Rightarrow> bool" where
  "dirty_byte pam m pml4 va sz k \<longleftrightarrow> in_dirty_page pam m PML4 pml4 (unat (ByteSizeToPageSize sz)) va k"

lemma FlushDirtyPages_effect:
  assumes "flushable pam m pml4 va sz"
  shows "\<exists>m' stat' fl. FlushDirtyPages pam pml4 va sz (m, stat, s) = Ok (m', stat', s\<lparr>acts := acts s @ fl\<rparr>) \<and>
    flushed_only pam PML4 pml4 m fl m' \<and>
    (\<forall>x\<in>set fl. \<exists>a. x = Flush a \<and> dirty_byte pam m pml4 va sz a) \<and>
    (\<forall>k. dirty_byte pam m pml4 va sz k \<longrightarrow> (\<exists>a. Flush a \<in> set fl \<and> a div 64 = k div 64))"
proof -
  let ?n = "ByteSizeToPageSize sz"
  have f: "4096 dvd unat va" "unat ?n \<le> chunk_room PML4 va"
    "\<forall>j<unat ?n. \<exists>pte. pte_of pam m PML4 pml4 (shift_addr va (4096 * j)) = Some pte"
    "IsPresent (GetEntryForAddr m PML4 pml4 (shift_addr va (4096 * unat ?n)))"
    using assms by (simp_all add: flushable_def Let_def)
  obtain m' stat' fl where e: "flush_pages pam PML4 pml4 (unat ?n) va (m, stat, s) = Ok (m', stat', s\<lparr>acts := acts s @ fl\<rparr>)"
    "flushed_only pam PML4 pml4 m fl m'" "\<forall>x\<in>set fl. \<exists>a. x = Flush a \<and> dirty_byte pam m pml4 va sz a"
    "\<forall>k. dirty_byte pam m pml4 va sz k \<longrightarrow> (\<exists>a. Flush a \<in> set fl \<and> a div 64 = k div 64)"
    using flush_pages_effect[OF f(3), of stat s] unfolding dirty_byte_def by blast
  have "FlushDirtyPages pam pml4 va sz (m, stat, s) = Ok (m', stat', s\<lparr>acts := acts s @ fl\<rparr>)"
  proof (cases "?n = 0")
    case True
    then show ?thesis using e(1) f(1,4) flush_pml4_rest[of "(m, stat, s)" pml4 va] by (simp add: FlushDirtyPages_def)
  next
    case False
    then show ?thesis using e(1) f flush_pml4_loop_pages[of va ?n "(m, stat, s)" pml4 pam]
      by (simp add: FlushDirtyPages_def after_pages_def)
  qed
  then show ?thesis using e(2-4) by blast
qed

end
