(* ===== verification/Execution_Context.thy ===== *)
theory Execution_Context
  imports Dirty_Pages
begin

text \<open>
The contexts of processes (\<open>execution_context.h\<close> and \<open>execution_context.cc\<close>), the contexts of
  persistent processes, and the context switch of \<open>kernel.cc\<close> and \<open>process.cc\<close>.
\<close>

section \<open>Segments\<close>

text \<open>
  The objects are in memory, as the compiler lays them out: a \<open>SegmentMapping\<close> has its three words at
  0, 8 and 16.  Copies go byte by byte.
\<close>

definition memcpy_p :: "nat \<Rightarrow> nat \<Rightarrow> nat \<Rightarrow> pmem \<Rightarrow> pmem" where
  "memcpy_p dst src n s = fold (\<lambda>i s. pstore (dst + i) [vol s (src + i)] s) [0..<n] s"

definition store_bytes :: "nat \<Rightarrow> u8 list \<Rightarrow> pmem \<Rightarrow> pmem" where
  "store_bytes a bs s = fold (\<lambda>i s. pstore (a + i) [bs ! i] s) [0..<length bs] s"

definition GetVirtAddr :: "pmem \<Rightarrow> nat \<Rightarrow> u64" where "GetVirtAddr s seg = ld64 (vol s) seg"
definition GetPhysAddr :: "pmem \<Rightarrow> nat \<Rightarrow> u64" where "GetPhysAddr s seg = ld64 (vol s) (seg + 8)"
definition GetMapSize :: "pmem \<Rightarrow> nat \<Rightarrow> u64" where "GetMapSize s seg = ld64 (vol s) (seg + 16)"

definition GetVirtEndAddr :: "pmem \<Rightarrow> nat \<Rightarrow> u64" where
  "GetVirtEndAddr s seg = GetVirtAddr s seg + GetMapSize s seg"

definition SegmentMapping_Set :: "nat \<Rightarrow> u64 \<Rightarrow> u64 \<Rightarrow> u64 \<Rightarrow> pmem \<Rightarrow> pmem" where
  "SegmentMapping_Set seg vaddr paddr map_size s =
     CLFlush seg (st64 (seg + 16) map_size (st64 (seg + 8) paddr (st64 seg vaddr s)))"

text \<open>The line which is flushed is that of the parameter, on the kernel stack.\<close>

definition SegmentMapping_SetPhysAddr :: "nat \<Rightarrow> u64 \<Rightarrow> pmem \<Rightarrow> pmem" where
  "SegmentMapping_SetPhysAddr seg paddr s = st64 (seg + 8) paddr s"

definition SegmentMapping_Clear :: "nat \<Rightarrow> pmem \<Rightarrow> pmem" where
  "SegmentMapping_Clear seg s = CLFlush seg (st64 (seg + 16) 0 (st64 seg 0 (st64 (seg + 8) 0 s)))"

record xstate =
  xs_tables :: ptmem
  xs_mem :: pmem
  stat_copied_bytes :: nat
  stat_num_of_clflush :: nat

abbreviation volx :: "xstate \<Rightarrow> cmem" where
  "volx x \<equiv> vol (xs_mem x)"

definition CopyDataFrom :: "nat \<Rightarrow> nat \<Rightarrow> xstate \<Rightarrow> xstate res" where
  "CopyDataFrom seg from x =
     (let s = xs_mem x in
      if GetMapSize s seg \<noteq> GetMapSize s from then Fail Assert_Failed
      else
        let n = unat (GetMapSize s seg) in
        Ok (x\<lparr>xs_mem := memcpy_p (unat (GetPhysAddr s seg)) (unat (GetPhysAddr s from)) n s,
              stat_copied_bytes := stat_copied_bytes x + n\<rparr>))"

definition SegmentMapping_Flush :: "u64 \<Rightarrow> u64 \<Rightarrow> nat \<Rightarrow> xstate \<Rightarrow> xstate res" where
  "SegmentMapping_Flush pam pml4 seg x =
     bind_res (FlushDirtyPages pam pml4 (GetVirtAddr (xs_mem x) seg) (GetMapSize (xs_mem x) seg)
                (xs_tables x, stat_num_of_clflush x, xs_mem x)) (\<lambda>(m, stat, s).
     Ok (x\<lparr>xs_tables := m, stat_num_of_clflush := stat, xs_mem := s\<rparr>))"

section \<open>Execution contexts\<close>

text \<open>
  An \<open>ExecutionContext\<close> has 792 bytes: \<open>cpu_context_\<close> with the page table root at 0, the general
  registers at 8, the interrupt context at 128 and the FPU state at 168; the segments at 680, 704, 728
  and 752; \<open>kernel_rsp_\<close> at 776 and \<open>heap_used_size_\<close> at 784.
\<close>

definition code_seg :: "nat \<Rightarrow> nat" where "code_seg c = c + 680"
definition data_seg :: "nat \<Rightarrow> nat" where "data_seg c = c + 704"
definition stack_seg :: "nat \<Rightarrow> nat" where "stack_seg c = c + 728"
definition heap_seg :: "nat \<Rightarrow> nat" where "heap_seg c = c + 752"

definition ProcessMappingInfo_Clear :: "nat \<Rightarrow> pmem \<Rightarrow> pmem" where
  "ProcessMappingInfo_Clear c s =
     SegmentMapping_Clear (heap_seg c) (SegmentMapping_Clear (stack_seg c)
       (SegmentMapping_Clear (data_seg c) (SegmentMapping_Clear (code_seg c) s)))"

text \<open>The stack is not flushed.\<close>

definition ProcessMappingInfo_Flush :: "u64 \<Rightarrow> u64 \<Rightarrow> nat \<Rightarrow> xstate \<Rightarrow> xstate res" where
  "ProcessMappingInfo_Flush pam pml4 c x =
     bind_res (SegmentMapping_Flush pam pml4 (code_seg c) x) (\<lambda>x.
     bind_res (SegmentMapping_Flush pam pml4 (data_seg c) x) (\<lambda>x.
     SegmentMapping_Flush pam pml4 (heap_seg c) x))"

definition GetCR3 :: "pmem \<Rightarrow> nat \<Rightarrow> u64" where "GetCR3 s c = ld64 (vol s) c"
definition GetRSP :: "pmem \<Rightarrow> nat \<Rightarrow> u64" where "GetRSP s c = ld64 (vol s) (c + 152)"

definition SetRegisters :: "nat \<Rightarrow> u64 \<Rightarrow> u64 \<Rightarrow> u64 \<Rightarrow> u64 \<Rightarrow> u64 \<Rightarrow> u64 \<Rightarrow> u64 \<Rightarrow> pmem \<Rightarrow> pmem" where
  "SetRegisters c rip cs rsp ss cr3 rflags kernel_rsp s =
     (let s = st64 (c + 128) rip s; s = st64 (c + 136) cs s; s = st64 (c + 152) rsp s; s = st64 (c + 160) ss s;
          s = st64 (c + 144) (rflags OR 2) s; s = st64 c cr3 s; s = st64 (c + 776) kernel_rsp s
      in st64 (c + 784) 0 s)"

definition PushDataToStack :: "u64 \<Rightarrow> nat \<Rightarrow> u8 list \<Rightarrow> xstate \<Rightarrow> xstate" where
  "PushDataToStack pam c data x =
     (let s = st64 (c + 152) (GetRSP (xs_mem x) c - of_nat (length data)) (xs_mem x);
          phys_rsp = v2p pam (xs_tables x) PML4 (GetCR3 s c) (GetRSP s c)
      in x\<lparr>xs_mem := store_bytes (unat phys_rsp) data s\<rparr>)"

definition AlignStack :: "int \<Rightarrow> nat \<Rightarrow> pmem \<Rightarrow> pmem res" where
  "AlignStack align c s = (if align = 8 then Ok (st64 (c + 152) (GetRSP s c AND NOT 3) s) else Fail Assert_Failed)"

definition ExpandHeap :: "u64 \<Rightarrow> nat \<Rightarrow> pmem \<Rightarrow> pmem res" where
  "ExpandHeap diff c s =
     (let diff_abs = (if sint diff < 0 then - diff else diff); sz = GetMapSize s (heap_seg c) in
      if sz < diff_abs then Fail (Panic ''Too large heap expansion request'')
      else
        let heap_used_size = ld64 (vol s) (c + 784) + diff; s = st64 (c + 784) heap_used_size s in
        if sz < heap_used_size then Fail (Panic ''No more heap'') else Ok s)"

definition GetHeapEndVirtAddr :: "pmem \<Rightarrow> nat \<Rightarrow> u64" where
  "GetHeapEndVirtAddr s c = ld64 (vol s) (c + 784) + GetVirtAddr s (heap_seg c)"

definition ExecutionContext_Flush :: "u64 \<Rightarrow> u64 \<Rightarrow> nat \<Rightarrow> xstate \<Rightarrow> xstate res" where
  "ExecutionContext_Flush pam pml4 c x =
     bind_res (ProcessMappingInfo_Flush pam pml4 c x) (\<lambda>x.
     case CLFlush_range c 792 (stat_num_of_clflush x, xs_mem x) of
       (stat, s) \<Rightarrow> Ok (x\<lparr>stat_num_of_clflush := stat, xs_mem := s\<rparr>))"

definition CopyContextFrom :: "nat \<Rightarrow> nat \<Rightarrow> xstate \<Rightarrow> xstate res" where
  "CopyContextFrom c from x =
     (let cr3 = GetCR3 (xs_mem x) c; x = x\<lparr>xs_mem := st64 c cr3 (memcpy_p c from 680 (xs_mem x))\<rparr> in
      bind_res (CopyDataFrom (data_seg c) (data_seg from) x) (CopyDataFrom (stack_seg c) (stack_seg from)))"

section \<open>Persistent processes\<close>

text \<open>\<open>PersistentProcessInfo\<close>: two contexts, the index of the valid one at 1584, the signature at 1592.\<close>

definition kSignature :: u64 where "kSignature = 0x4F50534F6D75696C"

definition ctx_at :: "nat \<Rightarrow> nat \<Rightarrow> nat" where "ctx_at pp i = pp + 792 * i"

definition valid_ctx_idx :: "cmem \<Rightarrow> nat \<Rightarrow> int" where
  "valid_ctx_idx m pp = sint (ld32 m (pp + 1584))"

definition PPI_IsValid :: "pmem \<Rightarrow> nat \<Rightarrow> bool" where
  "PPI_IsValid s pp \<longleftrightarrow> ld64 (vol s) (pp + 1592) = kSignature"

definition SetValidContextIndex :: "nat \<Rightarrow> u32 \<Rightarrow> pmem \<Rightarrow> pmem" where
  "SetValidContextIndex pp idx s = CLFlush (pp + 1584) (pstore (pp + 1584) (u32_bytes idx) s)"

definition PPI_Init :: "nat \<Rightarrow> pmem \<Rightarrow> pmem" where
  "PPI_Init pp s = CLFlush (pp + 1592) (st64 (pp + 1592) kSignature (SetValidContextIndex pp 2 s))"

definition GetContext :: "nat \<Rightarrow> int \<Rightarrow> nat res" where
  "GetContext pp idx = (if 0 \<le> idx \<and> idx < 2 then Ok (ctx_at pp (nat idx)) else Fail Assert_Failed)"

definition GetValidContext :: "pmem \<Rightarrow> nat \<Rightarrow> nat res" where
  "GetValidContext s pp = (let i = valid_ctx_idx (vol s) pp in
     if 0 \<le> i \<and> i < 2 then Ok (ctx_at pp (nat i)) else Fail Assert_Failed)"

definition GetWorkingContext :: "pmem \<Rightarrow> nat \<Rightarrow> nat res" where
  "GetWorkingContext s pp = (let i = valid_ctx_idx (vol s) pp in
     if 0 \<le> i \<and> i < 2 then Ok (ctx_at pp (nat (1 - i))) else Fail Assert_Failed)"

definition PPI_SwitchContext :: "u64 \<Rightarrow> nat \<Rightarrow> xstate \<Rightarrow> xstate res" where
  "PPI_SwitchContext pam pp x =
     bind_res (GetWorkingContext (xs_mem x) pp) (\<lambda>w.
     bind_res (ExecutionContext_Flush pam (GetCR3 (xs_mem x) w) w x) (\<lambda>x.
     let x = x\<lparr>xs_mem := SetValidContextIndex pp (1 - ld32 (volx x) (pp + 1584)) (xs_mem x)\<rparr> in
     bind_res (GetWorkingContext (xs_mem x) pp) (\<lambda>w.
     bind_res (GetValidContext (xs_mem x) pp) (\<lambda>v.
     CopyContextFrom w v x))))"

section \<open>Switching between processes\<close>

text \<open>A process has its own context, or is a persistent one; of the processor the registers which the
  interrupt saved on the stack, and the page table root.\<close>

datatype proc_ctx = Ephemeral nat | Persistent nat

record cpu =
  cpu_greg :: "u8 list"
  cpu_int_ctx :: "u8 list"
  cpu_cr3 :: u64

primrec GetExecutionContext :: "pmem \<Rightarrow> proc_ctx \<Rightarrow> nat res" where
  "GetExecutionContext s (Ephemeral c) = Ok c"
| "GetExecutionContext s (Persistent pp) = GetWorkingContext s pp"

primrec NotifyContextSaving :: "u64 \<Rightarrow> proc_ctx \<Rightarrow> xstate \<Rightarrow> xstate res" where
  "NotifyContextSaving pam (Ephemeral c) x = Ok x"
| "NotifyContextSaving pam (Persistent pp) x = PPI_SwitchContext pam pp x"

definition save_registers :: "nat \<Rightarrow> cpu \<Rightarrow> pmem \<Rightarrow> pmem" where
  "save_registers c r s =
     store_bytes (c + 128) (cpu_int_ctx r) (store_bytes (c + 8) (cpu_greg r) (st64 c (cpu_cr3 r) s))"

definition EnsureAddrIs16ByteAligned :: "u64 \<Rightarrow> unit res" where
  "EnsureAddrIs16ByteAligned addr =
     (if addr AND 0xF = 0 then Ok () else Fail (Panic (''Not 16-byte aligned'' @ [CHR 0x0A])))"

text \<open>
  \<open>now\<close> is the value of the main counter, \<open>fpu\<close> the address of the FPU state on the interrupt stack;
  \<open>proc_last_time_count\<close> is always 0.  The time statistics are left out.
\<close>

definition SwitchContext :: "u64 \<Rightarrow> u64 \<Rightarrow> u64 \<Rightarrow> u64 \<Rightarrow> proc_ctx \<Rightarrow> proc_ctx \<Rightarrow> cpu \<times> xstate \<Rightarrow> (cpu \<times> xstate) res" where
  "SwitchContext pam now time_slice_count fpu from_proc to_proc rx = (case rx of (r, x) \<Rightarrow>
     if 0 - now < time_slice_count then Ok (r, x)
     else
       bind_res (GetExecutionContext (xs_mem x) from_proc) (\<lambda>from.
       bind_res (EnsureAddrIs16ByteAligned fpu) (\<lambda>_.
       bind_res (NotifyContextSaving pam from_proc (x\<lparr>xs_mem := save_registers from r (xs_mem x)\<rparr>)) (\<lambda>x.
       bind_res (GetExecutionContext (xs_mem x) to_proc) (\<lambda>to.
       let m = volx x; r = r\<lparr>cpu_greg := get_bytes m (to + 8) 120, cpu_int_ctx := get_bytes m (to + 128) 40\<rparr> in
       if ld64 m from = ld64 m to then Ok (r, x) else Ok (r\<lparr>cpu_cr3 := ld64 m to\<rparr>, x))))))"

text \<open>
  Restoring: the valid context is copied to the working one; both page tables get the kernel's upper
  half, and both contexts a new kernel stack of \<open>kKernelStackPagesForEachProcess\<close> pages.
\<close>

definition PrepareContextForRestoring :: "u64 \<Rightarrow> u64 \<Rightarrow> nat \<Rightarrow> xstate \<Rightarrow> xstate" where
  "PrepareContextForRestoring kernel_pml4 stack_end c x =
     x\<lparr>xs_tables := SetKernelPageEntries kernel_pml4 (GetCR3 (xs_mem x) c) (xs_tables x),
       xs_mem := st64 (c + 776) stack_end (xs_mem x)\<rparr>"

definition RestoreFromPersistentProcessInfo :: "u64 \<Rightarrow> u64 \<Rightarrow> u64 \<Rightarrow> nat \<Rightarrow> xstate \<Rightarrow> xstate res" where
  "RestoreFromPersistentProcessInfo kernel_pml4 stack_end1 stack_end2 pp x =
     bind_res (GetValidContext (xs_mem x) pp) (\<lambda>v.
     bind_res (GetWorkingContext (xs_mem x) pp) (\<lambda>w.
     bind_res (CopyContextFrom w v x) (\<lambda>x.
     Ok (PrepareContextForRestoring kernel_pml4 stack_end2 w
          (PrepareContextForRestoring kernel_pml4 stack_end1 v x)))))"

end
