(* ===== verification/Persistent_Process.thy ===== *)
theory Persistent_Process
  imports Execution_Context
begin

text \<open>
Persistent processes over a loss of power: a context switch is atomic, and yet a change may be lost,
  since the copy of the context which it makes is not flushed.
\<close>

section \<open>Copying bytes\<close>

lemma memcpy_p_Suc: "memcpy_p d a (Suc n) s = (let s' = memcpy_p d a n s in pstore (d + n) [vol s' (a + n)] s')"
  by (simp add: memcpy_p_def Let_def)

lemma memcpy_p_acts: "\<exists>as. acts_to s as (memcpy_p d a n s) \<and> stores_in {d..<d + n} as"
proof (induction n)
  case 0
  then show ?case using acts_to_refl by (intro exI[of _ "[]"]) (simp add: memcpy_p_def stores_in_def)
next
  case (Suc n)
  then obtain as where as: "acts_to s as (memcpy_p d a n s)" "stores_in {d..<d + n} as" by blast
  let ?x = "Store (d + n) [vol (memcpy_p d a n s) (a + n)]"
  have "stores_in {d..<d + Suc n} [?x]" by (simp add: stores_in_def)
  moreover have "stores_in {d..<d + Suc n} as" using as(2) by (rule stores_in_mono) auto
  ultimately show ?case
    using acts_to_trans[OF as(1) acts_to_pstore] by (intro exI[of _ "as @ [?x]"]) (simp add: memcpy_p_Suc Let_def)
qed

lemma memcpy_p_vol:
  assumes "d + n \<le> a \<or> a + n \<le> d"
  shows "vol (memcpy_p d a n s) k = (if d \<le> k \<and> k < d + n then vol s (a + (k - d)) else vol s k)"
  using assms
proof (induction n arbitrary: k)
  case (Suc n)
  have "vol (memcpy_p d a n s) (a + n) = vol s (a + n)" using Suc by auto
  then show ?case using Suc by (auto simp: memcpy_p_Suc Let_def pstore_def)
qed (auto simp: memcpy_p_def)

section \<open>Flushing a context\<close>

lemma flushable_same: "same_tables m m' \<Longrightarrow> flushable pam m' pml4 va sz = flushable pam m pml4 va sz"
  by (simp add: flushable_def Let_def pte_of_same[of m m'] same_entry(1)[of m m'] GetEntryForAddr_def)

definition seg_flushable :: "u64 \<Rightarrow> xstate \<Rightarrow> u64 \<Rightarrow> nat \<Rightarrow> bool" where
  "seg_flushable pam x pml4 seg \<longleftrightarrow>
     flushable pam (xs_tables x) pml4 (GetVirtAddr (xs_mem x) seg) (GetMapSize (xs_mem x) seg)"

definition seg_dirty :: "u64 \<Rightarrow> xstate \<Rightarrow> u64 \<Rightarrow> nat \<Rightarrow> nat \<Rightarrow> bool" where
  "seg_dirty pam x pml4 seg k \<longleftrightarrow>
     dirty_byte pam (xs_tables x) pml4 (GetVirtAddr (xs_mem x) seg) (GetMapSize (xs_mem x) seg) k"

text \<open>A part of a flush: no store, only lines of bytes in \<open>A\<close> are flushed, and those of bytes in \<open>B\<close> are.\<close>

definition flush_part :: "u64 \<Rightarrow> u64 \<Rightarrow> xstate \<Rightarrow> mem_action list \<Rightarrow> xstate \<Rightarrow> nat set \<Rightarrow> nat set \<Rightarrow> bool" where
  "flush_part pam pml4 x fl x' A B \<longleftrightarrow>
     xs_mem x' = (xs_mem x)\<lparr>acts := acts (xs_mem x) @ fl\<rparr> \<and> stat_copied_bytes x' = stat_copied_bytes x \<and>
     flushed_only pam PML4 pml4 (xs_tables x) fl (xs_tables x') \<and>
     (\<forall>y\<in>set fl. \<exists>a. y = Flush a \<and> a \<in> A) \<and>
     (\<forall>k\<in>B. \<exists>a. Flush a \<in> set fl \<and> a div 64 = k div 64)"

lemma flush_part_trans:
  assumes "flush_part pam pml4 x fl x1 A B" "flush_part pam pml4 x1 fl' x2 A' B'"
    and "\<And>k. k \<in> C \<Longrightarrow> k \<in> B \<or> k \<in> B' \<or> (\<exists>a. Flush a \<in> set fl \<and> a div 64 = k div 64)" "A \<subseteq> D" "A' \<subseteq> D"
  shows "flush_part pam pml4 x (fl @ fl') x2 D C"
proof -
  have "\<exists>a. Flush a \<in> set (fl @ fl') \<and> a div 64 = k div 64" if "k \<in> C" for k
    using assms(3)[OF that] assms(1,2) unfolding flush_part_def by fastforce
  moreover have "\<forall>y\<in>set (fl @ fl'). \<exists>a. y = Flush a \<and> a \<in> D"
    using assms(1,2,4,5) unfolding flush_part_def by fastforce
  ultimately show ?thesis
    using assms(1,2) flushed_only_trans unfolding flush_part_def by fastforce
qed

lemma SegmentMapping_Flush_effect:
  assumes "seg_flushable pam x pml4 seg"
  shows "\<exists>fl x'. SegmentMapping_Flush pam pml4 seg x = Ok x' \<and>
    flush_part pam pml4 x fl x' {k. seg_dirty pam x pml4 seg k} {k. seg_dirty pam x pml4 seg k}"
proof -
  obtain m' stat' fl where "FlushDirtyPages pam pml4 (GetVirtAddr (xs_mem x) seg) (GetMapSize (xs_mem x) seg)
      (xs_tables x, stat_num_of_clflush x, xs_mem x) = Ok (m', stat', (xs_mem x)\<lparr>acts := acts (xs_mem x) @ fl\<rparr>)"
    "flushed_only pam PML4 pml4 (xs_tables x) fl m'"
    "\<forall>y\<in>set fl. \<exists>a. y = Flush a \<and> seg_dirty pam x pml4 seg a"
    "\<forall>k. seg_dirty pam x pml4 seg k \<longrightarrow> (\<exists>a. Flush a \<in> set fl \<and> a div 64 = k div 64)"
    using FlushDirtyPages_effect[OF assms[unfolded seg_flushable_def]] unfolding seg_dirty_def by blast
  then show ?thesis by (intro exI[of _ fl] exI) (auto simp: SegmentMapping_Flush_def flush_part_def)
qed

lemma flush_part_keeps:
  assumes "flush_part pam pml4 x fl x' A B"
  shows "seg_flushable pam x' pml4 seg = seg_flushable pam x pml4 seg"
    and "seg_dirty pam x' pml4 seg k \<Longrightarrow> seg_dirty pam x pml4 seg k"
    and "seg_dirty pam x pml4 seg k \<Longrightarrow> seg_dirty pam x' pml4 seg k \<or> (\<exists>a. Flush a \<in> set fl \<and> a div 64 = k div 64)"
proof -
  have f: "flushed_only pam PML4 pml4 (xs_tables x) fl (xs_tables x')" and
    v: "vol (xs_mem x') = vol (xs_mem x)" using assms by (simp_all add: flush_part_def)
  have a: "GetVirtAddr (xs_mem x') seg = GetVirtAddr (xs_mem x) seg" "GetMapSize (xs_mem x') seg = GetMapSize (xs_mem x) seg"
    using v by (simp_all add: GetVirtAddr_def GetMapSize_def)
  show "seg_flushable pam x' pml4 seg = seg_flushable pam x pml4 seg"
    using f flushable_same unfolding seg_flushable_def a flushed_only_def by blast
  show "seg_dirty pam x' pml4 seg k \<Longrightarrow> seg_dirty pam x pml4 seg k"
    "seg_dirty pam x pml4 seg k \<Longrightarrow> seg_dirty pam x' pml4 seg k \<or> (\<exists>a. Flush a \<in> set fl \<and> a div 64 = k div 64)"
    using f flushed_only_less[OF f] unfolding seg_dirty_def a dirty_byte_def flushed_only_def by blast+
qed

definition ctx_dirty :: "u64 \<Rightarrow> xstate \<Rightarrow> nat \<Rightarrow> nat \<Rightarrow> bool" where
  "ctx_dirty pam x c k \<longleftrightarrow> (\<exists>seg \<in> {code_seg c, data_seg c, heap_seg c}. seg_dirty pam x (GetCR3 (xs_mem x) c) seg k)"

definition ctx_flushable :: "u64 \<Rightarrow> xstate \<Rightarrow> nat \<Rightarrow> bool" where
  "ctx_flushable pam x c \<longleftrightarrow> (\<forall>seg \<in> {code_seg c, data_seg c, heap_seg c}. seg_flushable pam x (GetCR3 (xs_mem x) c) seg)"

lemma ExecutionContext_Flush_effect:
  assumes "ctx_flushable pam x c" "c mod 64 < 41"
  obtains fl x' where "ExecutionContext_Flush pam (GetCR3 (xs_mem x) c) c x = Ok x'"
    "flush_part pam (GetCR3 (xs_mem x) c) x fl x' ({k. ctx_dirty pam x c k} \<union> {c..<c + 792}) ({k. ctx_dirty pam x c k} \<union> {c..<c + 792})"
proof -
  let ?p = "GetCR3 (xs_mem x) c"
  have r: "seg_flushable pam x ?p (code_seg c)" "seg_flushable pam x ?p (data_seg c)" "seg_flushable pam x ?p (heap_seg c)"
    using assms(1) by (simp_all add: ctx_flushable_def)
  obtain f1 x1 where 1: "SegmentMapping_Flush pam ?p (code_seg c) x = Ok x1"
    "flush_part pam ?p x f1 x1 {k. seg_dirty pam x ?p (code_seg c) k} {k. seg_dirty pam x ?p (code_seg c) k}"
    using SegmentMapping_Flush_effect[OF r(1)] by blast
  obtain f2 x2 where 2: "SegmentMapping_Flush pam ?p (data_seg c) x1 = Ok x2"
    "flush_part pam ?p x1 f2 x2 {k. seg_dirty pam x1 ?p (data_seg c) k} {k. seg_dirty pam x1 ?p (data_seg c) k}"
    using SegmentMapping_Flush_effect[of pam x1] r(2) flush_part_keeps(1)[OF 1(2)] by blast
  have 12: "flush_part pam ?p x (f1 @ f2) x2 {k. ctx_dirty pam x c k}
      ({k. seg_dirty pam x ?p (code_seg c) k} \<union> {k. seg_dirty pam x ?p (data_seg c) k})"
    by (rule flush_part_trans[OF 1(2) 2(2)]) (use flush_part_keeps(2,3)[OF 1(2)] in \<open>auto simp: ctx_dirty_def\<close>)
  obtain f3 x3 where 3: "SegmentMapping_Flush pam ?p (heap_seg c) x2 = Ok x3"
    "flush_part pam ?p x2 f3 x3 {k. seg_dirty pam x2 ?p (heap_seg c) k} {k. seg_dirty pam x2 ?p (heap_seg c) k}"
    using SegmentMapping_Flush_effect[of pam x2] r(3) flush_part_keeps(1)[OF 12] by blast
  have 123: "flush_part pam ?p x ((f1 @ f2) @ f3) x3 {k. ctx_dirty pam x c k} {k. ctx_dirty pam x c k}"
    by (rule flush_part_trans[OF 12 3(2)]) (use flush_part_keeps(2,3)[OF 12] in \<open>auto simp: ctx_dirty_def\<close>)
  let ?f4 = "map (\<lambda>i. Flush (c + 64 * i)) [0..<(792 + 63) div 64]"
  let ?x4 = "x3\<lparr>stat_num_of_clflush := stat_num_of_clflush x3 + (792 + 63) div 64,
    xs_mem := (xs_mem x3)\<lparr>acts := acts (xs_mem x3) @ ?f4\<rparr>\<rparr>"
  have "\<exists>a. Flush a \<in> set ?f4 \<and> a div 64 = k div 64" if "k \<in> {c..<c + 792}" for k
    using CLFlush_range_covers[of c k 792] that assms(2) by fastforce
  then have 4: "flush_part pam ?p x3 ?f4 ?x4 {c..<c + 792} {c..<c + 792}"
    by (auto simp: flush_part_def flushed_only_def same_tables_def)
  have "ExecutionContext_Flush pam ?p c x = Ok ?x4"
    by (simp add: ExecutionContext_Flush_def ProcessMappingInfo_Flush_def 1(1) 2(1) 3(1) CLFlush_range_eq del: upt_Suc)
  then show ?thesis
    by (rule that[OF _ flush_part_trans[OF 123 4]]) auto
qed

section \<open>Copying a context\<close>

definition seg_bytes :: "cmem \<Rightarrow> nat \<Rightarrow> nat set" where
  "seg_bytes m seg = {unat (ld64 m (seg + 8))..<unat (ld64 m (seg + 8)) + unat (ld64 m (seg + 16))}"

text \<open>
  A persistent process as the loader makes it: both contexts have segments of the same sizes, and the
  segments and the structure are apart from each other.
\<close>

fun apart_all :: "nat set list \<Rightarrow> bool" where
  "apart_all [] \<longleftrightarrow> True"
| "apart_all (r # rs) \<longleftrightarrow> (\<forall>s\<in>set rs. r \<inter> s = {}) \<and> apart_all rs"

definition ppi_regions :: "cmem \<Rightarrow> nat \<Rightarrow> nat set list" where
  "ppi_regions m pp = [{pp..<pp + 1600}, seg_bytes m (data_seg (ctx_at pp 0)), seg_bytes m (stack_seg (ctx_at pp 0)),
     seg_bytes m (data_seg (ctx_at pp 1)), seg_bytes m (stack_seg (ctx_at pp 1))]"

definition ppi_separate :: "cmem \<Rightarrow> nat \<Rightarrow> bool" where
  "ppi_separate m pp \<longleftrightarrow> apart_all (ppi_regions m pp) \<and>
     ld64 m (data_seg (ctx_at pp 0) + 16) = ld64 m (data_seg (ctx_at pp 1) + 16) \<and>
     ld64 m (stack_seg (ctx_at pp 0) + 16) = ld64 m (stack_seg (ctx_at pp 1) + 16)"

lemma ppi_separateD:
  assumes "ppi_separate m pp" "i < 2" "j = 1 - i"
  shows "seg_bytes m (data_seg (ctx_at pp i)) \<inter> {pp..<pp + 1600} = {}"
    "seg_bytes m (stack_seg (ctx_at pp i)) \<inter> {pp..<pp + 1600} = {}"
    "seg_bytes m (data_seg (ctx_at pp i)) \<inter> seg_bytes m (data_seg (ctx_at pp j)) = {}"
    "seg_bytes m (stack_seg (ctx_at pp i)) \<inter> seg_bytes m (stack_seg (ctx_at pp j)) = {}"
    "seg_bytes m (data_seg (ctx_at pp i)) \<inter> seg_bytes m (stack_seg (ctx_at pp j)) = {}"
    "seg_bytes m (data_seg (ctx_at pp i)) \<inter> seg_bytes m (stack_seg (ctx_at pp i)) = {}"
    "ld64 m (data_seg (ctx_at pp i) + 16) = ld64 m (data_seg (ctx_at pp j) + 16)"
    "ld64 m (stack_seg (ctx_at pp i) + 16) = ld64 m (stack_seg (ctx_at pp j) + 16)"
proof -
  let ?s = "{pp..<pp + 1600}" and ?d = "\<lambda>n. seg_bytes m (data_seg (ctx_at pp n))" and ?t = "\<lambda>n. seg_bytes m (stack_seg (ctx_at pp n))"
  have e: "?d 0 \<inter> ?s = {}" "?t 0 \<inter> ?s = {}" "?d 1 \<inter> ?s = {}" "?t 1 \<inter> ?s = {}" "?t 0 \<inter> ?d 0 = {}"
    "?d 1 \<inter> ?d 0 = {}" "?t 1 \<inter> ?d 0 = {}" "?d 1 \<inter> ?t 0 = {}" "?t 1 \<inter> ?t 0 = {}" "?t 1 \<inter> ?d 1 = {}"
    using assms(1) by (simp_all add: ppi_separate_def ppi_regions_def Int_commute)
  have c: "i = 0 \<and> j = 1 \<or> i = 1 \<and> j = 0" using assms(2,3) by (cases "i = 0") auto
  have z: "ld64 m (data_seg (ctx_at pp 0) + 16) = ld64 m (data_seg (ctx_at pp 1) + 16)"
    "ld64 m (stack_seg (ctx_at pp 0) + 16) = ld64 m (stack_seg (ctx_at pp 1) + 16)"
    using assms(1) by (simp_all add: ppi_separate_def)
  show "seg_bytes m (data_seg (ctx_at pp i)) \<inter> {pp..<pp + 1600} = {}"
    using c e(1,3) by (elim disjE) simp_all
  show "seg_bytes m (stack_seg (ctx_at pp i)) \<inter> {pp..<pp + 1600} = {}"
    using c e(2,4) by (elim disjE) simp_all
  show "seg_bytes m (data_seg (ctx_at pp i)) \<inter> seg_bytes m (data_seg (ctx_at pp j)) = {}"
    using c e(6) by (elim disjE) (simp_all add: Int_commute)
  show "seg_bytes m (stack_seg (ctx_at pp i)) \<inter> seg_bytes m (stack_seg (ctx_at pp j)) = {}"
    using c e(9) by (elim disjE) (simp_all add: Int_commute)
  show "seg_bytes m (data_seg (ctx_at pp i)) \<inter> seg_bytes m (stack_seg (ctx_at pp j)) = {}"
    using c e(7,8) by (elim disjE) (simp_all add: Int_commute)
  show "seg_bytes m (data_seg (ctx_at pp i)) \<inter> seg_bytes m (stack_seg (ctx_at pp i)) = {}"
    using c e(5,10) by (elim disjE) (simp_all add: Int_commute)
  show "ld64 m (data_seg (ctx_at pp i) + 16) = ld64 m (data_seg (ctx_at pp j) + 16)"
    "ld64 m (stack_seg (ctx_at pp i) + 16) = ld64 m (stack_seg (ctx_at pp j) + 16)"
    using c z by auto
qed

definition copy_target :: "cmem \<Rightarrow> nat \<Rightarrow> nat set" where
  "copy_target m c = {c..<c + 680} \<union> seg_bytes m (data_seg c) \<union> seg_bytes m (stack_seg c)"

text \<open>The structure is kept, apart from the processor state of the target.\<close>

lemma CopyDataFrom_effect:
  assumes "ld64 (volx x) (seg + 16) = ld64 (volx x) (from + 16)"
  obtains as x' where "CopyDataFrom seg from x = Ok x'" "acts_to (xs_mem x) as (xs_mem x')"
    "stores_in (seg_bytes (volx x) seg) as" "xs_tables x' = xs_tables x"
    "volx x' = vol (memcpy_p (unat (ld64 (volx x) (seg + 8))) (unat (ld64 (volx x) (from + 8))) (unat (ld64 (volx x) (seg + 16))) (xs_mem x))"
proof -
  let ?s = "memcpy_p (unat (ld64 (volx x) (seg + 8))) (unat (ld64 (volx x) (from + 8))) (unat (ld64 (volx x) (seg + 16))) (xs_mem x)"
  obtain as where as: "acts_to (xs_mem x) as ?s" "stores_in (seg_bytes (volx x) seg) as"
    using memcpy_p_acts unfolding seg_bytes_def by blast
  have "CopyDataFrom seg from x = Ok (x\<lparr>xs_mem := ?s, stat_copied_bytes := stat_copied_bytes x + unat (ld64 (volx x) (seg + 16))\<rparr>)"
    using assms by (simp add: CopyDataFrom_def GetMapSize_def GetPhysAddr_def Let_def)
  from that[OF this _ as(2)] as(1) show ?thesis by simp
qed

lemma CopyContextFrom_effect:
  assumes sep: "ppi_separate (volx x) pp" and i: "i < 2" "j = 1 - i" and c: "c = ctx_at pp i" "f = ctx_at pp j"
  obtains cp x' where "CopyContextFrom c f x = Ok x'" "acts_to (xs_mem x) cp (xs_mem x')"
    "stores_in (copy_target (volx x) c) cp" "xs_tables x' = xs_tables x"
    "\<forall>k. k \<notin> copy_target (volx x) c \<longrightarrow> volx x' k = volx x k"
    "\<forall>k. 8 \<le> k \<and> k < 680 \<longrightarrow> volx x' (c + k) = volx x (f + k)" "ld64 (volx x') c = ld64 (volx x) c"
    "\<forall>k < unat (ld64 (volx x) (data_seg c + 16)).
       volx x' (unat (ld64 (volx x) (data_seg c + 8)) + k) = volx x (unat (ld64 (volx x) (data_seg f + 8)) + k)"
proof -
  let ?m = "volx x"
  note sd = ppi_separateD[OF sep i, folded c]
  have ne: "c + 792 \<le> f \<or> f + 792 \<le> c" using i c by (cases "i = 0") (auto simp: ctx_at_def)
  have st: "pp \<le> c" "c + 792 \<le> pp + 1584" "pp \<le> f" "f + 792 \<le> pp + 1584"
    using i c by (cases "i = 0"; auto simp: ctx_at_def)+
  let ?x1 = "x\<lparr>xs_mem := st64 c (GetCR3 (xs_mem x) c) (memcpy_p c f 680 (xs_mem x))\<rparr>"
  obtain a0 where "acts_to (xs_mem x) a0 (memcpy_p c f 680 (xs_mem x))" "stores_in {c..<c + 680} a0"
    using memcpy_p_acts by blast
  then have a1: "acts_to (xs_mem x) (a0 @ [Store c (u64_bytes (GetCR3 (xs_mem x) c))]) (xs_mem ?x1)"
    "stores_in {c..<c + 680} (a0 @ [Store c (u64_bytes (GetCR3 (xs_mem x) c))])"
    using acts_to_trans[OF _ acts_to_pstore] by (auto simp: st64_def stores_in_def)
  have f1: "ld64 (volx ?x1) a = ld64 ?m a" if "c + 680 \<le> a \<or> a + 8 \<le> c" for a
    by (rule ld64_unread[OF a1]) (use that in auto)
  let ?D = "seg_bytes ?m (data_seg c)" and ?S = "seg_bytes ?m (stack_seg c)"
  have b1: "seg_bytes (volx ?x1) (data_seg c) = ?D"
    unfolding seg_bytes_def using f1 by (simp add: data_seg_def)
  have eq1: "ld64 (volx ?x1) (data_seg c + 16) = ld64 (volx ?x1) (data_seg f + 16)"
    using f1[of "data_seg c + 16"] f1[of "data_seg f + 16"] sd(7) ne by (auto simp: data_seg_def)
  obtain a2 x2 where x2: "CopyDataFrom (data_seg c) (data_seg f) ?x1 = Ok x2" "acts_to (xs_mem ?x1) a2 (xs_mem x2)"
    "stores_in ?D a2" "xs_tables x2 = xs_tables ?x1" and v2: "volx x2 = vol (memcpy_p (unat (ld64 (volx ?x1) (data_seg c + 8)))
       (unat (ld64 (volx ?x1) (data_seg f + 8))) (unat (ld64 (volx ?x1) (data_seg c + 16))) (xs_mem ?x1))"
    by (rule CopyDataFrom_effect[OF eq1, unfolded b1])
  have f2: "ld64 (volx x2) a = ld64 ?m a" if "c + 680 \<le> a \<or> a + 8 \<le> c" "pp \<le> a" "a + 8 \<le> pp + 1600" for a
  proof -
    have "{a..<a + 8} \<inter> ?D = {}" using sd(1) that(2,3) by fastforce
    then show ?thesis using ld64_unread[OF x2(2,3), of a] f1[OF that(1)] by simp
  qed
  have b2: "seg_bytes (volx x2) (stack_seg c) = ?S"
    unfolding seg_bytes_def using f2 st by (simp add: stack_seg_def)
  have eq2: "ld64 (volx x2) (stack_seg c + 16) = ld64 (volx x2) (stack_seg f + 16)"
    using f2[of "stack_seg c + 16"] f2[of "stack_seg f + 16"] sd(8) ne st by (auto simp: stack_seg_def)
  obtain a3 x3 where x3: "CopyDataFrom (stack_seg c) (stack_seg f) x2 = Ok x3" "acts_to (xs_mem x2) a3 (xs_mem x3)"
    "stores_in ?S a3" "xs_tables x3 = xs_tables x2"
    by (rule CopyDataFrom_effect[OF eq2, unfolded b2])
  let ?cp = "(a0 @ [Store c (u64_bytes (GetCR3 (xs_mem x) c))]) @ a2 @ a3"
  have si: "stores_in (copy_target ?m c) ?cp"
  proof -
    have "stores_in (copy_target ?m c) (a0 @ [Store c (u64_bytes (GetCR3 (xs_mem x) c))])"
      by (rule stores_in_mono[OF a1(2)]) (auto simp: copy_target_def)
    moreover have "stores_in (copy_target ?m c) a2" by (rule stores_in_mono[OF x2(3)]) (auto simp: copy_target_def)
    moreover have "stores_in (copy_target ?m c) a3" by (rule stores_in_mono[OF x3(3)]) (auto simp: copy_target_def)
    ultimately show ?thesis by (simp only: stores_in_append)
  qed
  have at: "acts_to (xs_mem x) ?cp (xs_mem x3)" using acts_to_trans[OF a1(1) acts_to_trans[OF x2(2) x3(2)]] .
  have run: "CopyContextFrom c f x = Ok x3" by (simp add: CopyContextFrom_def Let_def x2(1) x3(1))
  have v3: "volx x3 k = volx ?x1 k" if "k \<notin> ?D" "k \<notin> ?S" for k
    using memcpy_p_unread[OF x3(2,3) that(2)] memcpy_p_unread[OF x2(2,3) that(1)] by simp
  have inD: "k \<notin> ?D" "k \<notin> ?S" if "pp \<le> k" "k < pp + 1600" for k using sd(1,2) that by auto
  have v1: "volx ?x1 k = (if c \<le> k \<and> k < c + 8 then u64_bytes (GetCR3 (xs_mem x) c) ! (k - c)
      else if c \<le> k \<and> k < c + 680 then ?m (f + (k - c)) else ?m k)" for k
  proof -
    have "c + 680 \<le> f \<or> f + 680 \<le> c" using ne by auto
    from memcpy_p_vol[OF this, of "xs_mem x" k] show ?thesis by (simp add: st64_def pstore_def put_bytes_at)
  qed
  show ?thesis
  proof (rule that[OF run at si])
    show "xs_tables x3 = xs_tables x" using x2(4) x3(4) by simp
    show "\<forall>k. k \<notin> copy_target ?m c \<longrightarrow> volx x3 k = ?m k"
      using memcpy_p_unread[OF at si] by blast
    have "volx x3 (c + k) = ?m (f + k)" if "8 \<le> k" "k < 680" for k
      using v3[of "c + k"] inD[of "c + k"] v1[of "c + k"] that st by simp
    then show "\<forall>k. 8 \<le> k \<and> k < 680 \<longrightarrow> volx x3 (c + k) = ?m (f + k)" by blast
    show "ld64 (volx x3) c = ld64 ?m c"
    proof -
      have "get_bytes (volx x3) c 8 = u64_bytes (GetCR3 (xs_mem x) c)"
        by (rule nth_equalityI) (use v3 inD v1 st in simp_all)
      then show ?thesis using ld64_bytes by (metis GetCR3_def)
    qed
    have "volx x3 (unat (ld64 ?m (data_seg c + 8)) + k) = ?m (unat (ld64 ?m (data_seg f + 8)) + k)"
      if k: "k < unat (ld64 ?m (data_seg c + 16))" for k
    proof -
      let ?a = "unat (ld64 ?m (data_seg c + 8))" and ?b = "unat (ld64 ?m (data_seg f + 8))" and ?n = "unat (ld64 ?m (data_seg c + 16))"
      have F: "ld64 (volx ?x1) (data_seg c + 8) = ld64 ?m (data_seg c + 8)" "ld64 (volx ?x1) (data_seg f + 8) = ld64 ?m (data_seg f + 8)"
        "ld64 (volx ?x1) (data_seg c + 16) = ld64 ?m (data_seg c + 16)"
        using f1 ne by (auto simp: data_seg_def)
      have kD: "?a + k \<in> ?D" using k by (simp add: seg_bytes_def)
      then have kS: "?a + k \<notin> ?S" using sd(6) by auto
      have fD: "?b + k \<in> seg_bytes ?m (data_seg f)" using k sd(7) by (simp add: seg_bytes_def)
      have "seg_bytes ?m (data_seg f) \<inter> {pp..<pp + 1600} = {}"
        using ppi_separateD(1)[OF sep _ refl, of j] i(2) c(2) by simp
      then have "?b + k \<notin> {pp..<pp + 1600}" using fD by blast
      then have fc: "?b + k \<notin> {c..<c + 680}" using st(1,2) unfolding atLeastLessThan_iff by linarith
      have ap: "?a + ?n \<le> ?b \<or> ?b + ?n \<le> ?a"
      proof (rule ccontr)
        assume "\<not> (?a + ?n \<le> ?b \<or> ?b + ?n \<le> ?a)"
        then have "max ?a ?b \<in> ?D" "max ?a ?b \<in> seg_bytes ?m (data_seg f)" using sd(7) by (auto simp: seg_bytes_def)
        then show False using sd(3) by blast
      qed
      have "volx x3 (?a + k) = volx x2 (?a + k)" using memcpy_p_unread[OF x3(2,3) kS] .
      also have "\<dots> = volx ?x1 (?b + k)" unfolding v2 F using memcpy_p_vol[OF ap] k by simp
      also have "\<dots> = ?m (?b + k)" using memcpy_p_unread[OF a1 fc] .
      finally show ?thesis .
    qed
    then show "\<forall>k < unat (ld64 ?m (data_seg c + 16)).
      volx x3 (unat (ld64 ?m (data_seg c + 8)) + k) = ?m (unat (ld64 ?m (data_seg f + 8)) + k)" by blast
  qed
qed

section \<open>Switching the contexts of a persistent process\<close>

lemma seg_bytes_cong:
  "(\<And>k. seg \<le> k \<Longrightarrow> k < seg + 24 \<Longrightarrow> m' k = m k) \<Longrightarrow> seg_bytes m' seg = seg_bytes m seg"
  unfolding seg_bytes_def using ld64_cong[of m' "seg + 8" m] ld64_cong[of m' "seg + 16" m] by simp

lemma ppi_cong:
  assumes "\<And>n k. n < 2 \<Longrightarrow> ctx_at pp n + 680 \<le> k \<Longrightarrow> k < ctx_at pp n + 792 \<Longrightarrow> m' k = m k" "i < 2"
  shows "ppi_separate m' pp = ppi_separate m pp" "copy_target m' (ctx_at pp i) = copy_target m (ctx_at pp i)"
proof -
  have s: "seg_bytes m' (data_seg (ctx_at pp n)) = seg_bytes m (data_seg (ctx_at pp n))"
    "seg_bytes m' (stack_seg (ctx_at pp n)) = seg_bytes m (stack_seg (ctx_at pp n))"
    "ld64 m' (data_seg (ctx_at pp n) + 16) = ld64 m (data_seg (ctx_at pp n) + 16)"
    "ld64 m' (stack_seg (ctx_at pp n) + 16) = ld64 m (stack_seg (ctx_at pp n) + 16)" if "n < 2" for n
    using that by (auto intro!: seg_bytes_cong ld64_cong assms(1)[of n] simp: data_seg_def stack_seg_def)
  show "ppi_separate m' pp = ppi_separate m pp" by (simp add: ppi_separate_def ppi_regions_def s)
  show "copy_target m' (ctx_at pp i) = copy_target m (ctx_at pp i)" using s assms(2) by (simp add: copy_target_def)
qed

lemma valid_idx_word:
  assumes "valid_ctx_idx m pp = int i" "i < 2"
  shows "1 - ld32 m (pp + 1584) = (of_nat (1 - i) :: u32)"
proof -
  have "ld32 m (pp + 1584) = of_int (int i)" using assms(1)[unfolded valid_ctx_idx_def, symmetric] by simp
  then show ?thesis using less_2_cases[OF assms(2)] by auto
qed

lemma valid_idx_bytes:
  assumes "\<And>k. k \<in> {pp + 1584..<pp + 1588} \<Longrightarrow> m k = u32_bytes (of_nat n) ! (k - (pp + 1584))" "n < 2"
  shows "valid_ctx_idx m pp = int n"
proof -
  have "get_bytes m (pp + 1584) 4 = u32_bytes (of_nat n)" by (rule nth_equalityI) (use assms(1) in auto)
  then have "ld32 m (pp + 1584) = of_nat n" by (rule ld32_bytes)
  then show ?thesis using less_2_cases[OF assms(2)] by (auto simp: valid_ctx_idx_def)
qed

lemma copy_target_apart:
  assumes "ppi_separate m pp" "i < 2" "k \<in> copy_target m (ctx_at pp i)" "pp \<le> k" "k < pp + 1600"
  shows "ctx_at pp i \<le> k \<and> k < ctx_at pp i + 680"
  using assms(3-5) ppi_separateD(1,2)[OF assms(1,2) refl] by (auto simp: copy_target_def)

lemma PPI_SwitchContext_effect:
  assumes sep: "ppi_separate (volx x) pp" and idx: "valid_ctx_idx (volx x) pp = int i" and i: "i < 2" "j = 1 - i"
    and c: "v = ctx_at pp i" "c = ctx_at pp j" and fl: "ctx_flushable pam x c" and al: "64 dvd pp"
  obtains fl cp x' where "PPI_SwitchContext pam pp x = Ok x'"
    "acts_to (xs_mem x) (fl @ [Store (pp + 1584) (u32_bytes (of_nat j)), Flush (pp + 1584)] @ cp) (xs_mem x')"
    "\<forall>y\<in>set fl. \<exists>a. y = Flush a \<and> (ctx_dirty pam x c a \<or> a \<in> {c..<c + 792})"
    "\<forall>k. ctx_dirty pam x c k \<or> k \<in> {c..<c + 792} \<longrightarrow> (\<exists>a. Flush a \<in> set fl \<and> a div 64 = k div 64)"
    "stores_in (copy_target (volx x) v) cp"
    "valid_ctx_idx (volx x') pp = int j"
    "flushed_only pam PML4 (GetCR3 (xs_mem x) c) (xs_tables x) fl (xs_tables x')"
    "\<forall>k. k \<notin> copy_target (volx x) v \<and> k \<notin> {pp + 1584..<pp + 1588} \<longrightarrow> volx x' k = volx x k"
    "\<forall>k. 8 \<le> k \<and> k < 680 \<longrightarrow> volx x' (v + k) = volx x (c + k)" "ld64 (volx x') v = ld64 (volx x) v"
    "\<forall>k < unat (ld64 (volx x) (data_seg v + 16)).
       volx x' (unat (ld64 (volx x) (data_seg v + 8)) + k) = volx x (unat (ld64 (volx x) (data_seg c + 8)) + k)"
proof -
  let ?m = "volx x"
  have j: "j < 2" "1 - j = i" using i by auto
  have st: "pp \<le> c" "c + 792 \<le> pp + 1584" "pp \<le> v" "v + 792 \<le> pp + 1584" "v + 792 \<le> c \<or> c + 792 \<le> v"
    using i c by (cases "i = 0"; auto simp: ctx_at_def)+
  have c64: "c mod 64 < 41"
  proof -
    obtain q where "pp = 64 * q" using al by auto
    then have "c = 792 * j + 64 * q" using c by (simp add: ctx_at_def)
    then have "c mod 64 = 792 * j mod 64" by simp
    then show ?thesis using less_2_cases[OF j(1)] by auto
  qed
  have w: "GetWorkingContext (xs_mem x) pp = Ok c"
    using idx c i(2) less_2_cases[OF i(1)] by (auto simp: GetWorkingContext_def Let_def)
  obtain fl x1 where x1: "ExecutionContext_Flush pam (GetCR3 (xs_mem x) c) c x = Ok x1"
    "flush_part pam (GetCR3 (xs_mem x) c) x fl x1 ({k. ctx_dirty pam x c k} \<union> {c..<c + 792}) ({k. ctx_dirty pam x c k} \<union> {c..<c + 792})"
    by (rule ExecutionContext_Flush_effect[OF fl c64])
  have m1: "xs_mem x1 = (xs_mem x)\<lparr>acts := acts (xs_mem x) @ fl\<rparr>" and t1: "flushed_only pam PML4 (GetCR3 (xs_mem x) c) (xs_tables x) fl (xs_tables x1)"
    and fo: "\<forall>y\<in>set fl. \<exists>a. y = Flush a \<and> a \<in> {k. ctx_dirty pam x c k} \<union> {c..<c + 792}"
    and co: "\<forall>k\<in>{k. ctx_dirty pam x c k} \<union> {c..<c + 792}. \<exists>a. Flush a \<in> set fl \<and> a div 64 = k div 64"
    using x1(2) by (simp_all add: flush_part_def)
  have a1: "acts_to (xs_mem x) fl (xs_mem x1)" using acts_to_flushes[of fl "xs_mem x"] fo m1 by auto
  let ?x2 = "x1\<lparr>xs_mem := SetValidContextIndex pp (1 - ld32 (volx x1) (pp + 1584)) (xs_mem x1)\<rparr>"
  have ix: "1 - ld32 (volx x1) (pp + 1584) = (of_nat j :: u32)" using valid_idx_word[OF idx i(1)] i(2) m1 by simp
  have a2: "acts_to (xs_mem x1) [Store (pp + 1584) (u32_bytes (of_nat j)), Flush (pp + 1584)] (xs_mem ?x2)"
    using acts_to_trans[OF acts_to_pstore acts_to_flush] by (simp add: SetValidContextIndex_def ix)
  have v2: "volx ?x2 k = (if k \<in> {pp + 1584..<pp + 1588} then u32_bytes (of_nat j) ! (k - (pp + 1584)) else ?m k)" for k
    unfolding ix using m1 by (auto simp: SetValidContextIndex_def CLFlush_def mm_clflush_def pstore_def put_bytes_at)
  have ag: "volx ?x2 k = ?m k" if "pp \<le> k" "k < pp + 1584" for k using that v2[of k] by simp
  have sep2: "ppi_separate (volx ?x2) pp" "copy_target (volx ?x2) v = copy_target ?m v"
    using ppi_cong[OF ag i(1), of pp] sep c(1) by (auto simp: ctx_at_def)
  have idx2: "valid_ctx_idx (volx ?x2) pp = int j" using valid_idx_bytes[OF _ j(1)] v2 by simp
  have g: "GetWorkingContext (xs_mem ?x2) pp = Ok v" "GetValidContext (xs_mem ?x2) pp = Ok c"
    using idx2 c i(2) less_2_cases[OF i(1)] by (auto simp: GetWorkingContext_def GetValidContext_def Let_def)
  have ld: "ld64 (volx ?x2) a = ld64 ?m a" if "pp \<le> a" "a + 8 \<le> pp + 1584" for a
    by (rule ld64_cong, rule ag) (use that in auto)
  obtain cp x' where x': "CopyContextFrom v c ?x2 = Ok x'" "acts_to (xs_mem ?x2) cp (xs_mem x')"
    "stores_in (copy_target (volx ?x2) v) cp" "xs_tables x' = xs_tables ?x2"
    "\<forall>k. k \<notin> copy_target (volx ?x2) v \<longrightarrow> volx x' k = volx ?x2 k"
    "\<forall>k. 8 \<le> k \<and> k < 680 \<longrightarrow> volx x' (v + k) = volx ?x2 (c + k)" "ld64 (volx x') v = ld64 (volx ?x2) v"
    "\<forall>k < unat (ld64 (volx ?x2) (data_seg v + 16)).
       volx x' (unat (ld64 (volx ?x2) (data_seg v + 8)) + k) = volx ?x2 (unat (ld64 (volx ?x2) (data_seg c + 8)) + k)"
    by (rule CopyContextFrom_effect[OF sep2(1) i c(1) c(2)])
  have run: "PPI_SwitchContext pam pp x = Ok x'"
    unfolding PPI_SwitchContext_def w bind_res.simps x1(1) Let_def g x'(1) ..
  have nt: "k \<notin> copy_target ?m v" if "k \<in> {pp + 1584..<pp + 1588}" for k
    using copy_target_apart[OF sep i(1), folded c, of k] that st by auto
  show ?thesis
  proof (rule that[OF run])
    show "acts_to (xs_mem x) (fl @ [Store (pp + 1584) (u32_bytes (of_nat j)), Flush (pp + 1584)] @ cp) (xs_mem x')"
      using acts_to_trans[OF a1 acts_to_trans[OF a2 x'(2)]] .
    show "stores_in (copy_target ?m v) cp" using x'(3) sep2(2) by simp
    show "flushed_only pam PML4 (GetCR3 (xs_mem x) c) (xs_tables x) fl (xs_tables x')" using x'(4) t1 by simp
    show "valid_ctx_idx (volx x') pp = int j"
      by (rule valid_idx_bytes[OF _ j(1)]) (use x'(5) nt v2 sep2(2) in auto)
    show "\<forall>k. k \<notin> copy_target ?m v \<and> k \<notin> {pp + 1584..<pp + 1588} \<longrightarrow> volx x' k = ?m k"
      using x'(5) v2 sep2(2) by simp
    have "volx x' (v + k) = ?m (c + k)" if "8 \<le> k" "k < 680" for k using x'(6) ag[of "c + k"] that st by simp
    then show "\<forall>k. 8 \<le> k \<and> k < 680 \<longrightarrow> volx x' (v + k) = ?m (c + k)" by blast
    show "ld64 (volx x') v = ld64 ?m v" using x'(7) ld[of v] st by simp
    have "volx x' (unat (ld64 ?m (data_seg v + 8)) + k) = ?m (unat (ld64 ?m (data_seg c + 8)) + k)"
      if k: "k < unat (ld64 ?m (data_seg v + 16))" for k
    proof -
      have l: "ld64 (volx ?x2) (data_seg v + 16) = ld64 ?m (data_seg v + 16)" "ld64 (volx ?x2) (data_seg v + 8) = ld64 ?m (data_seg v + 8)"
        "ld64 (volx ?x2) (data_seg c + 8) = ld64 ?m (data_seg c + 8)" using ld st by (simp_all add: data_seg_def)
      have "unat (ld64 ?m (data_seg c + 8)) + k \<in> seg_bytes ?m (data_seg c)"
        using k ppi_separateD(7)[OF sep i, folded c] by (simp add: seg_bytes_def)
      then have "unat (ld64 ?m (data_seg c + 8)) + k \<notin> {pp..<pp + 1600}"
        using ppi_separateD(1)[OF sep j(1) refl] c(2) by blast
      then have "unat (ld64 ?m (data_seg c + 8)) + k \<notin> {pp + 1584..<pp + 1588}" by auto
      then have "volx ?x2 (unat (ld64 ?m (data_seg c + 8)) + k) = ?m (unat (ld64 ?m (data_seg c + 8)) + k)"
        unfolding v2 by (simp only: if_False)
      then show ?thesis by (rule trans[OF x'(8)[unfolded l, rule_format, OF k]])
    qed
    then show "\<forall>k < unat (ld64 ?m (data_seg v + 16)).
      volx x' (unat (ld64 ?m (data_seg v + 8)) + k) = ?m (unat (ld64 ?m (data_seg c + 8)) + k)" by blast
  qed (use fo co in auto)
qed

section \<open>Properties\<close>

definition idx_bytes :: "nat \<Rightarrow> nat set" where
  "idx_bytes pp = {pp + 1584..<pp + 1588}"

lemma idx_word:
  assumes "64 dvd pp"
  shows "\<forall>k\<in>idx_bytes pp. k div 8 = (pp + 1584) div 8"
proof
  fix k
  assume k: "k \<in> idx_bytes pp"
  obtain z where "pp = 64 * z" using assms by auto
  then have "pp + 1584 = 8 * (8 * z + 198)" by simp
  moreover obtain r where "k = pp + 1584 + r" "r < 4" using k by (auto simp: idx_bytes_def intro: that[of "k - (pp + 1584)"])
  ultimately show "k div 8 = (pp + 1584) div 8" by simp
qed

text \<open>The three parts of a context switch at the loss of power: flushing, the commit, copying.\<close>

lemma loss_in_switch:
  assumes loss: "power_loss v p (fl @ [Store q bs, Flush q] @ cp) img" and fl: "\<forall>y\<in>set fl. \<exists>a. y = Flush a"
    and cp: "stores_in T cp" "T \<inter> {q..<q + length bs} = {}" and g: "\<forall>k\<in>{q..<q + length bs}. k div 8 = g"
    and old: "\<forall>k\<in>{q..<q + length bs}. p k = v k"
  shows "(\<forall>k\<in>{q..<q + length bs}. img k = v k) \<and> (\<forall>k. k \<notin> {q..<q + length bs} \<longrightarrow> img k = p k \<or> img k = v k) \<or>
    (\<forall>k\<in>{q..<q + length bs}. img k = bs ! (k - q)) \<and>
    (\<forall>k. k \<notin> {q..<q + length bs} \<and> k \<notin> T \<and> (\<exists>a. Flush a \<in> set fl \<and> a div 64 = k div 64) \<longrightarrow> img k = v k)"
proof -
  have ns: "\<forall>x\<in>set fl. \<not> stored k x" for k using fl by auto
  have nc: "\<forall>x\<in>set cp. \<not> stored k x" if "k \<notin> T" for k using stores_in_untouched[OF cp(1) that] .
  have nq: "\<forall>x\<in>set cp. \<forall>k\<in>{q..<q + length bs}. \<not> stored k x" using nc cp(2) by blast
  consider (1) "power_loss v p fl img"
    | (2) v1 p1 where "completes v p fl v1 p1" "power_loss v1 p1 ([Store q bs, Flush q] @ cp) img"
    using power_loss_append[OF loss] by blast
  then show ?thesis
  proof cases
    case 1
    then have "img k = p k \<or> img k = v k" for k using power_loss_untouched ns by blast
    then show ?thesis using old by metis
  next
    case 2
    have v1: "v1 = v" "p1 k = p k \<or> p1 k = v k" for k
    proof -
      show "v1 = v" using completes_untouched[OF 2(1) ns] by blast
      show "p1 k = p k \<or> p1 k = v k" using completes_untouched[OF 2(1) ns] by blast
    qed
    have fd: "p1 k = v k" if "\<exists>a. Flush a \<in> set fl \<and> a div 64 = k div 64" for k
      using completes_flushed[OF 2(1) ns] that by blast
    have old1: "\<forall>k\<in>{q..<q + length bs}. p1 k = v k" using v1(2) old by metis
    show ?thesis
    proof (cases "\<forall>k\<in>{q..<q + length bs}. img k = bs ! (k - q)")
      case True
      have "img k = v k" if "k \<notin> {q..<q + length bs}" "k \<notin> T" "\<exists>a. Flush a \<in> set fl \<and> a div 64 = k div 64" for k
      proof -
        have "\<forall>x\<in>set ([Store q bs, Flush q] @ cp). \<not> stored k x" using nc[OF that(2)] that(1) by auto
        then show ?thesis using power_loss_untouched[OF 2(2)] fd[OF that(3)] v1(1) by metis
      qed
      then show ?thesis using True by blast
    next
      case False
      have commit: "\<forall>k\<in>{q..<q + length bs}. img k = v k"
        using power_loss_commit[of v1 p1 q bs "Flush q # cp" img g] 2(2) nq g old1 v1(1) False by auto
      have "power_loss v1 p1 [Store q bs, Flush q] img"
        using power_loss_append[OF 2(2)] power_loss_new[OF _ g _ nq] False by blast
      then have "img k = p1 k \<or> img k = v k" if "k \<notin> {q..<q + length bs}" for k
        using power_loss_untouched[of v1 p1 "[Store q bs, Flush q]" img k] that v1(1) by auto
      then have "\<forall>k. k \<notin> {q..<q + length bs} \<longrightarrow> img k = p k \<or> img k = v k" using v1(2) by metis
      then show ?thesis using commit by blast
    qed
  qed
qed


definition example_tables :: ptmem where
  "example_tables t i = (if t = 0x1000 then 0x2001 else if t = 0x2000 then 0x3001 else if t = 0x3000 then 0x4001
     else if t = 0x4000 then 0x9041 else 0)"

text \<open>
  The structure is at 0x20000; the data segments have eight bytes, at 0xA000 for the valid and at 0x9000
  for the working context, where the first byte is 42 and the page is dirty.
\<close>

definition example_vol :: cmem where
  "example_vol = put_bytes 0x20000 (u64_bytes 0x1000) (put_bytes 0x202C8 (u64_bytes 0xA000) (put_bytes 0x202D0 (u64_bytes 8)
     (put_bytes 0x20318 (u64_bytes 0x1000) (put_bytes 0x205E0 (u64_bytes 0x9000) (put_bytes 0x205E8 (u64_bytes 8)
     (put_bytes 0x9000 [42] (\<lambda>_. 0)))))))"

definition example_x :: xstate where
  "example_x = \<lparr>xs_tables = example_tables, xs_mem = \<lparr>vol = example_vol, acts = []\<rparr>, stat_copied_bytes = 0, stat_num_of_clflush = 0\<rparr>"

lemma example_fields:
  "ld64 example_vol 0x20000 = 0x1000" "ld64 example_vol 0x20318 = 0x1000"
  "ld64 example_vol 0x202C0 = 0" "ld64 example_vol 0x202C8 = 0xA000" "ld64 example_vol 0x202D0 = 8"
  "ld64 example_vol 0x205D8 = 0" "ld64 example_vol 0x205E0 = 0x9000" "ld64 example_vol 0x205E8 = 8"
  "ld64 example_vol 0x205C0 = 0" "ld64 example_vol 0x205D0 = 0" "ld64 example_vol 0x20608 = 0" "ld64 example_vol 0x20618 = 0"
  "ld64 example_vol 0x202A8 = 0" "ld64 example_vol 0x202B8 = 0" "ld64 example_vol 0x202F0 = 0" "ld64 example_vol 0x20300 = 0"
  "ld64 example_vol 0x202E0 = 0" "ld64 example_vol 0x202E8 = 0" "ld64 example_vol 0x205F8 = 0" "ld64 example_vol 0x20600 = 0"
  "ld32 example_vol 0x20630 = 0"
  by (simp_all add: example_vol_def ld64_put_same ld64_put_other ld32_put_other ld_zero del: put_bytes.simps)

lemma example_ppi:
  "ppi_separate example_vol 0x20000" "valid_ctx_idx example_vol 0x20000 = int 0"
proof -
  have r: "ppi_regions example_vol 0x20000 = [{0x20000..<0x20640}, {0xA000..<0xA008}, {}, {0x9000..<0x9008}, {}]"
    by (simp add: ppi_regions_def seg_bytes_def data_seg_def stack_seg_def ctx_at_def example_fields)
  show "ppi_separate example_vol 0x20000"
    unfolding ppi_separate_def r by (simp add: data_seg_def stack_seg_def ctx_at_def example_fields)
  show "valid_ctx_idx example_vol 0x20000 = int 0" by (simp add: valid_ctx_idx_def example_fields)
qed

lemma example_pte: "pte_of 0xFFFFFFFFFFFF example_tables PML4 0x1000 0 = Some 0x9041"
  by (simp add: pte_of_def walk_pt.simps GetEntryForAddr_def example_tables_def IsPresent_def kPageAttrPresent_def
    IsPage_def GetTableAddr_def kPageAddrMask_def Let_def)

lemma example_segments:
  assumes "n < 2"
  shows "ctx_flushable 0xFFFFFFFFFFFF example_x (ctx_at 0x20000 n)"
    "ctx_dirty 0xFFFFFFFFFFFF example_x (ctx_at 0x20000 n) k \<longleftrightarrow> 0x9000 \<le> k \<and> k < 0xA000"
proof -
  have p: "ByteSizeToPageSize 0 = 0" "ByteSizeToPageSize 8 = 1"
    by (simp_all add: ByteSizeToPageSize_def kPageSizeExponent_def)
  have r: "IsPresent (GetEntryForAddr example_tables PML4 0x1000 a)" for a
    by (simp add: GetEntryForAddr_def example_tables_def IsPresent_def kPageAttrPresent_def)
  have c: "1 \<le> chunk_room PML4 0" by (simp add: chunk_room_def reg_def)
  have f: "flushable 0xFFFFFFFFFFFF example_tables 0x1000 0 0" "flushable 0xFFFFFFFFFFFF example_tables 0x1000 0 8"
    using r c by (simp_all add: flushable_def p example_pte Let_def)
  have d: "\<not> dirty_byte 0xFFFFFFFFFFFF example_tables 0x1000 0 0 k"
    "dirty_byte 0xFFFFFFFFFFFF example_tables 0x1000 0 8 k \<longleftrightarrow> 0x9000 \<le> k \<and> k < 0xA000"
    by (simp_all add: dirty_byte_def in_dirty_page_def p example_pte IsDirty_def base_of_def GetPageBaseAddr_def kOffsetMask_def kChunkSize_def)
  note s = code_seg_def data_seg_def heap_seg_def ctx_at_def GetCR3_def GetVirtAddr_def GetMapSize_def example_x_def example_fields
  show "ctx_flushable 0xFFFFFFFFFFFF example_x (ctx_at 0x20000 n)"
    using less_2_cases[OF assms] f by (auto simp: ctx_flushable_def seg_flushable_def s)
  show "ctx_dirty 0xFFFFFFFFFFFF example_x (ctx_at 0x20000 n) k \<longleftrightarrow> 0x9000 \<le> k \<and> k < 0xA000"
    using less_2_cases[OF assms] d by (auto simp: ctx_dirty_def seg_dirty_def s)
qed


section \<open>Updates are lost\<close>

lemma ctx_keeps:
  assumes f: "flushed_only pam l t (xs_tables x) fl (xs_tables x')" and r: "ld64 (volx x') c = ld64 (volx x) c"
    and s: "\<And>k. c + 680 \<le> k \<Longrightarrow> k < c + 792 \<Longrightarrow> volx x' k = volx x k"
  shows "ctx_flushable pam x' c = ctx_flushable pam x c" "ctx_dirty pam x' c k \<Longrightarrow> ctx_dirty pam x c k"
proof -
  have st: "same_tables (xs_tables x) (xs_tables x')" using f by (simp add: flushed_only_def)
  have a: "GetVirtAddr (xs_mem x') seg = GetVirtAddr (xs_mem x) seg" "GetMapSize (xs_mem x') seg = GetMapSize (xs_mem x) seg"
    if "seg \<in> {code_seg c, data_seg c, heap_seg c}" for seg
    using that by (auto simp: GetVirtAddr_def GetMapSize_def code_seg_def data_seg_def heap_seg_def intro!: ld64_cong s)
  have g: "GetCR3 (xs_mem x') c = GetCR3 (xs_mem x) c" using r by (simp add: GetCR3_def)
  show "ctx_flushable pam x' c = ctx_flushable pam x c"
    unfolding ctx_flushable_def seg_flushable_def g using flushable_same[OF st] a by simp
  show "ctx_dirty pam x' c k \<Longrightarrow> ctx_dirty pam x c k"
    unfolding ctx_dirty_def seg_dirty_def dirty_byte_def g using flushed_only_less[OF f] a by auto
qed




end
