(* ===== verification/Persistent_Objects.thy ===== *)
theory Persistent_Objects
  imports Execution_Context "HOL-Library.Sublist"
begin

text \<open>
The list of objects in persistent memory (\<open>pmem.h\<close>, \<open>pmem.cc\<close>) with its invariant, what a loss of power
  leaves of it, and how the memory is found and initialized.
\<close>

section \<open>Headers of persistent objects\<close>

text \<open>
  A \<open>PersistentObjectHeader\<close> has its signature at 0, its identifier at 8, the number of pages at 16 and
  the address of the next header at 24; the object follows it.
\<close>

definition POH_IsValid :: "pmem \<Rightarrow> nat \<Rightarrow> bool" where
  "POH_IsValid s h \<longleftrightarrow> ld64 (vol s) h = kSignature"

definition POH_Init :: "nat \<Rightarrow> u64 \<Rightarrow> u64 \<Rightarrow> pmem \<Rightarrow> pmem" where
  "POH_Init h i num_of_pages s =
     (let s = CLFlush h (st64 h (NOT kSignature) s);
          s = st64 (h + 8) i s; s = st64 (h + 16) num_of_pages s; s = st64 (h + 24) 0 s;
          s = st64 h kSignature s
      in CLFlush h s)"

definition POH_SetNext :: "nat \<Rightarrow> u64 \<Rightarrow> pmem \<Rightarrow> pmem res" where
  "POH_SetNext h next s =
     (if \<not> POH_IsValid s h then Fail Assert_Failed else Ok (CLFlush (h + 24) (st64 (h + 24) next s)))"

definition POH_GetObjectBase :: "u64 \<Rightarrow> u64" where "POH_GetObjectBase h = h + 32"
definition POH_GetID :: "pmem \<Rightarrow> nat \<Rightarrow> u64" where "POH_GetID s h = ld64 (vol s) (h + 8)"
definition POH_GetNumOfPages :: "pmem \<Rightarrow> nat \<Rightarrow> u64" where "POH_GetNumOfPages s h = ld64 (vol s) (h + 16)"
definition POH_GetNext :: "pmem \<Rightarrow> nat \<Rightarrow> u64" where "POH_GetNext s h = ld64 (vol s) (h + 24)"

definition POH_GetByteSize :: "pmem \<Rightarrow> nat \<Rightarrow> u64" where
  "POH_GetByteSize s h = push_bit kPageSizeExponent (POH_GetNumOfPages s h)"

section \<open>The manager\<close>

text \<open>
  A \<open>PersistentMemoryManager\<close> is at the beginning of its range: the number of the first page at 0, the
  number of pages at 8, \<open>head_\<close> at 16, \<open>last_persistent_process_info_\<close> at 24, the sentinel header at 32
  and the signature at 64.
\<close>

definition PMM_kSignature :: u64 where "PMM_kSignature = 0x4D50534F6D75696C"

definition pm_head :: "pmem \<Rightarrow> nat \<Rightarrow> u64" where "pm_head s this = ld64 (vol s) (this + 16)"

definition PMM_IsValid :: "pmem \<Rightarrow> nat \<Rightarrow> bool" where
  "PMM_IsValid s this \<longleftrightarrow> ld64 (vol s) (this + 64) = PMM_kSignature \<and> pm_head s this \<noteq> 0"

definition PMM_SetHead :: "nat \<Rightarrow> u64 \<Rightarrow> pmem \<Rightarrow> pmem" where
  "PMM_SetHead this h s = CLFlush (this + 16) (st64 (this + 16) h s)"

definition next_page_idx :: "pmem \<Rightarrow> nat \<Rightarrow> u64" where
  "next_page_idx s this = (let h = pm_head s this in
     drop_bit kPageSizeExponent (POH_GetObjectBase h) + POH_GetNumOfPages s (unat h))"

definition PMM_AllocPages :: "nat \<Rightarrow> u64 \<Rightarrow> pmem \<Rightarrow> (u64 \<times> pmem) res" where
  "PMM_AllocPages this num s =
     (if \<not> PMM_IsValid s this then Fail Assert_Failed
      else
        let next = next_page_idx s this in
        if \<not> num + 1 + next \<le> ld64 (vol s) this + ld64 (vol s) (this + 8) then Fail Assert_Failed
        else
          let h = push_bit kPageSizeExponent (next + 1) - 32;
              head = pm_head s this;
              s = POH_Init (unat h) (POH_GetID s (unat head) + 1) num s
          in bind_res (POH_SetNext (unat h) head s) (\<lambda>s.
             let s = PMM_SetHead this h s in Ok (POH_GetObjectBase (pm_head s this), s)))"

definition AllocPersistentProcessInfo :: "nat \<Rightarrow> pmem \<Rightarrow> (u64 \<times> pmem) res" where
  "AllocPersistentProcessInfo this s =
     bind_res (PMM_AllocPages this (ByteSizeToPageSize 1600) s) (\<lambda>(info, s).
     let s = CLFlush (this + 24) (st64 (this + 24) info s) in Ok (ld64 (vol s) (this + 24), s))"

definition GetLastPersistentProcessInfo :: "pmem \<Rightarrow> nat \<Rightarrow> u64" where
  "GetLastPersistentProcessInfo s this = ld64 (vol s) (this + 24)"

definition AllocSegmentFromPersistentMemory :: "nat \<Rightarrow> nat \<Rightarrow> pmem \<Rightarrow> pmem res" where
  "AllocSegmentFromPersistentMemory this seg s =
     bind_res (PMM_AllocPages this (ByteSizeToPageSize (GetMapSize s seg)) s) (\<lambda>(p, s).
     Ok (SegmentMapping_SetPhysAddr seg p s))"

section \<open>Finding the range of the manager\<close>

text \<open>The firmware's table is in a memory \<open>fw\<close> of its own.\<close>

definition ld16 :: "cmem \<Rightarrow> nat \<Rightarrow> nat" where
  "ld16 m a = unat (m a) + 256 * unat (m (a + 1))"

definition IsEqualGUID :: "cmem \<Rightarrow> nat \<Rightarrow> u64 \<times> u64 \<Rightarrow> bool" where
  "IsEqualGUID m g k \<longleftrightarrow> ld64 m g = fst k \<and> ld64 m (g + 8) = snd k"

definition kByteAddressablePersistentMemory :: "u64 \<times> u64" where
  "kByteAddressablePersistentMemory = (0x4074B4F366F0D379, 0xDB8CB718330D43AC)"

text \<open>The iterator goes on by the length of the entry; an entry of length 0 is visited forever.\<close>

partial_function (option) nfit_loop :: "cmem \<Rightarrow> nat \<Rightarrow> nat \<Rightarrow> nat \<Rightarrow> nat option option" where
  "nfit_loop fw this e fin =
     (if e = fin then Some None
      else if ld16 fw e \<noteq> 0 then nfit_loop fw this (e + ld16 fw (e + 2)) fin
      else if \<not> IsEqualGUID fw (e + 16) kByteAddressablePersistentMemory then nfit_loop fw this (e + ld16 fw (e + 2)) fin
      else if ld64 fw (e + 32) \<noteq> of_nat this then nfit_loop fw this (e + ld16 fw (e + 2)) fin
      else Some (Some e))"

declare nfit_loop.simps [code]

definition PMM_Init :: "cmem \<Rightarrow> nat option \<Rightarrow> nat \<Rightarrow> pmem \<Rightarrow> pmem res" where
  "PMM_Init fw nfit this s = (case nfit of
     None \<Rightarrow> Fail Assert_Failed
   | Some t \<Rightarrow>
       if this mod 4096 \<noteq> 0 then Fail Assert_Failed
       else case nfit_loop fw this (t + 40) (t + unat (ld32 fw (t + 4))) of
         None \<Rightarrow> Fail Diverges
       | Some None \<Rightarrow> Fail Assert_Failed
       | Some (Some e) \<Rightarrow>
           let s = st64 (this + 64) (NOT PMM_kSignature) s;
               s = st64 this (drop_bit kPageSizeExponent (of_nat this)) s;
               s = st64 (this + 8) (drop_bit kPageSizeExponent (ld64 fw (e + 40))) s;
               s = st64 (this + 16) 0 s;
               s = st64 (this + 24) 0 s;
               s = st64 (this + 64) PMM_kSignature s;
               s = snd (CLFlush_range this 72 (0, s));
               s = POH_Init (this + 32) 0 0 s
           in Ok (PMM_SetHead this (of_nat (this + 32)) s))"

section \<open>The list of objects\<close>

text \<open>
  The objects of a manager, the newest first, with the number of their first page and their size in
  pages.  The header of an object is at the end of the page before it.
\<close>

fun next_page :: "nat \<Rightarrow> (nat \<times> nat) list \<Rightarrow> nat" where
  "next_page pg [] = pg"
| "next_page pg ((i, n) # _) = i + n"

fun header_of :: "nat \<Rightarrow> (nat \<times> nat) list \<Rightarrow> nat" where
  "header_of this [] = this + 32"
| "header_of this ((i, n) # _) = 4096 * i - 32"

definition header_at :: "cmem \<Rightarrow> nat \<Rightarrow> nat \<Rightarrow> nat \<Rightarrow> nat \<Rightarrow> bool" where
  "header_at m h k n nx \<longleftrightarrow> ld64 m h = kSignature \<and> ld64 m (h + 8) = of_nat k \<and> ld64 m (h + 16) = of_nat n \<and>
     ld64 m (h + 24) = of_nat nx"

fun pm_objs :: "cmem \<Rightarrow> nat \<Rightarrow> (nat \<times> nat) list \<Rightarrow> bool" where
  "pm_objs m this [] \<longleftrightarrow> header_at m (this + 32) 0 0 0"
| "pm_objs m this ((i, n) # os) \<longleftrightarrow> i = next_page (this div 4096) os + 1 \<and>
     header_at m (4096 * i - 32) (length os + 1) n (header_of this os) \<and> pm_objs m this os"

definition pm_ok :: "cmem \<Rightarrow> nat \<Rightarrow> nat \<Rightarrow> (nat \<times> nat) list \<Rightarrow> bool" where
  "pm_ok m this num os \<longleftrightarrow> 4096 dvd this \<and> 0 < num \<and> this + 4096 * num < 2 ^ 64 \<and>
     ld64 m this = of_nat (this div 4096) \<and> ld64 m (this + 8) = of_nat num \<and>
     ld64 m (this + 16) = of_nat (header_of this os) \<and>
     (ld64 m (this + 24) = 0 \<or> (\<exists>(i, n)\<in>set os. ld64 m (this + 24) = of_nat (4096 * i))) \<and>
     ld64 m (this + 64) = PMM_kSignature \<and> next_page (this div 4096) os \<le> this div 4096 + num \<and> pm_objs m this os"

text \<open>The bytes which the manager relies on.\<close>

definition pm_meta :: "nat \<Rightarrow> (nat \<times> nat) list \<Rightarrow> nat set" where
  "pm_meta this os = {this..<this + 72} \<union> (\<Union>(i, n)\<in>set os. {4096 * i - 32..<4096 * i})"

lemma next_page_ge: "pm_objs m this os \<Longrightarrow> this div 4096 \<le> next_page (this div 4096) os"
  by (induction os) auto

lemma pm_objs_pages: "pm_objs m this os \<Longrightarrow> (i, n) \<in> set os \<Longrightarrow> this div 4096 < i \<and> i + n \<le> next_page (this div 4096) os"
proof (induction os)
  case (Cons o' os)
  obtain j k where o': "o' = (j, k)" by (cases o') auto
  then show ?case using Cons next_page_ge[of m this os] by auto
qed simp

text \<open>Objects do not overlap each other nor the bytes of the manager.\<close>

lemma pm_objs_apart:
  assumes "pm_objs m this os" "(i, n) \<in> set os" "(j, k) \<in> set os" "(i, n) \<noteq> (j, k)"
  shows "i + n < j \<or> j + k < i"
  using assms
proof (induction os)
  case (Cons o' os)
  obtain a b where o': "o' = (a, b)" by (cases o') auto
  then have "a' + b' < a" if "(a', b') \<in> set os" for a' b'
    using pm_objs_pages[of m this os a' b'] Cons.prems(1) that by auto
  then show ?case using Cons o' by auto
qed simp

lemma header_page:
  assumes "0 < i"
  shows "4096 * (i - 1) \<le> 4096 * i - (32::nat)" "(4096 * i - (32::nat)) + 32 = 4096 * i"
  using assms by (cases i; simp)+

lemma pm_meta_apart:
  fixes a :: nat
  assumes "pm_objs m this os" "4096 dvd this" "(i, n) \<in> set os" "4096 * i \<le> a" "a < 4096 * (i + n)"
  shows "a \<notin> pm_meta this os"
proof -
  have i: "this div 4096 < i" using pm_objs_pages[OF assms(1,3)] by simp
  have "this + 72 \<le> 4096 * i" using i assms(2) by (auto elim!: dvdE)
  moreover have "\<not> (4096 * j - 32 \<le> a \<and> a < 4096 * j)" if j: "(j, k) \<in> set os" for j k
  proof -
    have p: "0 < j" using pm_objs_pages[OF assms(1) j] by simp
    have "j \<le> i \<or> i + n < j" using pm_objs_apart[OF assms(1,3) j] by (cases "(i, n) = (j, k)") auto
    then show ?thesis
    proof
      assume "j \<le> i"
      then show ?thesis using assms(4) by simp
    next
      assume "i + n < j"
      then have "4096 * (i + n) \<le> 4096 * (j - 1)" by simp
      then show ?thesis using header_page(1)[OF p] assms(5) by linarith
    qed
  qed
  ultimately show ?thesis using assms(4) by (auto simp: pm_meta_def)
qed

lemma header_at_cong: "(\<And>k. h \<le> k \<Longrightarrow> k < h + 32 \<Longrightarrow> m' k = m k) \<Longrightarrow> header_at m' h i n nx = header_at m h i n nx"
  using ld64_cong[of m' h m] ld64_cong[of m' "h + 8" m] ld64_cong[of m' "h + 16" m] ld64_cong[of m' "h + 24" m]
  by (simp add: header_at_def)

lemma pm_objs_cong:
  "pm_objs m this os \<Longrightarrow> \<forall>k\<in>pm_meta this os. this + 32 \<le> k \<longrightarrow> m' k = m k \<Longrightarrow> 4096 dvd this \<Longrightarrow> pm_objs m' this os"
proof (induction os)
  case Nil
  have "header_at m' (this + 32) 0 0 0 = header_at m (this + 32) 0 0 0"
    by (rule header_at_cong) (use Nil in \<open>auto simp: pm_meta_def\<close>)
  then show ?case using Nil by simp
next
  case (Cons o' os)
  obtain i n where o': "o' = (i, n)" by (cases o') auto
  have "this div 4096 < i" using pm_objs_pages[OF Cons.prems(1), of i n] o' by simp
  then have "this + 32 \<le> 4096 * i - 32" using Cons.prems(3) by (auto elim!: dvdE)
  then have "header_at m' (4096 * i - 32) a n b = header_at m (4096 * i - 32) a n b" for a b
    by (intro header_at_cong) (use Cons o' in \<open>auto simp: pm_meta_def\<close>)
  then show ?case using Cons o' by (auto simp: pm_meta_def)
qed

lemma pm_ok_cong:
  assumes "pm_ok m this num os" "\<forall>k\<in>pm_meta this os. m' k = m k"
  shows "pm_ok m' this num os"
proof -
  have f: "ld64 m' (this + j) = ld64 m (this + j)" if "j \<le> 64" for j
    by (rule ld64_cong) (use assms(2) that in \<open>auto simp: pm_meta_def\<close>)
  have "pm_objs m' this os" using assms pm_objs_cong by (auto simp: pm_ok_def)
  then show ?thesis
    using assms(1) f[of 0] f[of 8] f[of 16] f[of 24] f[of 64] unfolding pm_ok_def by simp
qed

section \<open>Allocation\<close>

definition alloc_acts :: "nat \<Rightarrow> u64 \<Rightarrow> u64 \<Rightarrow> u64 \<Rightarrow> mem_action list" where
  "alloc_acts h k n nx = [Store h (u64_bytes (NOT kSignature)), Flush h, Store (h + 8) (u64_bytes k), Store (h + 16) (u64_bytes n),
     Store (h + 24) (u64_bytes 0), Store h (u64_bytes kSignature), Flush h, Store (h + 24) (u64_bytes nx), Flush (h + 24)]"

definition word_acts :: "nat \<Rightarrow> u64 \<Rightarrow> mem_action list" where
  "word_acts a x = [Store a (u64_bytes x), Flush a]"

lemma alloc_acts_header:
  "header_at (fold act_vol (alloc_acts h (of_nat k) (of_nat n) (of_nat nx)) v) h k n nx"
  by (simp add: header_at_def alloc_acts_def ld64_put_same ld64_put_other del: put_bytes.simps)

lemma alloc_acts_stored: "x \<in> set (alloc_acts h i n nx) \<Longrightarrow> stored a x \<Longrightarrow> h \<le> a \<and> a < h + 32"
  by (auto simp: alloc_acts_def)

lemma word_acts_stored: "x \<in> set (word_acts q w) \<Longrightarrow> stored a x \<longleftrightarrow> x = Store q (u64_bytes w) \<and> q \<le> a \<and> a < q + 8"
  by (auto simp: word_acts_def)

lemma completes_last_flush:
  assumes "completes v p (as @ [Flush a]) v' p'" "k div 64 = a div 64"
  shows "p' k = v' k"
proof -
  obtain v1 p1 where c: "completes v p as v1 p1" "completes v1 p1 [Flush a] v' p'" using completes_append[OF assms(1)] by blast
  then show ?thesis
    using completes_flushed[OF c(2), of k] completes_untouched[OF c(2), of k] assms(2) by auto
qed

text \<open>An aligned word is stored and flushed.\<close>

lemma word_acts_loss:
  assumes "power_loss v p (word_acts q x) img" "8 dvd q" "\<forall>k\<in>{q..<q + 8}. p k = v k"
  shows "(\<forall>k\<in>{q..<q + 8}. img k = v k) \<or> (\<forall>k\<in>{q..<q + 8}. img k = u64_bytes x ! (k - q))"
    "k \<notin> {q..<q + 8} \<Longrightarrow> p k = v k \<Longrightarrow> img k = v k"
proof -
  have g: "\<forall>k\<in>{q..<q + 8}. k div 8 = q div 8"
    using assms(2) by (auto elim!: dvdE)
  have n: "\<forall>x\<in>set [Flush q]. \<forall>k\<in>{q..<q + 8}. \<not> stored k x" by simp
  show "(\<forall>k\<in>{q..<q + 8}. img k = v k) \<or> (\<forall>k\<in>{q..<q + 8}. img k = u64_bytes x ! (k - q))"
    using power_loss_commit[where bs = "u64_bytes x", OF assms(1)[unfolded word_acts_def], unfolded bytes_of_length, OF n g assms(3)] .
  show "img k = v k" if "k \<notin> {q..<q + 8}" "p k = v k"
    using power_loss_untouched[OF assms(1), of k] that by (auto simp: word_acts_def)
qed

lemma word_acts_done:
  assumes "completes v p (word_acts q x) v' p'" "8 dvd q"
  shows "v' = put_bytes q (u64_bytes x) v" "k \<in> {q..<q + 8} \<Longrightarrow> p' k = v' k" "p k = v k \<Longrightarrow> p' k = v' k"
proof -
  show v: "v' = put_bytes q (u64_bytes x) v" using completes_vol[OF assms(1)] by (simp add: word_acts_def)
  have l: "k div 64 = q div 64" if "k \<in> {q..<q + 8}" for k
  proof -
    have "k div 8 = q div 8" using that assms(2) by (auto elim!: dvdE)
    then show ?thesis using div_mult2_eq[of k 8 8] div_mult2_eq[of q 8 8] by simp
  qed
  show f: "p' k = v' k" if "k \<in> {q..<q + 8}" for k
    using completes_last_flush[of v p "[Store q (u64_bytes x)]" q v' p' k] assms(1) l[OF that] by (simp add: word_acts_def)
  show "p' k = v' k" if "p k = v k"
  proof (cases "k \<in> {q..<q + 8}")
    case False
    then have "\<forall>y\<in>set (word_acts q x). \<not> stored k y" by (auto simp: word_acts_def)
    from completes_untouched[OF assms(1) this] show ?thesis using that by auto
  qed (rule f)
qed

lemma drop_bit_of_nat:
  fixes x :: nat
  assumes "x < 2 ^ 64"
  shows "drop_bit 12 (of_nat x :: u64) = of_nat (x div 4096)"
proof (rule word_unat_eq_iff[THEN iffD2])
  have "unat (of_nat x :: u64) = x" unfolding unat_of_nat by (rule mod_less) (use assms in simp)
  moreover have "unat (of_nat (x div 4096) :: u64) = x div 4096" unfolding unat_of_nat by (rule mod_less) (use assms in simp)
  ultimately show "unat (drop_bit 12 (of_nat x :: u64)) = unat (of_nat (x div 4096) :: u64)" by (simp only: unat_drop_bit) simp
qed

lemma ld64_word:
  assumes "\<forall>k\<in>{q..<q + 8}. m k = u64_bytes x ! (k - q)"
  shows "ld64 m q = x"
proof -
  have "get_bytes m q 8 = u64_bytes x" by (rule nth_equalityI) (use assms in auto)
  then show ?thesis by (rule ld64_bytes)
qed

text \<open>The fields of a manager, read by the code.\<close>

lemma pm_read:
  assumes "pm_ok (vol s) this num os"
  shows "PMM_IsValid s this" "pm_head s this = of_nat (header_of this os)" "unat (pm_head s this) = header_of this os"
    "next_page_idx s this = of_nat (next_page (this div 4096) os)" "POH_GetID s (header_of this os) = of_nat (length os)"
    "next_page (this div 4096) os < 2 ^ 52" "this div 4096 + num < 2 ^ 52"
proof -
  have ok: "4096 dvd this" "0 < num" "this + 4096 * num < 2 ^ 64" "pm_objs (vol s) this os" "ld64 (vol s) (this + 64) = PMM_kSignature"
    "next_page (this div 4096) os \<le> this div 4096 + num" using assms by (simp_all add: pm_ok_def)
  show h: "pm_head s this = of_nat (header_of this os)" using assms by (simp add: pm_head_def pm_ok_def)
  have l: "this div 4096 + num < 2 ^ 52" using ok(1,3) by (auto elim!: dvdE)
  then show "this div 4096 + num < 2 ^ 52" .
  show "next_page (this div 4096) os < 2 ^ 52" using l ok(6) by simp
  have hb: "header_of this os < 2 ^ 64 \<and> 0 < header_of this os"
  proof (cases os)
    case Nil
    then show ?thesis using ok(2,3) by simp
  next
    case (Cons o' os')
    then obtain i n where o: "os = (i, n) # os'" by (cases o') auto
    have "i + n \<le> this div 4096 + num" "0 < i" using ok(4,6) o by auto
    then show ?thesis using o l by auto
  qed
  show u: "unat (pm_head s this) = header_of this os" unfolding h unat_of_nat using hb by simp
  show "PMM_IsValid s this" using ok(5) u hb by (auto simp: PMM_IsValid_def)
  show "POH_GetID s (header_of this os) = of_nat (length os)"
    using ok(4) by (cases "(this, os)" rule: header_of.cases) (auto simp: POH_GetID_def header_at_def)
  show "next_page_idx s this = of_nat (next_page (this div 4096) os)"
  proof (cases os)
    case Nil
    have "(this + 64) div 4096 = this div 4096" using ok(1) by (auto elim!: dvdE)
    moreover have "drop_bit 12 (of_nat (this + 64) :: u64) = of_nat ((this + 64) div 4096)"
      by (rule drop_bit_of_nat) (use ok(2,3) in simp)
    ultimately show ?thesis using Nil ok(4) h u
      by (simp add: next_page_idx_def Let_def POH_GetObjectBase_def kPageSizeExponent_def POH_GetNumOfPages_def header_at_def add.commute)
  next
    case (Cons o' os')
    then obtain i n where o: "os = (i, n) # os'" by (cases o') auto
    have i: "0 < i" "i < 2 ^ 52" using ok(4,6) o l by auto
    have "drop_bit 12 (of_nat (4096 * i) :: u64) = of_nat i" using drop_bit_of_nat[of "4096 * i"] i(2) by simp
    moreover have "(of_nat (4096 * i - 32) :: u64) + 32 = of_nat (4096 * i)"
      using header_page(2)[OF i(1)] by (metis of_nat_add of_nat_numeral)
    moreover have "ld64 (vol s) (4096 * i - 32 + 16) = of_nat n" using ok(4) unfolding o by (auto simp only: pm_objs.simps header_at_def)
    moreover have "next_page_idx s this = drop_bit 12 (of_nat (4096 * i - 32) + 32) + ld64 (vol s) (4096 * i - 32 + 16)"
      unfolding next_page_idx_def Let_def POH_GetObjectBase_def POH_GetNumOfPages_def kPageSizeExponent_def u unfolding h o header_of.simps ..
    ultimately show ?thesis unfolding o by (simp only: next_page.simps of_nat_add)
  qed
qed

lemma acts_to_st64: "acts_to s [Store a (u64_bytes x)] (st64 a x s)"
  unfolding st64_def by (rule acts_to_pstore)

lemma PMM_SetHead_acts: "acts_to s (word_acts (this + 16) h) (PMM_SetHead this h s)"
  unfolding PMM_SetHead_def word_acts_def using acts_to_trans[OF acts_to_st64 acts_to_flush, of s] by simp

lemma POH_acts:
  obtains s' where "POH_SetNext h nx (POH_Init h i n s) = Ok s'" "acts_to s (alloc_acts h i n nx) s'"
proof
  let ?s = "POH_Init h i n s"
  have "ld64 (vol ?s) h = kSignature"
    by (simp add: POH_Init_def Let_def st64_def pstore_def CLFlush_def mm_clflush_def ld64_put_same)
  then show "POH_SetNext h nx ?s = Ok (CLFlush (h + 24) (st64 (h + 24) nx ?s))" by (simp add: POH_SetNext_def POH_IsValid_def)
  show "acts_to s (alloc_acts h i n nx) (CLFlush (h + 24) (st64 (h + 24) nx ?s))"
    by (simp add: acts_to_def alloc_acts_def POH_Init_def Let_def st64_def pstore_def CLFlush_def mm_clflush_def del: put_bytes.simps)
qed

text \<open>Allocation fails exactly if the pages and one more are not left; else it takes them after the last object.\<close>

lemma PMM_AllocPages_effect:
  fixes n :: nat
  assumes "pm_ok (vol s) this num os" "n \<le> 2 ^ 52" "g = next_page (this div 4096) os" "h = 4096 * (g + 1) - 32"
  shows "\<not> n + 1 + g \<le> this div 4096 + num \<Longrightarrow> PMM_AllocPages this (of_nat n) s = Fail Assert_Failed"
    "n + 1 + g \<le> this div 4096 + num \<Longrightarrow> \<exists>s'. PMM_AllocPages this (of_nat n) s = Ok (of_nat (4096 * (g + 1)), s') \<and>
       acts_to s (alloc_acts h (of_nat (length os + 1)) (of_nat n) (of_nat (header_of this os)) @ word_acts (this + 16) (of_nat h)) s'"
proof -
  note r = pm_read[OF assms(1)]
  have l: "this div 4096 + num < 2 ^ 52" using assms(1) by (auto simp: pm_ok_def elim!: dvdE)
  have f: "ld64 (vol s) this = of_nat (this div 4096)" "ld64 (vol s) (this + 8) = of_nat num" using assms(1) by (auto simp: pm_ok_def)
  have u: "unat (of_nat x :: u64) = x" if "x < 2 ^ 64" for x :: nat
    unfolding unat_of_nat by (rule mod_less) (use that in simp)
  have c: "(of_nat n + 1 + of_nat g :: u64) \<le> of_nat (this div 4096) + of_nat num \<longleftrightarrow> n + 1 + g \<le> this div 4096 + num"
  proof -
    have e: "(of_nat n + 1 + of_nat g :: u64) = of_nat (n + 1 + g)" "(of_nat (this div 4096) + of_nat num :: u64) = of_nat (this div 4096 + num)" by simp_all
    have "n + 1 + g < 2 ^ 64" "this div 4096 + num < 2 ^ 64" using l r(6) assms(2,3) by simp_all
    from u[OF this(1)] u[OF this(2)] show ?thesis unfolding e word_le_nat_alt by simp
  qed
  show "PMM_AllocPages this (of_nat n) s = Fail Assert_Failed" if "\<not> n + 1 + g \<le> this div 4096 + num"
    using that c r(1,4) f assms(3) by (simp add: PMM_AllocPages_def Let_def)
  show "\<exists>s'. PMM_AllocPages this (of_nat n) s = Ok (of_nat (4096 * (g + 1)), s') \<and>
       acts_to s (alloc_acts h (of_nat (length os + 1)) (of_nat n) (of_nat (header_of this os)) @ word_acts (this + 16) (of_nat h)) s'"
    if a: "n + 1 + g \<le> this div 4096 + num"
  proof -
    have hw: "push_bit 12 (of_nat g + 1) - 32 = (of_nat h :: u64)" "(of_nat h :: u64) + 32 = of_nat (4096 * (g + 1))"
    proof -
      have "(of_nat (h + 32) :: u64) = of_nat (4096 * (g + 1))" using header_page(2)[of "g + 1"] assms(4) by simp
      then show "(of_nat h :: u64) + 32 = of_nat (4096 * (g + 1))" by simp
      moreover have "push_bit 12 (of_nat g + 1 :: u64) = of_nat (4096 * (g + 1))"
        by (simp add: push_bit_eq_mult algebra_simps)
      ultimately show "push_bit 12 (of_nat g + 1) - 32 = (of_nat h :: u64)" by (simp add: algebra_simps)
    qed
    have hu: "unat (of_nat h :: u64) = h" by (rule u) (use assms(4) r(6) assms(3) in simp)
    obtain s1 where s1: "POH_SetNext h (of_nat (header_of this os)) (POH_Init h (of_nat (length os) + 1) (of_nat n) s) = Ok s1"
      "acts_to s (alloc_acts h (of_nat (length os) + 1) (of_nat n) (of_nat (header_of this os))) s1"
      by (rule POH_acts)
    let ?s2 = "PMM_SetHead this (of_nat h) s1"
    have "pm_head ?s2 this = of_nat h" by (simp add: pm_head_def PMM_SetHead_def st64_def pstore_def CLFlush_def mm_clflush_def ld64_put_same)
    then have "PMM_AllocPages this (of_nat n) s = Ok (of_nat (4096 * (g + 1)), ?s2)"
      using a c r(1-5) f assms(3) hw hu s1(1) by (simp add: PMM_AllocPages_def Let_def POH_GetObjectBase_def kPageSizeExponent_def)
    moreover have "acts_to s (alloc_acts h (of_nat (length os) + 1) (of_nat n) (of_nat (header_of this os)) @ word_acts (this + 16) (of_nat h)) ?s2"
      by (rule acts_to_trans[OF s1(2) PMM_SetHead_acts])
    ultimately show ?thesis by (simp add: add.commute)
  qed
qed

text \<open>The new object is well-formed in every memory with its header and the new head.\<close>

lemma pm_ok_alloc:
  fixes n :: nat
  assumes ok: "pm_ok v this num os" and g: "g = next_page (this div 4096) os" and h: "h = 4096 * (g + 1) - 32"
    and a: "n + 1 + g \<le> this div 4096 + num"
    and hd: "header_at m h (length os + 1) n (header_of this os)" and hm: "ld64 m (this + 16) = of_nat h"
    and rest: "\<forall>k\<in>pm_meta this os. k \<notin> {this + 16..<this + 24} \<longrightarrow> m k = v k"
  shows "pm_ok m this num ((g + 1, n) # os)"
proof -
  have f: "ld64 m (this + j) = ld64 v (this + j)" if "j \<le> 64" "j + 8 \<le> 16 \<or> 24 \<le> j" for j
    by (rule ld64_cong) (use rest that in \<open>auto simp: pm_meta_def\<close>)
  have "pm_objs v this os" using ok by (simp add: pm_ok_def)
  then have "pm_objs m this os"
    by (rule pm_objs_cong) (use rest ok in \<open>auto simp: pm_ok_def\<close>)
  then show ?thesis
    using ok f[of 0] f[of 8] f[of 24] f[of 64] hd hm g h a unfolding pm_ok_def by auto
qed

definition durable :: "cmem \<Rightarrow> cmem \<Rightarrow> nat \<Rightarrow> (nat \<times> nat) list \<Rightarrow> bool" where
  "durable v p this os \<longleftrightarrow> (\<forall>k\<in>pm_meta this os. p k = v k)"

text \<open>Actions which do not store to the bytes of the manager.\<close>

lemma quiet_step:
  assumes ok: "pm_ok v this num os" and d: "durable v p this os"
    and q: "\<forall>x\<in>set as. \<forall>k\<in>pm_meta this os. \<not> stored k x"
  shows "power_loss v p as img \<Longrightarrow> pm_ok img this num os"
    and "completes v p as v' p' \<Longrightarrow> pm_ok v' this num os \<and> durable v' p' this os"
proof -
  show "pm_ok img this num os" if "power_loss v p as img"
    by (rule pm_ok_cong[OF ok]) (use power_loss_untouched[OF that] q d in \<open>fastforce simp: durable_def\<close>)
  show "pm_ok v' this num os \<and> durable v' p' this os" if c: "completes v p as v' p'"
  proof -
    have "v' k = v k \<and> p' k = v k" if "k \<in> pm_meta this os" for k
      using completes_untouched[OF c, of k] q d that by (auto simp: durable_def)
    then show ?thesis using pm_ok_cong[OF ok] by (auto simp: durable_def)
  qed
qed

lemma new_header_apart:
  fixes k :: nat
  assumes "pm_ok v this num os" "g = next_page (this div 4096) os" "h = 4096 * (g + 1) - 32" "k \<in> pm_meta this os"
  shows "k < h"
proof -
  have o: "pm_objs v this os" "4096 dvd this" using assms(1) by (auto simp: pm_ok_def)
  have "this div 4096 \<le> g" using next_page_ge[OF o(1)] assms(2) by simp
  then have "this + 72 \<le> h" using o(2) assms(3) by (auto elim!: dvdE)
  moreover have "4096 * i \<le> h" if "(i, n) \<in> set os" for i n
    using pm_objs_pages[OF o(1) that] assms(2,3) by simp
  ultimately show ?thesis using assms(4) unfolding pm_meta_def by fastforce
qed

lemma div_line:
  fixes r q :: nat
  assumes "r < 32"
  shows "(64 * q + 32 + r) div 64 = (64 * q + 32 + 24) div 64"
  using assms by simp

lemma pm_alloc_step:
  fixes n :: nat
  assumes ok: "pm_ok v this num os" and d: "durable v p this os" and g: "g = next_page (this div 4096) os" and h: "h = 4096 * (g + 1) - 32"
    and a: "n + 1 + g \<le> this div 4096 + num"
    and A: "A = alloc_acts h (of_nat (length os + 1)) (of_nat n) (of_nat (header_of this os))" and W: "W = word_acts (this + 16) (of_nat h)"
  shows "power_loss v p (A @ W) img \<Longrightarrow> pm_ok img this num os \<or> pm_ok img this num ((g + 1, n) # os)"
    and "completes v p (A @ W) v' p' \<Longrightarrow> pm_ok v' this num ((g + 1, n) # os) \<and> durable v' p' this ((g + 1, n) # os)"
proof -
  let ?q = "this + 16" and ?H = "{h..<h + 32}"
  have mh: "k < h" if "k \<in> pm_meta this os" for k by (rule new_header_apart[OF ok g h that])
  have qA: "\<forall>x\<in>set A. \<forall>k\<in>pm_meta this os. \<not> stored k x" using alloc_acts_stored mh unfolding A by fastforce
  have q8: "8 dvd ?q" using ok by (auto simp: pm_ok_def elim!: dvdE)
  have qm: "{?q..<?q + 8} \<subseteq> pm_meta this os" by (auto simp: pm_meta_def)
  have hq: "k \<notin> ?H" if "k \<in> {?q..<?q + 8}" for k using mh qm that by fastforce
  have mid: "pm_ok v1 this num os" "durable v1 p1 this os" "header_at v1 h (length os + 1) n (header_of this os)" "\<forall>k\<in>?H. p1 k = v1 k"
    if c: "completes v p A v1 p1" for v1 p1
  proof -
    show "pm_ok v1 this num os" "durable v1 p1 this os" using quiet_step(2)[OF ok d qA c] by simp_all
    show "header_at v1 h (length os + 1) n (header_of this os)"
      using alloc_acts_header unfolding completes_vol[OF c] A .
    have "A = take 8 A @ [Flush (h + 24)]" unfolding A alloc_acts_def by simp
    moreover have "k div 64 = (h + 24) div 64" if "k \<in> ?H" for k
    proof -
      have hh: "h = 64 * (64 * g + 63) + 32" using h by simp
      from that have k: "h + (k - h) = k" "k - h < 32" by auto
      from div_line[OF k(2), of "64 * g + 63", folded hh] show ?thesis using k(1) by simp
    qed
    ultimately show "\<forall>k\<in>?H. p1 k = v1 k" using completes_last_flush[of v p "take 8 A" "h + 24" v1 p1] c by metis
  qed
  have new: "pm_ok m this num ((g + 1, n) # os)"
    if c: "completes v p A v1 p1" and w: "\<forall>k\<in>{?q..<?q + 8}. m k = u64_bytes (of_nat h) ! (k - ?q)"
      and r: "\<forall>k. k \<notin> {?q..<?q + 8} \<and> k \<in> pm_meta this os \<union> ?H \<longrightarrow> m k = v1 k" for v1 p1 m
  proof (rule pm_ok_alloc[OF mid(1)[OF c] g h a _ ld64_word[OF w]])
    have "header_at m h (length os + 1) n (header_of this os) = header_at v1 h (length os + 1) n (header_of this os)"
    proof (rule header_at_cong)
      fix k
      assume "h \<le> k" "k < h + 32"
      then have "k \<in> ?H" by simp
      then show "m k = v1 k" using r hq by blast
    qed
    then show "header_at m h (length os + 1) n (header_of this os)" using mid(3)[OF c] by simp
    show "\<forall>k\<in>pm_meta this os. k \<notin> {?q..<this + 24} \<longrightarrow> m k = v1 k" using r by auto
  qed
  show "pm_ok img this num os \<or> pm_ok img this num ((g + 1, n) # os)" if "power_loss v p (A @ W) img"
    using power_loss_append[OF that]
  proof
    assume "power_loss v p A img"
    then show ?thesis using quiet_step(1)[OF ok d qA] by simp
  next
    assume "\<exists>v1 p1. completes v p A v1 p1 \<and> power_loss v1 p1 W img"
    then obtain v1 p1 where c: "completes v p A v1 p1" and l: "power_loss v1 p1 (word_acts ?q (of_nat h)) img" unfolding W by blast
    have e: "p1 k = v1 k" if "k \<in> pm_meta this os \<union> ?H" for k using mid(2,4)[OF c] that by (auto simp: durable_def)
    note wl = word_acts_loss[OF l q8]
    have r: "img k = v1 k" if "k \<notin> {?q..<?q + 8}" "k \<in> pm_meta this os \<union> ?H" for k
      using wl(2)[OF _ that(1)] e qm that(2) by blast
    from wl(1) e qm consider "\<forall>k\<in>{?q..<?q + 8}. img k = v1 k" | "\<forall>k\<in>{?q..<?q + 8}. img k = u64_bytes (of_nat h) ! (k - ?q)" by blast
    then show ?thesis
    proof cases
      case 1
      have "pm_ok img this num os" by (rule pm_ok_cong[OF mid(1)[OF c]]) (use 1 r in blast)
      then show ?thesis ..
    next
      case 2
      then show ?thesis using new[OF c 2] r by blast
    qed
  qed
  show "pm_ok v' this num ((g + 1, n) # os) \<and> durable v' p' this ((g + 1, n) # os)" if c0: "completes v p (A @ W) v' p'"
  proof -
    obtain v1 p1 where c: "completes v p A v1 p1" and w: "completes v1 p1 (word_acts ?q (of_nat h)) v' p'"
      using completes_append[OF c0] unfolding W by blast
    note wd = word_acts_done[OF w q8]
    have e: "p1 k = v1 k" if "k \<in> pm_meta this os \<union> ?H" for k using mid(2,4)[OF c] that by (auto simp: durable_def)
    have "pm_ok v' this num ((g + 1, n) # os)" by (rule new[OF c]) (auto simp: wd(1) put_bytes_at)
    moreover have "pm_meta this ((g + 1, n) # os) = pm_meta this os \<union> ?H"
      using header_page(2)[of "g + 1"] h by (auto simp: pm_meta_def)
    ultimately show ?thesis using wd(3) e unfolding durable_def by blast
  qed
qed

lemma last_step:
  assumes ok: "pm_ok v this num os" and d: "durable v p this os" and i: "(i, n) \<in> set os"
    and W: "W = word_acts (this + 24) (of_nat (4096 * i))"
  shows "power_loss v p W img \<Longrightarrow> pm_ok img this num os"
    and "completes v p W v' p' \<Longrightarrow> pm_ok v' this num os \<and> durable v' p' this os"
proof -
  let ?q = "this + 24"
  have q8: "8 dvd ?q" using ok by (auto simp: pm_ok_def elim!: dvdE)
  have qm: "{?q..<?q + 8} \<subseteq> pm_meta this os" by (auto simp: pm_meta_def)
  have new: "pm_ok m this num os"
    if w: "\<forall>k\<in>{?q..<?q + 8}. m k = u64_bytes (of_nat (4096 * i)) ! (k - ?q)"
      and r: "\<forall>k\<in>pm_meta this os. k \<notin> {?q..<?q + 8} \<longrightarrow> m k = v k" for m
  proof -
    have f: "ld64 m (this + j) = ld64 v (this + j)" if "j \<le> 64" "j + 8 \<le> 24 \<or> 32 \<le> j" for j
      by (rule ld64_cong) (use r that in \<open>auto simp: pm_meta_def\<close>)
    have "pm_objs m this os" by (rule pm_objs_cong) (use r ok in \<open>auto simp: pm_ok_def\<close>)
    then show ?thesis
      using ok f[of 0] f[of 8] f[of 16] f[of 64] ld64_word[OF w] i unfolding pm_ok_def by auto
  qed
  show "pm_ok img this num os" if "power_loss v p W img"
  proof -
    note wl = word_acts_loss[OF that[unfolded W] q8]
    have e: "p k = v k" if "k \<in> pm_meta this os" for k using d that by (simp add: durable_def)
    have r: "\<forall>k\<in>pm_meta this os. k \<notin> {?q..<?q + 8} \<longrightarrow> img k = v k" using wl(2) e qm by blast
    from wl(1) e qm consider "\<forall>k\<in>{?q..<?q + 8}. img k = v k" | "\<forall>k\<in>{?q..<?q + 8}. img k = u64_bytes (of_nat (4096 * i)) ! (k - ?q)" by blast
    then show ?thesis
    proof cases
      case 1
      show ?thesis by (rule pm_ok_cong[OF ok]) (use 1 r in blast)
    qed (rule new[OF _ r])
  qed
  show "pm_ok v' this num os \<and> durable v' p' this os" if "completes v p W v' p'"
  proof -
    note wd = word_acts_done[OF that[unfolded W] q8]
    have "pm_ok v' this num os" by (rule new) (auto simp: wd(1) put_bytes_at)
    then show ?thesis using wd(3) d unfolding durable_def by blast
  qed
qed

section \<open>Runs of the manager\<close>

text \<open>
  Pages are allocated, also for the information of a new process, and the processes and the kernel
  store to the objects and flush lines as they like.  The run keeps the list of the objects.
\<close>

datatype pm_op = PAlloc nat | PInfo | PUse mem_action

fun owned :: "(nat \<times> nat) list \<Rightarrow> mem_action \<Rightarrow> bool" where
  "owned os (Store a bs) \<longleftrightarrow> (\<exists>(i, n)\<in>set os. 4096 * i \<le> a \<and> a + length bs \<le> 4096 * (i + n))"
| "owned os (Flush a) \<longleftrightarrow> True"

fun pm_step :: "nat \<Rightarrow> pm_op \<Rightarrow> pmem \<times> (nat \<times> nat) list \<Rightarrow> (pmem \<times> (nat \<times> nat) list) res" where
  "pm_step this (PAlloc n) (s, os) =
     bind_res (PMM_AllocPages this (of_nat n) s) (\<lambda>(b, s). Ok (s, (unat b div 4096, n) # os))"
| "pm_step this PInfo (s, os) =
     bind_res (AllocPersistentProcessInfo this s) (\<lambda>(b, s). Ok (s, (unat b div 4096, 1) # os))"
| "pm_step this (PUse (Store a bs)) (s, os) =
     (if owned os (Store a bs) then Ok (pstore a bs s, os) else Fail Out_Of_Bounds)"
| "pm_step this (PUse (Flush a)) (s, os) = Ok (CLFlush a s, os)"

primrec pm_run :: "nat \<Rightarrow> pm_op list \<Rightarrow> pmem \<times> (nat \<times> nat) list \<Rightarrow> (pmem \<times> (nat \<times> nat) list) res" where
  "pm_run this [] st = Ok st"
| "pm_run this (x # xs) st = bind_res (pm_step this x st) (pm_run this xs)"

primrec small_op :: "pm_op \<Rightarrow> bool" where
  "small_op (PAlloc n) \<longleftrightarrow> n \<le> 2 ^ 52"
| "small_op PInfo \<longleftrightarrow> True"
| "small_op (PUse a) \<longleftrightarrow> True"

lemma one_more: "P os \<or> P (x # os) \<Longrightarrow> \<exists>o1. suffix os o1 \<and> suffix o1 (x # os) \<and> P o1"
  by (metis suffix_ConsI suffix_order.refl)

lemma alloc_run:
  fixes n :: nat
  assumes ok: "pm_ok (vol s) this num os" and n: "n \<le> 2 ^ 52" and r: "PMM_AllocPages this (of_nat n) s = Ok (b, s')"
  obtains g A where "g = next_page (this div 4096) os" "b = of_nat (4096 * (g + 1))" "unat b div 4096 = g + 1" "acts_to s A s'"
    "\<And>p img. durable (vol s) p this os \<Longrightarrow> power_loss (vol s) p A img \<Longrightarrow> pm_ok img this num os \<or> pm_ok img this num ((g + 1, n) # os)"
    "\<And>p v' p'. durable (vol s) p this os \<Longrightarrow> completes (vol s) p A v' p' \<Longrightarrow>
       pm_ok v' this num ((g + 1, n) # os) \<and> durable v' p' this ((g + 1, n) # os)"
proof -
  define g where "g = next_page (this div 4096) os"
  define h where "h = 4096 * (g + 1) - 32"
  have a: "n + 1 + g \<le> this div 4096 + num" using PMM_AllocPages_effect(1)[OF ok n g_def h_def] r by auto
  then have e: "b = of_nat (4096 * (g + 1))"
    "acts_to s (alloc_acts h (of_nat (length os + 1)) (of_nat n) (of_nat (header_of this os)) @ word_acts (this + 16) (of_nat h)) s'"
    using PMM_AllocPages_effect(2)[OF ok n g_def h_def] r by auto
  have "4096 * (g + 1) < 2 ^ 64" using pm_read(7)[OF ok] a by simp
  then have u: "unat b div 4096 = g + 1" unfolding e(1) unat_of_nat by (subst mod_less) simp_all
  show ?thesis
    using that[OF g_def e(1) u e(2)] pm_alloc_step[OF ok _ g_def h_def a refl refl] by blast
qed

text \<open>One step: a loss of power in it leaves the old or the new objects, and its end the new ones.\<close>

lemma pm_step_safe:
  assumes ok: "pm_ok (vol s) this num os" and x: "small_op x" and r: "pm_step this x (s, os) = Ok (s', os')"
  obtains as where "acts_to s as s'" "suffix os os'"
    "\<And>p img. durable (vol s) p this os \<Longrightarrow> power_loss (vol s) p as img \<Longrightarrow> \<exists>o1. suffix os o1 \<and> suffix o1 os' \<and> pm_ok img this num o1"
    "\<And>p v' p'. durable (vol s) p this os \<Longrightarrow> completes (vol s) p as v' p' \<Longrightarrow> pm_ok v' this num os' \<and> durable v' p' this os'"
proof (cases x)
  case (PAlloc n)
  then obtain b where b: "PMM_AllocPages this (of_nat n) s = Ok (b, s')" "os' = (unat b div 4096, n) # os"
    using r by (auto simp: bind_res_eq_Ok)
  have n: "n \<le> 2 ^ 52" using x PAlloc by simp
  show ?thesis
  proof (rule alloc_run[OF ok n b(1)])
    fix g A
    assume g: "unat b div 4096 = g + 1" "acts_to s A s'"
      and l: "\<And>p img. durable (vol s) p this os \<Longrightarrow> power_loss (vol s) p A img \<Longrightarrow> pm_ok img this num os \<or> pm_ok img this num ((g + 1, n) # os)"
      and d: "\<And>p v' p'. durable (vol s) p this os \<Longrightarrow> completes (vol s) p A v' p' \<Longrightarrow>
        pm_ok v' this num ((g + 1, n) # os) \<and> durable v' p' this ((g + 1, n) # os)"
    have o: "os' = (g + 1, n) # os" using b(2) g(1) by simp
    show ?thesis
    proof (rule that[OF g(2)])
      show "suffix os os'" using o by (simp add: suffix_Cons)
      show "\<exists>o1. suffix os o1 \<and> suffix o1 os' \<and> pm_ok img this num o1" if "durable (vol s) p this os" "power_loss (vol s) p A img" for p img
        using one_more[of "pm_ok img this num"] l[OF that] unfolding o .
    qed (use o d in auto)
  qed
next
  case PInfo
  then obtain b b' s1 where b: "PMM_AllocPages this (of_nat 1) s = Ok (b, s1)"
    "s' = CLFlush (this + 24) (st64 (this + 24) b s1)" "b' = ld64 (vol s') (this + 24)" "os' = (unat b' div 4096, 1) # os"
    using r by (auto simp: bind_res_eq_Ok AllocPersistentProcessInfo_def Let_def ByteSizeToPageSize_def kPageSizeExponent_def kPageSize_def)
  have b': "b' = b" using b(2,3) by (simp add: st64_def pstore_def CLFlush_def mm_clflush_def ld64_put_same)
  have w: "acts_to s1 (word_acts (this + 24) b) s'"
    unfolding b(2) word_acts_def using acts_to_trans[OF acts_to_st64 acts_to_flush, of s1] by simp
  show ?thesis
  proof (rule alloc_run[OF ok _ b(1)])
    show "(1::nat) \<le> 2 ^ 52" by simp
    fix g A
    assume g: "b = of_nat (4096 * (g + 1))" "unat b div 4096 = g + 1" "acts_to s A s1"
      and l: "\<And>p img. durable (vol s) p this os \<Longrightarrow> power_loss (vol s) p A img \<Longrightarrow> pm_ok img this num os \<or> pm_ok img this num ((g + 1, 1) # os)"
      and d: "\<And>p v' p'. durable (vol s) p this os \<Longrightarrow> completes (vol s) p A v' p' \<Longrightarrow>
        pm_ok v' this num ((g + 1, 1) # os) \<and> durable v' p' this ((g + 1, 1) # os)"
    have o: "os' = (g + 1, 1) # os" using b(4) b' g(2) by simp
    then have i: "(g + 1, 1) \<in> set os'" by simp
    show ?thesis
    proof (rule that[OF acts_to_trans[OF g(3) w]])
      fix p img
      assume p: "durable (vol s) p this os" "power_loss (vol s) p (A @ word_acts (this + 24) b) img"
      from power_loss_append[OF p(2)] have "pm_ok img this num os \<or> pm_ok img this num os'"
      proof
        assume "\<exists>v' p'. completes (vol s) p A v' p' \<and> power_loss v' p' (word_acts (this + 24) b) img"
        then obtain v1 p1 where c: "completes (vol s) p A v1 p1" "power_loss v1 p1 (word_acts (this + 24) b) img" by blast
        from d[OF p(1) c(1)] o have "pm_ok v1 this num os'" "durable v1 p1 this os'" by simp_all
        from last_step(1)[OF this i refl] show ?thesis using c(2) g(1) by simp
      qed (use l[OF p(1)] o in simp)
      then show "\<exists>o1. suffix os o1 \<and> suffix o1 os' \<and> pm_ok img this num o1"
        unfolding o by (rule one_more)
    next
      fix p v' p'
      assume p: "durable (vol s) p this os" "completes (vol s) p (A @ word_acts (this + 24) b) v' p'"
      then obtain v1 p1 where c: "completes (vol s) p A v1 p1" "completes v1 p1 (word_acts (this + 24) b) v' p'" using completes_append by blast
      from d[OF p(1) c(1)] o have "pm_ok v1 this num os'" "durable v1 p1 this os'" by simp_all
      from last_step(2)[OF this i refl] show "pm_ok v' this num os' \<and> durable v' p' this os'" using c(2) g(1) by simp
    qed (use o in \<open>simp add: suffix_Cons\<close>)
  qed
next
  case (PUse a)
  have q: "os' = os \<and> acts_to s [a] s' \<and> (\<forall>k\<in>pm_meta this os. \<not> stored k a)"
  proof (cases a)
    case (Store b bs)
    have w: "owned os (Store b bs)" using r PUse Store by (cases "owned os (Store b bs)") (simp_all del: owned.simps)
    have e: "os' = os" "s' = pstore b bs s" using r PUse Store w by (simp_all del: owned.simps)
    obtain i n where i: "(i, n) \<in> set os" "4096 * i \<le> b" "b + length bs \<le> 4096 * (i + n)"
      using w[unfolded owned.simps] by (elim bexE) (simp split: prod.splits)
    have "k \<notin> pm_meta this os" if "b \<le> k" "k < b + length bs" for k
    proof (rule pm_meta_apart[OF _ _ i(1)])
      show "pm_objs (vol s) this os" "4096 dvd this" using ok by (simp_all add: pm_ok_def)
      show "4096 * i \<le> k" "k < 4096 * (i + n)" using i(2,3) that by linarith+
    qed
    then have "\<not> stored k a" if "k \<in> pm_meta this os" for k using that Store by auto
    then show ?thesis using Store e acts_to_pstore[of s b bs] by simp
  next
    case (Flush b)
    then show ?thesis using r PUse acts_to_flush[of s b] by simp
  qed
  show ?thesis
  proof (rule that[of "[a]"])
    have n: "\<forall>x\<in>set [a]. \<forall>k\<in>pm_meta this os. \<not> stored k x" using q by simp
    show "\<exists>o1. suffix os o1 \<and> suffix o1 os' \<and> pm_ok img this num o1" if "durable (vol s) p this os" "power_loss (vol s) p [a] img" for p img
      using quiet_step(1)[OF ok that(1) n that(2)] q by (intro exI[of _ os]) simp
    show "pm_ok v' this num os' \<and> durable v' p' this os'" if "durable (vol s) p this os" "completes (vol s) p [a] v' p'" for p v' p'
      using quiet_step(2)[OF ok that(1) n that(2)] q by simp
  qed (use q in auto)
qed

lemma pm_run_safe:
  assumes "pm_ok (vol s) this num os" "durable (vol s) p this os" "\<forall>x\<in>set ops. small_op x" "pm_run this ops (s, os) = Ok (s', os')"
  shows "\<exists>as. acts_to s as s' \<and> suffix os os' \<and> pm_ok (vol s') this num os' \<and>
    (\<forall>img. power_loss (vol s) p as img \<longrightarrow> (\<exists>o1. suffix os o1 \<and> suffix o1 os' \<and> pm_ok img this num o1))"
  using assms
proof (induction ops arbitrary: s os p)
  case Nil
  then have e: "s' = s" "os' = os" by auto
  have "pm_ok img this num os" if "power_loss (vol s) p [] img" for img
    by (rule quiet_step(1)[OF Nil.prems(1,2) _ that]) simp
  then show ?case using Nil.prems(1) acts_to_refl e by (intro exI[of _ "[]"]) auto
next
  case (Cons x ops)
  obtain s1 os1 where r: "pm_step this x (s, os) = Ok (s1, os1)" "pm_run this ops (s1, os1) = Ok (s', os')"
    using Cons.prems(4) by (auto simp: bind_res_eq_Ok)
  have x: "small_op x" using Cons.prems(3) by simp
  show ?case
  proof (rule pm_step_safe[OF Cons.prems(1) x r(1)])
    fix as
    assume a: "acts_to s as s1" "suffix os os1"
      and l: "\<And>p img. durable (vol s) p this os \<Longrightarrow> power_loss (vol s) p as img \<Longrightarrow> \<exists>o1. suffix os o1 \<and> suffix o1 os1 \<and> pm_ok img this num o1"
      and d: "\<And>p v' p'. durable (vol s) p this os \<Longrightarrow> completes (vol s) p as v' p' \<Longrightarrow> pm_ok v' this num os1 \<and> durable v' p' this os1"
    have v1: "vol s1 = fold act_vol as (vol s)" using a(1) by (simp add: acts_to_def)
    obtain p0 where "completes (vol s) p as (vol s1) p0" using completes_exists[of "vol s" p as] v1 by auto
    from d[OF Cons.prems(2) this] have ok1: "pm_ok (vol s1) this num os1" by simp
    have IH: "\<exists>bs. acts_to s1 bs s' \<and> suffix os1 os' \<and> pm_ok (vol s') this num os' \<and>
      (\<forall>img. power_loss (vol s1) p1 bs img \<longrightarrow> (\<exists>o1. suffix os1 o1 \<and> suffix o1 os' \<and> pm_ok img this num o1))" if "durable (vol s1) p1 this os1" for p1
      using Cons.IH[OF ok1 that _ r(2)] Cons.prems(3) by simp
    have dv: "durable (vol s1) (vol s1) this os1" by (simp add: durable_def)
    obtain bs where b: "acts_to s1 bs s'" "suffix os1 os'" "pm_ok (vol s') this num os'" using IH[OF dv] by blast
    have "\<exists>o1. suffix os o1 \<and> suffix o1 os' \<and> pm_ok img this num o1" if img: "power_loss (vol s) p (as @ bs) img" for img
      using power_loss_append[OF img]
    proof
      assume "power_loss (vol s) p as img"
      from l[OF Cons.prems(2) this] show ?thesis using b(2) suffix_order.trans by blast
    next
      assume "\<exists>v' p'. completes (vol s) p as v' p' \<and> power_loss v' p' bs img"
      then obtain v1' p1 where c: "completes (vol s) p as v1' p1" "power_loss v1' p1 bs img" by blast
      have "v1' = vol s1" using completes_vol[OF c(1)] v1 by simp
      with d[OF Cons.prems(2) c(1)] c(2) have p1: "durable (vol s1) p1 this os1" "power_loss (vol s1) p1 bs img" by simp_all
      from IH[OF p1(1)] obtain bs' where b': "acts_to s1 bs' s'"
        "\<forall>img. power_loss (vol s1) p1 bs' img \<longrightarrow> (\<exists>o1. suffix os1 o1 \<and> suffix o1 os' \<and> pm_ok img this num o1)" by blast
      have "bs' = bs" using b(1) b'(1) by (simp add: acts_to_def)
      then show ?thesis using b'(2) p1(2) a(2) suffix_order.trans by blast
    qed
    then show ?case using acts_to_trans[OF a(1) b(1)] suffix_order.trans[OF a(2) b(2)] b(3) by (intro exI[of _ "as @ bs"]) auto
  qed
qed

text \<open>
  C5: the objects of a persistent memory survive a loss of power.  In any run of allocations, of pages
  or for a new process, with any stores to the objects and any flushes in between, and for any point of
  the loss and any evictions, the list in the memory is well-formed, with the objects before the run
  and those of a number of allocations of it in their order, and no two objects of the run overlap.
\<close>

theorem pmem_objects_survive:
  assumes "pm_ok (vol s) this num os" "durable (vol s) p this os" "\<forall>x\<in>set ops. small_op x"
    "pm_run this ops (s, os) = Ok (s', os')" "acts s' = acts s @ as" "power_loss (vol s) p as img"
  shows "(\<exists>o1. suffix os o1 \<and> suffix o1 os' \<and> pm_ok img this num o1) \<and>
    (\<forall>(i, n)\<in>set os'. \<forall>(j, m)\<in>set os'. (i, n) \<noteq> (j, m) \<longrightarrow> i + n < j \<or> j + m < i)"
proof -
  obtain as' where r: "acts_to s as' s'" "pm_ok (vol s') this num os'"
    "\<forall>img. power_loss (vol s) p as' img \<longrightarrow> (\<exists>o1. suffix os o1 \<and> suffix o1 os' \<and> pm_ok img this num o1)"
    using pm_run_safe[OF assms(1-4)] by blast
  have "as' = as" using r(1) assms(5) by (simp add: acts_to_def)
  moreover have "pm_objs (vol s') this os'" using r(2) by (simp add: pm_ok_def)
  ultimately show ?thesis using r(3) assms(6) pm_objs_apart by fast
qed

text \<open>
  The example: a manager at 0x10000 with 16 pages in a memory which is otherwise zero; it gets the
  information of a process and three pages, of which the first byte is stored.
\<close>

definition example_pm :: cmem where
  "example_pm = put_bytes 0x10000 (u64_bytes 16) (put_bytes 0x10008 (u64_bytes 16) (put_bytes 0x10010 (u64_bytes 0x10020)
     (put_bytes 0x10020 (u64_bytes kSignature) (put_bytes 0x10040 (u64_bytes PMM_kSignature) (\<lambda>_. 0)))))"

lemma example_pm_ok: "pm_ok example_pm 0x10000 16 []"
  by (simp add: pm_ok_def header_at_def example_pm_def ld64_put_same ld64_put_other ld_zero del: put_bytes.simps)

definition example_ops :: "pm_op list" where
  "example_ops = [PInfo, PAlloc 3, PUse (Store 0x13000 [7])]"

lemmas pm_defs = AllocPersistentProcessInfo_def PMM_AllocPages_def PMM_IsValid_def pm_head_def next_page_idx_def POH_GetObjectBase_def
  POH_GetNumOfPages_def POH_GetID_def POH_Init_def POH_SetNext_def POH_IsValid_def PMM_SetHead_def st64_def pstore_def CLFlush_def
  mm_clflush_def Let_def kPageSizeExponent_def kPageSize_def ByteSizeToPageSize_def

lemma example_pm_run:
  "\<exists>s'. pm_run 0x10000 example_ops (\<lparr>vol = example_pm, acts = []\<rparr>, []) = Ok (s', [(19, 3), (17, 1)])"
  by (simp add: example_ops_def pm_defs example_pm_def ld64_put_same ld64_put_other ld_zero PMM_kSignature_def del: put_bytes.simps)

theorem pmem_objects_survive_witness:
  "\<exists>s'. pm_run 0x10000 example_ops (\<lparr>vol = example_pm, acts = []\<rparr>, []) = Ok (s', [(19, 3), (17, 1)]) \<and>
     (\<forall>img. power_loss example_pm example_pm (acts s') img \<longrightarrow> (\<exists>o1. suffix o1 [(19, 3), (17, 1)] \<and> pm_ok img 0x10000 16 o1))"
proof -
  let ?s = "\<lparr>vol = example_pm, acts = []\<rparr>"
  have d: "durable example_pm example_pm 0x10000 []" by (simp add: durable_def)
  have o: "\<forall>x\<in>set example_ops. small_op x" by (simp add: example_ops_def)
  obtain s' where r: "pm_run 0x10000 example_ops (?s, []) = Ok (s', [(19, 3), (17, 1)])" using example_pm_run by blast
  have "\<exists>o1. suffix o1 [(19, 3), (17, 1)] \<and> pm_ok img 0x10000 16 o1" if "power_loss example_pm example_pm (acts s') img" for img
    using pmem_objects_survive[of ?s "0x10000" 16 "[]" example_pm example_ops s' "[(19, 3), (17, 1)]" "acts s'" img]
      example_pm_ok d o r that by auto
  then show ?thesis using r by blast
qed

section \<open>Initialization\<close>

text \<open>A table of entries with the lengths \<open>ls\<close>, from address \<open>e\<close> to \<open>fin\<close>.\<close>

fun nfit_entries :: "cmem \<Rightarrow> nat \<Rightarrow> nat list \<Rightarrow> nat \<Rightarrow> bool" where
  "nfit_entries fw e [] fin \<longleftrightarrow> e = fin"
| "nfit_entries fw e (l # ls) fin \<longleftrightarrow> ld16 fw (e + 2) = l \<and> 0 < l \<and> nfit_entries fw (e + l) ls fin"

definition pmem_range :: "cmem \<Rightarrow> nat \<Rightarrow> nat \<Rightarrow> bool" where
  "pmem_range fw this e \<longleftrightarrow> ld16 fw e = 0 \<and> IsEqualGUID fw (e + 16) kByteAddressablePersistentMemory \<and> ld64 fw (e + 32) = of_nat this"

lemma nfit_entries_le: "nfit_entries fw e ls fin \<Longrightarrow> e \<le> fin \<and> (ls \<noteq> [] \<longrightarrow> e < fin)"
  by (induction fw e ls fin rule: nfit_entries.induct) auto

text \<open>The search ends, with the first entry for the range, if there is one.\<close>

lemma nfit_loop_returns:
  "nfit_entries fw e ls fin \<Longrightarrow> \<exists>r. nfit_loop fw this e fin = Some r \<and>
     (case r of None \<Rightarrow> \<forall>k<length ls. \<not> pmem_range fw this (e + sum_list (take k ls))
      | Some a \<Rightarrow> \<exists>k<length ls. a = e + sum_list (take k ls) \<and> pmem_range fw this a)"
proof (induction ls arbitrary: e)
  case Nil
  then show ?case by (subst nfit_loop.simps) simp
next
  case (Cons l ls)
  have e: "e \<noteq> fin" using nfit_entries_le[OF Cons.prems] by auto
  show ?case
  proof (cases "pmem_range fw this e")
    case True
    then have "nfit_loop fw this e fin = Some (Some e)" using e by (subst nfit_loop.simps) (simp add: pmem_range_def)
    then show ?thesis using True by (auto intro: exI[of _ 0])
  next
    case False
    then have n: "nfit_loop fw this e fin = nfit_loop fw this (e + l) fin"
      using e Cons.prems by (subst nfit_loop.simps) (auto simp: pmem_range_def)
    obtain r where r: "nfit_loop fw this (e + l) fin = Some r"
      "case r of None \<Rightarrow> \<forall>k<length ls. \<not> pmem_range fw this (e + l + sum_list (take k ls))
        | Some a \<Rightarrow> \<exists>k<length ls. a = e + l + sum_list (take k ls) \<and> pmem_range fw this a"
      using Cons.IH[of "e + l"] Cons.prems by auto
    show ?thesis
    proof (intro exI[of _ r] conjI)
      show "nfit_loop fw this e fin = Some r" using n r(1) by simp
      show "case r of None \<Rightarrow> \<forall>k<length (l # ls). \<not> pmem_range fw this (e + sum_list (take k (l # ls)))
        | Some a \<Rightarrow> \<exists>k<length (l # ls). a = e + sum_list (take k (l # ls)) \<and> pmem_range fw this a"
      proof (cases r)
        case None
        then show ?thesis using r(2) False by (auto simp: take_Cons' add.assoc)
      next
        case (Some a)
        then obtain k where "k < length ls" "a = e + l + sum_list (take k ls)" "pmem_range fw this a" using r(2) by auto
        then show ?thesis using Some by (auto intro!: exI[of _ "Suc k"])
      qed
    qed
  qed
qed

definition init_acts :: "nat \<Rightarrow> u64 \<Rightarrow> mem_action list" where
  "init_acts this num = [Store (this + 64) (u64_bytes (NOT PMM_kSignature)), Store this (u64_bytes (of_nat (this div 4096))),
     Store (this + 8) (u64_bytes num), Store (this + 16) (u64_bytes 0), Store (this + 24) (u64_bytes 0),
     Store (this + 64) (u64_bytes PMM_kSignature), Flush this, Flush (this + 64)]"

definition sentinel_acts :: "nat \<Rightarrow> mem_action list" where
  "sentinel_acts h = [Store h (u64_bytes (NOT kSignature)), Flush h, Store (h + 8) (u64_bytes 0), Store (h + 16) (u64_bytes 0),
     Store (h + 24) (u64_bytes 0), Store h (u64_bytes kSignature), Flush h]"

text \<open>Initialization makes a manager without objects, all of which is in the memory at its end.\<close>

lemma PMM_Init_ok:
  assumes t: "nfit_entries fw (t + 40) ls (t + unat (ld32 fw (t + 4)))" "nfit_loop fw this (t + 40) (t + unat (ld32 fw (t + 4))) = Some (Some e)"
    and num: "num = unat (ld64 fw (e + 40)) div 4096" "0 < num" "4096 dvd this" "this + 4096 * num < 2 ^ 64"
  shows "\<exists>s' as. PMM_Init fw (Some t) this s = Ok s' \<and> acts_to s as s' \<and> pm_ok (vol s') this num [] \<and>
    (\<forall>p v' p'. completes (vol s) p as v' p' \<longrightarrow> durable v' p' this [])"
proof -
  let ?n = "drop_bit 12 (ld64 fw (e + 40))"
  let ?as = "init_acts this ?n @ sentinel_acts (this + 32) @ word_acts (this + 16) (of_nat (this + 32))"
  have n: "?n = of_nat num"
  proof (rule word_unat_eq_iff[THEN iffD2])
    have "num < 2 ^ 64" using num(4) by linarith
    then have "unat (of_nat num :: u64) = num" unfolding unat_of_nat by (intro mod_less) simp
    then show "unat ?n = unat (of_nat num :: u64)" using num(1) by (simp only: unat_drop_bit) simp
  qed
  have d: "drop_bit 12 (of_nat this :: u64) = of_nat (this div 4096)" by (rule drop_bit_of_nat) (use num(4) in linarith)
  obtain s' where s': "PMM_Init fw (Some t) this s = Ok s'" "acts_to s ?as s'"
  proof
    have al: "this mod 4096 = 0" using num(3) by (simp add: dvd_eq_mod_eq_0)
    show "PMM_Init fw (Some t) this s = Ok (PMM_SetHead this (of_nat (this + 32)) (POH_Init (this + 32) 0 0 (snd (CLFlush_range this 72 (0,
      st64 (this + 64) PMM_kSignature (st64 (this + 24) 0 (st64 (this + 16) 0 (st64 (this + 8) ?n (st64 this (of_nat (this div 4096))
      (st64 (this + 64) (NOT PMM_kSignature) s))))))))))"
      using al t(2) d by (simp add: PMM_Init_def Let_def kPageSizeExponent_def)
    show "acts_to s ?as (PMM_SetHead this (of_nat (this + 32)) (POH_Init (this + 32) 0 0 (snd (CLFlush_range this 72 (0,
      st64 (this + 64) PMM_kSignature (st64 (this + 24) 0 (st64 (this + 16) 0 (st64 (this + 8) ?n (st64 this (of_nat (this div 4096))
      (st64 (this + 64) (NOT PMM_kSignature) s))))))))))"
      by (simp add: acts_to_def init_acts_def sentinel_acts_def word_acts_def PMM_SetHead_def POH_Init_def Let_def st64_def pstore_def
        CLFlush_def mm_clflush_def CLFlush_range_eq upt_rec del: put_bytes.simps)
  qed
  have "vol s' = fold act_vol ?as (vol s)" using s'(2) by (simp add: acts_to_def)
  then have ok: "pm_ok (vol s') this num []"
    using num(2-4) by (simp add: pm_ok_def header_at_def init_acts_def sentinel_acts_def word_acts_def n
      ld64_put_same ld64_put_other del: put_bytes.simps)
  have "durable v' p' this []" if c: "completes (vol s) p ?as v' p'" for p v' p'
  proof -
    obtain v1 p1 where c1: "completes (vol s) p (init_acts this ?n) v1 p1" and
      c2: "completes v1 p1 (sentinel_acts (this + 32) @ word_acts (this + 16) (of_nat (this + 32))) v' p'"
      using completes_append[OF c] by blast
    have l: "k div 64 = this div 64" if "this \<le> k" "k < this + 64" for k
      using that num(3) by (auto elim!: dvdE simp: div_nat_eqI)
    have "p' k = v' k" if k: "this \<le> k" "k < this + 72" for k
    proof (cases "k < this + 64")
      case True
      have "(this + 16) div 64 = this div 64" using l[of "this + 16"] by simp
      then have "k div 64 = (this + 16) div 64" using l[OF k(1) True] by simp
      then show ?thesis
        using completes_last_flush[of v1 p1 "sentinel_acts (this + 32) @ [Store (this + 16) (u64_bytes (of_nat (this + 32)))]" "this + 16" v' p' k] c2
        by (simp add: word_acts_def)
    next
      case False
      have q: "\<forall>x\<in>set (sentinel_acts (this + 32) @ word_acts (this + 16) (of_nat (this + 32))). \<not> stored k x"
        using False by (auto simp: sentinel_acts_def word_acts_def)
      have "k div 64 = (this + 64) div 64" using False k num(3) by (auto elim!: dvdE simp: div_nat_eqI)
      then have "p1 k = v1 k"
        using completes_last_flush[of "vol s" p "butlast (init_acts this ?n)" "this + 64" v1 p1 k] c1 by (simp add: init_acts_def)
      then show ?thesis using completes_untouched[OF c2 q] by auto
    qed
    then show ?thesis by (auto simp: durable_def pm_meta_def)
  qed
  then show ?thesis using s' ok by blast
qed

lemma completes_then_loss: "completes v p as v1 p1 \<Longrightarrow> power_loss v1 p1 bs img \<Longrightarrow> power_loss v p (as @ bs) img"
  by (induction rule: completes.induct) (auto intro: power_loss.intros)

text \<open>
  The signature is in another cache line than the head: if the line of the signature is written back
  first, a memory which was never initialized, with any contents at the place of the head, has a valid
  manager after a loss of power.
\<close>

lemma PMM_Init_torn:
  assumes "64 dvd this"
  shows "\<exists>img. power_loss v p (init_acts this num) img \<and> ld64 img (this + 64) = PMM_kSignature \<and> ld64 img (this + 16) = ld64 p (this + 16)"
proof -
  let ?as = "butlast (butlast (init_acts this num))"
  obtain p1 where p1: "completes v p ?as (fold act_vol ?as v) p1"
    "\<forall>k. (\<forall>a. Flush a \<in> set ?as \<longrightarrow> a div 64 \<noteq> k div 64) \<longrightarrow> p1 k = p k" using completes_exists by blast
  have e: "p1 = p" using p1(2) by (auto simp: init_acts_def)
  let ?img = "write_back 8 ((this + 64) div 8) (fold act_vol ?as v) p"
  have "power_loss (fold act_vol ?as v) p [Flush this, Flush (this + 64)] ?img" by (intro evict[OF lost])
  from completes_then_loss[OF p1(1)[unfolded e] this] have l: "power_loss v p (init_acts this num) ?img"
    by (simp add: init_acts_def)
  obtain q where q: "this = 64 * q" using assms by auto
  have w: "(64 * q + 64 + i) div 8 = 8 * q + 8" "(64 * q + 16 + i) div 8 = 8 * q + 2" if "i < 8" for i
    using that by (auto intro!: div_nat_eqI)
  have "ld64 ?img (this + 64) = ld64 (fold act_vol ?as v) (this + 64)"
    by (rule ld64_cong) (simp add: write_back_def q w)
  then have "ld64 ?img (this + 64) = PMM_kSignature"
    by (simp add: init_acts_def ld64_put_same ld64_put_other del: put_bytes.simps)
  moreover have "ld64 ?img (this + 16) = ld64 p (this + 16)"
    by (rule ld64_cong) (simp add: write_back_def q w)
  ultimately show ?thesis using l by blast
qed

end
