(* ===== verification/Xhci_Rings.thy ===== *)
theory Xhci_Rings
  imports Ring_Buffer
begin

text \<open>
Rings of transfer request blocks of the USB host controller (\<open>xhci_trb.h\<close>, \<open>xhci_trbring.h\<close> and the bit
  fields of \<open>util.h\<close>), and the queue which a ring is for the driver and the controller.
\<close>

section \<open>Bit fields\<close>

definition GetBits :: "nat \<Rightarrow> nat \<Rightarrow> u32 \<Rightarrow> u32" where
  "GetBits hi lo v = drop_bit lo v AND (push_bit (hi - lo + 1) 1 - 1)"

definition GetBit :: "nat \<Rightarrow> u32 \<Rightarrow> bool" where
  "GetBit k v \<longleftrightarrow> drop_bit k v AND 1 \<noteq> 0"

definition CombineFieldBits :: "nat \<Rightarrow> nat \<Rightarrow> u32 \<Rightarrow> u32 \<Rightarrow> u32" where
  "CombineFieldBits hi lo src value =
     (let kMask = push_bit lo (push_bit (hi - lo + 1) 1 - 1) in
      (src AND NOT kMask) OR (push_bit lo value AND kMask))"

lemma field_mask: "push_bit n 1 - 1 = (mask n :: u32)"
  by (simp add: mask_eq_decr_exp push_bit_eq_mult)

text \<open>A field is read as it was written, up to its width, and other fields are kept.\<close>

lemma bit_CombineFieldBits:
  "lo \<le> hi \<Longrightarrow> hi < 32 \<Longrightarrow> bit (CombineFieldBits hi lo src v) k =
     (if lo \<le> k \<and> k \<le> hi then bit v (k - lo) else bit src k)"
  unfolding CombineFieldBits_def Let_def field_mask
  by (cases "k < 32") (auto simp: bit_simps dest: bit_imp_le_length)

lemma bit_GetBits: "bit (GetBits hi lo v) k \<longleftrightarrow> k \<le> hi - lo \<and> bit v (lo + k)"
  unfolding GetBits_def field_mask by (auto simp: bit_simps dest: bit_imp_le_length)

lemma GetBits_CombineFieldBits:
  assumes "lo \<le> hi" "hi < 32"
  shows "GetBits hi lo (CombineFieldBits hi lo src v) = v AND mask (hi - lo + 1)"
proof (rule bit_word_eqI)
  fix k
  assume "k < LENGTH(32)"
  then show "bit (GetBits hi lo (CombineFieldBits hi lo src v)) k = bit (v AND mask (hi - lo + 1)) k"
    using assms by (auto simp: bit_simps bit_GetBits bit_CombineFieldBits)
qed

lemma GetBits_other_field:
  assumes "lo \<le> hi" "hi < 32" "lo' \<le> hi'" "hi' < 32" "hi < lo' \<or> hi' < lo"
  shows "GetBits hi' lo' (CombineFieldBits hi lo src v) = GetBits hi' lo' src"
proof (rule bit_word_eqI)
  fix k
  assume "k < LENGTH(32)"
  then show "bit (GetBits hi' lo' (CombineFieldBits hi lo src v)) k = bit (GetBits hi' lo' src) k"
    using assms by (auto simp: bit_simps bit_GetBits bit_CombineFieldBits)
qed

section \<open>Transfer request blocks\<close>

record BasicTRB =
  trb_data :: u64
  trb_option :: u32
  trb_control :: u32

definition kTRBTypeSetupStage :: u32 where "kTRBTypeSetupStage = 2"
definition kTRBTypeDataStage :: u32 where "kTRBTypeDataStage = 3"
definition kTRBTypeStatusStage :: u32 where "kTRBTypeStatusStage = 4"
definition kTRBTypeLink :: u32 where "kTRBTypeLink = 6"
definition kTRBTypeEnableSlotCommand :: u32 where "kTRBTypeEnableSlotCommand = 9"
definition kTRBTypeAddressDeviceCommand :: u32 where "kTRBTypeAddressDeviceCommand = 11"
definition kTRBTypeConfigureEndpointCommand :: u32 where "kTRBTypeConfigureEndpointCommand = 12"
definition kTRBTypeTransferEvent :: u32 where "kTRBTypeTransferEvent = 32"
definition kTRBTypeCommandCompletionEvent :: u32 where "kTRBTypeCommandCompletionEvent = 33"
definition kTRBTypePortStatusChangeEvent :: u32 where "kTRBTypePortStatusChangeEvent = 34"

definition GetTRBType :: "BasicTRB \<Rightarrow> u32" where
  "GetTRBType t = GetBits 15 10 (trb_control t)"

definition GetSlotID :: "BasicTRB \<Rightarrow> nat" where
  "GetSlotID t = unat (GetBits 31 24 (trb_control t))"

definition GetCompletionCode :: "BasicTRB \<Rightarrow> u32" where
  "GetCompletionCode t = GetBits 31 24 (trb_option t)"

definition IsCompletedWithSuccess :: "BasicTRB \<Rightarrow> bool" where
  "IsCompletedWithSuccess t \<longleftrightarrow> GetCompletionCode t = 0x01"

definition IsCompletedWithShortPacket :: "BasicTRB \<Rightarrow> bool" where
  "IsCompletedWithShortPacket t \<longleftrightarrow> GetCompletionCode t = 0x0D"

text \<open>
  The request of a setup stage fills the eight bytes of the data field: type, request, value, index
  and length, each in little-endian order.
\<close>

definition setup_data :: "u8 \<Rightarrow> u8 \<Rightarrow> u16 \<Rightarrow> u16 \<Rightarrow> u16 \<Rightarrow> u64" where
  "setup_data request_type request value index len =
     ucast request_type OR push_bit 8 (ucast request) OR push_bit 16 (ucast value) OR
     push_bit 32 (ucast index) OR push_bit 48 (ucast len)"

datatype TransferType = kNoDataStage | kOutDataStage | kInDataStage

fun transfer_type_bits :: "TransferType \<Rightarrow> u32" where
  "transfer_type_bits kNoDataStage = 0"
| "transfer_type_bits kOutDataStage = 2"
| "transfer_type_bits kInDataStage = 3"

definition SetupStageTRB_control :: "TransferType \<Rightarrow> bool \<Rightarrow> u32" where
  "SetupStageTRB_control transfer_type ioc =
     push_bit 16 (transfer_type_bits transfer_type) OR push_bit 10 kTRBTypeSetupStage OR 64 OR push_bit 5 (of_bool ioc)"

text \<open>The direction is tested in \<open>bRequest\<close>, although it is a bit of \<open>bmRequestType\<close>.\<close>

definition SetupStageTRB_SetParams :: "u8 \<Rightarrow> u8 \<Rightarrow> u16 \<Rightarrow> u16 \<Rightarrow> u16 \<Rightarrow> bool \<Rightarrow> BasicTRB" where
  "SetupStageTRB_SetParams bmRequestType bRequest wValue wIndex wLength ioc =
     \<lparr>trb_data = setup_data bmRequestType bRequest wValue wIndex wLength, trb_option = 8,
      trb_control = SetupStageTRB_control
        (if wLength = 0 then kNoDataStage else if bRequest AND 0x80 \<noteq> 0 then kInDataStage else kOutDataStage) ioc\<rparr>"

definition DataStageTRB_SetControl :: "bool \<Rightarrow> bool \<Rightarrow> bool \<Rightarrow> u32" where
  "DataStageTRB_SetControl direction_in immediate ioc =
     push_bit 16 (of_bool direction_in) OR push_bit 10 kTRBTypeDataStage OR push_bit 6 (of_bool immediate) OR
     (push_bit 5 (of_bool ioc) OR 4)"

definition StatusStageTRB_SetParams :: "bool \<Rightarrow> bool \<Rightarrow> BasicTRB" where
  "StatusStageTRB_SetParams direction_in ioc =
     \<lparr>trb_data = 0, trb_option = 0,
      trb_control = push_bit 16 (of_bool direction_in) OR push_bit 10 kTRBTypeStatusStage OR push_bit 5 (of_bool ioc)\<rparr>"

section \<open>The ring\<close>

text \<open>A ring of \<open>N\<close> entries and a link block; \<open>ring_at\<close> is its physical address.\<close>

record trb_ring =
  ring_entry :: "BasicTRB list"
  next_enqueue_idx :: nat
  current_cycle_state :: u32
  ring_paddr :: u64
  ring_at :: u64

definition set_cycle :: "u32 \<Rightarrow> BasicTRB \<Rightarrow> BasicTRB" where
  "set_cycle c t = t\<lparr>trb_control := (trb_control t AND NOT 1) OR c\<rparr>"

definition AdvanceEnqueueIndexAndUpdateCycleBit :: "trb_ring \<Rightarrow> trb_ring" where
  "AdvanceEnqueueIndexAndUpdateCycleBit q =
     q\<lparr>ring_entry := (ring_entry q)[next_enqueue_idx q := set_cycle (current_cycle_state q) (ring_entry q ! next_enqueue_idx q)],
       next_enqueue_idx := next_enqueue_idx q + 1\<rparr>"

definition TRBRing_Push :: "nat \<Rightarrow> trb_ring \<Rightarrow> trb_ring" where
  "TRBRing_Push N q =
     (let q = AdvanceEnqueueIndexAndUpdateCycleBit q in
      if next_enqueue_idx q = N then
        let q = AdvanceEnqueueIndexAndUpdateCycleBit q in
        q\<lparr>next_enqueue_idx := 0, current_cycle_state := 1 - current_cycle_state q\<rparr>
      else q)"

definition TRBRing_Init :: "nat \<Rightarrow> u64 \<Rightarrow> trb_ring \<Rightarrow> trb_ring" where
  "TRBRing_Init N paddr q =
     (let link_trb = \<lparr>trb_data = paddr, trb_option = 0, trb_control = push_bit 10 kTRBTypeLink OR 2\<rparr>;
          q = q\<lparr>next_enqueue_idx := 0, current_cycle_state := 0, ring_paddr := paddr, ring_entry := (ring_entry q)[N := link_trb]\<rparr>
      in (TRBRing_Push N ^^ N) q)"

definition GetEntryFromPhysAddr :: "nat \<Rightarrow> u64 \<Rightarrow> trb_ring \<Rightarrow> BasicTRB res" where
  "GetEntryFromPhysAddr N p q =
     (let ofs = p - ring_paddr q in
      if ofs mod 16 \<noteq> 0 then Fail Assert_Failed
      else
        let index = ofs div 16 in
        if \<not> index < of_nat N then Fail Assert_Failed else Ok (ring_entry q ! unat index))"

text \<open>The clients fill the next entry, then push it.\<close>

definition enqueue :: "nat \<Rightarrow> BasicTRB \<Rightarrow> trb_ring \<Rightarrow> trb_ring" where
  "enqueue N t q = TRBRing_Push N (q\<lparr>ring_entry := (ring_entry q)[next_enqueue_idx q := t]\<rparr>)"

section \<open>The consumer\<close>

text \<open>
  The host controller owns the other end of a ring: its dequeue position and the cycle bit it expects.
  It takes an entry with this bit; at a link block it goes on at the first entry, with the other bit
  when the link block has bit 1 set (toggle cycle).
\<close>

definition cycle_bit :: "BasicTRB \<Rightarrow> u32" where
  "cycle_bit t = trb_control t AND 1"

definition take_entry :: "trb_ring \<Rightarrow> nat \<times> u32 \<Rightarrow> BasicTRB option \<times> nat \<times> u32" where
  "take_entry q d = (case d of (deq, ccs) \<Rightarrow>
     if cycle_bit (ring_entry q ! deq) = ccs then (Some (ring_entry q ! deq), deq + 1, ccs) else (None, deq, ccs))"

definition hc_fetch :: "trb_ring \<Rightarrow> nat \<times> u32 \<Rightarrow> BasicTRB option \<times> nat \<times> u32" where
  "hc_fetch q d = (case d of (deq, ccs) \<Rightarrow>
     if cycle_bit (ring_entry q ! deq) = ccs \<and> GetTRBType (ring_entry q ! deq) = kTRBTypeLink then
       take_entry q (0, if GetBit 1 (trb_control (ring_entry q ! deq)) then 1 - ccs else ccs)
     else take_entry q d)"

section \<open>Cycle bits\<close>

text \<open>The cycle bit of the laps of the producer, where lap 0 is the initialization.\<close>

definition cyc :: "nat \<Rightarrow> u32" where
  "cyc lap = of_bool (odd lap)"

lemma cyc_Suc: "cyc (Suc n) = 1 - cyc n" by (simp add: cyc_def)

lemma cyc_neq: "cyc (Suc n) \<noteq> cyc n" by (simp add: cyc_def)

lemma cyc_AND: "cyc n AND 1 = cyc n" by (simp add: cyc_def)

definition strip :: "BasicTRB \<Rightarrow> BasicTRB" where
  "strip t = t\<lparr>trb_control := trb_control t AND NOT 1\<rparr>"

lemma cycle_bit_set_cycle [simp]: "cycle_bit (set_cycle (cyc n) t) = cyc n"
  by (simp add: cycle_bit_def set_cycle_def cyc_def word_bw_lcs bit.conj_disj_distrib2 and.assoc)

lemma strip_set_cycle [simp]: "strip (set_cycle (cyc n) t) = strip t"
proof -
  have "((x AND NOT 1) OR cyc n) AND NOT 1 = x AND NOT 1" for x :: u32
    by (rule bit_word_eqI) (auto simp: bit_simps cyc_def bit_1_iff)
  then show ?thesis by (simp add: strip_def set_cycle_def)
qed

lemma GetTRBType_strip: "GetTRBType (strip t) = GetTRBType t"
proof -
  have "bit (x AND NOT 1) n \<longleftrightarrow> bit x n \<and> n \<noteq> 0" for x :: u32 and n
    by (auto simp: bit_and_iff bit_not_iff bit_1_iff dest: bit_imp_le_length)
  then show ?thesis by (intro bit_word_eqI) (simp add: GetTRBType_def bit_GetBits strip_def)
qed

lemma GetTRBType_set_cycle [simp]: "GetTRBType (set_cycle (cyc n) t) = GetTRBType t"
  using GetTRBType_strip[of t] GetTRBType_strip[of "set_cycle (cyc n) t"] by simp

lemma GetBit_set_cycle [simp]: "GetBit 1 (trb_control (set_cycle (cyc n) t)) = GetBit 1 (trb_control t)"
proof -
  have "GetBit 1 v = bit v 1" for v by (auto simp: GetBit_def and_one_eq bit_iff_odd_drop_bit odd_iff_mod_2_eq_one)
  then show ?thesis by (simp add: set_cycle_def bit_simps cyc_def bit_1_iff)
qed

section \<open>The ring invariant\<close>

text \<open>
  After \<open>P\<close> pushes: the entries before the position of the producer have the bit of its lap, the
  others and the link block the bit of the lap before.
\<close>

definition is_link :: "BasicTRB \<Rightarrow> bool" where
  "is_link t \<longleftrightarrow> GetTRBType t = kTRBTypeLink \<and> GetBit 1 (trb_control t)"

definition ring_inv :: "nat \<Rightarrow> nat \<Rightarrow> trb_ring \<Rightarrow> bool" where
  "ring_inv N P q \<longleftrightarrow> length (ring_entry q) = N + 1 \<and> next_enqueue_idx q = P mod N \<and>
     current_cycle_state q = cyc (P div N + 1) \<and>
     is_link (ring_entry q ! N) \<and> cycle_bit (ring_entry q ! N) = cyc (P div N) \<and>
     (\<forall>i<N. cycle_bit (ring_entry q ! i) = cyc (if i < P mod N then P div N + 1 else P div N))"

lemma is_link_set_cycle [simp]: "is_link (set_cycle (cyc n) t) = is_link t"
  using GetBit_set_cycle[of n t] by (simp add: is_link_def)

lemma div_mod_Suc_wrap:
  assumes "0 < N"
  shows "Suc P mod N = (if P mod N + 1 = N then 0 else P mod N + 1)"
    "Suc P div N = (if P mod N + 1 = N then P div N + 1 else P div N)"
  using assms by (simp_all add: mod_Suc div_Suc)

lemma enqueue_inv:
  assumes "ring_inv N P q" "0 < N"
  shows "ring_inv N (Suc P) (enqueue N t q)"
    and "ring_entry (enqueue N t q) ! (P mod N) = set_cycle (cyc (P div N + 1)) t"
    and "\<And>i. i < N \<Longrightarrow> i \<noteq> P mod N \<Longrightarrow> ring_entry (enqueue N t q) ! i = ring_entry q ! i"
proof -
  have m: "P mod N < N" using assms(2) by simp
  show "ring_entry (enqueue N t q) ! (P mod N) = set_cycle (cyc (P div N + 1)) t"
    and "\<And>i. i < N \<Longrightarrow> i \<noteq> P mod N \<Longrightarrow> ring_entry (enqueue N t q) ! i = ring_entry q ! i"
    using assms(1) m by (auto simp: enqueue_def TRBRing_Push_def AdvanceEnqueueIndexAndUpdateCycleBit_def Let_def
        ring_inv_def nth_list_update)
  show "ring_inv N (Suc P) (enqueue N t q)"
  proof (cases "P mod N + 1 = N")
    case True
    then have d: "Suc P mod N = 0" "Suc P div N = P div N + 1" using div_mod_Suc_wrap[OF assms(2)] by auto
    show ?thesis
      using assms(1) True m unfolding ring_inv_def d
      by (auto simp: enqueue_def TRBRing_Push_def AdvanceEnqueueIndexAndUpdateCycleBit_def Let_def
        nth_list_update cyc_Suc[symmetric])
  next
    case False
    then have d: "Suc P mod N = P mod N + 1" "Suc P div N = P div N" using div_mod_Suc_wrap[OF assms(2)] by auto
    show ?thesis
      using assms(1) False m unfolding ring_inv_def d
      by (auto simp: enqueue_def TRBRing_Push_def AdvanceEnqueueIndexAndUpdateCycleBit_def Let_def
        nth_list_update)
  qed
qed

text \<open>Initialization is one lap with bit 0, over whatever the memory held.\<close>

lemma init_pushes:
  assumes "length (ring_entry q) = N + 1" "next_enqueue_idx q = 0" "current_cycle_state q = 0" "k < N"
  shows "(TRBRing_Push N ^^ k) q = q\<lparr>next_enqueue_idx := k,
    ring_entry := map (\<lambda>i. if i < k then set_cycle 0 (ring_entry q ! i) else ring_entry q ! i) [0..<N + 1]\<rparr>"
  using assms(4)
proof (induction k)
  case 0
  have "map ((!) (ring_entry q)) [0..<N + 1] = ring_entry q" using assms(1) by (metis map_nth)
  then show ?case using assms(2) by (cases q) simp
next
  case (Suc k)
  let ?e = "\<lambda>k. map (\<lambda>i. if i < k then set_cycle 0 (ring_entry q ! i) else ring_entry q ! i) [0..<N + 1]"
  have "(TRBRing_Push N ^^ Suc k) q = TRBRing_Push N (q\<lparr>next_enqueue_idx := k, ring_entry := ?e k\<rparr>)"
    using Suc by (simp del: upt_Suc)
  also have "\<dots> = q\<lparr>next_enqueue_idx := Suc k, ring_entry := (?e k)[k := set_cycle 0 (?e k ! k)]\<rparr>"
    using Suc.prems assms(3) unfolding TRBRing_Push_def AdvanceEnqueueIndexAndUpdateCycleBit_def Let_def
    by (simp del: upt_Suc)
  also have "(?e k)[k := set_cycle 0 (?e k ! k)] = ?e (Suc k)"
    by (rule nth_equalityI) (use Suc.prems in \<open>auto simp: nth_list_update simp del: upt_Suc\<close>)
  finally show ?case .
qed

lemma Init_inv:
  assumes "length (ring_entry q) = N + 1" "0 < N"
  shows "ring_inv N 0 (TRBRing_Init N p q)"
proof -
  let ?l = "\<lparr>trb_data = p, trb_option = 0, trb_control = push_bit 10 kTRBTypeLink OR 2\<rparr>"
  let ?q = "q\<lparr>next_enqueue_idx := 0, current_cycle_state := 0, ring_paddr := p, ring_entry := (ring_entry q)[N := ?l]\<rparr>"
  obtain k where k: "N = Suc k" using assms(2) by (cases N) auto
  have l: "is_link ?l" by (simp add: is_link_def GetTRBType_def GetBits_def kTRBTypeLink_def GetBit_def)
  have c: "cyc 0 = 0" "cyc (Suc 0) = 1" by (simp_all add: cyc_def)
  note s = cycle_bit_set_cycle[of 0, unfolded c] is_link_set_cycle[of 0, unfolded c]
  have "(TRBRing_Push N ^^ k) ?q = ?q\<lparr>next_enqueue_idx := k,
    ring_entry := map (\<lambda>i. if i < k then set_cycle 0 (ring_entry ?q ! i) else ring_entry ?q ! i) [0..<N + 1]\<rparr>"
    by (rule init_pushes) (use assms k in simp_all)
  then have "TRBRing_Init N p q = TRBRing_Push N (?q\<lparr>next_enqueue_idx := k,
    ring_entry := map (\<lambda>i. if i < k then set_cycle 0 (ring_entry ?q ! i) else ring_entry ?q ! i) [0..<N + 1]\<rparr>)"
    unfolding TRBRing_Init_def Let_def by (simp add: k del: upt_Suc)
  then show ?thesis
    using assms l by (simp add: k TRBRing_Push_def AdvanceEnqueueIndexAndUpdateCycleBit_def Let_def ring_inv_def c s
      nth_list_update less_Suc_eq del: upt_Suc)
qed

section \<open>Producer and consumer\<close>

datatype ring_op = Enqueue BasicTRB | Fetch

text \<open>The blocks the consumer gets in a sequence of operations, without their cycle bits.\<close>

primrec ring_run :: "nat \<Rightarrow> ring_op list \<Rightarrow> trb_ring \<Rightarrow> nat \<times> u32 \<Rightarrow> BasicTRB option list" where
  "ring_run N [] q d = []"
| "ring_run N (x # xs) q d = (case x of
     Enqueue t \<Rightarrow> ring_run N xs (enqueue N t q) d
   | Fetch \<Rightarrow> (case hc_fetch q d of (r, d') \<Rightarrow> map_option strip r # ring_run N xs q d'))"

text \<open>The specification is a list.\<close>

primrec fifo_run :: "ring_op list \<Rightarrow> BasicTRB list \<Rightarrow> BasicTRB option list" where
  "fifo_run [] ts = []"
| "fifo_run (x # xs) ts = (case x of
     Enqueue t \<Rightarrow> fifo_run xs (ts @ [strip t])
   | Fetch \<Rightarrow> (case ts of [] \<Rightarrow> None # fifo_run xs [] | t # ts' \<Rightarrow> Some t # fifo_run xs ts'))"

text \<open>Less than \<open>N\<close> blocks wait at any time, and none of them is a link block.\<close>

primrec fits :: "nat \<Rightarrow> ring_op list \<Rightarrow> nat \<Rightarrow> bool" where
  "fits N [] n = True"
| "fits N (x # xs) n = (case x of
     Enqueue t \<Rightarrow> n + 1 < N \<and> GetTRBType t \<noteq> kTRBTypeLink \<and> fits N xs (n + 1)
   | Fetch \<Rightarrow> fits N xs (n - 1))"

definition hc_at :: "nat \<Rightarrow> nat \<Rightarrow> nat \<times> u32 \<Rightarrow> bool" where
  "hc_at N C d \<longleftrightarrow> d = (C mod N, cyc (C div N + 1)) \<or> C mod N = 0 \<and> 0 < C \<and> d = (N, cyc (C div N))"

definition waiting :: "nat \<Rightarrow> nat \<Rightarrow> trb_ring \<Rightarrow> BasicTRB list \<Rightarrow> bool" where
  "waiting N C q ts \<longleftrightarrow> (\<forall>j<length ts. strip (ring_entry q ! ((C + j) mod N)) = ts ! j \<and>
     GetTRBType (ts ! j) \<noteq> kTRBTypeLink)"

lemma div_between:
  fixes C P N :: nat
  assumes "C < P" "P < C + N" "0 < N"
  shows "P div N = C div N \<and> C mod N < P mod N \<or> P div N = C div N + 1 \<and> P mod N < C mod N"
proof -
  define k where "k = P - C"
  have k: "P = C + k" "0 < k" "k < N" using assms unfolding k_def by simp_all
  have e: "C + k = N * (C div N) + (C mod N + k)" by simp
  have d: "P div N = C div N + (C mod N + k) div N" "P mod N = (C mod N + k) mod N"
  proof -
    show "P div N = C div N + (C mod N + k) div N" unfolding k(1) by (subst e) (rule div_mult_self4, use assms(3) in simp)
    show "P mod N = (C mod N + k) mod N" unfolding k(1) by (simp only: mod_add_left_eq)
  qed
  show ?thesis
  proof (cases "C mod N + k < N")
    case True
    then show ?thesis using k d by simp
  next
    case False
    moreover have "C mod N + k < 2 * N" using k(3) assms(3) mod_less_divisor[of N C] by linarith
    ultimately have "(C mod N + k) div N = 1" "(C mod N + k) mod N = C mod N + k - N"
      using div_nat_eqI[where q = 1 and n = N and m = "C mod N + k"] mod_nat_eqI[of "C mod N + k - N" N "C mod N + k"] by simp_all
    then show ?thesis using k(3) False d by simp
  qed
qed

lemma bit_at_consumer:
  assumes "ring_inv N P q" "C \<le> P" "P < C + N" "0 < N"
  shows "cycle_bit (ring_entry q ! (C mod N)) = cyc (if C < P then C div N + 1 else C div N)"
proof -
  have b: "cycle_bit (ring_entry q ! (C mod N)) = cyc (if C mod N < P mod N then P div N + 1 else P div N)"
    using assms(1,4) by (simp add: ring_inv_def)
  show ?thesis
  proof (cases "C = P")
    case False
    then have "C < P" using assms(2) by simp
    from div_between[OF this assms(3,4)] show ?thesis using b \<open>C < P\<close> by auto
  qed (use b in simp)
qed

lemma not_link:
  assumes "waiting N C q (t # ts)"
  shows "GetTRBType (ring_entry q ! (C mod N)) \<noteq> kTRBTypeLink" "strip (ring_entry q ! (C mod N)) = t"
proof -
  show s: "strip (ring_entry q ! (C mod N)) = t" using assms by (auto simp: waiting_def)
  show "GetTRBType (ring_entry q ! (C mod N)) \<noteq> kTRBTypeLink"
    using assms GetTRBType_strip[of "ring_entry q ! (C mod N)"] by (auto simp: waiting_def s)
qed

lemma hc_at_next:
  assumes "0 < N"
  shows "hc_at N (Suc C) (C mod N + 1, cyc (C div N + 1))"
  using div_mod_Suc_wrap[OF assms, of C] by (auto simp: hc_at_def)

text \<open>The consumer at a position of the ring, also when it stands at the link block.\<close>

lemma hc_fetch_at:
  assumes "ring_inv N P q" "hc_at N C d" "C \<le> P" "P < C + N" "0 < N"
    and nl: "C < P \<Longrightarrow> GetTRBType (ring_entry q ! (C mod N)) \<noteq> kTRBTypeLink"
  shows "hc_fetch q d = (if C < P then (Some (ring_entry q ! (C mod N)), C mod N + 1, cyc (C div N + 1)) else hc_fetch q d)"
    "\<not> C < P \<Longrightarrow> \<exists>d'. hc_fetch q d = (None, d') \<and> hc_at N C d'"
proof -
  note b = bit_at_consumer[OF assms(1,3,4,5)]
  have t: "take_entry q (C mod N, cyc (C div N + 1)) =
      (if C < P then (Some (ring_entry q ! (C mod N)), C mod N + 1, cyc (C div N + 1)) else (None, C mod N, cyc (C div N + 1)))"
    using b cyc_neq[of "C div N", symmetric] by (simp add: take_entry_def)
  have f: "hc_fetch q d = take_entry q (C mod N, cyc (C div N + 1))"
  proof (cases "d = (C mod N, cyc (C div N + 1))")
    case True
    then show ?thesis using b nl cyc_neq[of "C div N"] by (auto simp: hc_fetch_def)
  next
    case False
    then have d: "C mod N = 0" "0 < C" "d = (N, cyc (C div N))" using assms(2) by (auto simp: hc_at_def)
    have "C div N \<le> P div N" using assms(3) by (rule div_le_mono)
    moreover have "P div N < C div N + 1" using assms(3-5) d(1) div_between[of C P N] by (cases "C = P") auto
    ultimately have "P div N = C div N" by simp
    then show ?thesis using assms(1) d by (simp add: hc_fetch_def ring_inv_def is_link_def cyc_Suc)
  qed
  show "hc_fetch q d = (if C < P then (Some (ring_entry q ! (C mod N)), C mod N + 1, cyc (C div N + 1)) else hc_fetch q d)"
    using f t by simp
  show "\<exists>d'. hc_fetch q d = (None, d') \<and> hc_at N C d'" if "\<not> C < P"
    using f t that by (simp add: hc_at_def)
qed

lemma waiting_enqueue:
  assumes "ring_inv N (C + length ts) q" "waiting N C q ts" "length ts + 1 < N" "GetTRBType t \<noteq> kTRBTypeLink"
  shows "waiting N C (enqueue N t q) (ts @ [strip t])"
proof -
  have n: "0 < N" using assms(3) by simp
  note e = enqueue_inv[OF assms(1) n, where t = t]
  have "strip (ring_entry (enqueue N t q) ! ((C + j) mod N)) = ts ! j" if "j < length ts" for j
  proof -
    have "(C + j) mod N \<noteq> (C + length ts) mod N"
      using mod_add_inj[of C j N "length ts"] that assms(3) by auto
    then show ?thesis using e(3)[of "(C + j) mod N"] n assms(2) that by (simp add: waiting_def)
  qed
  then show ?thesis
    using e(2) assms(2,4) by (auto simp: waiting_def nth_append less_Suc_eq GetTRBType_strip)
qed

lemma ring_refines_fifo:
  assumes "ring_inv N (C + length ts) q" "hc_at N C d" "waiting N C q ts" "length ts < N" "fits N ops (length ts)"
  shows "ring_run N ops q d = fifo_run ops ts"
  using assms
proof (induction ops arbitrary: C q d ts)
  case (Cons x ops)
  have n: "0 < N" using Cons.prems(4) by simp
  show ?case
  proof (cases x)
    case (Enqueue t)
    then have c: "length ts + 1 < N" "GetTRBType t \<noteq> kTRBTypeLink" "fits N ops (length ts + 1)" using Cons.prems(5) by auto
    have "ring_run N ops (enqueue N t q) d = fifo_run ops (ts @ [strip t])"
      by (rule Cons.IH) (use enqueue_inv(1)[OF Cons.prems(1) n] waiting_enqueue[OF Cons.prems(1,3) c(1,2)] c Cons.prems(2) in simp_all)
    then show ?thesis using Enqueue by simp
  next
    case Fetch
    show ?thesis
    proof (cases ts)
      case Nil
      obtain d' where "hc_fetch q d = (None, d')" "hc_at N C d'"
        using hc_fetch_at(2)[OF Cons.prems(1,2)] Nil n by auto
      then show ?thesis using Cons.IH[of C "[]" q d'] Cons.prems Fetch Nil by simp
    next
      case (Cons t ts')
      note p = Cons.prems
      have nl: "GetTRBType (ring_entry q ! (C mod N)) \<noteq> kTRBTypeLink" "strip (ring_entry q ! (C mod N)) = t"
        using not_link[of N C q t ts'] Cons.prems(3) Cons by auto
      have f: "hc_fetch q d = (Some (ring_entry q ! (C mod N)), C mod N + 1, cyc (C div N + 1))"
        using hc_fetch_at(1)[OF Cons.prems(1,2)] Cons.prems(4) Cons n nl(1) by simp
      have w: "waiting N (Suc C) q ts'" using Cons.prems(3) Cons by (fastforce simp: waiting_def)
      have "ring_run N ops q (C mod N + 1, cyc (C div N + 1)) = fifo_run ops ts'"
        by (rule Cons.IH[OF _ hc_at_next[OF n] w]) (use Cons.prems(1,4,5) Cons Fetch in simp_all)
      then show ?thesis using f nl(2) Fetch Cons by simp
    qed
  qed
qed simp


definition example_trb :: "u64 \<Rightarrow> BasicTRB" where
  "example_trb n = \<lparr>trb_data = n, trb_option = 8, trb_control = push_bit 10 kTRBTypeEnableSlotCommand\<rparr>"

definition example_ring :: "nat \<Rightarrow> trb_ring" where
  "example_ring N = \<lparr>ring_entry = replicate (N + 1) (example_trb 99), next_enqueue_idx = 7, current_cycle_state = 1, ring_paddr = 0, ring_at = 0x5000\<rparr>"


end
