(* ===== verification/Saji_Lexer.thy ===== *)
theory Saji_Lexer
  imports Prelude "HOL-Library.Sublist"
begin

text \<open>
The lexer of the JavaScript interpreter (\<open>app/saji/src/token.rs\<close>), and the texts of tokens which it reads
  back.
\<close>

section \<open>Tokens\<close>

text \<open>\<open>String\<close> and \<open>Vec<char>\<close> are strings; characters above 255 are not considered.\<close>

definition RESERVED_WORDS :: "string list" where
  "RESERVED_WORDS = [''var'', ''function'', ''return'']"

datatype js_token =
    TIdentifier string
  | TKeyword string
  | TPunctuator char
  | TStringLiteral string
  | TNumber u64

record js_lexer =
  lx_pos :: nat
  lx_input :: string

definition JsLexer_new :: "string \<Rightarrow> js_lexer" where
  "JsLexer_new js = \<lparr>lx_pos = 0, lx_input = js\<rparr>"

abbreviation lx_advance :: "nat \<Rightarrow> js_lexer \<Rightarrow> js_lexer" where
  "lx_advance n lx \<equiv> lx\<lparr>lx_pos := lx_pos lx + n\<rparr>"

abbreviation lx_char :: "js_lexer \<Rightarrow> char" where
  "lx_char lx \<equiv> lx_input lx ! lx_pos lx"

definition char_in :: "char \<Rightarrow> char \<Rightarrow> char \<Rightarrow> bool" where
  "char_in lo hi c \<longleftrightarrow> (of_char lo :: nat) \<le> of_char c \<and> (of_char c :: nat) \<le> of_char hi"

definition is_ascii_digit :: "char \<Rightarrow> bool" where "is_ascii_digit c \<longleftrightarrow> char_in CHR ''0'' CHR ''9'' c"
definition is_ascii_alphabetic :: "char \<Rightarrow> bool" where
  "is_ascii_alphabetic c \<longleftrightarrow> char_in CHR ''a'' CHR ''z'' c \<or> char_in CHR ''A'' CHR ''Z'' c"
definition is_ascii_alphanumeric :: "char \<Rightarrow> bool" where
  "is_ascii_alphanumeric c \<longleftrightarrow> is_ascii_alphabetic c \<or> is_ascii_digit c"

definition to_digit :: "char \<Rightarrow> nat" where "to_digit c = of_char c - 48"

text \<open>The build is a release build: the arithmetic wraps.\<close>

function consume_number_loop :: "u64 \<Rightarrow> js_lexer \<Rightarrow> u64 \<times> js_lexer" where
  "consume_number_loop num lx =
     (if length (lx_input lx) \<le> lx_pos lx then (num, lx)
      else
        let c = lx_char lx in
        if is_ascii_digit c then consume_number_loop (num * 10 + of_nat (to_digit c)) (lx_advance 1 lx)
        else (num, lx))"
  by pat_completeness auto
termination
  by (relation "measure (\<lambda>(_, lx). length (lx_input lx) - lx_pos lx)") auto

definition consume_number :: "js_lexer \<Rightarrow> u64 \<times> js_lexer" where
  "consume_number lx = consume_number_loop 0 lx"

function consume_string_loop :: "string \<Rightarrow> js_lexer \<Rightarrow> string \<times> js_lexer" where
  "consume_string_loop result lx =
     (if length (lx_input lx) \<le> lx_pos lx then (result, lx)
      else if lx_char lx = CHR 0x22 then (result, lx_advance 1 lx)
      else consume_string_loop (result @ [lx_char lx]) (lx_advance 1 lx))"
  by pat_completeness auto
termination
  by (relation "measure (\<lambda>(_, lx). length (lx_input lx) - lx_pos lx)") auto

definition consume_string :: "js_lexer \<Rightarrow> string \<times> js_lexer" where
  "consume_string lx = consume_string_loop [] (lx_advance 1 lx)"

function consume_identifier_loop :: "string \<Rightarrow> js_lexer \<Rightarrow> string \<times> js_lexer" where
  "consume_identifier_loop result lx =
     (if length (lx_input lx) \<le> lx_pos lx then (result, lx)
      else if is_ascii_alphanumeric (lx_char lx) \<or> lx_char lx = CHR ''$''
      then consume_identifier_loop (result @ [lx_char lx]) (lx_advance 1 lx)
      else (result, lx))"
  by pat_completeness auto
termination
  by (relation "measure (\<lambda>(_, lx). length (lx_input lx) - lx_pos lx)") auto

definition consume_identifier :: "js_lexer \<Rightarrow> string \<times> js_lexer" where
  "consume_identifier lx = consume_identifier_loop [] lx"

declare consume_number_loop.simps [simp del] consume_string_loop.simps [simp del] consume_identifier_loop.simps [simp del]

text \<open>The input may end in the middle of a reserved word: then the index is out of bounds.\<close>

primrec contains_loop :: "string \<Rightarrow> nat \<Rightarrow> js_lexer \<Rightarrow> bool res" where
  "contains_loop [] i lx = Ok True"
| "contains_loop (k # ks) i lx =
     (if length (lx_input lx) \<le> lx_pos lx + i then Fail Out_Of_Bounds
      else if k \<noteq> lx_input lx ! (lx_pos lx + i) then Ok False
      else contains_loop ks (i + 1) lx)"

definition lx_contains :: "string \<Rightarrow> js_lexer \<Rightarrow> bool res" where
  "lx_contains keyword lx = contains_loop keyword 0 lx"

primrec reserved_loop :: "string list \<Rightarrow> js_lexer \<Rightarrow> string option res" where
  "reserved_loop [] lx = Ok None"
| "reserved_loop (w # ws) lx =
     bind_res (lx_contains w lx) (\<lambda>b. if b then Ok (Some w) else reserved_loop ws lx)"

definition check_reserved_word :: "js_lexer \<Rightarrow> string option res" where
  "check_reserved_word lx = reserved_loop RESERVED_WORDS lx"

function skip_white :: "js_lexer \<Rightarrow> js_lexer" where
  "skip_white lx =
     (if length (lx_input lx) \<le> lx_pos lx then lx
      else if lx_char lx = CHR '' '' \<or> lx_char lx = CHR 0x0A then skip_white (lx_advance 1 lx)
      else lx)"
  by pat_completeness auto
termination
  by (relation "measure (\<lambda>lx. length (lx_input lx) - lx_pos lx)") auto

declare skip_white.simps [simp del]

definition punctuators :: string where "punctuators = ''+-;=(){},''"

definition get_next_token :: "js_lexer \<Rightarrow> (js_token option \<times> js_lexer) res" where
  "get_next_token lx0 =
     (let lx = skip_white lx0 in
      if length (lx_input lx) \<le> lx_pos lx then Ok (None, lx)
      else
        bind_res (check_reserved_word lx) (\<lambda>r. case r of
          Some keyword \<Rightarrow> Ok (Some (TKeyword keyword), lx_advance (length keyword) lx)
        | None \<Rightarrow>
            let c = lx_char lx in
            if c \<in> set punctuators then Ok (Some (TPunctuator c), lx_advance 1 lx)
            else if c = CHR 0x22 then (case consume_string lx of (s, lx) \<Rightarrow> Ok (Some (TStringLiteral s), lx))
            else if is_ascii_digit c then (case consume_number lx of (n, lx) \<Rightarrow> Ok (Some (TNumber n), lx))
            else if is_ascii_alphabetic c \<or> c = CHR ''_'' \<or> c = CHR ''$'' then
              (case consume_identifier lx of (s, lx) \<Rightarrow> Ok (Some (TIdentifier s), lx))
            else Fail (Panic (''not implemented: char '' @ [c] @ '' is not supported yet''))))"

definition lx_peek :: "js_lexer \<Rightarrow> js_token option res" where
  "lx_peek lx = bind_res (get_next_token lx) (\<lambda>(t, _). Ok t)"

section \<open>Texts of tokens\<close>

fun decimal :: "nat \<Rightarrow> string" where
  "decimal n = (if n < 10 then [char_of (48 + n)] else decimal (n div 10) @ [char_of (48 + n mod 10)])"

declare decimal.simps [simp del]

text \<open>The rest of the input.\<close>

definition lx_rest :: "js_lexer \<Rightarrow> string" where
  "lx_rest lx = drop (lx_pos lx) (lx_input lx)"

lemma lx_rest_Nil [simp]: "lx_rest lx = [] \<longleftrightarrow> length (lx_input lx) \<le> lx_pos lx"
  by (simp add: lx_rest_def)

lemma lx_rest_Cons:
  assumes "lx_rest lx = c # cs"
  shows "lx_pos lx < length (lx_input lx)" "lx_char lx = c" "lx_rest (lx_advance 1 lx) = cs"
proof -
  show p: "lx_pos lx < length (lx_input lx)" using assms by (simp add: lx_rest_def) (metis drop_all list.simps(3) not_le)
  then have "lx_rest lx = lx_char lx # lx_rest (lx_advance 1 lx)" by (simp add: lx_rest_def Cons_nth_drop_Suc)
  then show "lx_char lx = c" "lx_rest (lx_advance 1 lx) = cs" using assms by auto
qed

lemma lx_rest_append: "lx_rest lx = s @ t \<Longrightarrow> lx_rest (lx_advance (length s) lx) = t"
  using drop_drop[of "length s" "lx_pos lx" "lx_input lx"] by (simp add: lx_rest_def add.commute)

lemma lx_rest_nth: "lx_rest lx = s \<Longrightarrow> i < length s \<Longrightarrow> lx_pos lx + i < length (lx_input lx) \<and> lx_input lx ! (lx_pos lx + i) = s ! i"
  by (auto simp: lx_rest_def)

definition digits_value :: "u64 \<Rightarrow> string \<Rightarrow> u64" where
  "digits_value n ds = foldl (\<lambda>v c. v * 10 + of_nat (to_digit c)) n ds"

lemma consume_number_loop_digits:
  assumes "lx_rest lx = ds @ rest" "\<forall>d\<in>set ds. is_ascii_digit d" "rest = [] \<or> \<not> is_ascii_digit (hd rest)"
  shows "consume_number_loop n lx = (digits_value n ds, lx_advance (length ds) lx)"
  using assms
proof (induction ds arbitrary: n lx)
  case Nil
  show ?case
  proof (cases rest)
    case Nil': Nil
    then show ?thesis using Nil by (subst consume_number_loop.simps) (simp add: digits_value_def)
  next
    case (Cons c cs)
    then show ?thesis using lx_rest_Cons[of lx c cs] Nil by (subst consume_number_loop.simps) (simp add: digits_value_def)
  qed
next
  case (Cons d ds)
  note r = lx_rest_Cons[of lx d "ds @ rest"]
  have "consume_number_loop n lx = consume_number_loop (n * 10 + of_nat (to_digit d)) (lx_advance 1 lx)"
    using r Cons.prems by (subst consume_number_loop.simps) simp
  also have "\<dots> = (digits_value (n * 10 + of_nat (to_digit d)) ds, lx_advance (length ds) (lx_advance 1 lx))"
    by (rule Cons.IH) (use r Cons.prems in simp_all)
  finally show ?case by (simp add: digits_value_def)
qed

lemma consume_string_loop_quote:
  assumes "lx_rest lx = s @ CHR 0x22 # rest" "CHR 0x22 \<notin> set s"
  shows "consume_string_loop r lx = (r @ s, lx_advance (length s + 1) lx)"
  using assms
proof (induction s arbitrary: r lx)
  case Nil
  then show ?case using lx_rest_Cons[of lx "CHR 0x22" rest] by (subst consume_string_loop.simps) simp
next
  case (Cons c s)
  note n = lx_rest_Cons[of lx c "s @ CHR 0x22 # rest"]
  have "consume_string_loop r lx = consume_string_loop (r @ [c]) (lx_advance 1 lx)"
    using n Cons.prems by (subst consume_string_loop.simps) auto
  also have "\<dots> = ((r @ [c]) @ s, lx_advance (length s + 1) (lx_advance 1 lx))"
    by (rule Cons.IH) (use n Cons.prems in simp_all)
  finally show ?case by simp
qed

definition id_char :: "char \<Rightarrow> bool" where "id_char c \<longleftrightarrow> is_ascii_alphanumeric c \<or> c = CHR ''$''"

lemma consume_identifier_loop_id:
  assumes "lx_rest lx = s @ rest" "\<forall>c\<in>set s. id_char c" "rest = [] \<or> \<not> id_char (hd rest)"
  shows "consume_identifier_loop r lx = (r @ s, lx_advance (length s) lx)"
  using assms
proof (induction s arbitrary: r lx)
  case Nil
  show ?case
  proof (cases rest)
    case Nil': Nil
    then show ?thesis using Nil by (subst consume_identifier_loop.simps) simp
  next
    case (Cons c cs)
    then show ?thesis using lx_rest_Cons[of lx c cs] Nil by (subst consume_identifier_loop.simps) (simp add: id_char_def)
  qed
next
  case (Cons d s)
  note n = lx_rest_Cons[of lx d "s @ rest"]
  have "consume_identifier_loop r lx = consume_identifier_loop (r @ [d]) (lx_advance 1 lx)"
    using n Cons.prems by (subst consume_identifier_loop.simps) (simp add: id_char_def)
  also have "\<dots> = ((r @ [d]) @ s, lx_advance (length s) (lx_advance 1 lx))"
    by (rule Cons.IH) (use n Cons.prems in simp_all)
  finally show ?case by simp
qed

lemma skip_white_spaces:
  assumes "lx_rest lx = replicate n CHR '' '' @ rest" "rest = [] \<or> hd rest \<noteq> CHR '' '' \<and> hd rest \<noteq> CHR 0x0A"
  shows "skip_white lx = lx_advance n lx"
  using assms
proof (induction n arbitrary: lx)
  case 0
  show ?case
  proof (cases rest)
    case Nil
    then show ?thesis using 0 by (subst skip_white.simps) simp
  next
    case (Cons c cs)
    then show ?thesis using lx_rest_Cons[of lx c cs] 0 by (subst skip_white.simps) simp
  qed
next
  case (Suc n)
  note r = lx_rest_Cons[of lx "CHR '' ''" "replicate n CHR '' '' @ rest"]
  have "skip_white lx = skip_white (lx_advance 1 lx)" using r Suc.prems by (subst skip_white.simps) simp
  also have "\<dots> = lx_advance n (lx_advance 1 lx)" by (rule Suc.IH) (use r Suc.prems in simp_all)
  finally show ?case by simp
qed

text \<open>Looking for a reserved word: it succeeds if the input has it, and fails where a character differs.\<close>

lemma contains_loop_prefix:
  assumes "lx_rest lx = s" "length p = i" "s = p @ w @ rest"
  shows "contains_loop w i lx = Ok True"
  using assms
proof (induction w arbitrary: p i)
  case (Cons k w)
  have "lx_pos lx + i < length (lx_input lx) \<and> lx_input lx ! (lx_pos lx + i) = k"
    using lx_rest_nth[OF Cons.prems(1), of i] Cons.prems(2,3) by auto
  then show ?case using Cons.IH[of "p @ [k]" "i + 1"] Cons.prems by simp
qed simp

lemma contains_loop_differs:
  assumes "lx_rest lx = p @ s @ CHR '' '' # rest" "length p = i" "CHR '' '' \<notin> set w" "\<not> prefix w s"
  shows "contains_loop w i lx = Ok False"
  using assms
proof (induction w arbitrary: p i s)
  case (Cons k w)
  show ?case
  proof (cases s)
    case Nil
    have "lx_pos lx + i < length (lx_input lx) \<and> lx_input lx ! (lx_pos lx + i) = CHR '' ''"
      using lx_rest_nth[OF Cons.prems(1), of i] Cons.prems(2) Nil by auto
    then show ?thesis using Cons.prems(3) by auto
  next
    case (Cons c s')
    have "lx_pos lx + i < length (lx_input lx) \<and> lx_input lx ! (lx_pos lx + i) = c"
      using lx_rest_nth[OF Cons.prems(1), of i] Cons.prems(2) Cons by auto
    then show ?thesis using Cons.IH[of "p @ [c]" s' "i + 1"] Cons.prems Cons by auto
  qed
qed simp

fun token_text :: "js_token \<Rightarrow> string" where
  "token_text (TIdentifier s) = s"
| "token_text (TKeyword s) = s"
| "token_text (TPunctuator c) = [c]"
| "token_text (TStringLiteral s) = CHR 0x22 # s @ [CHR 0x22]"
| "token_text (TNumber n) = decimal (unat n)"

definition id_ok :: "string \<Rightarrow> bool" where
  "id_ok s \<longleftrightarrow> s \<noteq> [] \<and> (is_ascii_alphabetic (hd s) \<or> hd s = CHR ''$'') \<and> (\<forall>c\<in>set s. id_char c) \<and>
     (\<forall>w\<in>set RESERVED_WORDS. \<not> prefix w s)"

fun token_ok :: "js_token \<Rightarrow> bool" where
  "token_ok (TIdentifier s) \<longleftrightarrow> id_ok s"
| "token_ok (TKeyword s) \<longleftrightarrow> s \<in> set RESERVED_WORDS"
| "token_ok (TPunctuator c) \<longleftrightarrow> c \<in> set punctuators"
| "token_ok (TStringLiteral s) \<longleftrightarrow> CHR 0x22 \<notin> set s"
| "token_ok (TNumber n) \<longleftrightarrow> True"

lemma decimal_char: "n < 10 \<Longrightarrow> of_char (char_of (48 + n) :: char) = 48 + n" for n :: nat
  by (simp add: of_char_of)

lemma decimal_digits: "c \<in> set (decimal n) \<Longrightarrow> is_ascii_digit c"
proof (induction n rule: decimal.induct)
  case (1 n)
  then show ?case
    by (subst (asm) decimal.simps) (auto split: if_splits simp: is_ascii_digit_def char_in_def decimal_char)
qed

lemma decimal_not_Nil [simp]: "decimal n \<noteq> []"
  by (subst decimal.simps) simp

lemma digits_value_decimal: "digits_value 0 (decimal n) = of_nat n"
proof (induction n rule: decimal.induct)
  case (1 n)
  show ?case
  proof (cases "n < 10")
    case True
    then show ?thesis by (subst decimal.simps) (simp add: digits_value_def to_digit_def decimal_char)
  next
    case False
    have "(of_nat n :: u64) = of_nat (n div 10) * 10 + of_nat (n mod 10)"
      by (metis div_mult_mod_eq of_nat_add of_nat_mult of_nat_numeral)
    then show ?thesis using 1[OF False] False
      by (subst decimal.simps) (simp add: digits_value_def to_digit_def decimal_char)
  qed
qed

lemma reserved_words: "w \<in> set RESERVED_WORDS \<Longrightarrow> w \<noteq> [] \<and> hd w \<in> set ''vfr'' \<and> CHR '' '' \<notin> set w"
  by (auto simp: RESERVED_WORDS_def)

lemma not_prefix_hd: "hd s \<notin> set ''vfr'' \<Longrightarrow> s \<noteq> [] \<Longrightarrow> w \<in> set RESERVED_WORDS \<Longrightarrow> \<not> prefix w s"
  using reserved_words[of w] by (cases w; cases s) auto

lemma check_reserved_none:
  assumes "lx_rest lx = s @ CHR '' '' # rest" "\<forall>w\<in>set RESERVED_WORDS. \<not> prefix w s"
  shows "check_reserved_word lx = Ok None"
proof -
  have "reserved_loop ws lx = Ok None" if "set ws \<subseteq> set RESERVED_WORDS" for ws
    using that
  proof (induction ws)
    case (Cons w ws)
    have "lx_contains w lx = Ok False" unfolding lx_contains_def
      by (rule contains_loop_differs[of lx "[]" s rest]) (use assms Cons.prems reserved_words[of w] in auto)
    then show ?case using Cons by simp
  qed simp
  then show ?thesis by (simp add: check_reserved_word_def)
qed

lemma check_reserved_some:
  assumes "lx_rest lx = w @ CHR '' '' # rest" "w \<in> set RESERVED_WORDS"
  shows "check_reserved_word lx = Ok (Some w)"
proof -
  have c: "lx_contains w lx = Ok True" unfolding lx_contains_def
    by (rule contains_loop_prefix[OF assms(1), of "[]"]) simp_all
  have d: "lx_contains v lx = Ok False" if "v \<in> set RESERVED_WORDS" "v \<noteq> w" for v unfolding lx_contains_def
    by (rule contains_loop_differs[of lx "[]" w rest]) (use assms that in \<open>auto simp: RESERVED_WORDS_def\<close>)
  show ?thesis using assms(2) c d[of "''var''"] d[of "''function''"] d[of "''return''"]
    by (auto simp: check_reserved_word_def RESERVED_WORDS_def)
qed

text \<open>A token followed by a space is read back.\<close>

lemma next_token:
  assumes "lx_rest lx = replicate n CHR '' '' @ token_text t @ CHR '' '' # rest" "token_ok t"
  shows "\<exists>lx'. get_next_token lx = Ok (Some t, lx') \<and> lx_rest lx' = CHR '' '' # rest"
proof -
  let ?lx = "lx_advance n lx"
  have r: "lx_rest ?lx = token_text t @ CHR '' '' # rest"
    using lx_rest_append[of lx "replicate n CHR '' ''"] assms(1) by simp
  have h: "token_text t \<noteq> [] \<and> hd (token_text t) \<noteq> CHR '' '' \<and> hd (token_text t) \<noteq> CHR 0x0A"
  proof (cases t)
    case (TIdentifier s)
    then show ?thesis using assms(2)
      by (auto simp: id_ok_def is_ascii_alphabetic_def char_in_def)
  next
    case (TNumber k)
    have "is_ascii_digit (hd (decimal (unat k)))" using decimal_digits decimal_not_Nil hd_in_set by blast
    then show ?thesis using TNumber by (auto simp: is_ascii_digit_def char_in_def)
  qed (use assms(2) in \<open>auto simp: punctuators_def RESERVED_WORDS_def\<close>)
  have w: "skip_white lx = ?lx" by (rule skip_white_spaces[OF assms(1)]) (use h in \<open>simp add: hd_append\<close>)
  obtain c cs where c: "token_text t = c # cs" using h by (cases "token_text t") auto
  have p: "lx_pos ?lx < length (lx_input ?lx)" "lx_char ?lx = c"
    using lx_rest_Cons[of ?lx c "cs @ CHR '' '' # rest"] r c by simp_all
  have d: "lx_rest (lx_advance (length (token_text t)) ?lx) = CHR '' '' # rest" by (rule lx_rest_append[OF r])
  show ?thesis
  proof (cases t)
    case (TKeyword s)
    then have "check_reserved_word ?lx = Ok (Some s)" using check_reserved_some[of ?lx s rest] r assms(2) by simp
    then show ?thesis using TKeyword w p d by (simp add: get_next_token_def Let_def)
  next
    case (TPunctuator q)
    have "check_reserved_word ?lx = Ok None"
      by (rule check_reserved_none[OF r]) (use TPunctuator assms(2) not_prefix_hd[of "[q]"] in \<open>auto simp: punctuators_def\<close>)
    then show ?thesis using TPunctuator w p d c assms(2) by (simp add: get_next_token_def Let_def)
  next
    case (TStringLiteral s)
    have n: "check_reserved_word ?lx = Ok None"
      by (rule check_reserved_none[OF r]) (use TStringLiteral not_prefix_hd[of "token_text t"] in auto)
    have "consume_string ?lx = (s, lx_advance (length s + 1) (lx_advance 1 ?lx))" unfolding consume_string_def
      by (subst consume_string_loop_quote[where s = s and rest = "CHR '' '' # rest"])
        (use lx_rest_Cons(3)[of ?lx "CHR 0x22"] r TStringLiteral assms(2) in simp_all)
    moreover have "c = CHR 0x22" using TStringLiteral c by simp
    ultimately show ?thesis using TStringLiteral w p d n by (simp add: get_next_token_def Let_def punctuators_def)
  next
    case (TNumber k)
    have dg: "is_ascii_digit c" using decimal_digits[of c "unat k"] c TNumber by simp
    then have c': "c \<notin> set punctuators" "c \<noteq> CHR 0x22" "c \<notin> set ''vfr''"
      by (auto simp: is_ascii_digit_def char_in_def punctuators_def)
    have n: "check_reserved_word ?lx = Ok None"
      by (rule check_reserved_none[OF r]) (use c c' not_prefix_hd[of "token_text t"] in auto)
    have "consume_number ?lx = (k, lx_advance (length (token_text t)) ?lx)" unfolding consume_number_def
      by (subst consume_number_loop_digits[OF r])
        (use TNumber decimal_digits digits_value_decimal[of "unat k"] in \<open>auto simp: is_ascii_digit_def char_in_def\<close>)
    then show ?thesis using TNumber w p d n dg c' by (simp add: get_next_token_def Let_def)
  next
    case (TIdentifier s)
    have i: "id_ok s" "c = hd s" using assms(2) TIdentifier c by auto
    then have c': "c \<notin> set punctuators" "c \<noteq> CHR 0x22" "\<not> is_ascii_digit c" "is_ascii_alphabetic c \<or> c = CHR ''$''"
      by (auto simp: id_ok_def is_ascii_digit_def is_ascii_alphabetic_def char_in_def punctuators_def)
    have n: "check_reserved_word ?lx = Ok None"
      by (rule check_reserved_none[OF r]) (use i TIdentifier in \<open>auto simp: id_ok_def\<close>)
    have "consume_identifier ?lx = (s, lx_advance (length (token_text t)) ?lx)" unfolding consume_identifier_def
      by (subst consume_identifier_loop_id[OF r])
        (use TIdentifier i in \<open>auto simp: id_ok_def id_char_def is_ascii_alphanumeric_def is_ascii_alphabetic_def is_ascii_digit_def char_in_def\<close>)
    then show ?thesis using TIdentifier w p d n c' by (auto simp: get_next_token_def Let_def)
  qed
qed

text \<open>A lexer which gives the tokens \<open>ts\<close>, and then the end of the input.\<close>

fun lexes :: "js_lexer \<Rightarrow> js_token list \<Rightarrow> bool" where
  "lexes lx [] \<longleftrightarrow> (\<exists>lx'. get_next_token lx = Ok (None, lx'))"
| "lexes lx (t # ts) \<longleftrightarrow> (\<exists>lx'. get_next_token lx = Ok (Some t, lx') \<and> lexes lx' ts)"

definition tokens_text :: "js_token list \<Rightarrow> string" where
  "tokens_text ts = concat (map (\<lambda>t. token_text t @ '' '') ts)"

lemma lexes_text:
  assumes "lx_rest lx = replicate n CHR '' '' @ tokens_text ts" "\<forall>t\<in>set ts. token_ok t"
  shows "lexes lx ts"
  using assms
proof (induction ts arbitrary: n lx)
  case Nil
  then have "skip_white lx = lx_advance n lx" by (intro skip_white_spaces[of _ _ "[]"]) (simp_all add: tokens_text_def)
  moreover have "lx_rest (lx_advance n lx) = []" using lx_rest_append[of lx "replicate n CHR '' ''" "[]"] Nil by (simp add: tokens_text_def)
  ultimately show ?case by (simp add: get_next_token_def Let_def)
next
  case (Cons t ts)
  obtain lx' where l: "get_next_token lx = Ok (Some t, lx')" "lx_rest lx' = CHR '' '' # tokens_text ts"
    using next_token[of lx n t "tokens_text ts"] Cons.prems by (auto simp: tokens_text_def)
  then show ?case using Cons.IH[of lx' 1] Cons.prems(2) by auto
qed

end
