(* ===== verification/Saji_Parser.thy ===== *)
theory Saji_Parser
  imports Saji_Lexer
begin

text \<open>
The parser of the JavaScript interpreter (\<open>app/saji/src/ast.rs\<close>), a reference syntax with its texts, and
  the round trip between them.
\<close>

section \<open>Syntax trees\<close>

datatype js_node =
    ExpressionStatement "js_node option"
  | BlockStatement "js_node option list"
  | ReturnStatement "js_node option"
  | FunctionDeclaration "js_node option" "js_node option list" "js_node option"
  | VariableDeclaration "js_node option list"
  | VariableDeclarator "js_node option" "js_node option"
  | BinaryExpression char "js_node option" "js_node option"
  | CallExpression "js_node option" "js_node option list"
  | NIdentifier string
  | NNumericLiteral u64
  | NStringLiteral string

section \<open>The parser\<close>

text \<open>
  The functions call each other, and some loops never end: they take the number of nested calls and
  rounds which they may make, and give \<open>Diverges\<close> when it is used up.  The messages of
  \<open>unimplemented\<close> are left out.
\<close>

abbreviation unimplemented :: "'a res" where
  "unimplemented \<equiv> Fail (Panic ''not implemented'')"

text \<open>\<open>assert!(self.t.next().is_some())\<close>\<close>

definition consume_token :: "js_lexer \<Rightarrow> js_lexer res" where
  "consume_token lx = bind_res (get_next_token lx) (\<lambda>(t, lx). case t of None \<Rightarrow> Fail Assert_Failed | Some _ \<Rightarrow> Ok lx)"

text \<open>The opening bracket \<open>b\<close> of arguments, parameters and function bodies.\<close>

definition consume_open :: "char \<Rightarrow> js_lexer \<Rightarrow> js_lexer res" where
  "consume_open b lx = bind_res (get_next_token lx) (\<lambda>(t, lx). case t of
     Some (TPunctuator c) \<Rightarrow> if c = b then Ok lx else Fail Assert_Failed
   | _ \<Rightarrow> unimplemented)"

fun left_hand_side_expression :: "nat \<Rightarrow> js_lexer \<Rightarrow> (js_node option \<times> js_lexer) res"
  and expression :: "nat \<Rightarrow> js_lexer \<Rightarrow> (js_node option \<times> js_lexer) res"
  and arguments :: "nat \<Rightarrow> js_lexer \<Rightarrow> (js_node option list \<times> js_lexer) res"
  and arguments_loop :: "nat \<Rightarrow> js_node option list \<Rightarrow> js_lexer \<Rightarrow> (js_node option list \<times> js_lexer) res" where
  "left_hand_side_expression 0 lx = Fail Diverges"
| "left_hand_side_expression (Suc n) lx =
     bind_res (get_next_token lx) (\<lambda>(t, lx). case t of
       None \<Rightarrow> Ok (None, lx)
     | Some (TNumber value) \<Rightarrow> Ok (Some (NNumericLiteral value), lx)
     | Some (TStringLiteral value) \<Rightarrow> Ok (Some (NStringLiteral value), lx)
     | Some (TIdentifier value) \<Rightarrow>
         bind_res (lx_peek lx) (\<lambda>t. case t of
           None \<Rightarrow> Ok (None, lx)
         | Some t \<Rightarrow>
             if t = TPunctuator CHR ''('' then
               bind_res (arguments n lx) (\<lambda>(args, lx). Ok (Some (CallExpression (Some (NIdentifier value)) args), lx))
             else Ok (Some (NIdentifier value), lx))
     | Some _ \<Rightarrow> unimplemented)"
| "expression 0 lx = Fail Diverges"
| "expression (Suc n) lx =
     bind_res (left_hand_side_expression n lx) (\<lambda>(left, lx).
     bind_res (lx_peek lx) (\<lambda>t. case t of
       None \<Rightarrow> Ok (None, lx)
     | Some (TPunctuator c) \<Rightarrow>
         if c = CHR ''+'' \<or> c = CHR ''-'' then
           bind_res (consume_token lx) (\<lambda>lx.
           bind_res (left_hand_side_expression n lx) (\<lambda>(right, lx). Ok (Some (BinaryExpression c left right), lx)))
         else if c = CHR '';'' then bind_res (consume_token lx) (\<lambda>lx. Ok (left, lx))
         else if c = CHR '','' \<or> c = CHR '')'' then Ok (left, lx)
         else unimplemented
     | Some _ \<Rightarrow> Ok (None, lx)))"
| "arguments 0 lx = Fail Diverges"
| "arguments (Suc n) lx = bind_res (consume_open CHR ''('' lx) (arguments_loop n [])"
| "arguments_loop 0 args lx = Fail Diverges"
| "arguments_loop (Suc n) args lx =
     bind_res (lx_peek lx) (\<lambda>t. case t of
       None \<Rightarrow> Ok (args, lx)
     | Some (TPunctuator c) \<Rightarrow>
         if c = CHR '')'' then bind_res (consume_token lx) (\<lambda>lx. Ok (args, lx))
         else if c = CHR '','' then bind_res (consume_token lx) (arguments_loop n args)
         else arguments_loop n args lx
     | Some _ \<Rightarrow> bind_res (expression n lx) (\<lambda>(e, lx). arguments_loop n (args @ [e]) lx))"

definition js_identifier :: "js_lexer \<Rightarrow> (js_node option \<times> js_lexer) res" where
  "js_identifier lx = bind_res (get_next_token lx) (\<lambda>(t, lx). case t of
     Some (TIdentifier name) \<Rightarrow> Ok (Some (NIdentifier name), lx)
   | _ \<Rightarrow> Ok (None, lx))"

definition initialiser :: "nat \<Rightarrow> js_lexer \<Rightarrow> (js_node option \<times> js_lexer) res" where
  "initialiser n lx = bind_res (get_next_token lx) (\<lambda>(t, lx).
     if t = Some (TPunctuator CHR ''='') then expression n lx else Ok (None, lx))"

definition variable_declaration :: "nat \<Rightarrow> js_lexer \<Rightarrow> (js_node option \<times> js_lexer) res" where
  "variable_declaration n lx =
     bind_res (js_identifier lx) (\<lambda>(ident, lx).
     bind_res (initialiser n lx) (\<lambda>(init, lx).
     Ok (Some (VariableDeclaration [Some (VariableDeclarator ident init)]), lx)))"

definition statement :: "nat \<Rightarrow> js_lexer \<Rightarrow> (js_node option \<times> js_lexer) res" where
  "statement n lx = bind_res (lx_peek lx) (\<lambda>t. case t of
     None \<Rightarrow> Ok (None, lx)
   | Some t \<Rightarrow>
       bind_res (case t of
           TKeyword keyword \<Rightarrow>
             if keyword = ''var'' then bind_res (consume_token lx) (variable_declaration n)
             else if keyword = ''return'' then
               bind_res (consume_token lx) (\<lambda>lx.
               bind_res (expression n lx) (\<lambda>(e, lx). Ok (Some (ReturnStatement e), lx)))
             else Ok (None, lx)
         | _ \<Rightarrow> bind_res (expression n lx) (\<lambda>(e, lx). Ok (Some (ExpressionStatement e), lx)))
       (\<lambda>(node, lx).
       bind_res (lx_peek lx) (\<lambda>t.
         if t = Some (TPunctuator CHR '';'') then bind_res (consume_token lx) (\<lambda>lx. Ok (node, lx))
         else Ok (node, lx))))"

fun parameter_loop :: "nat \<Rightarrow> js_node option list \<Rightarrow> js_lexer \<Rightarrow> (js_node option list \<times> js_lexer) res" where
  "parameter_loop 0 params lx = Fail Diverges"
| "parameter_loop (Suc n) params lx =
     bind_res (lx_peek lx) (\<lambda>t. case t of
       None \<Rightarrow> Ok (params, lx)
     | Some (TPunctuator c) \<Rightarrow>
         if c = CHR '')'' then bind_res (consume_token lx) (\<lambda>lx. Ok (params, lx))
         else if c = CHR '','' then bind_res (consume_token lx) (parameter_loop n params)
         else parameter_loop n params lx
     | Some _ \<Rightarrow> bind_res (js_identifier lx) (\<lambda>(i, lx). parameter_loop n (params @ [i]) lx))"

definition parameter_list :: "nat \<Rightarrow> js_lexer \<Rightarrow> (js_node option list \<times> js_lexer) res" where
  "parameter_list n lx = bind_res (consume_open CHR ''('' lx) (parameter_loop n [])"

fun function_body :: "nat \<Rightarrow> js_lexer \<Rightarrow> (js_node option \<times> js_lexer) res"
  and body_loop :: "nat \<Rightarrow> js_node option list \<Rightarrow> js_lexer \<Rightarrow> (js_node option \<times> js_lexer) res"
  and function_declaration :: "nat \<Rightarrow> js_lexer \<Rightarrow> (js_node option \<times> js_lexer) res"
  and source_element :: "nat \<Rightarrow> js_lexer \<Rightarrow> (js_node option \<times> js_lexer) res" where
  "function_body 0 lx = Fail Diverges"
| "function_body (Suc n) lx = bind_res (consume_open CHR ''{'' lx) (body_loop n [])"
| "body_loop 0 body lx = Fail Diverges"
| "body_loop (Suc n) body lx =
     bind_res (lx_peek lx) (\<lambda>t.
       if t = Some (TPunctuator CHR ''}'') then bind_res (consume_token lx) (\<lambda>lx. Ok (Some (BlockStatement body), lx))
       else bind_res (source_element n lx) (\<lambda>(e, lx). body_loop n (body @ [e]) lx))"
| "function_declaration 0 lx = Fail Diverges"
| "function_declaration (Suc n) lx =
     bind_res (js_identifier lx) (\<lambda>(i, lx).
     bind_res (parameter_list n lx) (\<lambda>(params, lx).
     bind_res (function_body n lx) (\<lambda>(body, lx). Ok (Some (FunctionDeclaration i params body), lx))))"
| "source_element 0 lx = Fail Diverges"
| "source_element (Suc n) lx =
     bind_res (lx_peek lx) (\<lambda>t. case t of
       None \<Rightarrow> Ok (None, lx)
     | Some t \<Rightarrow>
         if t = TKeyword ''function'' then bind_res (consume_token lx) (function_declaration n)
         else statement n lx)"

fun parse_loop :: "nat \<Rightarrow> js_node list \<Rightarrow> js_lexer \<Rightarrow> (js_node list \<times> js_lexer) res" where
  "parse_loop 0 body lx = Fail Diverges"
| "parse_loop (Suc n) body lx =
     bind_res (source_element n lx) (\<lambda>(node, lx). case node of
       Some e \<Rightarrow> parse_loop n (body @ [e]) lx
     | None \<Rightarrow> Ok (body, lx))"

definition parse_ast :: "nat \<Rightarrow> js_lexer \<Rightarrow> (js_node list \<times> js_lexer) res" where
  "parse_ast n lx = parse_loop n [] lx"

declare left_hand_side_expression.simps [simp del] expression.simps [simp del] arguments.simps [simp del] arguments_loop.simps [simp del]
  parameter_loop.simps [simp del] function_body.simps [simp del] body_loop.simps [simp del] function_declaration.simps [simp del]
  source_element.simps [simp del] parse_loop.simps [simp del]

section \<open>Programs and their texts\<close>

datatype js_operand = ONum u64 | OStr string | OVar string | OCall string "js_expr list"
  and js_expr = EOp js_operand | EBin char js_operand js_operand

datatype js_stmt = SVar string js_expr | SReturn js_expr | SExpr js_expr | SFun string "string list" "js_stmt list"

abbreviation Pu :: "char \<Rightarrow> js_token" where "Pu \<equiv> TPunctuator"

fun operand_tokens :: "js_operand \<Rightarrow> js_token list" and expr_tokens :: "js_expr \<Rightarrow> js_token list"
  and args_tokens :: "js_expr list \<Rightarrow> js_token list" where
  "operand_tokens (ONum n) = [TNumber n]"
| "operand_tokens (OStr s) = [TStringLiteral s]"
| "operand_tokens (OVar x) = [TIdentifier x]"
| "operand_tokens (OCall f es) = TIdentifier f # Pu CHR ''('' # args_tokens es @ [Pu CHR '')'']"
| "expr_tokens (EOp a) = operand_tokens a"
| "expr_tokens (EBin c a b) = operand_tokens a @ Pu c # operand_tokens b"
| "args_tokens [] = []"
| "args_tokens (e # es) = expr_tokens e @ (if es = [] then [] else Pu CHR '','' # args_tokens es)"

fun operand_node :: "js_operand \<Rightarrow> js_node" and expr_node :: "js_expr \<Rightarrow> js_node" where
  "operand_node (ONum n) = NNumericLiteral n"
| "operand_node (OStr s) = NStringLiteral s"
| "operand_node (OVar x) = NIdentifier x"
| "operand_node (OCall f es) = CallExpression (Some (NIdentifier f)) (map (\<lambda>e. Some (expr_node e)) es)"
| "expr_node (EOp a) = operand_node a"
| "expr_node (EBin c a b) = BinaryExpression c (Some (operand_node a)) (Some (operand_node b))"

fun operand_ok :: "js_operand \<Rightarrow> bool" and expr_ok :: "js_expr \<Rightarrow> bool" where
  "operand_ok (ONum n) \<longleftrightarrow> True"
| "operand_ok (OStr s) \<longleftrightarrow> CHR 0x22 \<notin> set s"
| "operand_ok (OVar x) \<longleftrightarrow> id_ok x"
| "operand_ok (OCall f es) \<longleftrightarrow> id_ok f \<and> list_all expr_ok es"
| "expr_ok (EOp a) \<longleftrightarrow> operand_ok a"
| "expr_ok (EBin c a b) \<longleftrightarrow> c \<in> {CHR ''+'', CHR ''-''} \<and> operand_ok a \<and> operand_ok b"

fun params_tokens :: "string list \<Rightarrow> js_token list" where
  "params_tokens [] = []"
| "params_tokens (x # xs) = TIdentifier x # (if xs = [] then [] else Pu CHR '','' # params_tokens xs)"

fun stmt_tokens :: "js_stmt \<Rightarrow> js_token list" where
  "stmt_tokens (SVar x e) = [TKeyword ''var'', TIdentifier x, Pu CHR ''=''] @ expr_tokens e @ [Pu CHR '';'']"
| "stmt_tokens (SReturn e) = TKeyword ''return'' # expr_tokens e @ [Pu CHR '';'']"
| "stmt_tokens (SExpr e) = expr_tokens e @ [Pu CHR '';'']"
| "stmt_tokens (SFun f xs body) = [TKeyword ''function'', TIdentifier f, Pu CHR ''('' ] @ params_tokens xs @ [Pu CHR '')'', Pu CHR ''{''] @
     concat (map stmt_tokens body) @ [Pu CHR ''}'']"

fun stmt_node :: "js_stmt \<Rightarrow> js_node" where
  "stmt_node (SVar x e) = VariableDeclaration [Some (VariableDeclarator (Some (NIdentifier x)) (Some (expr_node e)))]"
| "stmt_node (SReturn e) = ReturnStatement (Some (expr_node e))"
| "stmt_node (SExpr e) = ExpressionStatement (Some (expr_node e))"
| "stmt_node (SFun f xs body) = FunctionDeclaration (Some (NIdentifier f)) (map (\<lambda>x. Some (NIdentifier x)) xs)
     (Some (BlockStatement (map (\<lambda>s. Some (stmt_node s)) body)))"

fun stmt_ok :: "js_stmt \<Rightarrow> bool" where
  "stmt_ok (SVar x e) \<longleftrightarrow> id_ok x \<and> expr_ok e"
| "stmt_ok (SReturn e) \<longleftrightarrow> expr_ok e"
| "stmt_ok (SExpr e) \<longleftrightarrow> expr_ok e"
| "stmt_ok (SFun f xs body) \<longleftrightarrow> id_ok f \<and> list_all id_ok xs \<and> list_all stmt_ok body"

definition program_tokens :: "js_stmt list \<Rightarrow> js_token list" where
  "program_tokens p = concat (map stmt_tokens p)"

definition program_text :: "js_stmt list \<Rightarrow> string" where
  "program_text p = tokens_text (program_tokens p)"

section \<open>Parsing what was printed\<close>

lemma lexes_peek: "lexes lx (t # ts) \<Longrightarrow> lx_peek lx = Ok (Some t)"
  by (auto simp: lx_peek_def)

lemma lexes_peek_hd: "lexes lx ts \<Longrightarrow> ts \<noteq> [] \<Longrightarrow> lx_peek lx = Ok (Some (hd ts))"
  using lexes_peek by (cases ts) auto

lemma lexes_peek_end: "lexes lx [] \<Longrightarrow> lx_peek lx = Ok None"
  by (auto simp: lx_peek_def)

lemma lexes_consume: "lexes lx (t # ts) \<Longrightarrow> \<exists>lx'. consume_token lx = Ok lx' \<and> lexes lx' ts"
  by (auto simp: consume_token_def)

lemma lexes_open: "lexes lx (Pu c # ts) \<Longrightarrow> \<exists>lx'. consume_open c lx = Ok lx' \<and> lexes lx' ts"
  by (auto simp: consume_open_def)

lemma expr_first:
  "\<exists>t ts. operand_tokens a = t # ts \<and> (\<forall>c. t \<noteq> Pu c) \<and> (\<forall>w. t \<noteq> TKeyword w)"
  "\<exists>t ts. expr_tokens e = t # ts \<and> (\<forall>c. t \<noteq> Pu c) \<and> (\<forall>w. t \<noteq> TKeyword w)"
proof -
  show a: "\<exists>t ts. operand_tokens a = t # ts \<and> (\<forall>c. t \<noteq> Pu c) \<and> (\<forall>w. t \<noteq> TKeyword w)" for a by (cases a) auto
  show "\<exists>t ts. expr_tokens e = t # ts \<and> (\<forall>c. t \<noteq> Pu c) \<and> (\<forall>w. t \<noteq> TKeyword w)"
  proof (cases e)
    case (EOp b)
    then show ?thesis using a[of b] by simp
  next
    case (EBin c b d)
    obtain t ts where "operand_tokens b = t # ts" "\<forall>c. t \<noteq> Pu c" "\<forall>w. t \<noteq> TKeyword w" using a[of b] by blast
    then show ?thesis using EBin by simp
  qed
qed

lemma parse_expr:
  "\<lbrakk>operand_ok a; lexes lx (operand_tokens a @ t # rest); t \<noteq> Pu CHR ''(''; 3 * length (operand_tokens a) \<le> n\<rbrakk> \<Longrightarrow>
     \<exists>lx'. left_hand_side_expression n lx = Ok (Some (operand_node a), lx') \<and> lexes lx' (t # rest)"
  "\<lbrakk>expr_ok e; lexes lx (expr_tokens e @ Pu c # rest); c \<in> {CHR '';'', CHR '','', CHR '')''}; 3 * length (expr_tokens e) + 1 \<le> n\<rbrakk> \<Longrightarrow>
     \<exists>lx'. expression n lx = Ok (Some (expr_node e), lx') \<and> lexes lx' (if c = CHR '';'' \<and> (\<exists>a. e = EOp a) then rest else Pu c # rest)"
  "\<lbrakk>list_all expr_ok es; lexes lx (args_tokens es @ Pu CHR '')'' # rest); 3 * length (args_tokens es) + 2 \<le> n\<rbrakk> \<Longrightarrow>
     \<exists>lx'. arguments_loop n acc lx = Ok (acc @ map (\<lambda>e. Some (expr_node e)) es, lx') \<and> lexes lx' rest"
proof (induction a and e and es arbitrary: lx t rest n and lx c rest n and lx acc rest n
    rule: operand_tokens_expr_tokens_args_tokens.induct)
  case (1 k)
  then show ?case by (cases n) (auto simp: left_hand_side_expression.simps)
next
  case (2 s)
  then show ?case by (cases n) (auto simp: left_hand_side_expression.simps)
next
  case (3 x)
  then obtain lx1 where "get_next_token lx = Ok (Some (TIdentifier x), lx1)" "lexes lx1 (t # rest)" by auto
  then show ?case using 3 lexes_peek[of lx1] by (cases n) (auto simp: left_hand_side_expression.simps)
next
  case (4 f es)
  obtain m where n: "n = Suc (Suc m)" "3 * length (args_tokens es) + 2 \<le> m"
    using 4(5) by (cases n; cases "n - 1") auto
  obtain lx1 where l1: "get_next_token lx = Ok (Some (TIdentifier f), lx1)" "lexes lx1 (Pu CHR ''('' # args_tokens es @ Pu CHR '')'' # t # rest)"
    using 4(3) by auto
  obtain lx2 where l2: "consume_open CHR ''('' lx1 = Ok lx2" "lexes lx2 (args_tokens es @ Pu CHR '')'' # t # rest)"
    using lexes_open[OF l1(2)] by blast
  obtain lx3 where "arguments_loop m [] lx2 = Ok ([] @ map (\<lambda>e. Some (expr_node e)) es, lx3)" "lexes lx3 (t # rest)"
    using 4(1)[of lx2 "t # rest" m "[]"] 4(2) l2(2) n(2) by auto
  then show ?case using l1 l2 lexes_peek[OF l1(2)] n(1)
    by (simp add: left_hand_side_expression.simps arguments.simps)
next
  case (5 a)
  obtain m where n: "n = Suc m" "3 * length (operand_tokens a) \<le> m" using 5(5) by (cases n) auto
  obtain lx1 where l1: "left_hand_side_expression m lx = Ok (Some (operand_node a), lx1)" "lexes lx1 (Pu c # rest)"
    using 5(1)[of lx "Pu c" rest m] 5(2-4) n(2) by auto
  show ?case
  proof (cases "c = CHR '';''")
    case True
    then show ?thesis using n(1) l1 lexes_peek[OF l1(2)] lexes_consume[OF l1(2)] by (auto simp: expression.simps)
  next
    case False
    then show ?thesis using 5(4) n(1) l1 lexes_peek[OF l1(2)] by (auto simp: expression.simps)
  qed
next
  case (6 o' a b)
  obtain m where n: "n = Suc m" "3 * length (operand_tokens a) \<le> m" "3 * length (operand_tokens b) \<le> m" using 6(6) by (cases n) auto
  have o': "o' = CHR ''+'' \<or> o' = CHR ''-''" using 6(3) by simp
  obtain lx1 where l1: "left_hand_side_expression m lx = Ok (Some (operand_node a), lx1)" "lexes lx1 (Pu o' # operand_tokens b @ Pu c # rest)"
    using 6(1)[of lx "Pu o'" "operand_tokens b @ Pu c # rest" m] 6(3,4) n(2) o' by auto
  obtain lx2 where l2: "consume_token lx1 = Ok lx2" "lexes lx2 (operand_tokens b @ Pu c # rest)" using lexes_consume[OF l1(2)] by blast
  obtain lx3 where l3: "left_hand_side_expression m lx2 = Ok (Some (operand_node b), lx3)" "lexes lx3 (Pu c # rest)"
    using 6(2)[of lx2 "Pu c" rest m] 6(3,5) l2(2) n(3) by auto
  show ?case using n(1) l1 l2 l3 lexes_peek[OF l1(2)] o' by (simp add: expression.simps)
next
  case 7
  obtain m where n: "n = Suc m" using 7 by (cases n) auto
  have l: "lexes lx (Pu CHR '')'' # rest)" using 7 by simp
  then show ?case using n lexes_peek[OF l] lexes_consume[OF l] by (auto simp: arguments_loop.simps)
next
  case (8 e es)
  let ?c = "if es = [] then CHR '')'' else CHR '',''"
  let ?rest = "if es = [] then rest else args_tokens es @ Pu CHR '')'' # rest"
  have len: "length (args_tokens (e # es)) = length (expr_tokens e) + (if es = [] then 0 else 1 + length (args_tokens es))" by simp
  obtain m where n: "n = Suc m" "3 * length (expr_tokens e) + 1 \<le> m" using 8(5) len by (cases n) auto
  have l: "lexes lx (expr_tokens e @ Pu ?c # ?rest)" using 8(4) by (cases "es = []") simp_all
  obtain t ts where t: "expr_tokens e = t # ts" "\<forall>c. t \<noteq> Pu c" using expr_first(2) by blast
  have p: "lx_peek lx = Ok (Some t)" using lexes_peek[of lx t] l t(1) by simp
  obtain lx1 where l1: "expression m lx = Ok (Some (expr_node e), lx1)" "lexes lx1 (Pu ?c # ?rest)"
    using 8(1)[OF _ l _ n(2)] 8(3) by (cases "es = []") auto
  have s: "arguments_loop n acc lx = arguments_loop m (acc @ [Some (expr_node e)]) lx1"
    using n(1) p l1(1) t(2) by (cases t) (simp_all add: arguments_loop.simps(2)[of m])
  show ?case
  proof (cases "es = []")
    case True
    obtain k where k: "m = Suc k" using n(2) by (cases m) auto
    have l': "lexes lx1 (Pu CHR '')'' # rest)" using l1(2) True by simp
    then show ?thesis using s k True lexes_peek[OF l'] lexes_consume[OF l'] by (auto simp: arguments_loop.simps)
  next
    case False
    obtain k where k: "m = Suc k" "3 * length (args_tokens es) + 2 \<le> k" using n 8(5) len False by (cases m) auto
    have l': "lexes lx1 (Pu CHR '','' # args_tokens es @ Pu CHR '')'' # rest)" using l1(2) False by simp
    obtain lx2 where l2: "consume_token lx1 = Ok lx2" "lexes lx2 (args_tokens es @ Pu CHR '')'' # rest)" using lexes_consume[OF l'] by blast
    have "\<exists>lx'. arguments_loop k (acc @ [Some (expr_node e)]) lx2 = Ok ((acc @ [Some (expr_node e)]) @ map (\<lambda>e. Some (expr_node e)) es, lx') \<and> lexes lx' rest"
      by (rule 8(2)[OF False _ l2(2) k(2)]) (use 8(3) in simp)
    then show ?thesis using s k(1) l2(1) lexes_peek[OF l'] by (simp add: arguments_loop.simps(2)[of k])
  qed
qed

lemma statement_end:
  assumes "lexes lx (if c then rest else Pu CHR '';'' # rest)" "rest = [] \<or> hd rest \<noteq> Pu CHR '';''"
  shows "\<exists>lx'. bind_res (lx_peek lx) (\<lambda>t. if t = Some (Pu CHR '';'') then bind_res (consume_token lx) (\<lambda>lx. Ok (node, lx)) else Ok (node, lx)) =
    Ok (node, lx') \<and> lexes lx' rest"
proof (cases c)
  case True
  then show ?thesis using assms lexes_peek_end[of lx] lexes_peek[of lx "hd rest" "tl rest"] by (cases rest) auto
next
  case False
  then have l: "lexes lx (Pu CHR '';'' # rest)" using assms(1) by simp
  then show ?thesis using lexes_peek[OF l] lexes_consume[OF l] by auto
qed

definition starts_stmt :: "js_token list \<Rightarrow> bool" where
  "starts_stmt ts \<longleftrightarrow> ts = [] \<or> hd ts \<noteq> Pu CHR '';''"

lemma stmt_first: "\<exists>t ts. stmt_tokens s = t # ts \<and> (\<forall>c. t \<noteq> Pu c)"
proof (cases s)
  case (SExpr e)
  then show ?thesis using expr_first(2)[of e] by auto
qed auto

lemma parse_stmt:
  assumes "stmt_ok s" "lexes lx (stmt_tokens s @ rest)" "3 * length (stmt_tokens s) \<le> n" "starts_stmt rest" "\<forall>f xs b. s \<noteq> SFun f xs b"
  shows "\<exists>lx'. statement n lx = Ok (Some (stmt_node s), lx') \<and> lexes lx' rest"
proof -
  have e: "\<exists>lx'. expression n lx = Ok (Some (expr_node e), lx') \<and> lexes lx' (if \<exists>a. e = EOp a then rest else Pu CHR '';'' # rest)"
    if "expr_ok e" "lexes lx (expr_tokens e @ Pu CHR '';'' # rest)" "3 * length (expr_tokens e) + 1 \<le> n" for lx e
    using parse_expr(2)[OF that(1,2) _ that(3)] by simp
  have r: "rest = [] \<or> hd rest \<noteq> Pu CHR '';''" using assms(4) by (simp add: starts_stmt_def)
  show ?thesis
  proof (cases s)
    case (SVar x e')
    have l: "lexes lx (TKeyword ''var'' # TIdentifier x # Pu CHR ''='' # expr_tokens e' @ Pu CHR '';'' # rest)" using assms(2) SVar by simp
    obtain lx1 where l1: "consume_token lx = Ok lx1" "lexes lx1 (TIdentifier x # Pu CHR ''='' # expr_tokens e' @ Pu CHR '';'' # rest)"
      using lexes_consume[OF l] by blast
    obtain lx2 lx3 where l2: "get_next_token lx1 = Ok (Some (TIdentifier x), lx2)" "get_next_token lx2 = Ok (Some (Pu CHR ''=''), lx3)"
      "lexes lx3 (expr_tokens e' @ Pu CHR '';'' # rest)" using l1(2) by auto
    obtain lx4 where l4: "expression n lx3 = Ok (Some (expr_node e'), lx4)" "lexes lx4 (if \<exists>a. e' = EOp a then rest else Pu CHR '';'' # rest)"
      using e[OF _ l2(3)] assms(1,3) SVar by auto
    have v: "variable_declaration n lx1 = Ok (Some (stmt_node s), lx4)"
      using l2(1,2) l4(1) SVar by (simp add: variable_declaration_def js_identifier_def initialiser_def)
    show ?thesis using lexes_peek[OF l] l1(1) v statement_end[OF l4(2) r] by (simp add: statement_def)
  next
    case (SReturn e')
    have l: "lexes lx (TKeyword ''return'' # expr_tokens e' @ Pu CHR '';'' # rest)" using assms(2) SReturn by simp
    obtain lx1 where l1: "consume_token lx = Ok lx1" "lexes lx1 (expr_tokens e' @ Pu CHR '';'' # rest)" using lexes_consume[OF l] by blast
    obtain lx4 where l4: "expression n lx1 = Ok (Some (expr_node e'), lx4)" "lexes lx4 (if \<exists>a. e' = EOp a then rest else Pu CHR '';'' # rest)"
      using e[OF _ l1(2)] assms(1,3) SReturn by auto
    show ?thesis using lexes_peek[OF l] l1(1) l4(1) SReturn statement_end[OF l4(2) r] by (simp add: statement_def)
  next
    case (SExpr e')
    have l: "lexes lx (expr_tokens e' @ Pu CHR '';'' # rest)" using assms(2) SExpr by simp
    obtain t ts where t: "expr_tokens e' = t # ts" "\<forall>c. t \<noteq> Pu c" "\<forall>w. t \<noteq> TKeyword w" using expr_first(2) by blast
    have p: "lx_peek lx = Ok (Some t)" using lexes_peek[of lx t] l t(1) by simp
    obtain lx4 where l4: "expression n lx = Ok (Some (expr_node e'), lx4)" "lexes lx4 (if \<exists>a. e' = EOp a then rest else Pu CHR '';'' # rest)"
      using e[OF _ l] assms(1,3) SExpr by auto
    show ?thesis using p l4(1) SExpr t(2,3) statement_end[OF l4(2) r] by (cases t) (simp_all add: statement_def)
  qed (use assms(5) in blast)
qed

lemma parse_params:
  "\<lbrakk>lexes lx (params_tokens xs @ Pu CHR '')'' # rest); 3 * length (params_tokens xs) + 2 \<le> n\<rbrakk> \<Longrightarrow>
     \<exists>lx'. parameter_loop n acc lx = Ok (acc @ map (\<lambda>x. Some (NIdentifier x)) xs, lx') \<and> lexes lx' rest"
proof (induction xs arbitrary: lx acc n rule: params_tokens.induct)
  case 1
  obtain m where n: "n = Suc m" using 1 by (cases n) auto
  have l: "lexes lx (Pu CHR '')'' # rest)" using 1 by simp
  then show ?case using n lexes_peek[OF l] lexes_consume[OF l] by (auto simp: parameter_loop.simps)
next
  case (2 x xs)
  obtain m where n: "n = Suc (Suc m)" using 2(3) by (cases n; cases "n - 1") auto
  obtain lx1 where g: "get_next_token lx = Ok (Some (TIdentifier x), lx1)" and p: "lx_peek lx = Ok (Some (TIdentifier x))"
    and l1: "lexes lx1 ((if xs = [] then [] else Pu CHR '','' # params_tokens xs) @ Pu CHR '')'' # rest)"
    using 2(2) lexes_peek[of lx "TIdentifier x"] by auto
  have s: "parameter_loop n acc lx = parameter_loop (Suc m) (acc @ [Some (NIdentifier x)]) lx1"
    using n g p by (simp add: parameter_loop.simps(2)[of "Suc m"] js_identifier_def)
  show ?case
  proof (cases "xs = []")
    case True
    then have l': "lexes lx1 (Pu CHR '')'' # rest)" using l1 by simp
    then show ?thesis using s True lexes_peek[OF l'] lexes_consume[OF l'] by (auto simp: parameter_loop.simps)
  next
    case False
    then have l': "lexes lx1 (Pu CHR '','' # params_tokens xs @ Pu CHR '')'' # rest)" using l1 by simp
    obtain lx2 where l2: "consume_token lx1 = Ok lx2" "lexes lx2 (params_tokens xs @ Pu CHR '')'' # rest)" using lexes_consume[OF l'] by blast
    have "3 * length (params_tokens xs) + 2 \<le> m" using 2(3) n False by simp
    from 2(1)[OF False l2(2) this, of "acc @ [Some (NIdentifier x)]"] show ?thesis
      using s l2(1) lexes_peek[OF l'] by (simp add: parameter_loop.simps(2)[of m])
  qed
qed

lemma parse_source:
  "\<lbrakk>stmt_ok s; lexes lx (stmt_tokens s @ rest); 3 * length (stmt_tokens s) + 1 \<le> n; starts_stmt rest\<rbrakk> \<Longrightarrow>
     \<exists>lx'. source_element n lx = Ok (Some (stmt_node s), lx') \<and> lexes lx' rest"
proof (induction s arbitrary: lx rest n rule: stmt_tokens.induct)
  case (4 f xs body)
  have loop: "\<exists>lx'. body_loop n acc lx = Ok (Some (BlockStatement (acc @ map (\<lambda>s. Some (stmt_node s)) ss)), lx') \<and> lexes lx' rest"
    if "set ss \<subseteq> set body" "lexes lx (concat (map stmt_tokens ss) @ Pu CHR ''}'' # rest)" "3 * length (concat (map stmt_tokens ss)) + 2 \<le> n" for ss acc lx n
    using that
  proof (induction ss arbitrary: acc lx n)
    case Nil
    obtain m where n: "n = Suc m" using Nil(3) by (cases n) auto
    have l: "lexes lx (Pu CHR ''}'' # rest)" using Nil by simp
    then show ?case using n lexes_peek[OF l] lexes_consume[OF l] by (auto simp: body_loop.simps)
  next
    case (Cons s ss)
    obtain t ts where t: "stmt_tokens s = t # ts" "\<forall>c. t \<noteq> Pu c" using stmt_first by blast
    obtain m where n: "n = Suc m" "3 * length (stmt_tokens s) + 1 \<le> m" "3 * length (concat (map stmt_tokens ss)) + 2 \<le> m"
      using Cons.prems(3) t(1) by (cases n) auto
    let ?r = "concat (map stmt_tokens ss) @ Pu CHR ''}'' # rest"
    have st: "starts_stmt ?r"
    proof (cases ss)
      case (Cons s' ss')
      then show ?thesis using stmt_first[of s'] by (auto simp: starts_stmt_def)
    qed (simp add: starts_stmt_def)
    have s: "s \<in> set body" "stmt_ok s" using Cons.prems(1) 4(2) by (auto simp: list_all_iff)
    have p: "lx_peek lx = Ok (Some t)" using lexes_peek[of lx t] Cons.prems(2) t(1) by simp
    obtain lx1 where l1: "source_element m lx = Ok (Some (stmt_node s), lx1)" "lexes lx1 ?r"
      using 4(1)[OF s(1,2) _ n(2) st, of lx] Cons.prems(2) by auto
    then show ?case using Cons.IH[OF _ l1(2) n(3), of "acc @ [Some (stmt_node s)]"] Cons.prems(1) n(1) p t(2)
      by (simp add: body_loop.simps(2)[of m])
  qed
  obtain m where n: "n = Suc (Suc (Suc m))" "3 * length (params_tokens xs) + 2 \<le> Suc m" "3 * length (concat (map stmt_tokens body)) + 2 \<le> m"
    using 4(4) by (cases n; cases "n - 1"; cases "n - 2") auto
  have l: "lexes lx (TKeyword ''function'' # TIdentifier f # Pu CHR ''('' # params_tokens xs @ Pu CHR '')'' # Pu CHR ''{'' #
      concat (map stmt_tokens body) @ Pu CHR ''}'' # rest)" using 4(3) by simp
  obtain lx1 where l1: "consume_token lx = Ok lx1" "lexes lx1 (TIdentifier f # Pu CHR ''('' # params_tokens xs @ Pu CHR '')'' # Pu CHR ''{'' #
      concat (map stmt_tokens body) @ Pu CHR ''}'' # rest)" using lexes_consume[OF l] by blast
  obtain lx2 where l2: "js_identifier lx1 = Ok (Some (NIdentifier f), lx2)" "lexes lx2 (Pu CHR ''('' # params_tokens xs @ Pu CHR '')'' # Pu CHR ''{'' #
      concat (map stmt_tokens body) @ Pu CHR ''}'' # rest)" using l1(2) by (auto simp: js_identifier_def)
  obtain lx3 where l3: "consume_open CHR ''('' lx2 = Ok lx3" "lexes lx3 (params_tokens xs @ Pu CHR '')'' # Pu CHR ''{'' #
      concat (map stmt_tokens body) @ Pu CHR ''}'' # rest)" using lexes_open[OF l2(2)] by blast
  obtain lx4 where l4: "parameter_loop (Suc m) [] lx3 = Ok ([] @ map (\<lambda>x. Some (NIdentifier x)) xs, lx4)"
    "lexes lx4 (Pu CHR ''{'' # concat (map stmt_tokens body) @ Pu CHR ''}'' # rest)" using parse_params[OF l3(2) n(2), of "[]"] by blast
  obtain lx5 where l5: "consume_open CHR ''{'' lx4 = Ok lx5" "lexes lx5 (concat (map stmt_tokens body) @ Pu CHR ''}'' # rest)"
    using lexes_open[OF l4(2)] by blast
  obtain lx6 where l6: "body_loop m [] lx5 = Ok (Some (BlockStatement ([] @ map (\<lambda>s. Some (stmt_node s)) body)), lx6)" "lexes lx6 rest"
    using loop[OF _ l5(2) n(3), of "[]"] by auto
  have "function_declaration (Suc (Suc m)) lx1 = Ok (Some (stmt_node (SFun f xs body)), lx6)"
    using l2(1) l3(1) l4(1) l5(1) l6(1) by (simp add: function_declaration.simps parameter_list_def function_body.simps)
  then show ?case using n(1) lexes_peek[OF l] l1(1) l6(2) by (simp add: source_element.simps)
next
  case (1 x e)
  obtain m where n: "n = Suc m" "3 * length (stmt_tokens (SVar x e)) \<le> m" using 1(3) by (cases n) auto
  have p: "lx_peek lx = Ok (Some (TKeyword ''var''))" using lexes_peek_hd[OF 1(2)] by simp
  show ?case using parse_stmt[OF 1(1,2) n(2) 1(4)] n(1) p by (simp add: source_element.simps)
next
  case (2 e)
  obtain m where n: "n = Suc m" "3 * length (stmt_tokens (SReturn e)) \<le> m" using 2(3) by (cases n) auto
  have p: "lx_peek lx = Ok (Some (TKeyword ''return''))" using lexes_peek_hd[OF 2(2)] by simp
  show ?case using parse_stmt[OF 2(1,2) n(2) 2(4)] n(1) p by (simp add: source_element.simps)
next
  case (3 e)
  obtain m where n: "n = Suc m" "3 * length (stmt_tokens (SExpr e)) \<le> m" using 3(3) by (cases n) auto
  obtain t ts where t: "expr_tokens e = t # ts" "\<forall>w. t \<noteq> TKeyword w" using expr_first(2) by blast
  have p: "lx_peek lx = Ok (Some t)" using lexes_peek_hd[OF 3(2)] t(1) by simp
  show ?case using parse_stmt[OF 3(1,2) n(2) 3(4)] n(1) p t(2) by (simp add: source_element.simps)
qed

lemma tokens_ok:
  "operand_ok a \<Longrightarrow> \<forall>t\<in>set (operand_tokens a). token_ok t"
  "expr_ok e \<Longrightarrow> \<forall>t\<in>set (expr_tokens e). token_ok t"
  "list_all expr_ok es \<Longrightarrow> \<forall>t\<in>set (args_tokens es). token_ok t"
  by (induction a and e and es rule: operand_tokens_expr_tokens_args_tokens.induct) (auto simp: punctuators_def)

lemma params_ok: "list_all id_ok xs \<Longrightarrow> \<forall>t\<in>set (params_tokens xs). token_ok t"
  by (induction xs rule: params_tokens.induct) (auto simp: punctuators_def)

lemma stmt_tokens_ok: "stmt_ok s \<Longrightarrow> \<forall>t\<in>set (stmt_tokens s). token_ok t"
proof (induction s rule: stmt_tokens.induct)
  case (4 f xs body)
  then show ?case using params_ok[of xs] by (auto simp: punctuators_def RESERVED_WORDS_def list_all_iff)
qed (use tokens_ok(2) in \<open>auto simp: punctuators_def RESERVED_WORDS_def\<close>)

lemma parse_program:
  "\<lbrakk>list_all stmt_ok p; lexes lx (program_tokens p); 3 * length (program_tokens p) + 2 \<le> n\<rbrakk> \<Longrightarrow>
     \<exists>lx'. parse_loop n acc lx = Ok (acc @ map stmt_node p, lx')"
proof (induction p arbitrary: lx n acc)
  case Nil
  obtain m where "n = Suc (Suc m)" using Nil(3) by (cases n; cases "n - 1") auto
  moreover have "lexes lx []" using Nil(2) by (simp add: program_tokens_def)
  ultimately show ?case using lexes_peek_end[of lx] by (simp add: parse_loop.simps source_element.simps)
next
  case (Cons s p)
  obtain t ts where t: "stmt_tokens s = t # ts" using stmt_first by blast
  obtain m where n: "n = Suc m" "3 * length (stmt_tokens s) + 1 \<le> m" "3 * length (program_tokens p) + 2 \<le> m"
    using Cons.prems(3) t by (cases n) (auto simp: program_tokens_def)
  have st: "starts_stmt (program_tokens p)"
  proof (cases p)
    case (Cons s' p')
    then show ?thesis using stmt_first[of s'] by (auto simp: starts_stmt_def program_tokens_def)
  qed (simp add: starts_stmt_def program_tokens_def)
  obtain lx1 where l1: "source_element m lx = Ok (Some (stmt_node s), lx1)" "lexes lx1 (program_tokens p)"
    using parse_source[OF _ _ n(2) st, where lx = lx] Cons.prems(1,2) by (auto simp: program_tokens_def)
  then show ?case using Cons.IH[OF _ l1(2) n(3), of "acc @ [stmt_node s]"] Cons.prems(1) n(1)
    by (simp add: parse_loop.simps(2)[of m])
qed

lemma parse_text:
  assumes "list_all stmt_ok p" "3 * length (program_tokens p) + 2 \<le> n"
  shows "\<exists>lx'. parse_ast n (JsLexer_new (program_text p)) = Ok (map stmt_node p, lx')"
proof -
  have "\<forall>t\<in>set (program_tokens p). token_ok t" using assms(1) stmt_tokens_ok by (auto simp: program_tokens_def list_all_iff)
  then have "lexes (JsLexer_new (program_text p)) (program_tokens p)"
    by (intro lexes_text[of _ 0]) (simp_all add: lx_rest_def JsLexer_new_def program_text_def)
  from parse_program[OF assms(1) this assms(2), of "[]"] show ?thesis by (simp add: parse_ast_def)
qed

text \<open>
  C11: parsing the text of a program gives the program back.  For all programs of variable
  declarations, function declarations, returns and expressions, with calls nested in any way, whose
  names are identifiers which do not begin with a reserved word and whose string literals have no
  quote, the parser returns, within a number of steps linear in the number of tokens, exactly the
  syntax trees of the statements.
\<close>

theorem js_parse_print:
  assumes "list_all stmt_ok p" "3 * length (program_tokens p) + 2 \<le> n"
  shows "\<exists>lx'. parse_ast n (JsLexer_new (program_text p)) = Ok (map stmt_node p, lx')"
  by (rule parse_text[OF assms])

definition example_js :: "js_stmt list" where
  "example_js = [SFun ''add'' [''p'', ''q''] [SVar ''s'' (EBin CHR ''+'' (OVar ''p'') (OVar ''q'')), SReturn (EOp (OVar ''s''))],
     SVar ''x'' (EBin CHR ''+'' (OCall ''add'' [EOp (ONum 12), EBin CHR ''-'' (OStr ''a b'') (OCall ''f'' [])]) (ONum 7))]"

lemma example_js_ok: "list_all stmt_ok example_js" "length (program_tokens example_js) = 35"
  by (simp_all add: example_js_def program_tokens_def id_ok_def id_char_def is_ascii_alphanumeric_def is_ascii_alphabetic_def
    char_in_def RESERVED_WORDS_def)

theorem js_parse_print_witness:
  "\<exists>lx'. parse_ast 107 (JsLexer_new (program_text example_js)) = Ok (map stmt_node example_js, lx')"
  by (rule js_parse_print[OF example_js_ok(1)]) (simp add: example_js_ok(2))

section \<open>A program on which the parser never returns\<close>

lemma underscore_token: "get_next_token (JsLexer_new (CHR ''_'' # js)) = Ok (Some (TIdentifier []), JsLexer_new (CHR ''_'' # js))"
proof -
  let ?lx = "JsLexer_new (CHR ''_'' # js)"
  have w: "skip_white ?lx = ?lx" by (subst skip_white.simps) (simp add: JsLexer_new_def)
  have c: "check_reserved_word ?lx = Ok None"
    by (simp add: check_reserved_word_def RESERVED_WORDS_def lx_contains_def JsLexer_new_def)
  have i: "consume_identifier ?lx = ([], ?lx)" unfolding consume_identifier_def
    by (subst consume_identifier_loop.simps) (simp add: JsLexer_new_def is_ascii_alphanumeric_def is_ascii_alphabetic_def is_ascii_digit_def char_in_def)
  show ?thesis
    using w c i by (simp add: get_next_token_def Let_def JsLexer_new_def punctuators_def is_ascii_digit_def char_in_def)
qed

text \<open>
  The parser never returns on a text which begins with an underscore: the lexer takes it for the
  begin of an identifier but not for a part of one, and gives an empty identifier again and again.
\<close>

theorem js_parse_diverges: "parse_ast n (JsLexer_new (CHR ''_'' # js)) = Fail Diverges"
proof -
  let ?lx = "JsLexer_new (CHR ''_'' # js)"
  have p: "lx_peek ?lx = Ok (Some (TIdentifier []))" by (simp add: lx_peek_def underscore_token)
  have l: "left_hand_side_expression m ?lx = Fail Diverges \<or> left_hand_side_expression m ?lx = Ok (Some (NIdentifier []), ?lx)" for m
    by (cases m) (simp_all add: left_hand_side_expression.simps underscore_token p)
  have e: "expression m ?lx = Fail Diverges \<or> expression m ?lx = Ok (None, ?lx)" for m
  proof (cases m)
    case (Suc k)
    show ?thesis using l[of k] by (elim disjE) (simp_all add: Suc expression.simps p)
  qed (simp add: expression.simps)
  have t: "statement m ?lx = Fail Diverges \<or> statement m ?lx = Ok (Some (ExpressionStatement None), ?lx)" for m
    using e[of m] by (elim disjE) (simp_all add: statement_def p)
  have s: "source_element m ?lx = Fail Diverges \<or> source_element m ?lx = Ok (Some (ExpressionStatement None), ?lx)" for m
  proof (cases m)
    case (Suc k)
    show ?thesis using t[of k] by (elim disjE) (simp_all add: Suc source_element.simps p)
  qed (simp add: source_element.simps)
  have "parse_loop m acc ?lx = Fail Diverges" for m acc
  proof (induction m arbitrary: acc)
    case (Suc m)
    show ?case using s[of m] by (elim disjE) (simp_all add: parse_loop.simps Suc)
  qed (simp add: parse_loop.simps)
  then show ?thesis by (simp add: parse_ast_def)
qed

text \<open>A name which begins with a reserved word is cut, and a text which ends in one is read beyond its end.\<close>

lemma js_variable_cut: "get_next_token (JsLexer_new ''variable'') = Ok (Some (TKeyword ''var''), \<lparr>lx_pos = 3, lx_input = ''variable''\<rparr>)"
  by code_simp

lemma js_end_of_input: "get_next_token (JsLexer_new ''f'') = Fail Out_Of_Bounds"
  by code_simp

end
