(* ===== verification/Saji_Runtime.thy ===== *)
theory Saji_Runtime
  imports Saji_Parser
begin

text \<open>
The evaluation of programs by the JavaScript interpreter (\<open>app/saji/src/runtime.rs\<close>): scopes of calls,
  the meaning of straight-line programs, and what the interpreter leaves out.
\<close>

section \<open>Values and environments\<close>

datatype js_value = VNumber u64 | VString string

fun value_text :: "js_value \<Rightarrow> string" where
  "value_text (VNumber n) = decimal (unat n)"
| "value_text (VString s) = s"

text \<open>
  An environment with its outer ones, the innermost first.  Every environment belongs to one call, and
  the call is over before an outer environment is used again, so that the chain of references is a stack.
\<close>

type_synonym var_map = "string \<Rightarrow> js_value option option"

primrec get_variable :: "var_map list \<Rightarrow> string \<Rightarrow> js_value option" where
  "get_variable [] name = None"
| "get_variable (m # outer) name = (case m name of Some v \<Rightarrow> v | None \<Rightarrow> get_variable outer name)"

primrec add_variable :: "string \<Rightarrow> js_value option \<Rightarrow> var_map list \<Rightarrow> var_map list" where
  "add_variable name v [] = []"
| "add_variable name v (m # outer) = m(name \<mapsto> v) # outer"

record js_function =
  fn_id :: string
  fn_params :: "js_node option list"
  fn_body :: "js_node option"

record js_runtime =
  rt_global_variables :: var_map
  rt_functions :: "js_function list"
  rt_env :: "var_map list"

definition JsRuntime_new :: js_runtime where
  "JsRuntime_new = \<lparr>rt_global_variables = (\<lambda>_. None), rt_functions = [], rt_env = [\<lambda>_. None]\<rparr>"

text \<open>The last function of the name.\<close>

definition find_function :: "js_value \<Rightarrow> js_function list \<Rightarrow> js_function option" where
  "find_function callee fs = fold (\<lambda>f r. if callee = VString (fn_id f) then Some f else r) fs None"

definition binary_value :: "char \<Rightarrow> js_value \<Rightarrow> js_value \<Rightarrow> js_value option" where
  "binary_value operator l r =
     (if operator = CHR ''+'' then
        case (l, r) of (VNumber a, VNumber b) \<Rightarrow> Some (VNumber (a + b))
        | _ \<Rightarrow> Some (VString (value_text l @ value_text r))
      else None)"

section \<open>Evaluation\<close>

text \<open>
  Calls may be nested to the depth \<open>d\<close>.  The values of the arguments are collected in a map which is not
  used: only their evaluation matters.
\<close>

definition pop_env :: "('a \<times> js_runtime) res \<Rightarrow> ('a \<times> js_runtime) res" where
  "pop_env r = bind_res r (\<lambda>(v, st). Ok (v, st\<lparr>rt_env := tl (rt_env st)\<rparr>))"

fun js_eval :: "nat \<Rightarrow> js_node option \<Rightarrow> js_runtime \<Rightarrow> (js_value option \<times> js_runtime) res"
  and eval_seq :: "nat \<Rightarrow> js_node option list \<Rightarrow> js_value option \<Rightarrow> js_runtime \<Rightarrow> (js_value option \<times> js_runtime) res"
  and eval_args :: "nat \<Rightarrow> js_node option list \<Rightarrow> js_node option list \<Rightarrow> js_runtime \<Rightarrow> (bool \<times> js_runtime) res" where
  "js_eval d None st = Ok (None, st)"
| "js_eval d (Some (ExpressionStatement e)) st = js_eval d e st"
| "js_eval d (Some (BlockStatement body)) st = eval_seq d body None st"
| "js_eval d (Some (ReturnStatement e)) st = js_eval d e st"
| "js_eval d (Some (FunctionDeclaration i params body)) st =
     bind_res (js_eval d i st) (\<lambda>(v, st). case v of
       None \<Rightarrow> Ok (None, st)
     | Some (VNumber n) \<Rightarrow> unimplemented
     | Some (VString s) \<Rightarrow>
         Ok (None, st\<lparr>rt_functions := rt_functions st @ [\<lparr>fn_id = s, fn_params = params, fn_body = body\<rparr>]\<rparr>))"
| "js_eval d (Some (VariableDeclaration ds)) st = bind_res (eval_seq d ds None st) (\<lambda>(_, st). Ok (None, st))"
| "js_eval d (Some (VariableDeclarator i init)) st = (case i of
     Some (NIdentifier x) \<Rightarrow>
       bind_res (js_eval d init st) (\<lambda>(v, st). Ok (None, st\<lparr>rt_env := add_variable x v (rt_env st)\<rparr>))
   | _ \<Rightarrow> Ok (None, st))"
| "js_eval d (Some (BinaryExpression operator l r)) st =
     bind_res (js_eval d l st) (\<lambda>(lv, st). case lv of
       None \<Rightarrow> Ok (None, st)
     | Some lv \<Rightarrow>
         bind_res (js_eval d r st) (\<lambda>(rv, st). case rv of
           None \<Rightarrow> Ok (None, st)
         | Some rv \<Rightarrow> Ok (binary_value operator lv rv, st)))"
| "js_eval 0 (Some (CallExpression callee args)) st = Fail Diverges"
| "js_eval (Suc d) (Some (CallExpression callee args)) st =
     pop_env (bind_res (js_eval (Suc d) callee (st\<lparr>rt_env := (\<lambda>_. None) # rt_env st\<rparr>)) (\<lambda>(cv, st). case cv of
       None \<Rightarrow> Ok (None, st)
     | Some cv \<Rightarrow> (case find_function cv (rt_functions st) of
         None \<Rightarrow> unimplemented
       | Some f \<Rightarrow>
           if length args \<noteq> length (fn_params f) then Fail Assert_Failed
           else
             bind_res (eval_args (Suc d) (fn_params f) args st) (\<lambda>(named, st).
             if named then js_eval d (fn_body f) st else Ok (None, st)))))"
| "js_eval d (Some (NIdentifier name)) st = (case get_variable (rt_env st) name of
     Some v \<Rightarrow> Ok (Some v, st)
   | None \<Rightarrow> Ok (Some (VString name), st))"
| "js_eval d (Some (NNumericLiteral n)) st = Ok (Some (VNumber n), st)"
| "js_eval d (Some (NStringLiteral s)) st = Ok (Some (VString s), st)"
| "eval_seq d [] r st = Ok (r, st)"
| "eval_seq d (e # es) r st = bind_res (js_eval d e st) (\<lambda>(v, st). eval_seq d es v st)"
| "eval_args d [] args st = Ok (True, st)"
| "eval_args d (p # ps) [] st = Ok (True, st)"
| "eval_args 0 (p # ps) (a # args) st = Fail Diverges"
| "eval_args (Suc d) (p # ps) (a # args) st =
     bind_res (js_eval d p st) (\<lambda>(v, st). case v of
       None \<Rightarrow> Ok (False, st)
     | Some (VNumber n) \<Rightarrow> unimplemented
     | Some (VString s) \<Rightarrow> bind_res (js_eval (Suc d) a st) (\<lambda>(_, st). eval_args (Suc d) ps args st))"

primrec execute :: "nat \<Rightarrow> js_node list \<Rightarrow> js_runtime \<Rightarrow> js_runtime res" where
  "execute d [] st = Ok st"
| "execute d (node # nodes) st = bind_res (js_eval d (Some node) st) (\<lambda>(_, st). execute d nodes st)"

definition saji_main :: "nat \<Rightarrow> nat \<Rightarrow> string \<Rightarrow> js_runtime res" where
  "saji_main n d js = bind_res (parse_ast n (JsLexer_new js)) (\<lambda>(ast, _). execute d ast JsRuntime_new)"

section \<open>Scopes\<close>

lemma pop_env_eq_Ok: "pop_env r = Ok (v, st') \<longleftrightarrow> (\<exists>st. r = Ok (v, st) \<and> st' = st\<lparr>rt_env := tl (rt_env st)\<rparr>)"
  by (auto simp: pop_env_def bind_res_eq_Ok)

lemma add_variable_tl [simp]: "tl (add_variable x v env) = tl env" "add_variable x v env = [] \<longleftrightarrow> env = []"
  by (cases env; simp)+

text \<open>What the evaluation keeps: the outer environments, and the functions which are already there.\<close>

definition keeps :: "js_runtime \<Rightarrow> js_runtime \<Rightarrow> bool" where
  "keeps st st' \<longleftrightarrow> tl (rt_env st') = tl (rt_env st) \<and> (rt_env st' = [] \<longleftrightarrow> rt_env st = []) \<and>
     prefix (rt_functions st) (rt_functions st') \<and> rt_global_variables st' = rt_global_variables st"

lemma keeps_refl [simp]: "keeps st st"
  by (simp add: keeps_def)

lemma keeps_trans [trans]: "\<lbrakk>keeps a b; keeps b c\<rbrakk> \<Longrightarrow> keeps a c"
  by (auto simp: keeps_def intro: prefix_order.trans)

lemma keeps_pop: "keeps (st\<lparr>rt_env := m # rt_env st\<rparr>) st' \<Longrightarrow> keeps st (st'\<lparr>rt_env := tl (rt_env st')\<rparr>) \<and> tl (rt_env st') = rt_env st"
  by (simp add: keeps_def)

lemma keeps_add [simp]: "keeps st (st'\<lparr>rt_env := add_variable x v (rt_env st')\<rparr>) \<longleftrightarrow> keeps st st'"
  by (simp add: keeps_def)

lemma keeps_function [intro]: "keeps st st' \<Longrightarrow> keeps st (st'\<lparr>rt_functions := rt_functions st' @ [f]\<rparr>)"
  by (simp add: keeps_def)

lemma eval_keeps:
  "js_eval d node st = Ok (v, st') \<Longrightarrow> keeps st st'"
  "eval_seq d nodes r st = Ok (v, st') \<Longrightarrow> keeps st st'"
  "eval_args d ps args st = Ok (b, st') \<Longrightarrow> keeps st st'"
proof (induction d node st and d nodes r st and d ps args st arbitrary: v st' and v st' and b st' rule: js_eval_eval_seq_eval_args.induct)
  case (10 d callee args st)
  let ?in = "st\<lparr>rt_env := (\<lambda>_. None) # rt_env st\<rparr>"
  obtain cv st1 st2 where c: "js_eval (Suc d) callee ?in = Ok (cv, st1)" "st' = st2\<lparr>rt_env := tl (rt_env st2)\<rparr>"
    and r: "(case cv of None \<Rightarrow> Ok (None, st1) | Some cv \<Rightarrow> (case find_function cv (rt_functions st1) of
         None \<Rightarrow> unimplemented
       | Some f \<Rightarrow> if length args \<noteq> length (fn_params f) then Fail Assert_Failed
           else bind_res (eval_args (Suc d) (fn_params f) args st1) (\<lambda>(named, st).
             if named then js_eval d (fn_body f) st else Ok (None, st)))) = Ok (v, st2)"
    using "10.prems" by (auto simp: pop_env_eq_Ok bind_res_eq_Ok)
  have k1: "keeps ?in st1" by (rule "10.IH"(1)[OF c(1)])
  have "keeps st1 st2"
  proof (cases cv)
    case (Some w)
    then obtain f named st3 where f: "find_function w (rt_functions st1) = Some f" "length args = length (fn_params f)"
        "eval_args (Suc d) (fn_params f) args st1 = Ok (named, st3)"
        "(if named then js_eval d (fn_body f) st3 else Ok (None, st3)) = Ok (v, st2)"
      using r by (auto simp: bind_res_eq_Ok split: option.splits if_splits)
    have "keeps st1 st3" using "10.IH"(2)[OF c(1) refl Some f(1) _ f(3)] f(2) by simp
    moreover have "keeps st3 st2"
      using f(4) "10.IH"(3)[OF c(1) refl Some f(1) _ f(3) refl, of v st2] f(2) by (auto split: if_splits)
    ultimately show ?thesis by (rule keeps_trans)
  qed (use r in simp)
  from keeps_pop[OF keeps_trans[OF k1 this]] show ?case unfolding c(2) by blast
next
  case (5 d i params body st)
  obtain w st1 where w: "js_eval d i st = Ok (w, st1)" using "5.prems" by (auto simp: bind_res_eq_Ok)
  from "5.IH"[OF w] "5.prems" show ?case
    by (auto simp: w split: option.splits js_value.splits)
next
  case (8 d operator l r st)
  obtain lv st1 where l: "js_eval d l st = Ok (lv, st1)" using "8.prems" by (auto simp: bind_res_eq_Ok)
  note k = "8.IH"(1)[OF l]
  show ?case
  proof (cases lv)
    case (Some w)
    then obtain rv where r: "js_eval d r st1 = Ok (rv, st')" using "8.prems" by (auto simp: l bind_res_eq_Ok split: option.splits)
    from keeps_trans[OF k "8.IH"(2)[OF l refl Some r]] show ?thesis .
  qed (use "8.prems" k in \<open>simp add: l\<close>)
next
  case (19 d p ps a args st)
  obtain pv st1 where p: "js_eval d p st = Ok (pv, st1)" using "19.prems" by (auto simp: bind_res_eq_Ok)
  note k = "19.IH"(1)[OF p]
  show ?case
  proof (cases pv)
    case (Some w)
    then obtain s av st2 where s: "w = VString s" "js_eval (Suc d) a st1 = Ok (av, st2)" "eval_args (Suc d) ps args st2 = Ok (b, st')"
      using "19.prems" by (auto simp: p bind_res_eq_Ok split: js_value.splits)
    have "keeps st1 st2" by (rule "19.IH"(2)[OF p refl Some s(1,2)])
    moreover have "keeps st2 st'" by (rule "19.IH"(3)[OF p refl Some s(1,2) refl s(3)])
    ultimately show ?thesis using k keeps_trans by blast
  qed (use "19.prems" k in \<open>simp add: p\<close>)
qed (auto simp: bind_res_eq_Ok split: option.splits js_value.splits js_node.splits if_splits intro: keeps_trans)


text \<open>
  C31: a call has its own scope.  Whatever the function does, with calls nested in any way, the
  variables of the caller are the same after a call as before it, in every environment of the chain;
  the functions which were declared are still there, in the same order.
\<close>

theorem js_call_scoped:
  assumes "js_eval d (Some (CallExpression callee args)) st = Ok (v, st')"
  shows "rt_env st' = rt_env st \<and> prefix (rt_functions st) (rt_functions st') \<and> rt_global_variables st' = rt_global_variables st"
proof -
  obtain k where d: "d = Suc k" using assms by (cases d) auto
  obtain st2 where c: "st' = st2\<lparr>rt_env := tl (rt_env st2)\<rparr>" "keeps (st\<lparr>rt_env := (\<lambda>_. None) # rt_env st\<rparr>) st2"
  proof -
    obtain cv st1 st2 where c: "js_eval (Suc k) callee (st\<lparr>rt_env := (\<lambda>_. None) # rt_env st\<rparr>) = Ok (cv, st1)" "st' = st2\<lparr>rt_env := tl (rt_env st2)\<rparr>"
        "keeps st1 st2"
      using assms unfolding d
      by (fastforce simp: pop_env_eq_Ok bind_res_eq_Ok split: option.splits if_splits
        intro: eval_keeps(1,3) keeps_trans[OF eval_keeps(3) eval_keeps(1)])
    from that[OF c(2) keeps_trans[OF eval_keeps(1)[OF c(1)] c(3)]] show ?thesis .
  qed
  from keeps_pop[OF c(2)] c show ?thesis by (simp add: keeps_def)
qed

definition call_example :: js_runtime where
  "call_example = \<lparr>rt_global_variables = (\<lambda>_. None),
     rt_functions = [\<lparr>fn_id = ''f'', fn_params = [], fn_body = Some (BlockStatement
       [Some (VariableDeclaration [Some (VariableDeclarator (Some (NIdentifier ''x'')) (Some (NNumericLiteral 5)))]),
        Some (ReturnStatement (Some (BinaryExpression CHR ''+'' (Some (NIdentifier ''x'')) (Some (NIdentifier ''y'')))))])\<rparr>],
     rt_env = [[''x'' \<mapsto> Some (VNumber 1), ''y'' \<mapsto> Some (VNumber 2)]]\<rparr>"

theorem js_call_scoped_witness:
  "js_eval 1 (Some (CallExpression (Some (NIdentifier ''f'')) [])) call_example = Ok (Some (VNumber 7), call_example)
   \<and> rt_env call_example = rt_env call_example \<and> prefix (rt_functions call_example) (rt_functions call_example)"
proof -
  have e: "js_eval 1 (Some (CallExpression (Some (NIdentifier ''f'')) [])) call_example = Ok (Some (VNumber 7), call_example)"
    by (simp add: call_example_def One_nat_def find_function_def pop_env_def binary_value_def)
  from js_call_scoped[OF e] e show ?thesis by blast
qed

section \<open>Straight-line programs\<close>

text \<open>The value of each name: a name without a value stands for itself.\<close>

definition value_of :: "js_runtime \<Rightarrow> string \<Rightarrow> js_value" where
  "value_of st x = (case get_variable (rt_env st) x of Some v \<Rightarrow> v | None \<Rightarrow> VString x)"

fun operand_value :: "(string \<Rightarrow> js_value) \<Rightarrow> js_operand \<Rightarrow> js_value" where
  "operand_value \<sigma> (ONum n) = VNumber n"
| "operand_value \<sigma> (OStr s) = VString s"
| "operand_value \<sigma> (OVar x) = \<sigma> x"
| "operand_value \<sigma> (OCall f es) = VString []"

fun expr_value :: "(string \<Rightarrow> js_value) \<Rightarrow> js_expr \<Rightarrow> js_value option" where
  "expr_value \<sigma> (EOp a) = Some (operand_value \<sigma> a)"
| "expr_value \<sigma> (EBin c a b) = binary_value c (operand_value \<sigma> a) (operand_value \<sigma> b)"

fun straight_operand :: "js_operand \<Rightarrow> bool" where
  "straight_operand (OCall f es) = False"
| "straight_operand a = True"

fun straight_expr :: "js_expr \<Rightarrow> bool" where
  "straight_expr (EOp a) = straight_operand a"
| "straight_expr (EBin c a b) = (straight_operand a \<and> straight_operand b)"

fun straight :: "js_stmt \<Rightarrow> bool" where
  "straight (SVar x e) = straight_expr e"
| "straight (SExpr e) = straight_expr e"
| "straight (SReturn e) = False"
| "straight (SFun f xs body) = False"

fun stmt_effect :: "js_stmt \<Rightarrow> (string \<Rightarrow> js_value) \<Rightarrow> string \<Rightarrow> js_value" where
  "stmt_effect (SVar x e) \<sigma> = \<sigma>(x := case expr_value \<sigma> e of Some v \<Rightarrow> v | None \<Rightarrow> VString x)"
| "stmt_effect _ \<sigma> = \<sigma>"

lemma eval_operand: "straight_operand a \<Longrightarrow> js_eval d (Some (operand_node a)) st = Ok (Some (operand_value (value_of st) a), st)"
  by (cases a) (simp_all add: value_of_def split: option.split)

lemma eval_expr: "straight_expr e \<Longrightarrow> js_eval d (Some (expr_node e)) st = Ok (expr_value (value_of st) e, st)"
  by (cases e) (simp_all add: eval_operand)

lemma eval_stmt:
  assumes "straight s" "rt_env st \<noteq> []"
  shows "\<exists>v st'. js_eval d (Some (stmt_node s)) st = Ok (v, st') \<and> value_of st' = stmt_effect s (value_of st) \<and>
    length (rt_env st') = length (rt_env st) \<and> rt_functions st' = rt_functions st"
proof (cases s)
  case (SVar x e)
  then show ?thesis using assms by (cases "rt_env st") (auto simp: eval_expr value_of_def fun_eq_iff split: option.splits)
qed (use assms in \<open>auto simp: eval_expr\<close>)

lemma execute_straight:
  "\<lbrakk>list_all straight p; rt_env st \<noteq> []\<rbrakk> \<Longrightarrow>
     \<exists>st'. execute d (map stmt_node p) st = Ok st' \<and> value_of st' = fold stmt_effect p (value_of st) \<and>
       length (rt_env st') = length (rt_env st) \<and> rt_functions st' = rt_functions st"
proof (induction p arbitrary: st)
  case (Cons s p)
  obtain v st1 where s: "js_eval d (Some (stmt_node s)) st = Ok (v, st1)" "value_of st1 = stmt_effect s (value_of st)"
      "length (rt_env st1) = length (rt_env st)" "rt_functions st1 = rt_functions st"
    using eval_stmt[of s st d] Cons.prems by auto
  have "rt_env st1 \<noteq> []" using s(3) Cons.prems(2) by (metis length_0_conv)
  with Cons.IH[of st1] Cons.prems(1) s show ?case by auto
qed simp

lemma JsRuntime_new_simps [simp]:
  "value_of JsRuntime_new = VString" "length (rt_env JsRuntime_new) = 1" "rt_env JsRuntime_new \<noteq> []" "rt_functions JsRuntime_new = []"
  by (simp_all add: value_of_def JsRuntime_new_def fun_eq_iff)

lemma saji_text:
  assumes "list_all stmt_ok p" "3 * length (program_tokens p) + 2 \<le> n"
  shows "saji_main n d (program_text p) = execute d (map stmt_node p) JsRuntime_new"
  using parse_text[OF assms] by (auto simp: saji_main_def)


definition straight_example :: "js_stmt list" where
  "straight_example = [SVar ''a'' (EBin CHR ''+'' (ONum 40) (ONum 2)), SVar ''b'' (EBin CHR ''+'' (OStr ''n='') (OVar ''a'')),
     SExpr (EOp (OVar ''b'')), SVar ''a'' (EBin CHR ''-'' (OVar ''a'') (ONum 1))]"

lemma straight_example_ok:
  "list_all stmt_ok straight_example" "list_all straight straight_example" "length (program_tokens straight_example) = 23"
  by (simp_all add: straight_example_def program_tokens_def id_ok_def id_char_def is_ascii_alphanumeric_def is_ascii_alphabetic_def
    char_in_def RESERVED_WORDS_def)


section \<open>What the interpreter does not do\<close>

lemmas js_names = program_tokens_def id_ok_def id_char_def is_ascii_alphanumeric_def is_ascii_alphabetic_def char_in_def RESERVED_WORDS_def

lemmas js_run = JsRuntime_new_def find_function_def pop_env_def binary_value_def value_of_def numeral_2_eq_2 numeral_3_eq_3

lemma decimal_one: "decimal (Suc 0) = ''1''"
  by code_simp

text \<open>
  The arguments of a call are evaluated and dropped: after \<open>function f(x) { return x + 1; }\<close> the value of
  \<open>f(41)\<close> is the text \<open>x1\<close>, because the parameter stands for its own name.
\<close>

lemma js_arguments_unbound:
  "\<exists>st. saji_main 74 2 (program_text [SFun ''f'' [''x''] [SReturn (EBin CHR ''+'' (OVar ''x'') (ONum 1))],
     SVar ''r'' (EOp (OCall ''f'' [EOp (ONum 41)]))]) = Ok st \<and> value_of st ''r'' = VString ''x1''"
  by (subst saji_text) (simp_all add: js_names js_run decimal_one)

text \<open>A return does not end the function, and a function sees the variables of its caller.\<close>

lemma js_return_continues:
  "\<exists>st. saji_main 74 2 (program_text [SFun ''f'' [] [SReturn (EOp (ONum 1)), SExpr (EOp (ONum 2))],
     SVar ''r'' (EOp (OCall ''f'' []))]) = Ok st \<and> value_of st ''r'' = VNumber 2"
  by (subst saji_text) (simp_all add: js_names js_run)

lemma js_dynamic_scope:
  "\<exists>st. saji_main 200 3 (program_text [SFun ''f'' [] [SReturn (EOp (OVar ''v''))],
     SFun ''g'' [] [SVar ''v'' (EOp (ONum 7)), SReturn (EOp (OCall ''f'' []))],
     SVar ''v'' (EOp (ONum 1)), SVar ''r'' (EOp (OCall ''g'' []))]) = Ok st \<and> value_of st ''r'' = VNumber 7"
  by (subst saji_text) (simp_all add: js_names js_run)

text \<open>A parameter which has the name of a variable with a number ends the program.\<close>

lemma js_parameter_number:
  "saji_main 100 2 (program_text [SFun ''f'' [''x''] [SReturn (EOp (ONum 1))], SVar ''x'' (EOp (ONum 5)),
     SVar ''r'' (EOp (OCall ''f'' [EOp (ONum 1)]))]) = unimplemented"
  by (subst saji_text) (simp_all add: js_names js_run)

text \<open>Calls of a function from itself are never ended by a condition, and use up every depth.\<close>

lemma js_recursion_diverges:
  assumes "find_function (VString f) (rt_functions st) = Some \<lparr>fn_id = f, fn_params = [], fn_body = Some (CallExpression (Some (NIdentifier f)) [])\<rparr>"
    "get_variable (rt_env st) f = None"
  shows "js_eval d (Some (CallExpression (Some (NIdentifier f)) [])) st = Fail Diverges"
  using assms
proof (induction d arbitrary: st)
  case (Suc d)
  then show ?case using Suc.IH[of "st\<lparr>rt_env := (\<lambda>_. None) # rt_env st\<rparr>"] by (simp add: pop_env_def)
qed simp

end
