(* ===== verification/Spec2Isabelle.thy ===== *)
theory Spec2Isabelle
  imports Kernel_Heap Scheduler_Runs Sheet_Painting String_Buffer Console Console_Input Process_Lock Mouse_Manager Liumlib Html_Page Syscall_Runs Persistent_Process Persistent_Objects Xhci_Rings Saji_Runtime
begin

text \<open>
  A verification development for liumOS, a small operating system for x86-64 in C++ (\<open>src/src\<close>) with its
  application library and applications (\<open>src/app\<close>).

  \<^bold>\<open>The program.\<close>  A loader started by the firmware builds page tables, loads the kernel and jumps to it.
  The kernel has a physical page allocator whose free list is threaded through the free pages, page
  tables, a virtual heap, processes under a round-robin scheduler driven by the timer, a tree of window
  sheets composited to the screen, a text console on a sheet, PS/2 keyboard and mouse drivers, a driver
  of the USB host controller, a virtio network driver with ARP, ICMP, UDP and DHCP, and system calls.
  Processes can be persistent: their memory and contexts are in persistent memory, and they go on after
  a loss of power.  Applications are linked with a C library of their own; among them are a browser and a
  JavaScript interpreter.

  \<^bold>\<open>Conventions.\<close>  Theory \<open>Prelude\<close> has the integer types and the results of runs.  A panic, a failed
  assertion, an access outside of an array or through a null pointer and a loop which does not end are
  values of type \<open>fault\<close>; operations which may fail return \<open>fault + 'a\<close>, written \<open>Fail\<close> and \<open>Ok\<close>.  Integers
  are words of their width where wrap-around can matter.  Objects with pointers to them live in stores
  (functions from references), raw memory is \<open>nat \<Rightarrow> u8\<close> (theory \<open>C_Memory\<close>).  Loops are recursive
  functions; a loop which may not end is a \<open>partial_function (option)\<close>, and the theorems say when it
  returns.  What devices answer, what other tasks do while a call sleeps and what the firmware provides
  are arguments of the definitions.

  \<^bold>\<open>Theories and sources.\<close>

  \<^item> \<open>Ring_Buffer\<close> (\<open>ring_buffer.h\<close>): a locale of queues, interpreted on the ring buffer, which is shown to be
    a FIFO of bounded capacity.
  \<^item> \<open>Generic\<close>, \<open>Phys_Alloc\<close> (\<open>generic.h\<close>, \<open>phys_page_allocator.h\<close>): the free list with its invariant; runs
    handed out never overlap; the allocation strategies, one of which misses the end of the list.
  \<^item> \<open>Paging\<close>, \<open>Page_Entries\<close>, \<open>Page_Trees\<close>, \<open>Page_Mapping\<close> (\<open>paging.h\<close>, \<open>paging.cc\<close>): entries, walks and the
    nested loops of \<open>CreatePageMapping\<close>; after it exactly the new range is translated anew.
  \<^item> \<open>Kernel_Heap\<close> (\<open>kernel_virtual_heap_allocator.h\<close>, \<open>kernel.h\<close>): disjoint regions of the virtual heap.
  \<^item> \<open>Scheduling\<close>, \<open>Scheduler_Runs\<close>, \<open>Process_Lock\<close> (\<open>process.h\<close>, \<open>process.cc\<close>, \<open>scheduler.cc\<close>,
    \<open>process_lock.cc\<close>): invariant of the process table, round robin, no starvation, mutual exclusion.
  \<^item> \<open>Persistent_Memory\<close>, \<open>Dirty_Pages\<close>, \<open>Execution_Context\<close>, \<open>Persistent_Process\<close> (\<open>immintrin.h\<close>,
    \<open>paging.cc\<close>, \<open>execution_context.h\<close>, \<open>execution_context.cc\<close>, \<open>process.cc\<close>, \<open>kernel.cc\<close>): stores, cache
    flushes and power loss; the context switch of a persistent process is atomic, but what it copies is
    not flushed.
  \<^item> \<open>Persistent_Objects\<close> (\<open>pmem.h\<close>, \<open>pmem.cc\<close>, \<open>guid.cc\<close>): the list of persistent objects is well-formed
    after a loss of power at any point of any run of allocations; only the initialization can be torn.
  \<^item> \<open>Geometry\<close>, \<open>Sheets\<close>, \<open>Sheet_Compositing\<close>, \<open>Sheet_Painting\<close> (\<open>rect.h\<close>, \<open>sheet.h\<close>, \<open>sheet.cc\<close>,
    \<open>sheet_painter.cc\<close>): a locale of stacked windows; moving, stacking and painting keep the screen equal
    to the composition of the sheets.
  \<^item> \<open>C_Memory\<close>, \<open>Number_Text\<close>, \<open>String_Buffer\<close>, \<open>Panic_Printer\<close> (\<open>string_buffer.h\<close>, \<open>panic_printer.h\<close>,
    \<open>generic.cc\<close>): texts and numbers.
  \<^item> \<open>Port_IO\<close>, \<open>Keyboard\<close>, \<open>PS2_Mouse\<close>, \<open>Mouse_Manager\<close>, \<open>Console\<close>, \<open>Console_Input\<close> (\<open>asm.S\<close>, \<open>serial.cc\<close>,
    \<open>keyboard.cc\<close>, \<open>keyid.h\<close>, \<open>ps2_mouse.cc\<close>, \<open>console.cc\<close>, \<open>text_box.cc\<close>): drivers as state machines over
    the bytes they receive, and the console as a grid of characters.
  \<^item> \<open>Xhci_Rings\<close> (\<open>util.h\<close>, \<open>xhci_trb.h\<close>, \<open>xhci_trbring.h\<close>): the transfer rings refine queues.
  \<^item> \<open>Net_Checksum\<close>, \<open>Net_Packets\<close>, \<open>Net_Host\<close>, \<open>Net_Frames\<close> (\<open>network.h\<close>, \<open>network.cc\<close>, \<open>virtio_net.h\<close>,
    \<open>virtio_net.cc\<close>): checksums, packets, virtqueues, packet handlers, address resolution.
  \<^item> \<open>Syscalls\<close>, \<open>Syscall_Runs\<close> (\<open>syscall.cc\<close>): every system call; reading files, datagrams from a process of
    one machine to a process of another.
  \<^item> \<open>Lib_Strings\<close>, \<open>Liumlib\<close> (\<open>app/liumlib\<close>): the string, number and allocation functions of applications.
  \<^item> \<open>Html_Tokens\<close>, \<open>Html_Tree\<close>, \<open>Html_Document\<close>, \<open>Html_Page\<close> (\<open>app/browser\<close>): tokenizer, tree construction
    and rendering; round trip of tokens, type of the trees, when the construction ends.
  \<^item> \<open>Saji_Lexer\<close>, \<open>Saji_Parser\<close>, \<open>Saji_Runtime\<close> (\<open>app/saji\<close>): the JavaScript interpreter; printed programs are
    parsed back, calls have their own scope, and straight-line programs have the values of a reference.

  \<^bold>\<open>Bounds.\<close>  Coordinates are mathematical integers in \<open>Geometry\<close>; no overflow below \<open>2 ^ 29\<close> is proved
  there.  The polling loops of the drivers take the answers of the device as a list or a function of
  the number of reads, and return when the device becomes ready.  The
  parser and the evaluation of the JavaScript interpreter take a bound for nested calls and rounds of
  loops and give \<open>Diverges\<close> beyond it, because some of their loops never end: a bound linear in the number
  of tokens is proved to be enough for the printed programs, and depth 0 for programs without calls.

  \<^bold>\<open>Not modelled.\<close>  The firmware interface and the loader (calls of firmware services), ACPI tables,
  interrupt controllers, descriptor tables and assembly stubs (processor state), graphics mode setup,
  sound, the RTL81xx driver, the fonts (data), the command interpreter (a sequence of calls of the other
  parts and of debug output), and the applications not named above.
\<close>

end
